(* ===== verification/Prelude.thy ===== *)
theory Prelude
  imports Main
    "HOL-Library.Word"
    "HOL-Library.Char_ord"
    "HOL-Library.List_Lexorder"
    "HOL-Library.Product_Lexorder"
    "HOL-Library.Option_ord"
    "HOL-Library.AList"
begin

text \<open>
  Shared base of the development: the Go values the components exchange (bytes, errors,
  panics, readers, maps, slices of a list) and the lemmas about them that several components
  use.  A Go \<open>string\<close> is a byte string and is modelled by \<^typ>\<open>string\<close> (a list of 8-bit
  characters), a \<open>[]byte\<close> by a list of 8-bit words; \<open>bytes_of_string\<close> and
  \<open>string_of_bytes\<close> are the conversions \<open>[]byte(s)\<close> and \<open>string(b)\<close>.  The order on strings is the byte-wise
  lexicographic order of Go's \<open><\<close>.
\<close>

unbundle bit_operations_syntax

section \<open>Go values\<close>

type_synonym u8 = "8 word"
type_synonym u32 = "32 word"
type_synonym u64 = "64 word"
type_synonym bytes = "u8 list"

text \<open>The lemma collections that the component theories fill.\<close>

named_theorems blob_simps \<open>evaluation of blob reference operations\<close>
named_theorems kv_simps \<open>effect of key/value operations on the abstract map\<close>
named_theorems sto_simps \<open>evaluation of storage operations\<close>

text \<open>
  Error values.  A distinguished Go error variable is a constructor; an error made by
  \<open>errors.New\<close> or \<open>fmt.Errorf\<close> is \<open>ErrText\<close> with the fixed part of its message, since
  no code compares such errors.
\<close>

datatype goerr =
    ErrNotExist
  | ErrCorruptBlob
  | ErrNotImplemented
  | ErrCanceled
  | ErrNotFound
  | ErrDBNotFound
  | ErrSyntax
  | ErrRange
  | ErrUnexpectedEOF
  | ErrText string

text \<open>A call returns, panics, or never comes back (an endless loop or a blocked channel operation).\<close>

datatype 'a outcome = Ret 'a | Panic string | Hang

definition obind :: "'a outcome \<Rightarrow> ('a \<Rightarrow> 'b outcome) \<Rightarrow> 'b outcome" where
  "obind x f = (case x of Ret a \<Rightarrow> f a | Panic m \<Rightarrow> Panic m | Hang \<Rightarrow> Hang)"

lemma obind_simps [simp]:
  "obind (Ret a) f = f a"
  "obind (Panic m) f = Panic m"
  "obind Hang f = Hang"
  by (simp_all add: obind_def)

lemma obind_cong [fundef_cong]:
  "x = y \<Longrightarrow> (\<And>a. y = Ret a \<Longrightarrow> f a = g a) \<Longrightarrow> obind x f = obind y g"
  by (cases y) simp_all

lemma obind_eq_Ret: "obind x f = Ret b \<longleftrightarrow> (\<exists>a. x = Ret a \<and> f a = Ret b)"
  by (cases x) simp_all

text \<open>Conversions between characters and bytes, strings and byte slices.\<close>

definition byte_of_char :: "char \<Rightarrow> u8" where
  "byte_of_char c = word_of_nat (of_char c)"

definition char_of_byte :: "u8 \<Rightarrow> char" where
  "char_of_byte w = char_of (unat w)"

definition bytes_of_string :: "string \<Rightarrow> bytes" where
  "bytes_of_string s = map byte_of_char s"

definition string_of_bytes :: "bytes \<Rightarrow> string" where
  "string_of_bytes bs = map char_of_byte bs"

lemma char_of_byte_of_char [simp]: "char_of_byte (byte_of_char c) = c"
  by (simp add: char_of_byte_def byte_of_char_def unat_of_nat)

lemma byte_of_char_of_byte [simp]: "byte_of_char (char_of_byte w) = w"
proof -
  have "unat w < 256" using unsigned_less [of w] by simp
  then show ?thesis by (simp add: char_of_byte_def byte_of_char_def)
qed

lemma byte_of_char_eq_iff [simp]: "byte_of_char c = byte_of_char d \<longleftrightarrow> c = d"
  by (metis char_of_byte_of_char)

lemma byte_of_char_less_iff: "byte_of_char c < byte_of_char d \<longleftrightarrow> c < d"
  by (simp add: less_char_def byte_of_char_def word_less_nat_alt unat_of_nat)

lemma string_of_bytes_of_string [simp]: "string_of_bytes (bytes_of_string s) = s"
  by (simp add: string_of_bytes_def bytes_of_string_def comp_def)

lemma bytes_of_string_of_bytes [simp]: "bytes_of_string (string_of_bytes bs) = bs"
  by (simp add: string_of_bytes_def bytes_of_string_def comp_def)

lemma length_bytes_of_string [simp]: "length (bytes_of_string s) = length s"
  by (simp add: bytes_of_string_def)

lemma bytes_of_string_simps [simp]:
  "bytes_of_string [] = []"
  "bytes_of_string (c # s) = byte_of_char c # bytes_of_string s"
  "bytes_of_string (s @ t) = bytes_of_string s @ bytes_of_string t"
  by (simp_all add: bytes_of_string_def)

lemma take_bytes_of_string: "take n (bytes_of_string s) = bytes_of_string (take n s)"
  by (simp add: bytes_of_string_def take_map)

lemma drop_bytes_of_string: "drop n (bytes_of_string s) = bytes_of_string (drop n s)"
  by (simp add: bytes_of_string_def drop_map)

text \<open>
  \<open>strings.Index(s, "c")\<close> and \<open>bytes.IndexByte(s, c)\<close>: the position of the first
  occurrence, or \<open>-1\<close>.
\<close>

fun index_byte :: "'a list \<Rightarrow> 'a \<Rightarrow> int" where
  "index_byte [] c = -1"
| "index_byte (x # xs) c =
     (if x = c then 0
      else let i = index_byte xs c in if i < 0 then -1 else i + 1)"

lemma index_byte_absent: "c \<notin> set xs \<Longrightarrow> index_byte xs c = -1"
  by (induction xs) (auto simp: Let_def)

lemma index_byte_first: "c \<notin> set xs \<Longrightarrow> index_byte (xs @ c # ys) c = int (length xs)"
  by (induction xs) (auto simp: Let_def)

lemma index_byte_nonneg:
  assumes "0 \<le> index_byte xs c"
  obtains ys zs where "xs = ys @ c # zs" and "c \<notin> set ys" and "index_byte xs c = int (length ys)"
proof -
  from assms have "c \<in> set xs"
    using index_byte_absent [of c xs] by (cases "c \<in> set xs") auto
  then obtain ys zs where xs: "xs = ys @ c # zs" and c: "c \<notin> set ys"
    by (meson split_list_first)
  show thesis using that [OF xs c] index_byte_first [OF c, of zs] xs by simp
qed

lemma index_byte_bytes_of_string:
  "index_byte (bytes_of_string s) (byte_of_char c) = index_byte s c"
  by (induction s) (auto simp: Let_def)

text \<open>
  An \<open>io.Reader\<close> seen from its consumer: the bytes it will deliver and how it ends, with
  \<open>io.EOF\<close> (\<open>None\<close>) or with an error.
\<close>

record reader =
  rd_data :: bytes
  rd_err :: "goerr option"

text \<open>\<open>ioutil.ReadAll\<close>, also the result of \<open>io.Copy\<close> into a buffer.\<close>

definition read_all :: "reader \<Rightarrow> bytes \<times> goerr option" where
  "read_all r = (rd_data r, rd_err r)"

text \<open>\<open>bytes.NewReader\<close>: delivers the bytes, then \<open>io.EOF\<close>.\<close>

definition bytes_reader :: "bytes \<Rightarrow> reader" where
  "bytes_reader bs = \<lparr>rd_data = bs, rd_err = None\<rparr>"

text \<open>
  \<open>io.LimitReader(r, n)\<close>: after \<open>n\<close> bytes it reports \<open>io.EOF\<close> without asking \<open>r\<close> again,
  so an error of \<open>r\<close> shows only when it comes before that.
\<close>

definition limit_reader :: "reader \<Rightarrow> nat \<Rightarrow> reader" where
  "limit_reader r n =
     (if n \<le> length (rd_data r) then \<lparr>rd_data = take n (rd_data r), rd_err = None\<rparr> else r)"

lemma reader_simps [simp]:
  "rd_data (bytes_reader bs) = bs"
  "rd_err (bytes_reader bs) = None"
  "read_all (bytes_reader bs) = (bs, None)"
  by (simp_all add: bytes_reader_def read_all_def)

text \<open>
  \<open>io.ReadFull(r, buf)\<close> with a buffer of \<open>n\<close> bytes: the bytes read and the error;
  \<open>io.EOF\<close> when nothing was read is reported as \<open>ErrText ''EOF''\<close>.
\<close>

definition read_full :: "reader \<Rightarrow> nat \<Rightarrow> bytes \<times> goerr option" where
  "read_full r n =
     (if n \<le> length (rd_data r) then (take n (rd_data r), None)
      else (rd_data r,
            case rd_err r of
              Some e \<Rightarrow> Some e
            | None \<Rightarrow> Some (if rd_data r = [] then ErrText ''EOF'' else ErrUnexpectedEOF)))"

section \<open>Strictly sorted lists\<close>

text \<open>
  The enumeration components deliver strictly increasing lists; such a list is determined by
  its set.
\<close>

lemma strict_sorted_eqI:
  fixes xs ys :: "'a::linorder list"
  assumes "sorted_wrt (<) xs" and "sorted_wrt (<) ys" and "set xs = set ys"
  shows "xs = ys"
  using assms by (metis strict_sorted_equal)

end
