(* ===== verification/Sha1.thy ===== *)
theory Sha1
  imports Prelude
begin

text \<open>
  The hash function of the Go standard library that the code uses, \<open>crypto/sha1\<close>: padding,
  the 80-round compression function and the big-endian output, and the incremental
  \<open>hash.Hash\<close> object with \<open>Write\<close> and \<open>Sum(nil)\<close>.  Every theorem of the development holds for
  this function.  A theorem that needs the absence of collisions assumes it for the blobs it is
  about, as the round trip of a written file does, and never for all byte strings.
\<close>

definition be_bytes :: "nat \<Rightarrow> 'a::len word \<Rightarrow> bytes" where
  "be_bytes n v = map (\<lambda>i. ucast (drop_bit (8 * (n - 1 - i)) v)) [0..<n]"

definition sha1_pad :: "bytes \<Rightarrow> bytes" where
  "sha1_pad m =
     m @ [0x80] @ replicate ((119 - length m mod 64) mod 64) 0
       @ be_bytes 8 (word_of_nat (8 * length m) :: u64)"

fun be_words :: "bytes \<Rightarrow> u32 list" where
  "be_words (a # b # c # d # r) =
     (push_bit 24 (ucast a) OR push_bit 16 (ucast b) OR push_bit 8 (ucast c) OR ucast d)
     # be_words r"
| "be_words _ = []"

fun sha1_expand :: "nat \<Rightarrow> u32 list \<Rightarrow> u32 list" where
  "sha1_expand 0 ws = ws"
| "sha1_expand (Suc n) ws =
     (let k = length ws in
      sha1_expand n
        (ws @ [word_rotl 1 (ws ! (k - 3) XOR ws ! (k - 8) XOR ws ! (k - 14) XOR ws ! (k - 16))]))"

type_synonym sha1_state = "u32 \<times> u32 \<times> u32 \<times> u32 \<times> u32"

definition sha1_round :: "nat \<Rightarrow> u32 \<Rightarrow> sha1_state \<Rightarrow> sha1_state" where
  "sha1_round t w = (\<lambda>(a, b, c, d, e).
     let (f, k) =
       (if t < 20 then ((b AND c) OR (NOT b AND d), 0x5A827999)
        else if t < 40 then (b XOR c XOR d, 0x6ED9EBA1)
        else if t < 60 then ((b AND c) OR (b AND d) OR (c AND d), 0x8F1BBCDC)
        else (b XOR c XOR d, 0xCA62C1D6))
     in (word_rotl 5 a + f + e + w + k, a, word_rotl 30 b, c, d))"

definition sha1_block :: "sha1_state \<Rightarrow> bytes \<Rightarrow> sha1_state" where
  "sha1_block h blk =
     (let ws = sha1_expand 64 (be_words blk);
          (a, b, c, d, e) = fold (\<lambda>(t, w). sha1_round t w) (zip [0..<80] ws) h;
          (h0, h1, h2, h3, h4) = h
      in (h0 + a, h1 + b, h2 + c, h3 + d, h4 + e))"

function sha1_blocks :: "sha1_state \<Rightarrow> bytes \<Rightarrow> sha1_state" where
  "sha1_blocks h bs =
     (if bs = [] then h else sha1_blocks (sha1_block h (take 64 bs)) (drop 64 bs))"
  by pat_completeness auto
termination
  by (relation "measure (\<lambda>(h, bs). length bs)") auto

declare sha1_blocks.simps [simp del]

definition sha1_sum :: "bytes \<Rightarrow> bytes" where
  "sha1_sum m =
     (let (h0, h1, h2, h3, h4) =
        sha1_blocks (0x67452301, 0xEFCDAB89, 0x98BADCFE, 0x10325476, 0xC3D2E1F0) (sha1_pad m)
      in concat (map (be_bytes 4) [h0, h1, h2, h3, h4]))"

text \<open>The digest always has \<open>sha1.Size\<close> bytes.\<close>

definition sha1_Size :: nat where
  "sha1_Size = 20"

lemma length_sha1_sum [simp]: "length (sha1_sum m) = 20"
  by (simp add: sha1_sum_def be_bytes_def split: prod.splits)

text \<open>A \<open>hash.Hash\<close> made by \<open>sha1.New\<close>, as the bytes written to it so far.\<close>

datatype hash = Sha1Hash (hash_written: bytes)

definition sha1_New :: hash where
  "sha1_New = Sha1Hash []"

definition hash_Write :: "hash \<Rightarrow> bytes \<Rightarrow> hash" where
  "hash_Write h p = Sha1Hash (hash_written h @ p)"

definition hash_Sum :: "hash \<Rightarrow> bytes" where
  "hash_Sum h = sha1_sum (hash_written h)"

lemma hash_simps [simp]:
  "hash_written sha1_New = []"
  "hash_written (hash_Write h p) = hash_written h @ p"
  "length (hash_Sum h) = 20"
  by (simp_all add: sha1_New_def hash_Write_def hash_Sum_def)

end
