(* ===== verification/BlobRef.thy ===== *)
theory BlobRef
  imports Sha1
begin

text \<open>
  Package \<open>pkg/blob\<close>, file \<open>ref.go\<close>: blob references, their textual, JSON and binary forms,
  their order, and the digests they hold.  The textual form is shown to be in bijection with
  the well-formed references (\<open>Parse_String\<close>, \<open>Parse_sound\<close>), and the order \<open>Less\<close> that sorts
  enumerations is shown to be the order of the textual forms that bounds them
  (\<open>ref_Less_iff_String\<close>).
\<close>

section \<open>Data\<close>

text \<open>
  \<open>digestType\<close> is an interface with two implementations.  A \<open>sha1Digest\<close> is a \<open>[20]byte\<close>, the
  \<open>sum\<close> of an \<open>otherDigest\<close> a \<open>[128]byte\<close>; the lengths are part of \<open>digest_wf\<close> below.
\<close>

definition maxOtherDigestLen :: nat where
  "maxOtherDigestLen = 128"

record otherDigest =
  od_name :: string
  od_sum :: bytes
  od_sumLen :: nat
  od_odd :: bool

datatype digestType = Sha1Digest bytes | OtherDigest otherDigest

text \<open>The zero \<open>Ref\<close> has a nil digest.\<close>

datatype Ref = Ref (digest: "digestType option")

record SizedRef =
  sr_Ref :: Ref
  sr_Size :: u32

definition zeroRef :: Ref where
  "zeroRef = Ref None"

definition zeroSizedRef :: SizedRef where
  "zeroSizedRef = \<lparr>sr_Ref = zeroRef, sr_Size = 0\<rparr>"

definition hexDigit :: string where
  "hexDigit = ''0123456789abcdef''"

primrec digestName :: "digestType \<Rightarrow> string" where
  "digestName (Sha1Digest s) = ''sha1''"
| "digestName (OtherDigest d) = od_name d"

text \<open>\<open>bytes()\<close> is a slice; \<open>digest_array\<close> is the array under it, which bounds reslicing.\<close>

primrec digest_bytes :: "digestType \<Rightarrow> bytes" where
  "digest_bytes (Sha1Digest s) = s"
| "digest_bytes (OtherDigest d) = take (od_sumLen d) (od_sum d)"

primrec digest_array :: "digestType \<Rightarrow> bytes" where
  "digest_array (Sha1Digest s) = s"
| "digest_array (OtherDigest d) = od_sum d"

primrec newHash :: "digestType \<Rightarrow> hash option" where
  "newHash (Sha1Digest s) = Some sha1_New"
| "newHash (OtherDigest d) = None"

definition is_odd :: "digestType \<Rightarrow> bool" where
  "is_odd d = (case d of OtherDigest o' \<Rightarrow> od_odd o' | Sha1Digest _ \<Rightarrow> False)"

section \<open>Printing\<close>

definition hex_pair :: "u8 \<Rightarrow> string" where
  "hex_pair b = [hexDigit ! unat (drop_bit 4 b), hexDigit ! unat (b AND 0xf)]"

definition hex_bytes :: "bytes \<Rightarrow> string" where
  "hex_bytes bs = concat (map hex_pair bs)"

definition appendString :: "digestType \<Rightarrow> string \<Rightarrow> string" where
  "appendString d buf =
     (let buf = buf @ digestName d @ ''-'' @ hex_bytes (digest_bytes d)
      in if is_odd d then butlast buf else buf)"

definition ref_String :: "Ref \<Rightarrow> string" where
  "ref_String r =
     (case digest r of None \<Rightarrow> ''<invalid-blob.Ref>'' | Some d \<Rightarrow> appendString d [])"

definition StringMinusOne :: "Ref \<Rightarrow> string" where
  "StringMinusOne r =
     (case digest r of
        None \<Rightarrow> ''<invalid-blob.Ref>''
      | Some d \<Rightarrow>
          (let buf = appendString d []
           in butlast buf @ [char_of_byte (byte_of_char (last buf) - 1)]))"

definition HashName :: "Ref \<Rightarrow> string outcome" where
  "HashName r =
     (case digest r of
        None \<Rightarrow> Panic ''HashName called on invalid Ref''
      | Some d \<Rightarrow> Ret (digestName d))"

definition ref_Digest :: "Ref \<Rightarrow> string outcome" where
  "ref_Digest r =
     (case digest r of
        None \<Rightarrow> Panic ''Digest called on invalid Ref''
      | Some d \<Rightarrow>
          (let buf = hex_bytes (digest_bytes d)
           in Ret (if is_odd d then butlast buf else buf)))"

definition DigestPrefix :: "Ref \<Rightarrow> int \<Rightarrow> string outcome" where
  "DigestPrefix r digits =
     obind (ref_Digest r) (\<lambda>v.
       if int (length v) < digits then Ret v
       else if digits < 0 then Panic ''slice bounds out of range''
       else Ret (take (nat digits) v))"

definition ref_Valid :: "Ref \<Rightarrow> bool" where
  "ref_Valid r \<longleftrightarrow> digest r \<noteq> None"

definition DomID :: "Ref \<Rightarrow> string" where
  "DomID r = (if \<not> ref_Valid r then [] else ''camli-'' @ ref_String r)"

text \<open>
  \<open>Sum32\<close> and \<open>Sum64\<close> reslice \<open>bytes()\<close> to 4 and 8 elements.  Both arrays are longer than that,
  so only a nil digest panics; an \<open>otherDigest\<close> with fewer valid bytes contributes zeros.
\<close>

definition Sum32 :: "Ref \<Rightarrow> u32 outcome" where
  "Sum32 r =
     (case digest r of
        None \<Rightarrow> Panic ''nil pointer dereference''
      | Some d \<Rightarrow> Ret (foldl (\<lambda>v b. push_bit 8 v OR ucast b) 0 (take 4 (digest_array d))))"

definition Sum64 :: "Ref \<Rightarrow> u64 outcome" where
  "Sum64 r =
     (case digest r of
        None \<Rightarrow> Panic ''nil pointer dereference''
      | Some d \<Rightarrow> Ret (foldl (\<lambda>v b. push_bit 8 v OR ucast b) 0 (take 8 (digest_array d))))"

definition ref_Hash :: "Ref \<Rightarrow> hash option outcome" where
  "ref_Hash r =
     (case digest r of
        None \<Rightarrow> Panic ''nil pointer dereference''
      | Some d \<Rightarrow> Ret (newHash d))"

definition HashMatches :: "Ref \<Rightarrow> hash \<Rightarrow> bool" where
  "HashMatches r h =
     (case digest r of None \<Rightarrow> False | Some d \<Rightarrow> hash_Sum h = digest_bytes d)"

definition TypeAlphabet :: "string \<Rightarrow> string" where
  "TypeAlphabet typ = (if typ = ''sha1'' then hexDigit else [])"

section \<open>Parsing\<close>

text \<open>\<open>hexVal\<close> returns the digit's value and the updated flag behind the pointer \<open>bad\<close>.\<close>

definition hexVal :: "char \<Rightarrow> bool \<Rightarrow> u8 \<times> bool" where
  "hexVal b bad =
     (if CHR ''0'' \<le> b \<and> b \<le> CHR ''9'' then (byte_of_char b - byte_of_char CHR ''0'', bad)
      else if CHR ''a'' \<le> b \<and> b \<le> CHR ''f'' then (byte_of_char b - byte_of_char CHR ''a'' + 10, bad)
      else (0, True))"

text \<open>
  The loop of \<open>sha1FromHexString\<close>, \<open>sha1FromHexBytes\<close> and \<open>parseUnknown\<close> over pairs of digits.
  Every caller has checked that the length is even, so a single digit is never left.
\<close>

fun hexLoop :: "string \<Rightarrow> bool \<Rightarrow> bytes \<times> bool" where
  "hexLoop (c1 # c2 # cs) bad =
     (let (v1, bad) = hexVal c1 bad;
          (v2, bad) = hexVal c2 bad;
          (rest, bad) = hexLoop cs bad
      in ((push_bit 4 v1 OR v2) # rest, bad))"
| "hexLoop _ bad = ([], bad)"

definition validDigestName :: "string \<Rightarrow> bool" where
  "validDigestName name \<longleftrightarrow>
     name \<noteq> [] \<and>
     list_all (\<lambda>r. (CHR ''a'' \<le> r \<and> r \<le> CHR ''z'') \<or> (CHR ''0'' \<le> r \<and> r \<le> CHR ''9'')) name"

definition parseUnknown :: "string \<Rightarrow> string \<Rightarrow> Ref \<times> bool" where
  "parseUnknown dname hex =
     (if \<not> validDigestName dname then (zeroRef, False)
      else
        let odd_digits = (length hex mod 2 \<noteq> 0);
            hex = (if odd_digits then hex @ ''0'' else hex)
        in if length hex < 2 \<or> length hex mod 2 \<noteq> 0 \<or> length hex > maxOtherDigestLen * 2
           then (zeroRef, False)
           else
             let (bs, bad) = hexLoop hex False;
                 o' = \<lparr>od_name = dname,
                       od_sum = bs @ replicate (maxOtherDigestLen - length bs) 0,
                       od_sumLen = length hex div 2,
                       od_odd = odd_digits\<rparr>
             in if bad then (zeroRef, False) else (Ref (Some (OtherDigest o')), True))"

definition sha1FromBinary :: "bytes \<Rightarrow> digestType outcome" where
  "sha1FromBinary b =
     (if length b \<noteq> sha1_Size then Panic ''bogus sha-1 length'' else Ret (Sha1Digest b))"

definition sha1FromHexString :: "string \<Rightarrow> digestType option \<times> bool" where
  "sha1FromHexString hex =
     (let (d, bad) = hexLoop hex False
      in if bad then (None, False) else (Some (Sha1Digest d), True))"

definition sha1FromHexBytes :: "bytes \<Rightarrow> digestType option \<times> bool" where
  "sha1FromHexBytes hex =
     (let (d, bad) = hexLoop (string_of_bytes hex) False
      in if bad then (None, False) else (Some (Sha1Digest d), True))"

record digestMeta =
  ctor :: "bytes \<Rightarrow> digestType outcome"
  ctors :: "string \<Rightarrow> digestType option \<times> bool"
  ctorb :: "bytes \<Rightarrow> digestType option \<times> bool"
  meta_size :: nat

definition sha1Meta :: digestMeta where
  "sha1Meta =
     \<lparr>ctor = sha1FromBinary, ctors = sha1FromHexString, ctorb = sha1FromHexBytes,
      meta_size = sha1_Size\<rparr>"

definition metaFromString :: "string \<rightharpoonup> digestMeta" where
  "metaFromString = [''sha1'' \<mapsto> sha1Meta]"

definition metas :: "(bytes \<times> digestMeta) list" where
  "metas = [(bytes_of_string ''sha1'', sha1Meta)]"

definition metaFromBytes :: "bytes \<Rightarrow> digestMeta option" where
  "metaFromBytes name = map_option snd (find (\<lambda>bm. name = fst bm) metas)"

definition testRefType :: "string \<Rightarrow> bool" where
  "testRefType name \<longleftrightarrow> name \<in> {''fakeref'', ''testref'', ''perma''}"

definition IsSupported :: "Ref \<Rightarrow> bool" where
  "IsSupported r =
     (case digest r of None \<Rightarrow> False | Some d \<Rightarrow> metaFromString (digestName d) \<noteq> None)"

definition parse :: "string \<Rightarrow> bool \<Rightarrow> Ref \<times> bool" where
  "parse s allowAll =
     (let i = index_byte s CHR ''-'' in
      if i < 0 then (zeroRef, False)
      else
        let name = take (nat i) s;
            hex = drop (nat i + 1) s
        in case metaFromString name of
             None \<Rightarrow>
               if allowAll \<or> testRefType name then parseUnknown name hex else (zeroRef, False)
           | Some meta \<Rightarrow>
               if length hex \<noteq> meta_size meta * 2 then (zeroRef, False)
               else
                 let (dt, ok) = ctors meta hex
                 in if \<not> ok then (zeroRef, False) else (Ref dt, True))"

definition ParseKnown :: "string \<Rightarrow> Ref \<times> bool" where
  "ParseKnown s = parse s False"

definition Parse :: "string \<Rightarrow> Ref \<times> bool" where
  "Parse s = parse s True"

definition ParseBytes :: "bytes \<Rightarrow> Ref \<times> bool" where
  "ParseBytes s =
     (let i = index_byte s (byte_of_char CHR ''-'') in
      if i < 0 then (zeroRef, False)
      else
        let name = take (nat i) s;
            hex = drop (nat i + 1) s
        in case metaFromBytes name of
             None \<Rightarrow> parseUnknown (string_of_bytes name) (string_of_bytes hex)
           | Some meta \<Rightarrow>
               if length hex \<noteq> meta_size meta * 2 then (zeroRef, False)
               else
                 let (dt, ok) = ctorb meta hex
                 in if \<not> ok then (zeroRef, False) else (Ref dt, True))"

definition ParseOrZero :: "string \<Rightarrow> Ref" where
  "ParseOrZero s = (let (ref, ok) = Parse s in if \<not> ok then zeroRef else ref)"

definition MustParse :: "string \<Rightarrow> Ref outcome" where
  "MustParse s =
     (let (ref, ok) = Parse s in if \<not> ok then Panic (''Invalid blobref '' @ s) else Ret ref)"

definition ValidRefString :: "string \<Rightarrow> bool" where
  "ValidRefString s = ref_Valid (ParseOrZero s)"

section \<open>References of hashes\<close>

text \<open>\<open>metaFromType\<close> knows the one dynamic type a \<^typ>\<open>hash\<close> has, that of \<open>sha1.New()\<close>.\<close>

definition RefFromHash :: "hash \<Rightarrow> Ref outcome" where
  "RefFromHash h = obind (ctor sha1Meta (hash_Sum h)) (\<lambda>d. Ret (Ref (Some d)))"

definition SHA1FromBytes :: "bytes \<Rightarrow> Ref" where
  "SHA1FromBytes b =
     (case RefFromHash (hash_Write sha1_New b) of Ret r \<Rightarrow> r | _ \<Rightarrow> zeroRef)"

definition SHA1FromString :: "string \<Rightarrow> Ref" where
  "SHA1FromString s = SHA1FromBytes (bytes_of_string s)"

definition RefFromString :: "string \<Rightarrow> Ref" where
  "RefFromString s = SHA1FromString s"

definition NewHash :: hash where
  "NewHash = sha1_New"

section \<open>JSON and binary forms\<close>

text \<open>A method with pointer receiver returns the error and the new value of the receiver.\<close>

definition UnmarshalJSON :: "Ref \<Rightarrow> bytes \<Rightarrow> goerr option \<times> Ref" where
  "UnmarshalJSON r d =
     (if digest r \<noteq> None then (Some (ErrText ''Can't UnmarshalJSON into a non-zero Ref''), r)
      else if d = [] \<or> d = bytes_of_string ''null'' then (None, r)
      else if length d < 2 \<or> hd d \<noteq> byte_of_char CHR 0x22 \<or> last d \<noteq> byte_of_char CHR 0x22
      then (Some (ErrText ''blob: expecting a JSON string to unmarshal''), r)
      else
        let (p, ok) = ParseBytes (butlast (tl d))
        in if \<not> ok then (Some (ErrText ''blobref: invalid blobref''), r) else (None, p))"

definition MarshalJSON :: "Ref \<Rightarrow> bytes" where
  "MarshalJSON r =
     (case digest r of
        None \<Rightarrow> bytes_of_string ''null''
      | Some d \<Rightarrow>
          bytes_of_string (appendString d [CHR 0x22] @ [CHR 0x22]))"

definition MarshalBinary :: "Ref \<Rightarrow> bytes outcome" where
  "MarshalBinary r =
     (case digest r of
        None \<Rightarrow> Panic ''nil pointer dereference''
      | Some d \<Rightarrow>
          Ret (bytes_of_string (digestName d) @ bytes_of_string ''-'' @ digest_bytes d))"

definition UnmarshalBinary :: "Ref \<Rightarrow> bytes \<Rightarrow> (goerr option \<times> Ref) outcome" where
  "UnmarshalBinary r data =
     (if digest r \<noteq> None
      then Ret (Some (ErrText ''Can't UnmarshalBinary into a non-zero Ref''), r)
      else
        let i = index_byte data (byte_of_char CHR ''-'') in
        if i < 1 then Ret (Some (ErrText ''no digest name''), r)
        else
          let digName = string_of_bytes (take (nat i) data);
              buf = drop (nat i + 1) data
          in case metaFromString digName of
               None \<Rightarrow>
                 (let (r2, ok) = parseUnknown digName (hex_bytes buf)
                  in if \<not> ok then Ret (Some (ErrText ''invalid blobref binary data''), r)
                     else Ret (None, r2))
             | Some meta \<Rightarrow>
                 if length buf \<noteq> meta_size meta
                 then Ret (Some (ErrText (''wrong size of data for digest '' @ digName)), r)
                 else obind (ctor meta buf) (\<lambda>d. Ret (None, Ref (Some d))))"

section \<open>Order\<close>

definition ref_Less :: "Ref \<Rightarrow> Ref \<Rightarrow> bool" where
  "ref_Less r o' =
     (if ref_Valid r \<noteq> ref_Valid o' then ref_Valid o'
      else
        case (digest r, digest o') of
          (Some d1, Some d2) \<Rightarrow>
            if digestName d1 \<noteq> digestName d2 then digestName d1 < digestName d2
            else digest_bytes d1 < digest_bytes d2
        | _ \<Rightarrow> False)"

definition sized_Less :: "SizedRef \<Rightarrow> SizedRef \<Rightarrow> bool" where
  "sized_Less sr o' = ref_Less (sr_Ref sr) (sr_Ref o')"

definition sized_Valid :: "SizedRef \<Rightarrow> bool" where
  "sized_Valid sr = ref_Valid (sr_Ref sr)"

definition sized_HashMatches :: "SizedRef \<Rightarrow> hash \<Rightarrow> bool" where
  "sized_HashMatches sr h = HashMatches (sr_Ref sr) h"

section \<open>Well-formed references\<close>

text \<open>What every reference made by this package satisfies.\<close>

definition digest_wf :: "digestType \<Rightarrow> bool" where
  "digest_wf d =
     (case d of
        Sha1Digest s \<Rightarrow> length s = sha1_Size
      | OtherDigest o' \<Rightarrow>
          validDigestName (od_name o') \<and> od_name o' \<noteq> ''sha1'' \<and>
          1 \<le> od_sumLen o' \<and> od_sumLen o' \<le> maxOtherDigestLen \<and>
          length (od_sum o') = maxOtherDigestLen \<and>
          drop (od_sumLen o') (od_sum o') = replicate (maxOtherDigestLen - od_sumLen o') 0 \<and>
          (od_odd o' \<longrightarrow> od_sum o' ! (od_sumLen o' - 1) AND 0xf = 0))"

definition ref_wf :: "Ref \<Rightarrow> bool" where
  "ref_wf r = (case digest r of None \<Rightarrow> False | Some d \<Rightarrow> digest_wf d)"

text \<open>The hexadecimal digits of a digest, as printed.\<close>

definition digest_hex :: "digestType \<Rightarrow> string" where
  "digest_hex d =
     (if is_odd d then butlast (hex_bytes (digest_bytes d)) else hex_bytes (digest_bytes d))"

definition ref_canonical :: "Ref \<Rightarrow> bool" where
  "ref_canonical r = (case digest r of None \<Rightarrow> False | Some d \<Rightarrow> digest_wf d \<and> \<not> is_odd d)"

text \<open>
  A linear order on references that refines \<open>Less\<close>: references that \<open>Less\<close> cannot tell apart
  (equal name and bytes) are ordered by the rest of their representation.  It makes the
  library's \<open>sort\<close> available for \<open>sort.Sort(blob.ByRef(...))\<close>.
\<close>

definition digest_tie :: "digestType \<Rightarrow> bool \<times> bool \<times> bytes \<times> nat" where
  "digest_tie d =
     (case d of
        Sha1Digest s \<Rightarrow> (False, False, [], 0)
      | OtherDigest o' \<Rightarrow> (True, od_odd o', od_sum o', od_sumLen o'))"

definition ref_key :: "Ref \<Rightarrow> (string \<times> bytes \<times> bool \<times> bool \<times> bytes \<times> nat) option" where
  "ref_key r = map_option (\<lambda>d. (digestName d, digest_bytes d, digest_tie d)) (digest r)"

lemma ref_key_inject: "ref_key r = ref_key o' \<longleftrightarrow> r = o'"
proof
  assume eq: "ref_key r = ref_key o'"
  show "r = o'"
  proof (cases "digest r")
    case None
    with eq show ?thesis by (cases r; cases o') (auto simp: ref_key_def)
  next
    case (Some d1)
    with eq obtain d2 where "digest o' = Some d2"
      by (cases "digest o'") (auto simp: ref_key_def)
    moreover from this Some eq have "d1 = d2"
      by (cases d1; cases d2) (auto simp: ref_key_def digest_tie_def)
    ultimately show ?thesis using Some by (cases r; cases o') simp
  qed
qed simp

instantiation Ref :: linorder
begin

definition less_eq_Ref :: "Ref \<Rightarrow> Ref \<Rightarrow> bool" where
  "less_eq_Ref r o' \<longleftrightarrow> ref_key r \<le> ref_key o'"

definition less_Ref :: "Ref \<Rightarrow> Ref \<Rightarrow> bool" where
  "less_Ref r o' \<longleftrightarrow> ref_key r < ref_key o'"

instance
  by standard (auto simp: less_eq_Ref_def less_Ref_def ref_key_inject [symmetric])

end

section \<open>Hexadecimal digits\<close>

lemma less_16_cases: "(n::nat) < 16 \<longleftrightarrow> n \<in> {0, 1, 2, 3, 4, 5, 6, 7, 8, 9, 10, 11, 12, 13, 14, 15}"
  by (simp only: insert_iff empty_iff) presburger

lemma hexVal_hexDigit:
  assumes "n < 16"
  shows "hexVal (hexDigit ! n) bad = (word_of_nat n, bad)"
  using assms unfolding less_16_cases
  by (elim insertE emptyE) (simp_all add: hexVal_def hexDigit_def byte_of_char_def)

lemma nibble_mask: "b AND 0xf = take_bit 4 (b :: u8)"
  by (simp add: take_bit_eq_mask mask_numeral)

lemma nibbles_lt: "unat (drop_bit 4 (b :: u8)) < 16" "unat (b AND 0xf :: u8) < 16"
proof -
  have "unat b < 256" using unsigned_less [of b] by simp
  then show "unat (drop_bit 4 b) < 16"
    by (simp only: unat_drop_bit_eq) (simp add: drop_bit_eq_div)
  have "b AND 0xf \<le> 0xf" by (rule word_and_le1)
  then show "unat (b AND 0xf) < 16" by (simp add: word_le_nat_alt)
qed

lemma nibbles_join: "push_bit 4 (drop_bit 4 b) OR (b AND 0xf) = (b :: u8)"
  unfolding nibble_mask by (rule bit_eqI) (auto simp: bit_simps)

lemma nibble_take_bit: "unat (v :: u8) < 16 \<Longrightarrow> take_bit 4 v = v"
  by (simp add: word_unat_eq_iff unsigned_take_bit_eq take_bit_nat_eq_self)

lemma nibble_bit: "unat (v :: u8) < 16 \<Longrightarrow> bit v n \<Longrightarrow> n < 4"
  by (metis bit_take_bit_iff nibble_take_bit)

lemma nibbles_split:
  assumes "unat v1 < 16" and "unat (v2 :: u8) < 16"
  shows "drop_bit 4 (push_bit 4 v1 OR v2) = v1" and "(push_bit 4 v1 OR v2) AND 0xf = v2"
proof -
  show "drop_bit 4 (push_bit 4 v1 OR v2) = v1"
    by (rule bit_eqI) (use nibble_bit [OF assms(1)] nibble_bit [OF assms(2)] in \<open>fastforce simp: bit_simps\<close>)
  show "(push_bit 4 v1 OR v2) AND 0xf = v2"
    unfolding nibble_mask
    by (rule bit_eqI) (use nibble_bit [OF assms(2)] in \<open>auto simp: bit_simps\<close>)
qed

lemma hex_pair_join:
  assumes "unat v1 < 16" and "unat v2 < 16"
  shows "hex_pair (push_bit 4 v1 OR v2) = [hexDigit ! unat v1, hexDigit ! unat v2]"
  by (simp only: hex_pair_def nibbles_split [OF assms])

lemma decimal_digit_cases:
  assumes "CHR ''0'' \<le> c" and "c \<le> CHR ''9''"
  shows "c \<in> set ''0123456789''"
proof -
  from assms have "48 \<le> (of_char c :: nat)" "(of_char c :: nat) \<le> 57"
    by (simp_all add: less_eq_char_def)
  then show ?thesis
    by (simp add: of_char_eq_iff [where 'a = nat, symmetric] del: of_char_eq_iff) presburger
qed

lemma hex_letter_cases:
  assumes "CHR ''a'' \<le> c" and "c \<le> CHR ''f''"
  shows "c \<in> set ''abcdef''"
proof -
  from assms have "97 \<le> (of_char c :: nat)" "(of_char c :: nat) \<le> 102"
    by (simp_all add: less_eq_char_def)
  then show ?thesis
    by (simp add: of_char_eq_iff [where 'a = nat, symmetric] del: of_char_eq_iff) presburger
qed

lemma hexVal_ok:
  assumes "hexVal c bad = (v, False)"
  shows "\<not> bad \<and> unat v < 16 \<and> hexDigit ! unat v = c"
proof -
  from assms have "c \<in> set ''0123456789'' \<or> c \<in> set ''abcdef''"
    using decimal_digit_cases [of c] hex_letter_cases [of c]
    unfolding hexVal_def by (metis prod.inject)
  then have "c \<in> set hexDigit" by (auto simp: hexDigit_def)
  moreover have "length hexDigit = 16" by (simp add: hexDigit_def)
  ultimately obtain n where n: "n < 16" "c = hexDigit ! n"
    by (metis in_set_conv_nth)
  with assms have "v = word_of_nat n" "\<not> bad" by (auto simp: hexVal_hexDigit)
  with n show ?thesis by (simp add: unat_of_nat)
qed

lemma hexLoop_hex_bytes: "hexLoop (hex_bytes bs) bad = (bs, bad)"
  by (induction bs)
    (simp_all add: hex_bytes_def hex_pair_def hexVal_hexDigit nibbles_lt nibbles_join)

lemma hexLoop_bad: "snd (hexLoop cs True)"
  by (induction cs True rule: hexLoop.induct) (auto simp: hexVal_def split: prod.splits)

lemma hexLoop_ok:
  assumes "hexLoop cs bad = (bs, False)" and "even (length cs)"
  shows "\<not> bad \<and> hex_bytes bs = cs"
  using assms
proof (induction cs bad arbitrary: bs rule: hexLoop.induct)
  case (1 c1 c2 cs bad)
  then show ?case 
    by (auto simp: hex_bytes_def hex_pair_join dest!: hexVal_ok split: prod.splits)
qed (auto simp: hex_bytes_def)

lemma length_hex_bytes [simp]: "length (hex_bytes bs) = 2 * length bs"
  by (induction bs) (simp_all add: hex_bytes_def hex_pair_def)


lemma length_hexLoop: "length (fst (hexLoop cs bad)) = length cs div 2"
  by (induction cs bad rule: hexLoop.induct) (auto split: prod.splits)

lemma dash_not_in_name: "validDigestName n \<Longrightarrow> CHR ''-'' \<notin> set n"
  by (auto simp: validDigestName_def list_all_iff)

lemma parse_split:
  assumes "CHR ''-'' \<notin> set name"
  shows "index_byte (name @ CHR ''-'' # hex) CHR ''-'' = int (length name)"
  using assms by (rule index_byte_first)

lemma hex_bytes_append [simp]: "hex_bytes (bs @ cs) = hex_bytes bs @ hex_bytes cs"
  by (simp add: hex_bytes_def)

lemma hex_bytes_eq_Nil [simp]: "hex_bytes bs = [] \<longleftrightarrow> bs = []"
  by (cases bs) (simp_all add: hex_bytes_def hex_pair_def)

lemma last_hex_bytes:
  "bs \<noteq> [] \<Longrightarrow> last (hex_bytes bs) = hexDigit ! unat (last bs AND 0xf)"
  by (induction bs rule: rev_induct) (simp_all add: hex_bytes_def hex_pair_def)

lemma digest_wf_bytes_nonempty: "digest_wf d \<Longrightarrow> digest_bytes d \<noteq> []"
  by (auto simp: digest_wf_def sha1_Size_def maxOtherDigestLen_def split: digestType.splits)

lemma appendString_alt:
  "digest_wf d \<Longrightarrow> appendString d buf = buf @ digestName d @ CHR ''-'' # digest_hex d"
  by (simp add: appendString_def digest_hex_def butlast_append digest_wf_bytes_nonempty)

lemma ref_String_wf:
  "digest_wf d \<Longrightarrow> ref_String (Ref (Some d)) = digestName d @ CHR ''-'' # digest_hex d"
  by (simp add: ref_String_def appendString_alt)

lemma length_digest_bytes:
  "digest_wf (OtherDigest d) \<Longrightarrow> length (digest_bytes (OtherDigest d)) = od_sumLen d"
  by (simp add: digest_wf_def)

lemma odd_digest_pad:
  assumes "digest_wf (OtherDigest d)" and "od_odd d"
  shows "butlast (hex_bytes (digest_bytes (OtherDigest d))) @ ''0''
    = hex_bytes (digest_bytes (OtherDigest d))"
proof -
  let ?bs = "digest_bytes (OtherDigest d)"
  have ne: "?bs \<noteq> []" using assms(1) by (rule digest_wf_bytes_nonempty)
  have "last ?bs = od_sum d ! (od_sumLen d - 1)"
    using ne length_digest_bytes [OF assms(1)] by (simp add: last_conv_nth)
  then have "last ?bs AND 0xf = 0" using assms by (simp add: digest_wf_def)
  then have "last (hex_bytes ?bs) = CHR ''0''"
    using last_hex_bytes [OF ne] by (simp add: hexDigit_def)
  then show ?thesis
    using append_butlast_last_id [of "hex_bytes ?bs"] ne by simp
qed

lemma parseUnknown_padded:
  assumes "validDigestName n" and "hex' = (if odd (length hex) then hex @ ''0'' else hex)"
    and "hex' = hex_bytes bs" and "1 \<le> length bs" and "length bs \<le> maxOtherDigestLen"
  shows "parseUnknown n hex =
    (Ref (Some (OtherDigest
      \<lparr>od_name = n, od_sum = bs @ replicate (maxOtherDigestLen - length bs) 0,
       od_sumLen = length bs, od_odd = odd (length hex)\<rparr>)), True)"
proof -
  have h: "(if length hex mod 2 \<noteq> 0 then hex @ ''0'' else hex) = hex_bytes bs"
    using assms(2,3) by (simp add: odd_iff_mod_2_eq_one)
  show ?thesis
    using assms(1,4,5)
    by (simp only: parseUnknown_def Let_def h hexLoop_hex_bytes)
      (auto simp: odd_iff_mod_2_eq_one)
qed

lemma parseUnknown_digest_hex:
  assumes wf: "digest_wf (OtherDigest d)"
  shows "parseUnknown (od_name d) (digest_hex (OtherDigest d)) = (Ref (Some (OtherDigest d)), True)"
proof -
  let ?bs = "digest_bytes (OtherDigest d)"
  have n: "length ?bs = od_sumLen d" using wf by (rule length_digest_bytes)
  have sum: "?bs @ replicate (maxOtherDigestLen - od_sumLen d) 0 = od_sum d"
    using wf n by (simp add: digest_wf_def) (metis append_take_drop_id)
  have len: "1 \<le> length ?bs" "length ?bs \<le> maxOtherDigestLen" and name: "validDigestName (od_name d)"
    using wf n by (simp_all add: digest_wf_def)
  have odd_len: "odd (length (digest_hex (OtherDigest d))) = od_odd d"
    using len by (auto simp: digest_hex_def is_odd_def)
  have "hex_bytes ?bs = (if odd (length (digest_hex (OtherDigest d)))
      then digest_hex (OtherDigest d) @ ''0'' else digest_hex (OtherDigest d))"
    using odd_digest_pad [OF wf] by (simp add: odd_len) (simp add: digest_hex_def is_odd_def)
  from parseUnknown_padded [OF name this refl len] show ?thesis
    by (simp add: n odd_len sum del: digest_bytes.simps)
qed

lemma metaFromString_None: "metaFromString n = None \<longleftrightarrow> n \<noteq> ''sha1''"
  by (simp add: metaFromString_def)

lemma parse_dash:
  assumes "CHR ''-'' \<notin> set name"
  shows "parse (name @ CHR ''-'' # hex) all =
    (case metaFromString name of
       None \<Rightarrow> if all \<or> testRefType name then parseUnknown name hex else (zeroRef, False)
     | Some meta \<Rightarrow>
         if length hex \<noteq> meta_size meta * 2 then (zeroRef, False)
         else let (dt, ok) = ctors meta hex
              in if \<not> ok then (zeroRef, False) else (Ref dt, True))"
  using assms by (simp add: parse_def index_byte_first Let_def)

lemma sha1FromHexString_hex: "sha1FromHexString (hex_bytes s) = (Some (Sha1Digest s), True)"
  by (simp add: sha1FromHexString_def hexLoop_hex_bytes)

theorem Parse_String:
  assumes "ref_wf r"
  shows "Parse (ref_String r) = (r, True)"
proof -
  from assms obtain d where r: "r = Ref (Some d)" and wf: "digest_wf d"
    by (cases r) (auto simp: ref_wf_def split: option.splits)
  show ?thesis
  proof (cases d)
    case (Sha1Digest s)
    with wf have "length s = sha1_Size" by (simp add: digest_wf_def)
    then show ?thesis
      by (simp add: r Sha1Digest ref_String_def appendString_def is_odd_def Parse_def
          parse_dash [of "''sha1''", simplified] metaFromString_def sha1Meta_def
          sha1FromHexString_hex)
  next
    case (OtherDigest o')
    from wf have name: "validDigestName (od_name o')" "od_name o' \<noteq> ''sha1''"
      by (simp_all add: OtherDigest digest_wf_def)
    then show ?thesis
      using parseUnknown_digest_hex [of o'] wf dash_not_in_name [OF name(1)]
      by (simp add: r OtherDigest ref_String_wf Parse_def parse_dash metaFromString_def)
  qed
qed

lemma length_hexDigit [simp]: "length hexDigit = 16"
  by (simp add: hexDigit_def)

lemma hexDigit_inject:
  assumes "m < 16" and "n < 16"
  shows "hexDigit ! m = hexDigit ! n \<longleftrightarrow> m = n"
  using assms by (simp add: nth_eq_iff_index_eq hexDigit_def)

lemma parseUnknown_ok:
  assumes "parseUnknown n hex = (r, True)" and "n \<noteq> ''sha1''"
  shows "\<exists>d. r = Ref (Some d) \<and> digest_wf d \<and> digestName d = n \<and> digest_hex d = hex"
proof -
  define hex' where "hex' = (if length hex mod 2 \<noteq> 0 then hex @ ''0'' else hex)"
  obtain bs bad where loop: "hexLoop hex' False = (bs, bad)" by force
  define d where "d = \<lparr>od_name = n, od_sum = bs @ replicate (maxOtherDigestLen - length bs) 0,
     od_sumLen = length hex' div 2, od_odd = (length hex mod 2 \<noteq> 0)\<rparr>"
  have *: "validDigestName n" "2 \<le> length hex'" "even (length hex')"
      "length hex' \<le> maxOtherDigestLen * 2" "\<not> bad" "r = Ref (Some (OtherDigest d))"
    using assms(1) loop unfolding parseUnknown_def hex'_def [symmetric] Let_def d_def
    by (auto split: if_splits)
  have len: "length bs = length hex' div 2"
    using length_hexLoop [of hex' False] loop by simp
  have hex: "hex_bytes bs = hex'" using hexLoop_ok [of hex' False bs] loop *(3,5) by simp
  have bytes: "digest_bytes (OtherDigest d) = bs" by (simp add: d_def len)
  have ne: "bs \<noteq> []" using len *(2) by auto
  have last0: "last bs AND 0xf = 0" if "od_odd d"
  proof -
    have "last (hex_bytes bs) = CHR ''0''" using that by (simp add: hex hex'_def d_def)
    then have "hexDigit ! unat (last bs AND 0xf) = hexDigit ! 0"
      using last_hex_bytes [OF ne] by (simp add: hexDigit_def)
    then show ?thesis
      using hexDigit_inject [OF nibbles_lt(2), of 0] by (simp add: unat_eq_zero)
  qed
  have "digest_wf (OtherDigest d)"
    using *(1-4) assms(2) last0 ne len
    by (auto simp: digest_wf_def d_def last_conv_nth nth_append)
  moreover have "digest_hex (OtherDigest d) = hex"
    unfolding digest_hex_def bytes hex by (simp add: is_odd_def d_def hex'_def)
  ultimately show ?thesis using *(6) by (auto simp: d_def)
qed

theorem Parse_sound:
  assumes "Parse s = (r, True)"
  shows "ref_wf r \<and> ref_String r = s"
proof -
  have "0 \<le> index_byte s CHR ''-''"
    using assms by (auto simp: Parse_def parse_def Let_def split: if_splits)
  then obtain name hex where s: "s = name @ CHR ''-'' # hex" and dash: "CHR ''-'' \<notin> set name"
    by (rule index_byte_nonneg)
  have p: "parse s True = (r, True)" using assms by (simp add: Parse_def)
  show ?thesis
  proof (cases "name = ''sha1''")
    case True
    obtain bs bad where loop: "hexLoop hex False = (bs, bad)" by force
    have *: "length hex = 40" "\<not> bad" "r = Ref (Some (Sha1Digest bs))"
      using p unfolding s parse_dash [OF dash]
      by (auto simp: True metaFromString_def sha1Meta_def sha1FromHexString_def loop sha1_Size_def
          split: if_splits)
    have "hex_bytes bs = hex" using hexLoop_ok [of hex False bs] loop * by simp
    moreover have "length bs = 20" using length_hexLoop [of hex False] loop *(1) by simp
    ultimately show ?thesis
      by (simp add: * s True ref_wf_def digest_wf_def sha1_Size_def ref_String_def
          appendString_def is_odd_def)
  next
    case False
    then have "parseUnknown name hex = (r, True)"
      using p unfolding s parse_dash [OF dash] by (simp add: metaFromString_def)
    from parseUnknown_ok [OF this False] obtain d where
      "r = Ref (Some d)" "digest_wf d" "digestName d = name" "digest_hex d = hex" by blast
    then show ?thesis by (simp add: s ref_wf_def ref_String_wf)
  qed
qed

section \<open>The order of references is the order of their strings\<close>

lemma hexDigit_less:
  assumes "m < 16" and "n < 16"
  shows "hexDigit ! m < hexDigit ! n \<longleftrightarrow> m < n"
proof -
  have "sorted_wrt (<) hexDigit" by (simp add: hexDigit_def)
  moreover have "length hexDigit = 16" by (simp add: hexDigit_def)
  ultimately have "\<And>i j. i < j \<Longrightarrow> j < 16 \<Longrightarrow> hexDigit ! i < hexDigit ! j"
    by (simp add: sorted_wrt_iff_nth_less)
  then show ?thesis using assms by (metis less_asym linorder_neqE_nat less_irrefl)
qed

lemma byte_nibbles: "unat (b :: u8) = 16 * unat (drop_bit 4 b) + unat (b AND 0xf)"
  unfolding nibble_mask
  by (simp only: unat_drop_bit_eq unsigned_take_bit_eq) (simp add: drop_bit_eq_div take_bit_eq_mod)

lemma byte_less_nibbles:
  "(b :: u8) < c \<longleftrightarrow> unat (drop_bit 4 b) < unat (drop_bit 4 c) \<or>
     (unat (drop_bit 4 b) = unat (drop_bit 4 c) \<and> unat (b AND 0xf) < unat (c AND 0xf))"
  using byte_nibbles [of b] byte_nibbles [of c] nibbles_lt [of b] nibbles_lt [of c]
  unfolding word_less_nat_alt by linarith

lemma byte_eq_nibbles:
  "(b :: u8) = c \<longleftrightarrow> unat (drop_bit 4 b) = unat (drop_bit 4 c) \<and> unat (b AND 0xf) = unat (c AND 0xf)"
  using byte_nibbles [of b] byte_nibbles [of c] by (metis word_unat_eq_iff)

lemma hex_bytes_less: "hex_bytes bs < hex_bytes cs \<longleftrightarrow> bs < cs"
proof (induction bs arbitrary: cs)
  case Nil
  then show ?case by (cases cs) (simp_all add: hex_bytes_def hex_pair_def)
next
  case (Cons b bs)
  show ?case
  proof (cases cs)
    case Nil
    then show ?thesis by (simp add: hex_bytes_def)
  next
    case (Cons c cs')
    have "hex_bytes (b # bs) < hex_bytes (c # cs') \<longleftrightarrow>
        b < c \<or> (b = c \<and> hex_bytes bs < hex_bytes cs')"
      unfolding byte_less_nibbles byte_eq_nibbles
      by (auto simp: hex_bytes_def hex_pair_def hexDigit_less hexDigit_inject nibbles_lt)
    with Cons Cons.IH show ?thesis by simp
  qed
qed

lemma name_dash_less:
  assumes "list_all (\<lambda>c. CHR ''-'' < c) n1" and "list_all (\<lambda>c. CHR ''-'' < c) n2" and "n1 \<noteq> n2"
  shows "n1 @ CHR ''-'' # h1 < n2 @ CHR ''-'' # h2 \<longleftrightarrow> n1 < n2"
  using assms
proof (induction n1 arbitrary: n2)
  case Nil
  then show ?case by (cases n2) auto
next
  case (Cons c n1)
  then show ?case by (cases n2) auto
qed

lemma name_dash_prefix_less: "n @ CHR ''-'' # h1 < n @ CHR ''-'' # h2 \<longleftrightarrow> h1 < h2"
  by (induction n) auto

lemma digestName_above_dash:
  assumes "digest_wf d"
  shows "list_all (\<lambda>c. CHR ''-'' < c) (digestName d)"
proof -
  have "validDigestName (digestName d)"
    using assms by (cases d) (simp_all add: digest_wf_def validDigestName_def)
  then show ?thesis
    unfolding validDigestName_def list_all_iff less_char_def less_eq_char_def by fastforce
qed

theorem ref_Less_iff_String:
  assumes "ref_canonical r" and "ref_canonical o'"
  shows "ref_Less r o' \<longleftrightarrow> ref_String r < ref_String o'"
proof -
  from assms obtain d1 d2 where
    r: "r = Ref (Some d1)" "digest_wf d1" "\<not> is_odd d1" and
    o': "o' = Ref (Some d2)" "digest_wf d2" "\<not> is_odd d2"
    by (cases r; cases o') (auto simp: ref_canonical_def split: option.splits)
  show ?thesis
  proof (cases "digestName d1 = digestName d2")
    case True
    with r o' show ?thesis
      by (simp add: ref_Less_def ref_Valid_def ref_String_wf digest_hex_def
          name_dash_prefix_less hex_bytes_less)
  next
    case False
    with r o' show ?thesis
      using name_dash_less [OF digestName_above_dash [OF r(2)] digestName_above_dash [OF o'(2)] False]
      by (simp add: ref_Less_def ref_Valid_def ref_String_wf)
  qed
qed


section \<open>The linear order refines Less\<close>

lemma ref_Less_imp_less: "ref_Less r o' \<Longrightarrow> r < o'"
  by (auto simp: ref_Less_def ref_Valid_def less_Ref_def ref_key_def split: option.splits if_splits)

text \<open>Two references \<open>Less\<close> does not separate: same digest name, same bytes.\<close>

definition same_digest :: "Ref \<Rightarrow> Ref \<Rightarrow> bool" where
  "same_digest r o' \<longleftrightarrow>
     map_option digestName (digest r) = map_option digestName (digest o') \<and>
     map_option digest_bytes (digest r) = map_option digest_bytes (digest o')"

lemma less_imp_ref_Less: "r < o' \<Longrightarrow> ref_Less r o' \<or> same_digest r o'"
  by (auto simp: ref_Less_def ref_Valid_def less_Ref_def ref_key_def same_digest_def
      split: option.splits if_splits)

lemma same_digest_canonical:
  assumes "ref_canonical r" and "ref_canonical o'" and "same_digest r o'"
  shows "r = o'"
proof -
  from assms obtain d1 d2 where
    r: "r = Ref (Some d1)" "digest_wf d1" "\<not> is_odd d1" and
    o': "o' = Ref (Some d2)" "digest_wf d2" "\<not> is_odd d2" and
    eq: "digestName d1 = digestName d2" "digest_bytes d1 = digest_bytes d2"
    by (cases r; cases o') (auto simp: ref_canonical_def same_digest_def split: option.splits)
  have "d1 = d2"
  proof (cases d1)
    case (Sha1Digest s)
    with r o' eq show ?thesis by (cases d2) (auto simp: digest_wf_def)
  next
    case (OtherDigest x)
    with r(2) o'(2) eq(1) obtain y where y: "d2 = OtherDigest y"
      by (cases d2) (auto simp: digest_wf_def)
    have "od_sumLen x = od_sumLen y"
      using length_digest_bytes [of x] length_digest_bytes [of y] r(2) o'(2) eq(2)
      by (simp add: OtherDigest y del: digest_bytes.simps length_take)
    moreover from this have "od_sum x = od_sum y"
      using r(2) o'(2) eq(2) append_take_drop_id [of "od_sumLen x" "od_sum x"]
        append_take_drop_id [of "od_sumLen y" "od_sum y"]
      by (simp add: OtherDigest y digest_wf_def)
    ultimately show ?thesis
      using r(3) o'(3) eq(1) by (simp add: OtherDigest y is_odd_def)
  qed
  with r o' show ?thesis by simp
qed

lemma ref_Less_iff_less:
  assumes "ref_canonical r" and "ref_canonical o'"
  shows "ref_Less r o' \<longleftrightarrow> r < o'"
  using assms less_imp_ref_Less same_digest_canonical ref_Less_imp_less by blast


lemma ref_canonical_wf: "ref_canonical r \<Longrightarrow> ref_wf r"
  by (auto simp: ref_canonical_def ref_wf_def split: option.splits)

lemma ref_String_inject:
  "ref_wf r \<Longrightarrow> ref_wf o' \<Longrightarrow> ref_String r = ref_String o' \<longleftrightarrow> r = o'"
  using Parse_String by (metis prod.inject)

lemma ref_less_iff_String:
  "ref_canonical r \<Longrightarrow> ref_canonical o' \<Longrightarrow> r < o' \<longleftrightarrow> ref_String r < ref_String o'"
  using ref_Less_iff_less ref_Less_iff_String by simp

lemma ref_wf_Valid: "ref_wf r \<Longrightarrow> ref_Valid r"
  by (auto simp: ref_wf_def ref_Valid_def split: option.splits)

section \<open>References of hashes\<close>

lemma RefFromHash_Ret: "RefFromHash h = Ret (Ref (Some (Sha1Digest (hash_Sum h))))"
  by (simp add: RefFromHash_def sha1Meta_def sha1FromBinary_def sha1_Size_def)

lemma SHA1FromBytes_eq: "SHA1FromBytes b = Ref (Some (Sha1Digest (sha1_sum b)))"
  by (simp add: SHA1FromBytes_def RefFromHash_Ret hash_Sum_def)

lemma SHA1FromBytes_canonical [simp]: "ref_canonical (SHA1FromBytes b)"
  by (simp add: SHA1FromBytes_eq ref_canonical_def digest_wf_def is_odd_def sha1_Size_def)

lemma ref_Hash_SHA1FromBytes [simp]: "ref_Hash (SHA1FromBytes b) = Ret (Some sha1_New)"
  by (simp add: ref_Hash_def SHA1FromBytes_eq)

lemma HashMatches_SHA1FromBytes [simp]: "HashMatches (SHA1FromBytes b) (hash_Write sha1_New b)"
  by (simp add: HashMatches_def SHA1FromBytes_eq hash_Sum_def)

lemma HashMatches_imp_SHA1:
  assumes "ref_Hash r = Ret (Some h)" and "HashMatches r (hash_Write h b)"
  shows "r = SHA1FromBytes b"
proof -
  from assms(1) obtain s where "r = Ref (Some (Sha1Digest s))" and "h = sha1_New"
    by (cases r; cases "digest r"; cases "the (digest r)") (auto simp: ref_Hash_def)
  with assms(2) show ?thesis by (simp add: HashMatches_def SHA1FromBytes_eq hash_Sum_def)
qed

section \<open>The other forms of a reference\<close>

lemma metaFromBytes_string: "metaFromBytes (bytes_of_string n) = metaFromString n"
  by (auto simp: metaFromBytes_def metas_def metaFromString_def bytes_of_string_def
      dest: arg_cong [where f = string_of_bytes])

lemma ParseBytes_eq_Parse: "ParseBytes (bytes_of_string s) = Parse s"
  by (simp add: ParseBytes_def Parse_def parse_def index_byte_bytes_of_string Let_def
      take_bytes_of_string drop_bytes_of_string metaFromBytes_string metaFromString_def
      sha1Meta_def sha1FromHexString_def sha1FromHexBytes_def)

theorem JSON_roundtrip:
  assumes "ref_wf r \<or> r = zeroRef"
  shows "UnmarshalJSON zeroRef (MarshalJSON r) = (None, r)"
  using assms
proof
  assume "r = zeroRef"
  then show ?thesis by (simp add: zeroRef_def MarshalJSON_def UnmarshalJSON_def)
next
  assume wf: "ref_wf r"
  then obtain d where r: "r = Ref (Some d)" and d: "digest_wf d"
    by (cases r) (auto simp: ref_wf_def split: option.splits)
  let ?q = "byte_of_char CHR 0x22" and ?s = "bytes_of_string (ref_String r)"
  have m: "MarshalJSON r = ?q # ?s @ [?q]"
    by (simp add: MarshalJSON_def r ref_String_wf [OF d] appendString_alt [OF d])
  have "MarshalJSON r \<noteq> bytes_of_string ''null''"
    by (simp add: m)
  then show ?thesis
    unfolding UnmarshalJSON_def using Parse_String [OF wf]
    by (simp add: m zeroRef_def ParseBytes_eq_Parse)
qed

text \<open>The digest bytes alone do not record that the number of digits was odd.\<close>

definition clear_odd :: "Ref \<Rightarrow> Ref" where
  "clear_odd r =
     (case digest r of
        Some (OtherDigest d) \<Rightarrow> Ref (Some (OtherDigest (d\<lparr>od_odd := False\<rparr>)))
      | _ \<Rightarrow> r)"

lemma parseUnknown_hex_bytes:
  assumes wf: "digest_wf (OtherDigest d)"
  shows "parseUnknown (od_name d) (hex_bytes (digest_bytes (OtherDigest d)))
    = (Ref (Some (OtherDigest (d\<lparr>od_odd := False\<rparr>))), True)"
proof -
  have "digest_wf (OtherDigest (d\<lparr>od_odd := False\<rparr>))" using wf by (simp add: digest_wf_def)
  from parseUnknown_digest_hex [OF this] show ?thesis by (simp add: digest_hex_def is_odd_def)
qed

lemma UnmarshalBinary_dash:
  assumes "CHR ''-'' \<notin> set n" and "n \<noteq> []"
  shows "UnmarshalBinary zeroRef (bytes_of_string n @ byte_of_char CHR ''-'' # buf) =
    (case metaFromString n of
       None \<Rightarrow> (let (r2, ok) = parseUnknown n (hex_bytes buf)
                in if \<not> ok then Ret (Some (ErrText ''invalid blobref binary data''), zeroRef)
                   else Ret (None, r2))
     | Some meta \<Rightarrow>
         if length buf \<noteq> meta_size meta
         then Ret (Some (ErrText (''wrong size of data for digest '' @ n)), zeroRef)
         else obind (ctor meta buf) (\<lambda>d. Ret (None, Ref (Some d))))"
proof -
  have "byte_of_char CHR ''-'' \<notin> set (bytes_of_string n)"
    using assms(1) by (auto simp: bytes_of_string_def)
  then have ix: "index_byte (bytes_of_string n @ byte_of_char CHR ''-'' # buf)
      (byte_of_char CHR ''-'') = int (length n)"
    by (simp add: index_byte_first)
  have "\<not> int (length n) < 1" using assms(2) by (cases n) auto
  then show ?thesis unfolding UnmarshalBinary_def Let_def ix
    by (simp add: zeroRef_def split: option.split)
qed

lemma Binary_clears_odd:
  assumes "ref_wf r"
  shows "obind (MarshalBinary r) (UnmarshalBinary zeroRef) = Ret (None, clear_odd r)"
proof -
  from assms obtain d where r: "r = Ref (Some d)" and d: "digest_wf d"
    by (cases r) (auto simp: ref_wf_def split: option.splits)
  have name: "validDigestName (digestName d)"
    using d by (cases d) (simp_all add: digest_wf_def validDigestName_def)
  then have "digestName d \<noteq> []" by (auto simp: validDigestName_def)
  note um = UnmarshalBinary_dash [OF dash_not_in_name [OF name] this]
  show ?thesis
  proof (cases d)
    case (Sha1Digest s)
    then show ?thesis
      using d um [of s] by (simp add: r MarshalBinary_def metaFromString_def sha1Meta_def digest_wf_def
          sha1FromBinary_def clear_odd_def)
  next
    case (OtherDigest x)
    then show ?thesis
      using d um [of "digest_bytes d"] parseUnknown_hex_bytes [of x]
      by (simp add: r MarshalBinary_def metaFromString_def digest_wf_def clear_odd_def)
  qed
qed

theorem Binary_roundtrip:
  assumes "ref_canonical r"
  shows "obind (MarshalBinary r) (UnmarshalBinary zeroRef) = Ret (None, r)"
proof -
  have "clear_odd r = r"
    using assms by (cases r)
      (auto simp: clear_odd_def ref_canonical_def is_odd_def split: option.splits digestType.splits)
  then show ?thesis using Binary_clears_odd [OF ref_canonical_wf [OF assms]] by simp
qed

section \<open>StringMinusOne\<close>

lemma snoc_less_iff:
  fixes p q :: "'a::linorder list"
  assumes "length p = length q"
  shows "p @ [a] < q @ [b] \<longleftrightarrow> p < q \<or> (p = q \<and> a < b)"
  using assms by (induction p q rule: list_induct2) auto

lemma char_pred_less:
  assumes "CHR ''-'' \<le> c"
  shows "char_of_byte (byte_of_char c - 1) < e \<longleftrightarrow> c \<le> e"
proof -
  have "byte_of_char c \<noteq> 0"
    using assms by (simp add: less_eq_char_def byte_of_char_def word_unat_eq_iff unat_of_nat)
  then have "unat (byte_of_char c - 1) = unat (byte_of_char c) - 1" 
    by (simp add: unat_minus_one)
  moreover have "char_of_byte (byte_of_char c - 1) < e \<longleftrightarrow> byte_of_char c - 1 < byte_of_char e"
    by (metis byte_of_char_less_iff byte_of_char_of_byte)
  moreover have "c \<le> e \<longleftrightarrow> byte_of_char c \<le> byte_of_char e"
    by (metis byte_of_char_less_iff linorder_not_less)
  ultimately show ?thesis
    using \<open>byte_of_char c \<noteq> 0\<close>
    by (auto simp: word_less_nat_alt word_le_nat_alt word_unat_eq_iff)
qed

lemma last_ref_String_ge:
  assumes "ref_wf r"
  shows "CHR ''-'' \<le> last (ref_String r)"
proof -
  from assms obtain d where r: "r = Ref (Some d)" and d: "digest_wf d"
    by (cases r) (auto simp: ref_wf_def split: option.splits)
  have hex: "set (hex_bytes bs) \<subseteq> set hexDigit" for bs
  proof -
    have "set (hex_pair b) \<subseteq> set hexDigit" for b
      using nibbles_lt [of b] by (simp add: hex_pair_def)
    then show ?thesis by (auto simp: hex_bytes_def)
  qed
  have "set (digest_hex d) \<subseteq> set hexDigit"
    using hex [of "digest_bytes d"] by (auto simp: digest_hex_def dest: in_set_butlastD)
  moreover have "last (CHR ''-'' # digest_hex d) \<in> set (CHR ''-'' # digest_hex d)"
    by (rule last_in_set) simp
  ultimately have "last (CHR ''-'' # digest_hex d) \<in> insert CHR ''-'' (set hexDigit)"
    by auto
  then show ?thesis
    by (auto simp: r ref_String_wf [OF d] hexDigit_def)
qed

text \<open>
  \<open>StringMinusOne\<close> is a lower bound that separates a reference from all smaller ones of its
  kind: a string of the same length lies above it exactly if it is not below \<open>String\<close>.
\<close>

lemma StringMinusOne_less_iff:
  assumes "ref_wf r" and "length t = length (ref_String r)"
  shows "StringMinusOne r < t \<longleftrightarrow> ref_String r \<le> t"
proof -
  from assms(1) obtain d where r: "r = Ref (Some d)" and d: "digest_wf d"
    by (cases r) (auto simp: ref_wf_def split: option.splits)
  obtain p c where s: "ref_String r = p @ [c]"
    by (cases "ref_String r" rule: rev_cases) (auto simp: r ref_String_wf [OF d])
  obtain q e where t: "t = q @ [e]"
    using assms(2) s by (cases t rule: rev_cases) auto
  have len: "length p = length q" using assms(2) by (simp add: s t)
  have m: "StringMinusOne r = p @ [char_of_byte (byte_of_char c - 1)]"
    using s by (simp add: StringMinusOne_def ref_String_def r Let_def)
  have c: "CHR ''-'' \<le> c" using last_ref_String_ge [OF assms(1)] by (simp add: s)
  show ?thesis
    unfolding m s t le_less snoc_less_iff [OF len] char_pred_less [OF c] by (auto simp: le_less)
qed

section \<open>Properties\<close>

text \<open>
  C20 [parse].  The textual form of references is in bijection with the well-formed references: \<open>Parse\<close>
  accepts exactly the strings that \<open>String\<close> prints, and returns the reference printed so.
\<close>

theorem Parse_iff_String: "Parse s = (r, True) \<longleftrightarrow> ref_wf r \<and> ref_String r = s"
  using Parse_String [of r] Parse_sound [of s r] by blast

text \<open>
  C21 [less].  On references whose digest has an even number of digits, the order \<open>Less\<close> used to sort
  enumerations is the order of the textual forms used to bound them.
\<close>

theorem Less_is_String_order:
  assumes "ref_canonical r" and "ref_canonical q"
  shows "ref_Less r q \<longleftrightarrow> ref_String r < ref_String q"
  using assms by (rule ref_Less_iff_String)

theorem Less_is_String_order_witness:
  "ref_Less (fst (Parse ''bar-ff'')) (fst (Parse ''foo-00'')) \<longleftrightarrow> ''bar-ff'' < ''foo-00''"
proof -
  have "ref_canonical (fst (Parse ''bar-ff''))" "ref_canonical (fst (Parse ''foo-00''))" by code_simp+
  moreover have "ref_String (fst (Parse ''bar-ff'')) = ''bar-ff''" "ref_String (fst (Parse ''foo-00'')) = ''foo-00''"
    by code_simp+
  ultimately show ?thesis using Less_is_String_order by metis
qed

text \<open>Every well-formed reference, and the zero reference, survives its JSON form.\<close>

theorem JSON_roundtrips:
  assumes "ref_wf r \<or> r = zeroRef"
  shows "UnmarshalJSON zeroRef (MarshalJSON r) = (None, r)"
  using assms by (rule JSON_roundtrip)

theorem JSON_roundtrips_witness:
  "UnmarshalJSON zeroRef (MarshalJSON (fst (Parse ''foo-aba''))) = (None, fst (Parse ''foo-aba''))"
proof -
  have "ref_wf (fst (Parse ''foo-aba''))" by code_simp
  then show ?thesis using JSON_roundtrips by blast
qed

text \<open>
  The binary form of a well-formed reference is read back as the same reference except
  that an odd number of digits is rounded up to an even one by a zero.
\<close>

theorem Binary_roundtrips:
  assumes "ref_wf r"
  shows "obind (MarshalBinary r) (UnmarshalBinary zeroRef) = Ret (None, clear_odd r) \<and>
    (ref_canonical r \<longrightarrow> clear_odd r = r)"
  using Binary_clears_odd [OF assms] Binary_roundtrip [of r] by auto

theorem Binary_roundtrips_witness:
  "obind (MarshalBinary (fst (Parse ''foo-abab''))) (UnmarshalBinary zeroRef) = Ret (None, fst (Parse ''foo-abab''))"
proof -
  have "ref_wf (fst (Parse ''foo-abab''))" "ref_canonical (fst (Parse ''foo-abab''))" by code_simp+
  then show ?thesis using Binary_roundtrips by metis
qed

text \<open>
  The binary form is not faithful for references with an odd number of digits:
  \<open>foo-aba\<close> comes back as the different reference \<open>foo-aba0\<close>.
\<close>

theorem Binary_loses_odd:
  "obind (MarshalBinary (fst (Parse ''foo-aba''))) (UnmarshalBinary zeroRef) = Ret (None, fst (Parse ''foo-aba0'')) \<and>
   fst (Parse ''foo-aba'') \<noteq> fst (Parse ''foo-aba0'')"
  by code_simp

text \<open>
  C31 [hash].  A supported reference matches the hash of some contents exactly if it is the reference
  \<open>SHA1FromBytes\<close> gives to these contents.
\<close>

theorem HashMatches_iff_SHA1:
  assumes "ref_Hash r = Ret (Some h)"
  shows "HashMatches r (hash_Write h b) \<longleftrightarrow> r = SHA1FromBytes b"
proof
  assume r: "r = SHA1FromBytes b"
  then have "h = sha1_New" using assms by simp
  then show "HashMatches r (hash_Write h b)" by (simp add: r)
qed (rule HashMatches_imp_SHA1 [OF assms])

theorem HashMatches_iff_SHA1_witness:
  "HashMatches (SHA1FromString ''abc'') (hash_Write sha1_New (bytes_of_string ''abc''))"
  unfolding SHA1FromString_def by (rule iffD2 [OF HashMatches_iff_SHA1 [OF ref_Hash_SHA1FromBytes] refl])

end
