(* ===== verification/Blob.thy ===== *)
theory Blob
  imports BlobRef
begin

text \<open>
  Package \<open>pkg/blob\<close>, files \<open>blob.go\<close>, \<open>fetcher.go\<close> and \<open>chanpeek.go\<close>: in-memory blobs and how
  they are slurped from a fetcher, the fetcher combinators, and the one-element look-ahead
  buffer \<open>ChanPeeker\<close> over a channel of sized references.
\<close>

section \<open>Fetchers\<close>

text \<open>
  An object of the program is modelled by its methods acting on the world \<open>'w\<close> in which all
  objects keep their state.  \<open>Fetch\<close> returns a reader (nil on error), the size and the error.
\<close>

type_synonym fetch_ret = "reader option \<times> u32 \<times> goerr option"
type_synonym 'w fetcher = "Ref \<Rightarrow> 'w \<Rightarrow> (fetch_ret \<times> 'w) outcome"
type_synonym 'w sub_fetcher = "Ref \<Rightarrow> int \<Rightarrow> int \<Rightarrow> 'w \<Rightarrow> ((reader option \<times> goerr option) \<times> 'w) outcome"

text \<open>
  The loop of \<open>serialFetcher.Fetch\<close>; the variables \<open>file, size, err\<close> keep the values of the
  last call, and start as nil, 0 and nil.
\<close>

fun serialFetch_loop ::
  "'w fetcher list \<Rightarrow> Ref \<Rightarrow> fetch_ret \<Rightarrow> 'w \<Rightarrow> (fetch_ret \<times> 'w) outcome" where
  "serialFetch_loop [] r cur w = Ret (cur, w)"
| "serialFetch_loop (f # fs) r cur w =
     obind (f r w) (\<lambda>((file, sz, err), w).
       if err = None then Ret ((file, sz, err), w)
       else serialFetch_loop fs r (file, sz, err) w)"

definition serialFetcher_Fetch :: "'w fetcher list \<Rightarrow> 'w fetcher" where
  "serialFetcher_Fetch fetchers r w = serialFetch_loop fetchers r (None, 0, None) w"

section \<open>Blobs\<close>

definition MaxBlobSize :: nat where
  "MaxBlobSize = 16 * 2 ^ 20"

text \<open>\<open>mem\<close> is \<open>None\<close> for a nil slice; \<open>newReader\<close> makes a fresh reader each time.\<close>

record Blob =
  blob_ref :: Ref
  blob_size :: u32
  blob_newReader :: "unit \<Rightarrow> reader"
  blob_mem :: "bytes option"

definition NewBlob :: "Ref \<Rightarrow> u32 \<Rightarrow> (unit \<Rightarrow> reader) \<Rightarrow> Blob" where
  "NewBlob r sz nr = \<lparr>blob_ref = r, blob_size = sz, blob_newReader = nr, blob_mem = None\<rparr>"

definition blob_SizedRef :: "Blob \<Rightarrow> SizedRef" where
  "blob_SizedRef b = \<lparr>sr_Ref = blob_ref b, sr_Size = blob_size b\<rparr>"

definition blob_Open :: "Blob \<Rightarrow> reader" where
  "blob_Open b = blob_newReader b ()"

text \<open>Calling \<open>Write\<close> on the nil hash of an unsupported digest panics.\<close>

definition ValidContents :: "Blob \<Rightarrow> bool outcome" where
  "ValidContents b =
     obind (ref_Hash (blob_ref b)) (\<lambda>h.
       case h of
         None \<Rightarrow> Panic ''nil pointer dereference''
       | Some h \<Rightarrow>
           (case blob_mem b of
              Some m \<Rightarrow> Ret (HashMatches (blob_ref b) (hash_Write h m))
            | None \<Rightarrow>
                let (data, err) = read_all (blob_Open b)
                in if err \<noteq> None then Ret False
                   else Ret (HashMatches (blob_ref b) (hash_Write h data))))"

definition FromReader :: "Ref \<Rightarrow> reader \<Rightarrow> u32 \<Rightarrow> goerr + Blob" where
  "FromReader br r sz =
     (if unat sz > MaxBlobSize then Inl (ErrText ''blob: reported size is over max size'')
      else
        let (buf, err) = read_full r (unat sz)
        in if err \<noteq> None then Inl (ErrText ''blob: after reading'')
           else if length (drop (unat sz) (rd_data r)) > 0
           then Inl (ErrText ''blob: had more than reported bytes'')
           else Inr ((NewBlob br sz (\<lambda>_. bytes_reader buf))\<lparr>blob_mem := Some buf\<rparr>))"

text \<open>A nil reader without an error would be a nil dereference in \<open>FromReader\<close>.\<close>

definition FromFetcher :: "'w fetcher \<Rightarrow> Ref \<Rightarrow> 'w \<Rightarrow> ((goerr + Blob) \<times> 'w) outcome" where
  "FromFetcher fetch br w =
     obind (fetch br w) (\<lambda>((rc, sz, err), w).
       case err of
         Some e \<Rightarrow> Ret (Inl e, w)
       | None \<Rightarrow>
           (case rc of
              None \<Rightarrow> Panic ''nil pointer dereference''
            | Some rc \<Rightarrow> Ret (FromReader br rc sz, w)))"

text \<open>\<open>readerAt.ReadAt(p, off)\<close> with \<open>n = len(p)\<close>: the bytes stored in \<open>p\<close> and the error.\<close>

definition readerAt_ReadAt ::
  "'w sub_fetcher \<Rightarrow> Ref \<Rightarrow> nat \<Rightarrow> int \<Rightarrow> 'w \<Rightarrow> ((bytes \<times> goerr option) \<times> 'w) outcome" where
  "readerAt_ReadAt sf br n off w =
     obind (sf br off (int n) w) (\<lambda>((rc, err), w).
       case err of
         Some e \<Rightarrow> Ret (([], Some e), w)
       | None \<Rightarrow>
           (case rc of
              None \<Rightarrow> Panic ''nil pointer dereference''
            | Some rc \<Rightarrow> Ret (read_full rc n, w)))"

section \<open>ChanPeeker\<close>

text \<open>The channel is the list of values still to be received before it is closed.\<close>

record ChanPeeker =
  cp_Ch :: "SizedRef list"
  cp_closed :: bool
  cp_peekok :: bool
  cp_peek :: SizedRef

definition newChanPeeker :: "SizedRef list \<Rightarrow> ChanPeeker" where
  "newChanPeeker ch = \<lparr>cp_Ch = ch, cp_closed = False, cp_peekok = False, cp_peek = zeroSizedRef\<rparr>"

definition cp_Peek :: "ChanPeeker \<Rightarrow> (SizedRef \<times> bool) \<times> ChanPeeker" where
  "cp_Peek cp =
     (if cp_closed cp then ((zeroSizedRef, False), cp)
      else if cp_peekok cp then ((cp_peek cp, True), cp)
      else
        case cp_Ch cp of
          [] \<Rightarrow> ((zeroSizedRef, False), cp\<lparr>cp_closed := True\<rparr>)
        | v # vs \<Rightarrow> ((v, True), cp\<lparr>cp_Ch := vs, cp_peek := v, cp_peekok := True\<rparr>))"

definition cp_MustPeek :: "ChanPeeker \<Rightarrow> (SizedRef \<times> ChanPeeker) outcome" where
  "cp_MustPeek cp =
     (let ((sr, ok), cp) = cp_Peek cp
      in if \<not> ok then Panic ''No Peek value available'' else Ret (sr, cp))"

definition cp_Closed :: "ChanPeeker \<Rightarrow> bool \<times> ChanPeeker" where
  "cp_Closed cp = (let (_, cp) = cp_Peek cp in (cp_closed cp, cp))"

definition cp_Take :: "ChanPeeker \<Rightarrow> (SizedRef \<times> bool) \<times> ChanPeeker" where
  "cp_Take cp =
     (let ((v, ok), cp) = cp_Peek cp
      in if \<not> ok then ((zeroSizedRef, False), cp) else ((v, True), cp\<lparr>cp_peekok := False\<rparr>))"

definition cp_MustTake :: "ChanPeeker \<Rightarrow> (SizedRef \<times> ChanPeeker) outcome" where
  "cp_MustTake cp =
     (let ((sr, ok), cp) = cp_Take cp
      in if \<not> ok then Panic ''MustTake called on empty channel'' else Ret (sr, cp))"

text \<open>The values a peeker has yet to deliver.\<close>

definition cp_items :: "ChanPeeker \<Rightarrow> SizedRef list" where
  "cp_items cp =
     (if cp_closed cp then []
      else (if cp_peekok cp then [cp_peek cp] else []) @ cp_Ch cp)"

text \<open>The documented invariant: a closed channel has neither a peeked value nor values left.\<close>

definition cp_inv :: "ChanPeeker \<Rightarrow> bool" where
  "cp_inv cp \<longleftrightarrow> (cp_closed cp \<longrightarrow> \<not> cp_peekok cp \<and> cp_Ch cp = [])"

lemma cp_Take_items:
  "cp_items (snd (cp_Take cp)) = tl (cp_items cp)"
  by (auto simp: cp_Take_def cp_Peek_def cp_items_def split: list.splits)

lemma cp_Closed_items:
  "cp_items (snd (cp_Closed cp)) = cp_items cp"
  "fst (cp_Closed cp) \<longleftrightarrow> cp_items cp = []"
  by (auto simp: cp_Closed_def cp_Peek_def cp_items_def split: list.splits)

function cp_ConsumeAll :: "ChanPeeker \<Rightarrow> ChanPeeker" where
  "cp_ConsumeAll cp =
     (if \<not> fst (cp_Closed cp) then cp_ConsumeAll (snd (cp_Take (snd (cp_Closed cp))))
      else snd (cp_Closed cp))"
  by pat_completeness auto
termination
  by (relation "measure (\<lambda>cp. length (cp_items cp))")
    (auto simp: cp_Take_items cp_Closed_items)

declare cp_ConsumeAll.simps [simp del]

section \<open>Properties of fetchers and blobs\<close>

text \<open>The first fetcher that reports no error answers; the ones after it are not asked.\<close>

lemma serialFetch_first:
  assumes "f r w' = Ret ((file, sz, None), w'')"
    and "serialFetch_loop fs r cur w = Ret ((file', sz', Some e), w')"
  shows "serialFetch_loop (fs @ f # gs) r cur w = Ret ((file, sz, None), w'')"
  using assms(2)
proof (induction fs arbitrary: cur w)
  case Nil
  then show ?case using assms(1) by simp
next
  case (Cons g fs)
  then show ?case by (cases "g r w") (auto split: if_splits prod.splits)
qed

lemma FromReader_Inr_iff:
  "FromReader br r sz = Inr b \<longleftrightarrow>
     unat sz \<le> MaxBlobSize \<and> length (rd_data r) = unat sz \<and>
     b = \<lparr>blob_ref = br, blob_size = sz, blob_newReader = \<lambda>_. bytes_reader (rd_data r),
          blob_mem = Some (rd_data r)\<rparr>"
  by (auto simp: FromReader_def read_full_def NewBlob_def split: option.splits)

section \<open>Properties of ChanPeeker\<close>

lemma cp_items_new [simp]: "cp_items (newChanPeeker ch) = ch" and
  cp_inv_new [simp]: "cp_inv (newChanPeeker ch)"
  by (simp_all add: cp_items_def newChanPeeker_def cp_inv_def)

lemma cp_Peek_spec:
  assumes "cp_inv cp"
  shows "fst (cp_Peek cp) =
      (case cp_items cp of [] \<Rightarrow> (zeroSizedRef, False) | x # _ \<Rightarrow> (x, True))"
    and "cp_items (snd (cp_Peek cp)) = cp_items cp"
    and "cp_inv (snd (cp_Peek cp))"
    and "cp_closed (snd (cp_Peek cp)) \<or> cp_peekok (snd (cp_Peek cp))"
  using assms by (auto simp: cp_Peek_def cp_items_def cp_inv_def split: list.splits)

lemma cp_Take_spec:
  assumes "cp_inv cp"
  shows "fst (cp_Take cp) =
      (case cp_items cp of [] \<Rightarrow> (zeroSizedRef, False) | x # _ \<Rightarrow> (x, True))"
    and "cp_inv (snd (cp_Take cp))"
  using assms by (auto simp: cp_Take_def cp_Peek_def cp_items_def cp_inv_def split: list.splits)

lemma cp_MustPeek_spec:
  assumes "cp_inv cp" and "cp_items cp = x # xs"
  obtains cp' where "cp_MustPeek cp = Ret (x, cp')" and "cp_inv cp'" and "cp_items cp' = x # xs"
proof
  show "cp_MustPeek cp = Ret (x, snd (cp_Peek cp))"
    using cp_Peek_spec(1) [OF assms(1)] assms(2)
    by (auto simp: cp_MustPeek_def split: prod.splits)
qed (use assms cp_Peek_spec in auto)

lemma cp_MustTake_spec:
  assumes "cp_inv cp" and "cp_items cp = x # xs"
  obtains cp' where "cp_MustTake cp = Ret (x, cp')" and "cp_inv cp'" and "cp_items cp' = xs"
proof
  show "cp_MustTake cp = Ret (x, snd (cp_Take cp))"
    using cp_Take_spec(1) [OF assms(1)] assms(2)
    by (auto simp: cp_MustTake_def split: prod.splits)
qed (use assms cp_Take_spec cp_Take_items in auto)

lemma cp_Closed_inv: "cp_inv cp \<Longrightarrow> cp_inv (snd (cp_Closed cp))"
  by (auto simp: cp_Closed_def cp_Peek_def cp_inv_def split: list.splits)

lemma cp_ConsumeAll_drains:
  "cp_items (cp_ConsumeAll cp) = [] \<and> fst (cp_Closed (cp_ConsumeAll cp))"
proof (induction cp rule: cp_ConsumeAll.induct)
  case (1 cp)
  show ?case
  proof (cases "fst (cp_Closed cp)")
    case True
    then show ?thesis by (simp add: cp_ConsumeAll.simps [of cp] cp_Closed_items)
  next
    case False
    with 1 show ?thesis by (simp add: cp_ConsumeAll.simps [of cp])
  qed
qed

section \<open>Properties\<close>

text \<open>
  \<open>FromReader\<close> succeeds exactly if the source has as many bytes as announced and
  these are at most \<open>MaxBlobSize\<close>; the blob then holds the source's bytes.
\<close>

theorem FromReader_exact:
  "FromReader br r sz = Inr b \<longleftrightarrow>
     unat sz \<le> MaxBlobSize \<and> length (rd_data r) = unat sz \<and>
     b = \<lparr>blob_ref = br, blob_size = sz, blob_newReader = \<lambda>_. bytes_reader (rd_data r),
          blob_mem = Some (rd_data r)\<rparr>"
  by (rule FromReader_Inr_iff)

end
