(* ===== verification/SortedKV.thy ===== *)
theory SortedKV
  imports Prelude
begin

text \<open>
  Package \<open>pkg/sorted\<close>: the \<open>KeyValue\<close> interface with its iterators and batches (\<open>kv.go\<close>) and the
  in-memory implementation (\<open>mem.go\<close>).  The interface is the locale \<open>sorted_kv\<close>; the memory
  implementation is an interpretation of it.
\<close>

section \<open>Iterators, mutations and the KeyValue interface\<close>

text \<open>
  An \<open>Iterator\<close> delivers its remaining pairs one by one; \<open>Close\<close> returns the accumulated error.
  \<open>it_cur\<close> is the pair \<open>Next\<close> moved to.
\<close>

type_synonym kvpair = "string \<times> string"

record Iterator =
  it_rest :: "kvpair list"
  it_cur :: "kvpair option"
  it_closeErr :: "goerr option"

definition it_Next :: "Iterator \<Rightarrow> bool \<times> Iterator" where
  "it_Next it =
     (case it_rest it of
        [] \<Rightarrow> (False, it\<lparr>it_cur := None\<rparr>)
      | e # es \<Rightarrow> (True, it\<lparr>it_rest := es, it_cur := Some e\<rparr>))"

definition it_Key :: "Iterator \<Rightarrow> string" where
  "it_Key it = (case it_cur it of None \<Rightarrow> [] | Some e \<Rightarrow> fst e)"

definition it_Value :: "Iterator \<Rightarrow> string" where
  "it_Value it = (case it_cur it of None \<Rightarrow> [] | Some e \<Rightarrow> snd e)"

definition it_Close :: "Iterator \<Rightarrow> goerr option" where
  "it_Close it = it_closeErr it"

text \<open>\<open>mutation\<close> is one operation of a batch; \<open>value\<close> is used if it is not a deletion.\<close>

record mutation =
  mut_key :: string
  mut_value :: string
  mut_delete :: bool

record buf_mod =
  mod_isDelete :: bool
  mod_key :: string
  mod_value :: string

text \<open>
  The two concrete types behind the interface \<open>BatchMutation\<close>: the \<open>batch\<close> of package \<open>sorted\<close>
  and that of package \<open>buffer\<close>.
\<close>

datatype BatchMutation = KvBatch "mutation list" | BufBatch "buf_mod list"

definition NewBatchMutation :: BatchMutation where
  "NewBatchMutation = KvBatch []"

definition batch_Set :: "BatchMutation \<Rightarrow> string \<Rightarrow> string \<Rightarrow> BatchMutation" where
  "batch_Set b k v =
     (case b of
        KvBatch m \<Rightarrow> KvBatch (m @ [\<lparr>mut_key = k, mut_value = v, mut_delete = False\<rparr>])
      | BufBatch m \<Rightarrow> BufBatch (m @ [\<lparr>mod_isDelete = False, mod_key = k, mod_value = v\<rparr>]))"

definition batch_Delete :: "BatchMutation \<Rightarrow> string \<Rightarrow> BatchMutation" where
  "batch_Delete b k =
     (case b of
        KvBatch m \<Rightarrow> KvBatch (m @ [\<lparr>mut_key = k, mut_value = [], mut_delete = True\<rparr>])
      | BufBatch m \<Rightarrow> BufBatch (m @ [\<lparr>mod_isDelete = True, mod_key = k, mod_value = []\<rparr>]))"

text \<open>The methods of a \<open>KeyValue\<close> object acting on the world.\<close>

record 'w KeyValue =
  kv_Get :: "string \<Rightarrow> 'w \<Rightarrow> string \<times> goerr option"
  kv_Set :: "string \<Rightarrow> string \<Rightarrow> 'w \<Rightarrow> goerr option \<times> 'w"
  kv_Delete :: "string \<Rightarrow> 'w \<Rightarrow> goerr option \<times> 'w"
  kv_BeginBatch :: BatchMutation
  kv_CommitBatch :: "BatchMutation \<Rightarrow> 'w \<Rightarrow> goerr option \<times> 'w"
  kv_Find :: "string \<Rightarrow> string \<Rightarrow> 'w \<Rightarrow> Iterator"
  kv_Close :: "'w \<Rightarrow> goerr option \<times> 'w"

text \<open>The loop of \<open>ForeachInRange\<close>: \<open>fn\<close> is a callback with a state of its own.\<close>

function foreach_loop ::
  "Iterator \<Rightarrow> (string \<Rightarrow> string \<Rightarrow> 's \<Rightarrow> goerr option \<times> 's) \<Rightarrow> 's \<Rightarrow> goerr option \<times> 's" where
  "foreach_loop it fn s =
     (if fst (it_Next it) then
        let it' = snd (it_Next it);
            (err, s) = fn (it_Key it') (it_Value it') s
        in if err \<noteq> None then (err, s) else foreach_loop it' fn s
      else (it_Close (snd (it_Next it)), s))"
  by pat_completeness auto
termination
  by (relation "measure (\<lambda>(it, fn, s). length (it_rest it))")
    (auto simp: it_Next_def split: list.splits)

declare foreach_loop.simps [simp del]

definition ForeachInRange ::
  "'w KeyValue \<Rightarrow> string \<Rightarrow> string \<Rightarrow> (string \<Rightarrow> string \<Rightarrow> 's \<Rightarrow> goerr option \<times> 's) \<Rightarrow> 'w \<Rightarrow> 's
    \<Rightarrow> goerr option \<times> 's" where
  "ForeachInRange kv start end' fn w s = foreach_loop (kv_Find kv start end' w) fn s"

definition Foreach ::
  "'w KeyValue \<Rightarrow> (string \<Rightarrow> string \<Rightarrow> 's \<Rightarrow> goerr option \<times> 's) \<Rightarrow> 'w \<Rightarrow> 's
    \<Rightarrow> goerr option \<times> 's" where
  "Foreach kv fn w s = ForeachInRange kv [] [] fn w s"

section \<open>The memory implementation\<close>

text \<open>
  The ordered map under \<open>memKeys\<close> is the vendored package \<open>leveldb/memdb\<close>, a skip list behind the
  interface \<open>leveldb/db.DB\<close>.  It is used through that interface only; the four functions below
  state the interface's documented behaviour on the strictly sorted list of live pairs:
  \<open>Get\<close> and \<open>Delete\<close> of an absent key return \<open>db.ErrNotFound\<close> (here \<open>ErrDBNotFound\<close>), \<open>Find\<close> iterates in key order
  from the first key not below the given one.
\<close>

type_synonym memdb = "kvpair list"

definition db_Get :: "string \<Rightarrow> memdb \<Rightarrow> string option" where
  "db_Get k d = map_of d k"

fun db_Set :: "string \<Rightarrow> string \<Rightarrow> memdb \<Rightarrow> memdb" where
  "db_Set k v [] = [(k, v)]"
| "db_Set k v ((k', v') # d) =
     (if k < k' then (k, v) # (k', v') # d
      else if k = k' then (k, v) # d
      else (k', v') # db_Set k v d)"

definition db_Delete :: "string \<Rightarrow> memdb \<Rightarrow> goerr option \<times> memdb" where
  "db_Delete k d =
     (if map_of d k = None then (Some ErrDBNotFound, d)
      else (None, filter (\<lambda>e. fst e \<noteq> k) d))"

definition db_Find :: "string \<Rightarrow> memdb \<Rightarrow> kvpair list" where
  "db_Find start d = dropWhile (\<lambda>e. fst e < start) d"

text \<open>
  \<open>memIter\<close> wraps the iterator of the database.  The fields \<open>k\<close> and \<open>v\<close> of the source cache the
  string form of the current pair and are not part of its meaning.
\<close>

record memIter =
  mi_lit :: "kvpair list"
  mi_cur :: "kvpair option"
  mi_end :: string

definition mi_Next :: "memIter \<Rightarrow> bool \<times> memIter" where
  "mi_Next t =
     (case mi_lit t of
        [] \<Rightarrow> (False, t\<lparr>mi_cur := None\<rparr>)
      | e # es \<Rightarrow>
          (let t = t\<lparr>mi_lit := es, mi_cur := Some e\<rparr>
           in if length (mi_end t) > 0 \<and> \<not> fst e < mi_end t then (False, t) else (True, t)))"

text \<open>The pairs on which \<open>Next\<close> stops with true, in order.\<close>

function mi_drain :: "memIter \<Rightarrow> kvpair list" where
  "mi_drain t =
     (if fst (mi_Next t) then the (mi_cur (snd (mi_Next t))) # mi_drain (snd (mi_Next t)) else [])"
  by pat_completeness auto
termination
  by (relation "measure (\<lambda>t. length (mi_lit t))")
    (auto simp: mi_Next_def Let_def split: list.splits if_splits)

declare mi_drain.simps [simp del]

definition mk_Get :: "string \<Rightarrow> memdb \<Rightarrow> string \<times> goerr option" where
  "mk_Get key db =
     (case db_Get key db of None \<Rightarrow> ([], Some ErrNotFound) | Some v \<Rightarrow> (v, None))"

definition mk_FindIter :: "string \<Rightarrow> string \<Rightarrow> memdb \<Rightarrow> memIter" where
  "mk_FindIter start end' db = \<lparr>mi_lit = db_Find start db, mi_cur = None, mi_end = end'\<rparr>"

definition mk_Find :: "string \<Rightarrow> string \<Rightarrow> memdb \<Rightarrow> Iterator" where
  "mk_Find start end' db =
     \<lparr>it_rest = mi_drain (mk_FindIter start end' db), it_cur = None, it_closeErr = None\<rparr>"

definition mk_Set :: "string \<Rightarrow> string \<Rightarrow> memdb \<Rightarrow> goerr option \<times> memdb" where
  "mk_Set key value db = (None, db_Set key value db)"

definition mk_Delete :: "string \<Rightarrow> memdb \<Rightarrow> goerr option \<times> memdb" where
  "mk_Delete key db =
     (let (err, db) = db_Delete key db
      in if err = Some ErrDBNotFound then (None, db) else (err, db))"

text \<open>The loop of \<open>CommitBatch\<close>; unlike \<open>Delete\<close> it returns every error of the database.\<close>

fun mk_commit_loop :: "mutation list \<Rightarrow> memdb \<Rightarrow> goerr option \<times> memdb" where
  "mk_commit_loop [] db = (None, db)"
| "mk_commit_loop (m # ms) db =
     (if mut_delete m then
        let (err, db) = db_Delete (mut_key m) db
        in if err \<noteq> None then (err, db) else mk_commit_loop ms db
      else mk_commit_loop ms (db_Set (mut_key m) (mut_value m) db))"

definition mk_CommitBatch :: "BatchMutation \<Rightarrow> memdb \<Rightarrow> goerr option \<times> memdb" where
  "mk_CommitBatch bm db =
     (case bm of
        KvBatch ms \<Rightarrow> mk_commit_loop ms db
      | BufBatch _ \<Rightarrow>
          (Some (ErrText ''invalid batch type; not an instance returned by BeginBatch''), db))"

definition memKeys :: "memdb KeyValue" where
  "memKeys =
     \<lparr>kv_Get = mk_Get, kv_Set = mk_Set, kv_Delete = mk_Delete, kv_BeginBatch = KvBatch [],
      kv_CommitBatch = mk_CommitBatch, kv_Find = mk_Find, kv_Close = \<lambda>db. (None, db)\<rparr>"

definition NewMemoryKeyValue :: memdb where
  "NewMemoryKeyValue = []"

section \<open>The interface as a locale\<close>

text \<open>The meaning of a batch on the abstract map, and the batches whose deletions all hit.\<close>

fun apply_muts :: "mutation list \<Rightarrow> (string \<rightharpoonup> string) \<Rightarrow> (string \<rightharpoonup> string)" where
  "apply_muts [] m = m"
| "apply_muts (u # us) m =
     apply_muts us (if mut_delete u then m(mut_key u := None) else m(mut_key u \<mapsto> mut_value u))"

fun deletes_hit :: "mutation list \<Rightarrow> (string \<rightharpoonup> string) \<Rightarrow> bool" where
  "deletes_hit [] m = True"
| "deletes_hit (u # us) m =
     ((mut_delete u \<longrightarrow> m (mut_key u) \<noteq> None) \<and>
      deletes_hit us (if mut_delete u then m(mut_key u := None) else m(mut_key u \<mapsto> mut_value u)))"

definition in_range :: "string \<Rightarrow> string \<Rightarrow> string \<Rightarrow> bool" where
  "in_range start end' k \<longleftrightarrow> start \<le> k \<and> (end' = [] \<or> k < end')"

lemma sorted_map_of_unique:
  fixes xs ys :: "('a::linorder \<times> 'b::linorder) list"
  assumes "sorted_wrt (<) (map fst xs)" and "sorted_wrt (<) (map fst ys)" and "map_of xs = map_of ys"
  shows "xs = ys"
proof -
  have pairs: "sorted_wrt (<) zs" if "sorted_wrt (<) (map fst zs)" for zs :: "('a \<times> 'b) list"
    using that unfolding sorted_wrt_map
    by (rule sorted_wrt_mono_rel [rotated]) (auto simp: less_prod_def')
  have "distinct (map fst xs)" "distinct (map fst ys)"
    using assms(1,2) by (simp_all add: strict_sorted_iff)
  then have "set xs = set ys" using assms(3) by (metis map_of_inject_set)
  with pairs [OF assms(1)] pairs [OF assms(2)] show ?thesis by (rule strict_sorted_eqI)
qed

lemma foreach_loop_total:
  assumes "\<And>k v s. fst (fn k v s) = None"
  shows "foreach_loop it fn s = (it_closeErr it, fold (\<lambda>(k, v) s. snd (fn k v s)) (it_rest it) s)"
proof (induction "it_rest it" arbitrary: it s)
  case Nil
  then show ?case by (subst foreach_loop.simps) (auto simp: it_Next_def it_Close_def)
next
  case (Cons e es)
  let ?it = "it\<lparr>it_rest := es, it_cur := Some e\<rparr>"
  have "it_Next it = (True, ?it)" using Cons.hyps(2) [symmetric] by (simp add: it_Next_def)
  moreover have "fn (fst e) (snd e) s = (None, snd (fn (fst e) (snd e) s))"
    using assms by (metis prod.collapse)
  ultimately have "foreach_loop it fn s = foreach_loop ?it fn (snd (fn (fst e) (snd e) s))"
    by (subst foreach_loop.simps) (auto simp: it_Key_def it_Value_def split: prod.splits)
  then show ?case
    using Cons.hyps(1) [of ?it] Cons.hyps(2) [symmetric] by (simp add: case_prod_beta)
qed

text \<open>
  The documented contract of \<open>KeyValue\<close>.  A batch is guaranteed only if its deletions hit
  present keys: the memory implementation fails on others.
\<close>

locale sorted_kv =
  fixes kv :: "'w KeyValue"
    and m :: "'w \<Rightarrow> string \<rightharpoonup> string"
    and inv :: "'w \<Rightarrow> bool"
  assumes Get: "inv w \<Longrightarrow>
      kv_Get kv k w = (case m w k of None \<Rightarrow> ([], Some ErrNotFound) | Some v \<Rightarrow> (v, None))"
    and Set: "inv w \<Longrightarrow> \<exists>w'. kv_Set kv k v w = (None, w') \<and> inv w' \<and> m w' = (m w)(k \<mapsto> v)"
    and Delete: "inv w \<Longrightarrow> \<exists>w'. kv_Delete kv k w = (None, w') \<and> inv w' \<and> m w' = (m w)(k := None)"
    and BeginBatch: "kv_BeginBatch kv = KvBatch []"
    and Commit: "inv w \<Longrightarrow> deletes_hit us (m w) \<Longrightarrow>
      \<exists>w'. kv_CommitBatch kv (KvBatch us) w = (None, w') \<and> inv w' \<and> m w' = apply_muts us (m w)"
    and Find_sorted: "inv w \<Longrightarrow> sorted_wrt (<) (map fst (it_rest (kv_Find kv start end' w)))"
    and Find_map: "inv w \<Longrightarrow>
      map_of (it_rest (kv_Find kv start end' w)) = m w |` {k. in_range start end' k}"
    and Find_fresh: "inv w \<Longrightarrow>
      it_cur (kv_Find kv start end' w) = None \<and> it_closeErr (kv_Find kv start end' w) = None"
begin

lemma Find_distinct: "inv w \<Longrightarrow> distinct (map fst (it_rest (kv_Find kv start end' w)))"
  using Find_sorted by (simp add: strict_sorted_iff)

text \<open>The iterator is determined by the abstract map: stores with the same map iterate alike.\<close>

lemma Find_unique:
  assumes "inv w" and "inv w'" and "m w = m w'"
  shows "it_rest (kv_Find kv start end' w) = it_rest (kv_Find kv start end' w')"
  using assms Find_sorted Find_map by (intro sorted_map_of_unique) auto

text \<open>A pair is delivered exactly if it is stored and its key lies in the range.\<close>

lemma Find_mem:
  assumes "inv w"
  shows "(k, v) \<in> set (it_rest (kv_Find kv start end' w)) \<longleftrightarrow> m w k = Some v \<and> in_range start end' k"
  using map_of_eq_Some_iff [OF Find_distinct [OF assms], of start end' k v] Find_map [OF assms]
  by (auto simp: restrict_map_def split: if_splits)

text \<open>\<open>Foreach\<close> over a callback that never fails visits the pairs in key order.\<close>

lemma ForeachInRange_fold:
  assumes "inv w" and "\<And>k v s. fst (fn k v s) = None"
  shows "ForeachInRange kv start end' fn w s =
    (None, fold (\<lambda>(k, v) s. snd (fn k v s)) (it_rest (kv_Find kv start end' w)) s)"
  using foreach_loop_total [OF assms(2)] Find_fresh [OF assms(1)]
  by (simp add: ForeachInRange_def it_Close_def)

end

section \<open>The memory implementation meets the interface\<close>

definition mk_inv :: "memdb \<Rightarrow> bool" where
  "mk_inv d \<longleftrightarrow> sorted_wrt (<) (map fst d)"

lemma set_db_Set: "fst ` set (db_Set k v d) = insert k (fst ` set d)"
  by (induction k v d rule: db_Set.induct) auto

lemma mk_inv_db_Set: "mk_inv d \<Longrightarrow> mk_inv (db_Set k v d)"
proof (induction k v d rule: db_Set.induct)
  case (2 k v k' v' d)
  then show ?case using set_db_Set [of k v d] by (auto simp: mk_inv_def)
qed (simp add: mk_inv_def)

lemma map_of_db_Set [kv_simps]: "mk_inv d \<Longrightarrow> map_of (db_Set k v d) = (map_of d)(k \<mapsto> v)"
proof (induction k v d rule: db_Set.induct)
  case (2 k v k' v' d)
  have "mk_inv d" using "2.prems" by (simp add: mk_inv_def)
  with 2 show ?case by (auto simp: fun_upd_twist)
qed simp

lemma map_of_filter_keys: "map_of (filter (\<lambda>e. P (fst e)) d) = map_of d |` {k. P k}"
  by (induction d) (auto simp: restrict_map_def fun_eq_iff)

lemma mk_inv_filter: "mk_inv d \<Longrightarrow> mk_inv (filter P d)"
  by (induction d) (auto simp: mk_inv_def)

lemma db_Delete_absent: "map_of d k = None \<Longrightarrow> db_Delete k d = (Some ErrDBNotFound, d)"
  by (simp add: db_Delete_def)

lemma db_Delete_present:
  assumes "mk_inv d" and "map_of d k \<noteq> None"
  shows "\<exists>d'. db_Delete k d = (None, d') \<and> mk_inv d' \<and> map_of d' = (map_of d)(k := None)"
  using assms mk_inv_filter
  by (auto simp: db_Delete_def map_of_filter_keys [where P = "\<lambda>k'. k' \<noteq> k"] restrict_map_def fun_eq_iff)

lemma mk_commit_loop_ok:
  assumes "mk_inv d" and "deletes_hit us (map_of d)"
  shows "\<exists>d'. mk_commit_loop us d = (None, d') \<and> mk_inv d' \<and> map_of d' = apply_muts us (map_of d)"
  using assms
proof (induction us arbitrary: d)
  case (Cons u us)
  show ?case
  proof (cases "mut_delete u")
    case True
    with Cons.prems obtain d' where d': "db_Delete (mut_key u) d = (None, d')" "mk_inv d'"
      and m: "map_of d' = (map_of d)(mut_key u := None)"
      using db_Delete_present [of d "mut_key u"] by auto
    have "deletes_hit us (map_of d')" using Cons.prems(2) True unfolding m by simp
    from Cons.IH [OF d'(2) this] obtain e where
      "mk_commit_loop us d' = (None, e)" "mk_inv e" "map_of e = apply_muts us (map_of d')" by blast
    then show ?thesis using True d'(1) by (intro exI [of _ e]) (simp add: m [symmetric])
  next
    case False
    let ?d = "db_Set (mut_key u) (mut_value u) d"
    have m: "map_of ?d = (map_of d)(mut_key u \<mapsto> mut_value u)"
      using Cons.prems(1) by (rule map_of_db_Set)
    have "deletes_hit us (map_of ?d)" using Cons.prems(2) False by (simp only: m) simp
    from Cons.IH [OF mk_inv_db_Set [OF Cons.prems(1)] this] obtain e where
      "mk_commit_loop us ?d = (None, e)" "mk_inv e" "map_of e = apply_muts us (map_of ?d)" by blast
    then show ?thesis using False by (intro exI [of _ e]) (simp add: m [symmetric])
  qed
qed simp

lemma mi_drain_takeWhile:
  "mi_drain t = takeWhile (\<lambda>e. mi_end t = [] \<or> fst e < mi_end t) (mi_lit t)"
proof (induction t rule: mi_drain.induct)
  case (1 t)
  then show ?case
    by (subst mi_drain.simps) (auto simp: mi_Next_def Let_def split: list.splits if_splits)
qed

lemma dropWhile_sorted: "mk_inv d \<Longrightarrow> dropWhile (\<lambda>e. fst e < s) d = filter (\<lambda>e. s \<le> fst e) d"
  by (induction d) (auto simp: mk_inv_def filter_id_conv intro!: filter_True [symmetric])

lemma takeWhile_sorted:
  "mk_inv d \<Longrightarrow> takeWhile (\<lambda>e. fst e < s) d = filter (\<lambda>e. fst e < s) d"
  by (induction d) (auto simp: mk_inv_def filter_empty_conv eq_commute [of "[]"])

lemma mk_Find_filter:
  assumes "mk_inv d"
  shows "it_rest (mk_Find start end' d) = filter (\<lambda>e. in_range start end' (fst e)) d"
proof (cases "end' = []")
  case True
  with assms show ?thesis
    by (simp add: mk_Find_def mi_drain_takeWhile mk_FindIter_def db_Find_def dropWhile_sorted
        in_range_def takeWhile_eq_all_conv [THEN iffD2])
next
  case False
  with assms show ?thesis
    by (simp add: mk_Find_def mi_drain_takeWhile mk_FindIter_def db_Find_def dropWhile_sorted
        takeWhile_sorted mk_inv_filter in_range_def conj_commute)
qed

interpretation mem: sorted_kv memKeys map_of mk_inv
proof unfold_locales
  show "\<And>w k. mk_inv w \<Longrightarrow> kv_Get memKeys k w =
      (case map_of w k of None \<Rightarrow> ([], Some ErrNotFound) | Some v \<Rightarrow> (v, None))"
    by (simp add: memKeys_def mk_Get_def db_Get_def)
  show "\<And>w k v. mk_inv w \<Longrightarrow>
      \<exists>w'. kv_Set memKeys k v w = (None, w') \<and> mk_inv w' \<and> map_of w' = (map_of w)(k \<mapsto> v)"
    by (simp add: memKeys_def mk_Set_def mk_inv_db_Set map_of_db_Set)
  show "\<exists>w'. kv_Delete memKeys k w = (None, w') \<and> mk_inv w' \<and> map_of w' = (map_of w)(k := None)"
    if "mk_inv w" for w k
  proof (cases "map_of w k")
    case None
    then show ?thesis
      using that by (auto simp: memKeys_def mk_Delete_def db_Delete_absent)
  next
    case (Some v)
    then show ?thesis
      using db_Delete_present [OF that, of k] by (auto simp: memKeys_def mk_Delete_def)
  qed
  show "kv_BeginBatch memKeys = KvBatch []" by (simp add: memKeys_def)
  show "\<And>w us. mk_inv w \<Longrightarrow> deletes_hit us (map_of w) \<Longrightarrow>
      \<exists>w'. kv_CommitBatch memKeys (KvBatch us) w = (None, w') \<and> mk_inv w' \<and>
           map_of w' = apply_muts us (map_of w)"
    by (simp add: memKeys_def mk_CommitBatch_def mk_commit_loop_ok)
  show "\<And>w start end'. mk_inv w \<Longrightarrow> sorted_wrt (<) (map fst (it_rest (kv_Find memKeys start end' w)))"
    using mk_inv_filter by (simp add: memKeys_def mk_Find_filter mk_inv_def)
  show "\<And>w start end'. mk_inv w \<Longrightarrow>
      map_of (it_rest (kv_Find memKeys start end' w)) = map_of w |` {k. in_range start end' k}"
    by (simp add: memKeys_def mk_Find_filter map_of_filter_keys)
  show "\<And>w start end'. mk_inv w \<Longrightarrow>
      it_cur (kv_Find memKeys start end' w) = None \<and> it_closeErr (kv_Find memKeys start end' w) = None"
    by (simp add: memKeys_def mk_Find_def)
qed

section \<open>Properties\<close>



text \<open>
  C35 [kv_batch].  A batch whose deletions all hit present keys is applied in order; but a batch that
  deletes an absent key stops there with the database's \<open>db.ErrNotFound\<close>, having applied only the mutations before it.
\<close>

theorem memKeys_CommitBatch:
  assumes "mk_inv d" and "deletes_hit us (map_of d)"
  shows "(\<exists>d'. mk_CommitBatch (KvBatch us) d = (None, d') \<and> mk_inv d' \<and> map_of d' = apply_muts us (map_of d)) \<and>
    (apply_muts us (map_of d) k = None \<longrightarrow>
      (\<exists>d'. mk_CommitBatch (KvBatch (us @ \<lparr>mut_key = k, mut_value = [], mut_delete = True\<rparr> # vs)) d =
        (Some ErrDBNotFound, d') \<and> map_of d' = apply_muts us (map_of d)))"
proof -
  obtain d' where d': "mk_commit_loop us d = (None, d')" "mk_inv d'" "map_of d' = apply_muts us (map_of d)"
    using mk_commit_loop_ok [OF assms] by blast
  have "mk_commit_loop (us @ ws) d = mk_commit_loop ws d'" for ws
    using d'(1) by (induction us arbitrary: d) (auto split: if_splits prod.splits)
  with d' show ?thesis by (auto simp: mk_CommitBatch_def db_Delete_absent)
qed

theorem memKeys_CommitBatch_witness:
  "\<exists>d'. mk_CommitBatch (KvBatch ([] @ [\<lparr>mut_key = ''a'', mut_value = [], mut_delete = True\<rparr>])) [] =
    (Some ErrDBNotFound, d') \<and> map_of d' = Map.empty"
  using memKeys_CommitBatch [of "[]" "[]" "''a''" "[]"] by (simp add: mk_inv_def)

end
