(* ===== verification/SortedBuffer.thy ===== *)
theory SortedBuffer
  imports SortedKV
begin

text \<open>
  Package \<open>pkg/sorted/buffer\<close>: a \<open>KeyValue\<close> that buffers writes in one \<open>KeyValue\<close> in front of
  another.  Its contract is that of one map, the backing map overridden by the buffer; the
  locale \<open>kv_pair\<close> states what the buffer relies on, two stores that do not disturb each other.
\<close>

section \<open>The buffering store\<close>

text \<open>
  \<open>buf\<close>, \<open>back\<close> and \<open>maxBuffer\<close> never change; the mutable field \<open>buffered\<close> is the second
  component of the state.  It counts bytes and is modelled as an unbounded integer.
\<close>

record 'w bufferKV =
  bkv_buf :: "'w KeyValue"
  bkv_back :: "'w KeyValue"
  bkv_maxBuffer :: int

definition bkv_New :: "'w KeyValue \<Rightarrow> 'w KeyValue \<Rightarrow> int \<Rightarrow> 'w bufferKV" where
  "bkv_New buffer backing maxBufferBytes =
     \<lparr>bkv_buf = buffer, bkv_back = backing, bkv_maxBuffer = maxBufferBytes\<rparr>"

definition bkv_Flush :: "'w bufferKV \<Rightarrow> 'w \<times> int \<Rightarrow> goerr option \<times> ('w \<times> int)" where
  "bkv_Flush kv = (\<lambda>(w, buffered).
     let (err, (bmback, bmbuf, commit)) =
           foreach_loop (kv_Find (bkv_buf kv) [] [] w)
             (\<lambda>k v (bmback, bmbuf, commit).
               (None, (batch_Set bmback k v, batch_Delete bmbuf k, True)))
             (kv_BeginBatch (bkv_back kv), kv_BeginBatch (bkv_buf kv), False)
     in if err \<noteq> None then (err, (w, buffered))
        else if commit then
          let (err, w) = kv_CommitBatch (bkv_back kv) bmback w
          in if err \<noteq> None then (err, (w, buffered))
             else
               let (err, w) = kv_CommitBatch (bkv_buf kv) bmbuf w
               in if err \<noteq> None then (err, (w, buffered)) else (None, (w, 0))
        else (None, (w, buffered)))"

definition bkv_Get :: "'w bufferKV \<Rightarrow> string \<Rightarrow> 'w \<times> int \<Rightarrow> string \<times> goerr option" where
  "bkv_Get kv key = (\<lambda>(w, buffered).
     let (v, err) = kv_Get (bkv_buf kv) key w
     in case err of
          None \<Rightarrow> (v, None)
        | Some e \<Rightarrow> if e = ErrNotFound then kv_Get (bkv_back kv) key w else ([], Some e))"

definition bkv_Set ::
  "'w bufferKV \<Rightarrow> string \<Rightarrow> string \<Rightarrow> 'w \<times> int \<Rightarrow> goerr option \<times> ('w \<times> int)" where
  "bkv_Set kv key value = (\<lambda>(w, buffered).
     let (err, w) = kv_Set (bkv_buf kv) key value w
     in if err = None then
          let buffered = buffered + int (length key + length value);
              doFlush = (buffered > bkv_maxBuffer kv)
          in if doFlush then bkv_Flush kv (w, buffered) else (None, (w, buffered))
        else (err, (w, buffered)))"

definition bkv_Delete :: "'w bufferKV \<Rightarrow> string \<Rightarrow> 'w \<times> int \<Rightarrow> goerr option \<times> ('w \<times> int)" where
  "bkv_Delete kv key = (\<lambda>(w, buffered).
     let (err1, w) = kv_Delete (bkv_buf kv) key w;
         (err2, w) = kv_Delete (bkv_back kv) key w
     in if err1 \<noteq> None then (err1, (w, buffered)) else (err2, (w, buffered)))"

definition bkv_BeginBatch :: BatchMutation where
  "bkv_BeginBatch = BufBatch []"

text \<open>The loop of \<open>CommitBatch\<close>; \<open>bmback\<close> is nil until the first deletion.\<close>

fun bkv_commit_loop ::
  "'w bufferKV \<Rightarrow> buf_mod list \<Rightarrow> BatchMutation \<Rightarrow> BatchMutation option
    \<Rightarrow> BatchMutation \<times> BatchMutation option" where
  "bkv_commit_loop kv [] bmbuf bmback = (bmbuf, bmback)"
| "bkv_commit_loop kv (m # ms) bmbuf bmback =
     (if mod_isDelete m then
        let bmbuf = batch_Delete bmbuf (mod_key m);
            b = (case bmback of None \<Rightarrow> kv_BeginBatch (bkv_back kv) | Some b \<Rightarrow> b)
        in bkv_commit_loop kv ms bmbuf (Some (batch_Delete b (mod_key m)))
      else bkv_commit_loop kv ms (batch_Set bmbuf (mod_key m) (mod_value m)) bmback)"

definition bkv_CommitBatch ::
  "'w bufferKV \<Rightarrow> BatchMutation \<Rightarrow> 'w \<times> int \<Rightarrow> goerr option \<times> ('w \<times> int)" where
  "bkv_CommitBatch kv bm = (\<lambda>(w, buffered).
     case bm of
       KvBatch _ \<Rightarrow> (Some (ErrText ''unexpected BatchMutation type''), (w, buffered))
     | BufBatch mods \<Rightarrow>
         (let (bmbuf, bmback) = bkv_commit_loop kv mods (kv_BeginBatch (bkv_buf kv)) None;
              (err, w) = kv_CommitBatch (bkv_buf kv) bmbuf w
          in if err \<noteq> None then (err, (w, buffered))
             else
               case bmback of
                 None \<Rightarrow> (None, (w, buffered))
               | Some b \<Rightarrow>
                   (let (err, w) = kv_CommitBatch (bkv_back kv) b w in (err, (w, buffered)))))"

definition bkv_Close :: "'w bufferKV \<Rightarrow> 'w \<times> int \<Rightarrow> goerr option \<times> ('w \<times> int)" where
  "bkv_Close kv = (\<lambda>s.
     let (err, (w, buffered)) = bkv_Flush kv s
     in if err \<noteq> None then (err, (w, buffered))
        else let (err, w) = kv_Close (bkv_back kv) w in (err, (w, buffered)))"

section \<open>The merging iterator\<close>

record subIter =
  si_it :: Iterator
  si_key :: string
  si_eof :: bool

record iter =
  i_buf :: subIter
  i_back :: subIter

definition si_next :: "subIter \<Rightarrow> bool \<times> subIter" where
  "si_next s =
     (let (ok, it) = it_Next (si_it s)
      in if ok then (True, s\<lparr>si_it := it, si_key := it_Key it\<rparr>)
         else (False, s\<lparr>si_it := it, si_eof := True\<rparr>))"

definition iter_current :: "iter \<Rightarrow> subIter" where
  "iter_current it =
     (if si_eof (i_back it) then i_buf it
      else if si_eof (i_buf it) then i_back it
      else if si_key (i_buf it) \<le> si_key (i_back it) then i_buf it
      else i_back it)"

definition iter_Next :: "iter \<Rightarrow> bool \<times> iter" where
  "iter_Next it =
     (let (start, it) =
            (if si_key (i_buf it) = [] \<and> \<not> si_eof (i_buf it)
             then let (b, s) = si_next (i_buf it) in (b, it\<lparr>i_buf := s\<rparr>)
             else (False, it));
          (start, it) =
            (if si_key (i_back it) = [] \<and> \<not> si_eof (i_buf it)
             then let (b, s) = si_next (i_back it) in (b \<or> start, it\<lparr>i_back := s\<rparr>)
             else (start, it))
      in if start then (True, it)
         else if si_eof (i_buf it) \<and> si_eof (i_back it) then (False, it)
         else if si_eof (i_buf it)
         then let (b, s) = si_next (i_back it) in (b, it\<lparr>i_back := s\<rparr>)
         else if si_eof (i_back it)
         then let (b, s) = si_next (i_buf it) in (b, it\<lparr>i_buf := s\<rparr>)
         else if si_key (i_buf it) < si_key (i_back it)
         then (True, it\<lparr>i_buf := snd (si_next (i_buf it))\<rparr>)
         else if si_key (i_buf it) > si_key (i_back it)
         then (True, it\<lparr>i_back := snd (si_next (i_back it))\<rparr>)
         else
           let (n1, s1) = si_next (i_buf it);
               (n2, s2) = si_next (i_back it);
               it = it\<lparr>i_buf := s1, i_back := s2\<rparr>
           in if \<not> n1 \<and> \<not> n2 then (False, it) else (True, it))"

definition iter_Key :: "iter \<Rightarrow> string" where
  "iter_Key it = si_key (iter_current it)"

definition iter_Value :: "iter \<Rightarrow> string" where
  "iter_Value it = it_Value (si_it (iter_current it))"

definition iter_Close :: "iter \<Rightarrow> goerr option" where
  "iter_Close it =
     (let err1 = it_Close (si_it (i_buf it));
          err2 = it_Close (si_it (i_back it))
      in if err1 \<noteq> None then err1 else err2)"

definition bkv_Find :: "'w bufferKV \<Rightarrow> string \<Rightarrow> string \<Rightarrow> 'w \<times> int \<Rightarrow> iter" where
  "bkv_Find kv start end' = (\<lambda>(w, buffered).
     \<lparr>i_buf = \<lparr>si_it = kv_Find (bkv_buf kv) start end' w, si_key = [], si_eof = False\<rparr>,
      i_back = \<lparr>si_it = kv_Find (bkv_back kv) start end' w, si_key = [], si_eof = False\<rparr>\<rparr>)"

text \<open>
  What a client that calls \<open>Next\<close> until it returns false sees: the pairs
  \<open>Key()\<close>, \<open>Value()\<close> after each call.  Each successful call consumes an item or ends a side.
\<close>

definition iter_measure :: "iter \<Rightarrow> nat" where
  "iter_measure it =
     length (it_rest (si_it (i_buf it))) + length (it_rest (si_it (i_back it)))
     + (if si_eof (i_buf it) then 0 else 1) + (if si_eof (i_back it) then 0 else 1)"

lemma iter_Next_decreases: "fst (iter_Next it) \<Longrightarrow> iter_measure (snd (iter_Next it)) < iter_measure it"
  by (auto simp: iter_Next_def iter_measure_def si_next_def it_Next_def Let_def
      split: if_splits list.splits prod.splits)

function iter_drain :: "iter \<Rightarrow> kvpair list" where
  "iter_drain it =
     (if fst (iter_Next it)
      then (iter_Key (snd (iter_Next it)), iter_Value (snd (iter_Next it)))
           # iter_drain (snd (iter_Next it))
      else [])"
  by pat_completeness auto
termination
  by (relation "measure iter_measure") (auto simp: iter_Next_decreases)

declare iter_drain.simps [simp del]


section \<open>The iterator merges\<close>

text \<open>The specification: merge by key, the buffer's pair winning on equal keys.\<close>

fun kv_merge :: "kvpair list \<Rightarrow> kvpair list \<Rightarrow> kvpair list" where
  "kv_merge [] ys = ys"
| "kv_merge xs [] = xs"
| "kv_merge (x # xs) (y # ys) =
     (if fst x < fst y then x # kv_merge xs (y # ys)
      else if fst y < fst x then y # kv_merge (x # xs) ys
      else x # kv_merge xs ys)"

lemma kv_merge_Nil2 [simp]: "kv_merge xs [] = xs"
  by (cases xs) auto

lemma set_kv_merge_keys: "fst ` set (kv_merge xs ys) = fst ` set xs \<union> fst ` set ys"
proof (induction xs ys rule: kv_merge.induct)
  case (3 x xs y ys)
  consider "fst x < fst y" | "fst y < fst x" | "fst x = fst y" by force
  then show ?case using 3 by cases auto
qed auto

lemma sorted_kv_merge:
  assumes "sorted_wrt (<) (map fst xs)" and "sorted_wrt (<) (map fst ys)"
  shows "sorted_wrt (<) (map fst (kv_merge xs ys))"
  using assms
proof (induction xs ys rule: kv_merge.induct)
  case (3 x xs y ys)
  consider "fst x < fst y" | "fst y < fst x" | "fst x = fst y" by force
  then show ?case
  proof cases
    case 1
    have "\<forall>k \<in> fst ` set (kv_merge xs (y # ys)). fst x < k"
      unfolding set_kv_merge_keys using 1 "3.prems" by auto
    with 1 3 show ?thesis by auto
  next
    case 2
    have "\<forall>k \<in> fst ` set (kv_merge (x # xs) ys). fst y < k"
      unfolding set_kv_merge_keys using 2 "3.prems" by auto
    with 2 3 show ?thesis by auto
  next
    case eq: 3
    have "\<forall>k \<in> fst ` set (kv_merge xs ys). fst x < k"
      unfolding set_kv_merge_keys using eq "3.prems" by auto
    with eq 3 show ?thesis by auto
  qed
qed auto

lemma map_of_kv_merge:
  assumes "sorted_wrt (<) (map fst xs)" and "sorted_wrt (<) (map fst ys)"
  shows "map_of (kv_merge xs ys) = map_of ys ++ map_of xs"
  using assms
proof (induction xs ys rule: kv_merge.induct)
  case (3 x xs y ys)
  have notin: "map_of zs (fst z) = None" if "\<forall>e\<in>set zs. fst z < fst e" for z and zs :: "kvpair list"
    using that by (auto simp: map_of_eq_None_iff)
  consider "fst x < fst y" | "fst y < fst x" | "fst x = fst y" by force
  then show ?case
  proof cases
    case 1
    then show ?thesis using 3 by (simp add: fun_eq_iff map_add_def)
  next
    case 2
    then have "map_of (x # xs) (fst y) = None" using "3.prems" by (intro notin) auto
    with 2 3 show ?thesis by (auto simp: fun_eq_iff map_add_def split: option.splits)
  next
    case eq: 3
    then show ?thesis using 3 by (auto simp: fun_eq_iff map_add_def split: option.splits)
  qed
qed auto

text \<open>A sub-iterator that stands on the first of the pairs \<open>xs\<close>, or has ended.\<close>

definition si_at :: "subIter \<Rightarrow> kvpair list \<Rightarrow> bool" where
  "si_at s xs =
     (case xs of
        [] \<Rightarrow> si_eof s \<and> it_rest (si_it s) = []
      | x # xs' \<Rightarrow>
          \<not> si_eof s \<and> si_key s = fst x \<and> it_cur (si_it s) = Some x \<and> it_rest (si_it s) = xs')"

lemma si_next_at: "si_at s xs \<Longrightarrow> fst (si_next s) = (tl xs \<noteq> []) \<and> si_at (snd (si_next s)) (tl xs)"
  by (auto simp: si_at_def si_next_def it_Next_def it_Key_def split: list.splits)

fun kv_advance :: "kvpair list \<Rightarrow> kvpair list \<Rightarrow> kvpair list \<times> kvpair list" where
  "kv_advance [] ys = ([], tl ys)"
| "kv_advance xs [] = (tl xs, [])"
| "kv_advance (x # xs) (y # ys) =
     (if fst x < fst y then (xs, y # ys)
      else if fst y < fst x then (x # xs, ys)
      else (xs, ys))"

lemma kv_merge_advance:
  "tl (kv_merge xs ys) = (let (xs', ys') = kv_advance xs ys in kv_merge xs' ys')"
  by (induction xs ys rule: kv_advance.induct) auto

lemma si_at_Nil: "si_at s [] \<longleftrightarrow> si_eof s \<and> it_rest (si_it s) = []"
  by (simp add: si_at_def)

lemma si_at_Cons:
  "si_at s (x # xs) \<longleftrightarrow>
     \<not> si_eof s \<and> si_key s = fst x \<and> it_cur (si_it s) = Some x \<and> it_rest (si_it s) = xs"
  by (simp add: si_at_def)

lemma iter_Next_at:
  assumes at: "si_at (i_buf it) xs" "si_at (i_back it) ys"
    and ne: "[] \<notin> fst ` set xs" "[] \<notin> fst ` set ys"
  shows "case kv_advance xs ys of (xs', ys') \<Rightarrow>
      fst (iter_Next it) = (xs' \<noteq> [] \<or> ys' \<noteq> []) \<and>
      si_at (i_buf (snd (iter_Next it))) xs' \<and> si_at (i_back (snd (iter_Next it))) ys'"
proof (cases xs)
  case Nil
  then have "si_eof (i_buf it)" using at(1) by (simp add: si_at_Nil)
  then show ?thesis
    using at si_next_at [OF at(2)] Nil
    by (cases ys) (auto simp: iter_Next_def si_at_Nil si_at_Cons split: prod.splits)
next
  case x: (Cons x xs1)
  then have buf: "\<not> si_eof (i_buf it)" "si_key (i_buf it) = fst x" "fst x \<noteq> []"
    using at(1) ne(1) by (auto simp: si_at_Cons)
  show ?thesis
  proof (cases ys)
    case Nil
    have "\<not> fst (si_next (i_back it)) \<and> si_at (snd (si_next (i_back it))) []"
      using si_next_at [OF at(2)] Nil by simp
    then show ?thesis
      using buf at si_next_at [OF at(1)] x Nil
      by (auto simp: iter_Next_def si_at_Nil split: prod.splits)
  next
    case y: (Cons y ys1)
    then have "\<not> si_eof (i_back it)" "si_key (i_back it) = fst y" "fst y \<noteq> []"
      using at(2) ne(2) by (auto simp: si_at_Cons)
    with buf show ?thesis
      using at si_next_at [OF at(1)] si_next_at [OF at(2)] x y
      by (auto simp: iter_Next_def split: prod.splits)
  qed
qed

lemma iter_current_at:
  assumes "si_at (i_buf it) xs" "si_at (i_back it) ys" and "xs \<noteq> [] \<or> ys \<noteq> []"
  shows "(iter_Key it, iter_Value it) = hd (kv_merge xs ys)"
  using assms
  by (cases xs; cases ys)
    (auto simp: si_at_Nil si_at_Cons iter_Key_def iter_Value_def iter_current_def it_Value_def)

lemma iter_drain_at:
  assumes "si_at (i_buf it) xs" "si_at (i_back it) ys"
    and "[] \<notin> fst ` set xs" "[] \<notin> fst ` set ys"
  shows "iter_drain it = tl (kv_merge xs ys)"
  using assms
proof (induction it arbitrary: xs ys rule: iter_drain.induct)
  case (1 it)
  obtain xs' ys' where adv: "kv_advance xs ys = (xs', ys')" by force
  note nx = iter_Next_at [OF "1.prems", unfolded adv, simplified]
  have sub: "set xs' \<subseteq> set xs" "set ys' \<subseteq> set ys"
    using adv by (cases xs; cases ys; auto split: if_splits)+
  have tl: "tl (kv_merge xs ys) = kv_merge xs' ys'" by (simp add: kv_merge_advance adv)
  show ?case
  proof (cases "xs' \<noteq> [] \<or> ys' \<noteq> []")
    case True
    have "iter_drain (snd (iter_Next it)) = tl (kv_merge xs' ys')"
      using True nx sub "1.prems"(3,4) by (intro "1.IH") auto
    moreover have "kv_merge xs' ys' \<noteq> []"
      using True by (cases xs'; cases ys') auto
    ultimately show ?thesis
      using True nx iter_current_at [of "snd (iter_Next it)" xs' ys']
      by (subst iter_drain.simps) (simp add: tl)
  next
    case False
    then show ?thesis using nx by (subst iter_drain.simps) (simp add: tl)
  qed
qed

text \<open>A freshly made iterator over the pairs \<open>xs\<close> of the buffer and \<open>ys\<close> of the backing store.\<close>

definition fresh_iter :: "Iterator \<Rightarrow> Iterator \<Rightarrow> iter" where
  "fresh_iter a b =
     \<lparr>i_buf = \<lparr>si_it = a, si_key = [], si_eof = False\<rparr>,
      i_back = \<lparr>si_it = b, si_key = [], si_eof = False\<rparr>\<rparr>"

lemma iter_Next_fresh:
  assumes "it_rest a = xs" and "it_rest b = ys"
  shows "fst (iter_Next (fresh_iter a b)) = (xs \<noteq> [] \<or> ys \<noteq> [])"
    and "si_at (i_buf (snd (iter_Next (fresh_iter a b)))) xs"
    and "si_at (i_back (snd (iter_Next (fresh_iter a b)))) ys"
  using assms
  by (auto simp: fresh_iter_def iter_Next_def si_next_def it_Next_def it_Key_def si_at_def
      split: list.splits)

lemma iter_drain_fresh:
  assumes "[] \<notin> fst ` set (it_rest a)" and "[] \<notin> fst ` set (it_rest b)"
  shows "iter_drain (fresh_iter a b) = kv_merge (it_rest a) (it_rest b)"
proof -
  let ?it = "snd (iter_Next (fresh_iter a b))" and ?m = "kv_merge (it_rest a) (it_rest b)"
  note nx = iter_Next_fresh [OF refl refl, of a b]
  have ne: "?m \<noteq> [] \<longleftrightarrow> it_rest a \<noteq> [] \<or> it_rest b \<noteq> []"
    by (cases "it_rest a"; cases "it_rest b") auto
  show ?thesis
  proof (cases "?m = []")
    case True
    with nx ne show ?thesis by (subst iter_drain.simps) simp
  next
    case False
    with nx ne iter_drain_at [OF nx(2,3) assms] iter_current_at [OF nx(2,3)] show ?thesis
      by (subst iter_drain.simps) simp
  qed
qed

section \<open>Batches that move a list of pairs\<close>

definition set_muts :: "kvpair list \<Rightarrow> mutation list" where
  "set_muts xs = map (\<lambda>(k, v). \<lparr>mut_key = k, mut_value = v, mut_delete = False\<rparr>) xs"

definition del_muts :: "kvpair list \<Rightarrow> mutation list" where
  "del_muts xs = map (\<lambda>(k, v). \<lparr>mut_key = k, mut_value = [], mut_delete = True\<rparr>) xs"

lemma flush_fold:
  "fold (\<lambda>(k, v) (a, b, c). (batch_Set a k v, batch_Delete b k, True)) xs (KvBatch us, KvBatch ds, c)
   = (KvBatch (us @ set_muts xs), KvBatch (ds @ del_muts xs), c \<or> xs \<noteq> [])"
  by (induction xs arbitrary: us ds c)
    (auto simp: set_muts_def del_muts_def batch_Set_def batch_Delete_def)

lemma apply_set_muts:
  "distinct (map fst xs) \<Longrightarrow> apply_muts (set_muts xs) m = m ++ map_of xs"
proof (induction xs arbitrary: m)
  case (Cons x xs)
  then show ?case
    by (auto simp: set_muts_def fun_eq_iff map_add_def map_of_eq_None_iff image_iff
        split: option.splits prod.splits)
qed (simp add: set_muts_def)

lemma deletes_hit_set_muts: "deletes_hit (set_muts xs) m"
  by (induction xs arbitrary: m) (auto simp: set_muts_def)

lemma apply_del_muts:
  "apply_muts (del_muts xs) m = m |` (- fst ` set xs)"
  by (induction xs arbitrary: m)
    (auto simp: del_muts_def fun_eq_iff restrict_map_def split: prod.splits)

lemma deletes_hit_del_muts:
  assumes "distinct (map fst xs)" and "fst ` set xs \<subseteq> dom m"
  shows "deletes_hit (del_muts xs) m"
  using assms
proof (induction xs arbitrary: m)
  case (Cons x xs)
  then have "deletes_hit (del_muts xs) (m(fst x := None))"
    by (intro Cons.IH) (auto simp: dom_def image_iff)
  with Cons.prems show ?case by (auto simp: del_muts_def split: prod.splits)
qed (simp add: del_muts_def)

section \<open>One map behind two stores\<close>

text \<open>
  What the buffering store relies on: both stores meet the \<open>KeyValue\<close> contract and an operation
  on one does not change the other.
\<close>

locale kv_pair =
  bu: sorted_kv kvb mb inv + bk: sorted_kv kvk mk inv
  for kvb kvk :: "'w KeyValue" and mb mk :: "'w \<Rightarrow> string \<rightharpoonup> string" and inv :: "'w \<Rightarrow> bool" +
  assumes bu_Set_frame: "inv w \<Longrightarrow> mk (snd (kv_Set kvb k v w)) = mk w"
    and bu_Delete_frame: "inv w \<Longrightarrow> mk (snd (kv_Delete kvb k w)) = mk w"
    and bu_Commit_frame: "inv w \<Longrightarrow> mk (snd (kv_CommitBatch kvb b w)) = mk w"
    and bk_Delete_frame: "inv w \<Longrightarrow> mb (snd (kv_Delete kvk k w)) = mb w"
    and bk_Commit_frame: "inv w \<Longrightarrow> mb (snd (kv_CommitBatch kvk b w)) = mb w"
begin

text \<open>The map a client of the buffering store sees.\<close>

definition overlay :: "'w \<Rightarrow> string \<rightharpoonup> string" where
  "overlay w = mk w ++ mb w"

lemma Get_overlay:
  assumes "inv w"
  shows "bkv_Get (bkv_New kvb kvk mx) k (w, n) =
    (case overlay w k of None \<Rightarrow> ([], Some ErrNotFound) | Some v \<Rightarrow> (v, None))"
  using bu.Get [OF assms] bk.Get [OF assms]
  by (simp add: bkv_Get_def bkv_New_def overlay_def map_add_def split: option.splits)

lemma Delete_overlay:
  assumes "inv w"
  shows "\<exists>w'. bkv_Delete (bkv_New kvb kvk mx) k (w, n) = (None, (w', n)) \<and> inv w' \<and>
    overlay w' = (overlay w)(k := None)"
proof -
  obtain w1 where w1: "kv_Delete kvb k w = (None, w1)" "inv w1" "mb w1 = (mb w)(k := None)"
    using bu.Delete [OF assms] by blast
  obtain w2 where w2: "kv_Delete kvk k w1 = (None, w2)" "inv w2" "mk w2 = (mk w1)(k := None)"
    using bk.Delete [OF w1(2)] by blast
  have fr: "mk w1 = mk w" "mb w2 = mb w1"
    using bu_Delete_frame [OF assms, of k] bk_Delete_frame [OF w1(2), of k] w1(1) w2(1) by simp_all
  have "overlay w2 = (overlay w)(k := None)"
    unfolding overlay_def w2(3) fr w1(3) by (rule ext) (simp add: map_add_def split: option.split)
  then show ?thesis using w1 w2 by (simp add: bkv_Delete_def bkv_New_def)
qed

lemma Flush_overlay:
  assumes "inv w"
  shows "\<exists>w' n'. bkv_Flush (bkv_New kvb kvk mx) (w, n) = (None, (w', n')) \<and> inv w' \<and>
    mb w' = Map.empty \<and> mk w' = overlay w \<and> n' = (if mb w = Map.empty then n else 0)"
proof -
  let ?it = "kv_Find kvb [] [] w"
  let ?xs = "it_rest ?it"
  have xs: "map_of ?xs = mb w"
    using bu.Find_map [OF assms] by (simp add: in_range_def restrict_map_def)
  have dist: "distinct (map fst ?xs)" using assms by (rule bu.Find_distinct)
  have dom: "fst ` set ?xs = dom (mb w)" using xs by (metis dom_map_of_conv_image_fst)
  have loop: "foreach_loop ?it
      (\<lambda>k v (a, b, c). (None, (batch_Set a k v, batch_Delete b k, True)))
      (KvBatch [], KvBatch [], False) = (None, (KvBatch (set_muts ?xs), KvBatch (del_muts ?xs), ?xs \<noteq> []))"
    using flush_fold [of ?xs "[]" "[]" False] bu.Find_fresh [OF assms]
    by (subst foreach_loop_total) (auto simp: case_prod_unfold)
  note begin_batch = bu.BeginBatch bk.BeginBatch
  show ?thesis
  proof (cases "?xs = []")
    case True
    then have "mb w = Map.empty" using xs by simp
    then show ?thesis
      using assms loop True by (simp add: bkv_Flush_def bkv_New_def begin_batch overlay_def)
  next
    case False
    obtain w1 where w1: "kv_CommitBatch kvk (KvBatch (set_muts ?xs)) w = (None, w1)" "inv w1"
      "mk w1 = mk w ++ mb w"
      using bk.Commit [OF assms deletes_hit_set_muts, of ?xs] by (auto simp: apply_set_muts dist xs)
    have mb1: "mb w1 = mb w" using bk_Commit_frame [OF assms] w1(1) by (metis snd_conv)
    have "deletes_hit (del_muts ?xs) (mb w1)"
      using dist dom by (intro deletes_hit_del_muts) (auto simp: mb1)
    then obtain w2 where w2: "kv_CommitBatch kvb (KvBatch (del_muts ?xs)) w1 = (None, w2)" "inv w2"
      "mb w2 = mb w1 |` (- dom (mb w))"
      using bu.Commit [OF w1(2), of "del_muts ?xs"] by (auto simp: apply_del_muts dom)
    have mk2: "mk w2 = mk w1" using bu_Commit_frame [OF w1(2)] w2(1) by (metis snd_conv)
    have "mb w \<noteq> Map.empty" using False dom by (metis dom_eq_empty_conv image_is_empty set_empty)
    moreover have "mb w2 = Map.empty"
      using w2(3) by (auto simp: mb1 restrict_map_def fun_eq_iff)
    ultimately show ?thesis
      using w1 w2 mk2 loop False by (simp add: bkv_Flush_def bkv_New_def begin_batch overlay_def)
  qed
qed

lemma Set_overlay:
  assumes "inv w"
  shows "\<exists>w' n'. bkv_Set (bkv_New kvb kvk mx) k v (w, n) = (None, (w', n')) \<and> inv w' \<and>
    overlay w' = (overlay w)(k \<mapsto> v) \<and> n' \<le> max mx 0"
proof -
  obtain w1 where w1: "kv_Set kvb k v w = (None, w1)" "inv w1" "mb w1 = (mb w)(k \<mapsto> v)"
    using bu.Set [OF assms] by blast
  have mk1: "mk w1 = mk w" using bu_Set_frame [OF assms] w1(1) by (metis snd_conv)
  have ov: "overlay w1 = (overlay w)(k \<mapsto> v)" by (simp add: overlay_def w1(3) mk1)
  let ?n = "n + int (length k + length v)"
  show ?thesis
  proof (cases "?n > mx")
    case True
    obtain w2 n2 where w2: "bkv_Flush (bkv_New kvb kvk mx) (w1, ?n) = (None, (w2, n2))" "inv w2"
      "mb w2 = Map.empty" "mk w2 = overlay w1" "n2 = (if mb w1 = Map.empty then ?n else 0)"
      using Flush_overlay [OF w1(2)] by blast
    then have "n2 = 0" by (simp add: w1(3))
    moreover have "overlay w2 = overlay w1" by (simp add: overlay_def w2(3) w2(4) [unfolded overlay_def])
    ultimately show ?thesis
      using w1 w2 True ov by (simp add: bkv_Set_def bkv_New_def)
  next
    case False
    then show ?thesis using w1 ov by (simp add: bkv_Set_def bkv_New_def)
  qed
qed

lemma Find_overlay:
  assumes "inv w" and "overlay w [] = None"
    and xs_def: "xs = iter_drain (bkv_Find (bkv_New kvb kvk mx) start end' (w, n))"
  shows "sorted_wrt (<) (map fst xs) \<and> map_of xs = overlay w |` {k. in_range start end' k}"
proof -
  let ?a = "kv_Find kvb start end' w" and ?b = "kv_Find kvk start end' w"
  have none: "mb w [] = None" "mk w [] = None"
    using assms(2) by (auto simp: overlay_def map_add_None)
  have "map_of (it_rest ?a) [] = None" "map_of (it_rest ?b) [] = None"
    using none bu.Find_map [OF assms(1)] bk.Find_map [OF assms(1)]
    by (simp_all add: restrict_map_def)
  then have "[] \<notin> fst ` set (it_rest ?a)" "[] \<notin> fst ` set (it_rest ?b)"
    by (simp_all add: map_of_eq_None_iff)
  then have xs: "xs = kv_merge (it_rest ?a) (it_rest ?b)"
    unfolding xs_def using iter_drain_fresh [of ?a ?b]
    by (simp add: bkv_Find_def bkv_New_def fresh_iter_def)
  have "map_of xs = map_of (it_rest ?b) ++ map_of (it_rest ?a)"
    unfolding xs using assms(1) by (intro map_of_kv_merge bu.Find_sorted bk.Find_sorted)
  also have "\<dots> = overlay w |` {k. in_range start end' k}"
    using bu.Find_map [OF assms(1)] bk.Find_map [OF assms(1)]
    by (auto simp: overlay_def map_add_def restrict_map_def fun_eq_iff split: option.splits)
  finally show ?thesis
    unfolding xs using assms(1) by (simp add: sorted_kv_merge bu.Find_sorted bk.Find_sorted)
qed

end

section \<open>A memory store buffered by a memory store\<close>

text \<open>Two objects side by side in one world.\<close>

definition lift_fst :: "'a KeyValue \<Rightarrow> ('a \<times> 'b) KeyValue" where
  "lift_fst kv =
     \<lparr>kv_Get = \<lambda>k w. kv_Get kv k (fst w),
      kv_Set = \<lambda>k v w. (let (e, a) = kv_Set kv k v (fst w) in (e, (a, snd w))),
      kv_Delete = \<lambda>k w. (let (e, a) = kv_Delete kv k (fst w) in (e, (a, snd w))),
      kv_BeginBatch = kv_BeginBatch kv,
      kv_CommitBatch = \<lambda>b w. (let (e, a) = kv_CommitBatch kv b (fst w) in (e, (a, snd w))),
      kv_Find = \<lambda>s e w. kv_Find kv s e (fst w),
      kv_Close = \<lambda>w. (let (e, a) = kv_Close kv (fst w) in (e, (a, snd w)))\<rparr>"

definition lift_snd :: "'b KeyValue \<Rightarrow> ('a \<times> 'b) KeyValue" where
  "lift_snd kv =
     \<lparr>kv_Get = \<lambda>k w. kv_Get kv k (snd w),
      kv_Set = \<lambda>k v w. (let (e, b) = kv_Set kv k v (snd w) in (e, (fst w, b))),
      kv_Delete = \<lambda>k w. (let (e, b) = kv_Delete kv k (snd w) in (e, (fst w, b))),
      kv_BeginBatch = kv_BeginBatch kv,
      kv_CommitBatch = \<lambda>bm w. (let (e, b) = kv_CommitBatch kv bm (snd w) in (e, (fst w, b))),
      kv_Find = \<lambda>s e w. kv_Find kv s e (snd w),
      kv_Close = \<lambda>w. (let (e, b) = kv_Close kv (snd w) in (e, (fst w, b)))\<rparr>"

lemma sorted_kv_lift_fst:
  assumes "sorted_kv kv m iv"
  shows "sorted_kv (lift_fst kv) (\<lambda>w. m (fst w)) (\<lambda>w. iv (fst w) \<and> P (snd w))"
proof -
  note laws = assms [unfolded sorted_kv_def]
  show ?thesis
  proof (intro sorted_kv.intro)
    fix w k v
    assume w: "iv (fst w) \<and> P (snd w)"
    show "\<exists>w'. kv_Set (lift_fst kv) k v w = (None, w') \<and> (iv (fst w') \<and> P (snd w')) \<and>
        m (fst w') = (m (fst w))(k \<mapsto> v)"
      using sorted_kv.Set [OF assms, of "fst w" k v] w by (auto simp: lift_fst_def)
    show "\<exists>w'. kv_Delete (lift_fst kv) k w = (None, w') \<and> (iv (fst w') \<and> P (snd w')) \<and>
        m (fst w') = (m (fst w))(k := None)"
      using sorted_kv.Delete [OF assms, of "fst w" k] w by (auto simp: lift_fst_def)
  next
    fix w us
    assume w: "iv (fst w) \<and> P (snd w)" "deletes_hit us (m (fst w))"
    show "\<exists>w'. kv_CommitBatch (lift_fst kv) (KvBatch us) w = (None, w') \<and> (iv (fst w') \<and> P (snd w')) \<and>
        m (fst w') = apply_muts us (m (fst w))"
      using sorted_kv.Commit [OF assms, of "fst w" us] w by (auto simp: lift_fst_def)
  qed (use laws in \<open>simp_all add: lift_fst_def\<close>)
qed

lemma sorted_kv_lift_snd:
  assumes "sorted_kv kv m iv"
  shows "sorted_kv (lift_snd kv) (\<lambda>w. m (snd w)) (\<lambda>w. P (fst w) \<and> iv (snd w))"
proof -
  note laws = assms [unfolded sorted_kv_def]
  show ?thesis
  proof (intro sorted_kv.intro)
    fix w k v
    assume w: "P (fst w) \<and> iv (snd w)"
    show "\<exists>w'. kv_Set (lift_snd kv) k v w = (None, w') \<and> (P (fst w') \<and> iv (snd w')) \<and>
        m (snd w') = (m (snd w))(k \<mapsto> v)"
      using sorted_kv.Set [OF assms, of "snd w" k v] w by (auto simp: lift_snd_def)
    show "\<exists>w'. kv_Delete (lift_snd kv) k w = (None, w') \<and> (P (fst w') \<and> iv (snd w')) \<and>
        m (snd w') = (m (snd w))(k := None)"
      using sorted_kv.Delete [OF assms, of "snd w" k] w by (auto simp: lift_snd_def)
  next
    fix w us
    assume w: "P (fst w) \<and> iv (snd w)" "deletes_hit us (m (snd w))"
    show "\<exists>w'. kv_CommitBatch (lift_snd kv) (KvBatch us) w = (None, w') \<and> (P (fst w') \<and> iv (snd w')) \<and>
        m (snd w') = apply_muts us (m (snd w))"
      using sorted_kv.Commit [OF assms, of "snd w" us] w by (auto simp: lift_snd_def)
  qed (use laws in \<open>simp_all add: lift_snd_def\<close>)
qed

definition pair_inv :: "memdb \<times> memdb \<Rightarrow> bool" where
  "pair_inv w \<longleftrightarrow> mk_inv (fst w) \<and> mk_inv (snd w)"

interpretation mem_pair: kv_pair "lift_fst memKeys" "lift_snd memKeys"
  "\<lambda>w. map_of (fst w)" "\<lambda>w. map_of (snd w)" pair_inv
proof (intro kv_pair.intro kv_pair_axioms.intro)
  show "sorted_kv (lift_fst memKeys) (\<lambda>w. map_of (fst w)) pair_inv"
    using sorted_kv_lift_fst [OF mem.sorted_kv_axioms, of mk_inv] by (simp add: pair_inv_def [abs_def])
  show "sorted_kv (lift_snd memKeys) (\<lambda>w. map_of (snd w)) pair_inv"
    using sorted_kv_lift_snd [OF mem.sorted_kv_axioms, of mk_inv] by (simp add: pair_inv_def [abs_def])
qed (simp_all add: lift_fst_def lift_snd_def case_prod_unfold Let_def)

section \<open>Properties\<close>

text \<open>A memory store buffered by another one, and the map its clients see.\<close>

definition buf_mem :: "int \<Rightarrow> (memdb \<times> memdb) bufferKV" where
  "buf_mem mx = bkv_New (lift_fst memKeys) (lift_snd memKeys) mx"

definition seen_map :: "memdb \<times> memdb \<Rightarrow> string \<rightharpoonup> string" where
  "seen_map w = map_of (snd w) ++ map_of (fst w)"

lemma seen_map_overlay: "mem_pair.overlay = seen_map"
  by (simp add: mem_pair.overlay_def [abs_def] seen_map_def [abs_def])

datatype bkv_op = BSet string string | BDelete string | BFlush

fun bkv_step :: "int \<Rightarrow> bkv_op \<Rightarrow> (memdb \<times> memdb) \<times> int \<Rightarrow> goerr option \<times> ((memdb \<times> memdb) \<times> int)" where
  "bkv_step mx (BSet k v) s = bkv_Set (buf_mem mx) k v s"
| "bkv_step mx (BDelete k) s = bkv_Delete (buf_mem mx) k s"
| "bkv_step mx BFlush s = bkv_Flush (buf_mem mx) s"

fun map_step :: "bkv_op \<Rightarrow> (string \<rightharpoonup> string) \<Rightarrow> (string \<rightharpoonup> string)" where
  "map_step (BSet k v) m = m(k \<mapsto> v)"
| "map_step (BDelete k) m = m(k := None)"
| "map_step BFlush m = m"

fun bkv_run :: "int \<Rightarrow> bkv_op list \<Rightarrow> (memdb \<times> memdb) \<times> int \<Rightarrow> goerr option \<times> ((memdb \<times> memdb) \<times> int)" where
  "bkv_run mx [] s = (None, s)"
| "bkv_run mx (op # ops) s =
     (let (err, s) = bkv_step mx op s in if err \<noteq> None then (err, s) else bkv_run mx ops s)"

lemma bkv_step_refines:
  assumes "pair_inv w"
  shows "\<exists>w' n'. bkv_step mx op (w, n) = (None, (w', n')) \<and> pair_inv w' \<and> seen_map w' = map_step op (seen_map w)"
proof (cases op)
  case (BSet k v)
  then show ?thesis
    using mem_pair.Set_overlay [OF assms, of mx k v n] by (auto simp: seen_map_overlay buf_mem_def)
next
  case (BDelete k)
  then show ?thesis
    using mem_pair.Delete_overlay [OF assms, of mx k n] by (auto simp: seen_map_overlay buf_mem_def)
next
  case BFlush
  obtain w' n' where w': "bkv_Flush (buf_mem mx) (w, n) = (None, (w', n'))" "pair_inv w'"
    "map_of (fst w') = Map.empty" "map_of (snd w') = seen_map w"
    using mem_pair.Flush_overlay [OF assms, of mx n] by (auto simp: seen_map_overlay buf_mem_def)
  then have "seen_map w' = seen_map w" by (simp add: seen_map_def)
  then show ?thesis using w' BFlush by simp
qed

lemma bkv_run_refines:
  assumes "pair_inv w"
  shows "\<exists>w' n'. bkv_run mx ops (w, n) = (None, (w', n')) \<and> pair_inv w' \<and> seen_map w' = fold map_step ops (seen_map w)"
  using assms
proof (induction ops arbitrary: w n)
  case (Cons op ops)
  obtain w1 n1 where "bkv_step mx op (w, n) = (None, (w1, n1))" "pair_inv w1" "seen_map w1 = map_step op (seen_map w)"
    using bkv_step_refines [OF Cons.prems] by blast
  then show ?case using Cons.IH [of w1 n1] by auto
qed simp



text \<open>
  The empty key is not supported by the iterator: with it in the buffer, the first key of
  the backing store is skipped.
\<close>

theorem buffer_iterator_skips:
  "iter_drain (bkv_Find (buf_mem 10) [] [] (([([], ''v'')], [(''a'', ''1''), (''b'', ''2'')]), 0)) =
    [([], ''v''), (''b'', ''2'')] \<and>
   seen_map ([([], ''v'')], [(''a'', ''1''), (''b'', ''2'')]) ''a'' = Some ''1''"
  by code_simp

text \<open>
  With a buffer size of zero or less every \<open>Set\<close> of a non-empty pair is flushed at once, while
  the documentation of \<open>New\<close> says that such a size disables automatic flushing.
\<close>

theorem buffer_nonpositive_flushes:
  assumes "pair_inv w" and "mx \<le> 0" and "0 \<le> n" and "k \<noteq> []"
  shows "\<exists>w'. bkv_Set (buf_mem mx) k v (w, n) = (None, (w', 0)) \<and> map_of (fst w') = Map.empty"
proof -
  let ?d = "db_Set k v (fst w)" and ?n = "n + int (length k + length v)"
  have inv: "pair_inv (?d, snd w)" using assms(1) by (simp add: pair_inv_def mk_inv_db_Set)
  obtain w' n' where f: "bkv_Flush (buf_mem mx) ((?d, snd w), ?n) = (None, (w', n'))"
    "map_of (fst w') = Map.empty" "n' = (if map_of ?d = Map.empty then ?n else 0)"
    using mem_pair.Flush_overlay [OF inv, of mx ?n] by (auto simp: buf_mem_def)
  have "map_of ?d \<noteq> Map.empty"
    using assms(1) map_of_db_Set [of "fst w" k v] by (auto simp: pair_inv_def)
  moreover have "bkv_Set (buf_mem mx) k v (w, n) = bkv_Flush (buf_mem mx) ((?d, snd w), ?n)"
  proof -
    have "0 < length k" using assms(4) by simp
    then have "mx < ?n" using assms(2,3) by linarith
    then show ?thesis
      by (simp add: bkv_Set_def buf_mem_def bkv_New_def Let_def) (simp add: lift_fst_def memKeys_def mk_Set_def)
  qed
  ultimately show ?thesis using f by simp
qed

theorem buffer_nonpositive_flushes_witness:
  "\<exists>w'. bkv_Set (buf_mem 0) ''a'' ''1'' (([], []), 0) = (None, (w', 0)) \<and> map_of (fst w') = Map.empty"
  using buffer_nonpositive_flushes [of "([], [])" 0 0 "''a''" "''1''"] by (simp add: pair_inv_def mk_inv_def)

end
