(* ===== verification/Lru.thy ===== *)
theory Lru
  imports Prelude "HOL-Library.Multiset"
begin

text \<open>
  Package \<open>pkg/lru\<close>: the bounded least-recently-used cache.  The cache keeps a doubly linked
  list of entries and a map from keys to list elements; both are modelled, elements being
  pointers with an identity, and shown to implement one recency list (\<open>lru_abs\<close>).
\<close>

section \<open>The list package\<close>

text \<open>
  \<open>container/list\<close> as used here: a list of elements, each an address with the entry stored
  there, front first.
\<close>

type_synonym 'v element = "nat \<times> string \<times> 'v"

definition el_MoveToFront :: "nat \<Rightarrow> 'v element list \<Rightarrow> 'v element list" where
  "el_MoveToFront p ll = filter (\<lambda>e. fst e = p) ll @ filter (\<lambda>e. fst e \<noteq> p) ll"

definition el_setValue :: "nat \<Rightarrow> 'v \<Rightarrow> 'v element list \<Rightarrow> 'v element list" where
  "el_setValue p v ll = map (\<lambda>(q, k, u). if q = p then (q, k, v) else (q, k, u)) ll"

definition el_Value :: "nat \<Rightarrow> 'v element list \<Rightarrow> (string \<times> 'v) option" where
  "el_Value p ll = map_of ll p"

section \<open>The cache\<close>

text \<open>\<open>c_fresh\<close> is the next address the allocator returns; it is not a field of the source.\<close>

record 'v Cache =
  c_maxEntries :: int
  c_ll :: "'v element list"
  c_cache :: "string \<rightharpoonup> nat"
  c_fresh :: nat

definition lru_New :: "int \<Rightarrow> 'v Cache" where
  "lru_New maxEntries =
     \<lparr>c_maxEntries = maxEntries, c_ll = [], c_cache = Map.empty, c_fresh = 0\<rparr>"

text \<open>\<open>removeOldest\<close> on an empty list returns the zero key and a nil value.\<close>

definition lru_removeOldest :: "'v Cache \<Rightarrow> (string \<times> 'v option) \<times> 'v Cache" where
  "lru_removeOldest c =
     (if c_ll c = [] then (([], None), c)
      else
        let (p, k, v) = last (c_ll c)
        in ((k, Some v), c\<lparr>c_ll := butlast (c_ll c), c_cache := (c_cache c)(k := None)\<rparr>))"

definition lru_Add :: "string \<Rightarrow> 'v \<Rightarrow> 'v Cache \<Rightarrow> 'v Cache" where
  "lru_Add key value c =
     (case c_cache c key of
        Some ee \<Rightarrow> c\<lparr>c_ll := el_setValue ee value (el_MoveToFront ee (c_ll c))\<rparr>
      | None \<Rightarrow>
          (let ele = c_fresh c;
               c = c\<lparr>c_ll := (ele, key, value) # c_ll c, c_cache := (c_cache c)(key \<mapsto> ele),
                     c_fresh := ele + 1\<rparr>
           in if int (length (c_ll c)) > c_maxEntries c then snd (lru_removeOldest c) else c))"

definition lru_Get :: "string \<Rightarrow> 'v Cache \<Rightarrow> ('v option \<times> bool) \<times> 'v Cache" where
  "lru_Get key c =
     (case c_cache c key of
        Some ele \<Rightarrow>
          ((map_option snd (el_Value ele (c_ll c)), True),
           c\<lparr>c_ll := el_MoveToFront ele (c_ll c)\<rparr>)
      | None \<Rightarrow> ((None, False), c))"

definition lru_RemoveOldest :: "'v Cache \<Rightarrow> (string \<times> 'v option) \<times> 'v Cache" where
  "lru_RemoveOldest c = lru_removeOldest c"

definition lru_Len :: "'v Cache \<Rightarrow> int" where
  "lru_Len c = int (length (c_ll c))"

section \<open>Specification: a recency list\<close>

definition lru_index :: "'v element list \<Rightarrow> (string \<times> nat) list" where
  "lru_index ll = map (\<lambda>(p, k, v). (k, p)) ll"

definition lru_inv :: "'v Cache \<Rightarrow> bool" where
  "lru_inv c \<longleftrightarrow>
     (let ix = lru_index (c_ll c)
      in distinct (map fst ix) \<and> distinct (map snd ix) \<and> c_cache c = map_of ix \<and>
         list_all (\<lambda>p. p < c_fresh c) (map snd ix))"

definition lru_abs :: "'v Cache \<Rightarrow> (string \<times> 'v) list" where
  "lru_abs c = map snd (c_ll c)"

definition spec_touch :: "string \<Rightarrow> 'v \<Rightarrow> (string \<times> 'v) list \<Rightarrow> (string \<times> 'v) list" where
  "spec_touch k v xs = (k, v) # filter (\<lambda>e. fst e \<noteq> k) xs"

definition spec_add :: "int \<Rightarrow> string \<Rightarrow> 'v \<Rightarrow> (string \<times> 'v) list \<Rightarrow> (string \<times> 'v) list" where
  "spec_add n k v xs =
     (if map_of xs k = None \<and> int (length xs) \<ge> n then butlast ((k, v) # xs) else spec_touch k v xs)"

lemma lru_index_keys: "map fst (lru_index ll) = map fst (map snd ll)"
  by (auto simp: lru_index_def)

lemma lru_index_addrs: "map snd (lru_index ll) = map fst ll"
  by (auto simp: lru_index_def)

lemma lru_absent:
  assumes "lru_inv c"
  shows "c_cache c k = None \<longleftrightarrow> k \<notin> fst ` set (lru_abs c)"
  using assms arg_cong [OF lru_index_keys [of "c_ll c"], of set]
  by (simp add: lru_inv_def Let_def map_of_eq_None_iff lru_abs_def image_image)

lemma lru_present:
  assumes "lru_inv c" and "c_cache c k = Some p"
  obtains v where "(p, k, v) \<in> set (c_ll c)"
  using assms that by (auto simp: lru_inv_def Let_def lru_index_def dest!: map_of_SomeD)

lemma lru_distinct:
  assumes "lru_inv c"
  shows "distinct (map fst (c_ll c))" and "distinct (map fst (lru_abs c))"
  using assms by (simp_all add: lru_inv_def Let_def lru_index_addrs lru_abs_def lru_index_keys del: map_map)

text \<open>Selecting by address is selecting by key.\<close>

lemma filter_addr:
  assumes "lru_inv c" and "(p, k, v) \<in> set (c_ll c)"
  shows "filter (\<lambda>e. fst e = p) (c_ll c) = [(p, k, v)]"
    and "map snd (filter (\<lambda>e. fst e \<noteq> p) (c_ll c)) = filter (\<lambda>e. fst e \<noteq> k) (lru_abs c)"
proof -
  note d = lru_distinct [OF assms(1)]
  obtain xs ys where ll: "c_ll c = xs @ (p, k, v) # ys" using assms(2) by (meson split_list)
  with d have p: "p \<notin> fst ` set xs" "p \<notin> fst ` set ys" by auto
  have k: "k \<notin> fst ` set (map snd xs)" "k \<notin> fst ` set (map snd ys)"
    using d(2) by (simp_all add: lru_abs_def ll image_image)
  have f: "filter (\<lambda>e. fst e = p) xs = []" "filter (\<lambda>e. fst e = p) ys = []"
    "filter (\<lambda>e. fst e \<noteq> p) xs = xs" "filter (\<lambda>e. fst e \<noteq> p) ys = ys"
    using p by (auto simp: filter_empty_conv filter_id_conv)
  have g: "filter (\<lambda>e. fst e \<noteq> k) (map snd xs) = map snd xs"
    "filter (\<lambda>e. fst e \<noteq> k) (map snd ys) = map snd ys"
    using k by (auto simp: filter_id_conv simp del: set_map)
  show "filter (\<lambda>e. fst e = p) (c_ll c) = [(p, k, v)]" by (simp add: ll f)
  show "map snd (filter (\<lambda>e. fst e \<noteq> p) (c_ll c)) = filter (\<lambda>e. fst e \<noteq> k) (lru_abs c)"
    by (simp add: ll f g lru_abs_def)
qed

lemma map_of_lru_abs:
  assumes "lru_inv c"
  shows "map_of (lru_abs c) k =
    (case c_cache c k of None \<Rightarrow> None | Some p \<Rightarrow> map_option snd (el_Value p (c_ll c)))"
proof (cases "c_cache c k")
  case None
  then show ?thesis using lru_absent [OF assms, of k] by (auto simp: map_of_eq_None_iff)
next
  case (Some p)
  then obtain v where v: "(p, k, v) \<in> set (c_ll c)" using assms lru_present by blast
  moreover have "(k, v) \<in> set (lru_abs c)" using v by (force simp: lru_abs_def)
  ultimately show ?thesis using v Some lru_distinct [OF assms] by (simp add: el_Value_def)
qed

lemma mset_MoveToFront: "mset (el_MoveToFront p ll) = mset ll"
  by (simp add: el_MoveToFront_def)

lemma lru_inv_mset:
  assumes "lru_inv c" and "mset ll = mset (c_ll c)"
  shows "lru_inv (c\<lparr>c_ll := ll\<rparr>)"
proof -
  have ix: "mset (lru_index ll) = mset (lru_index (c_ll c))" using assms(2) by (simp add: lru_index_def)
  then have "mset (map fst (lru_index ll)) = mset (map fst (lru_index (c_ll c)))"
    "mset (map snd (lru_index ll)) = mset (map snd (lru_index (c_ll c)))" by simp_all
  then have d: "distinct (map fst (lru_index ll)) = distinct (map fst (lru_index (c_ll c)))"
    "distinct (map snd (lru_index ll)) = distinct (map snd (lru_index (c_ll c)))"
    by (metis mset_eq_imp_distinct_iff)+
  have "set (lru_index ll) = set (lru_index (c_ll c))" using ix by (rule mset_eq_setD)
  moreover from this have "map_of (lru_index ll) = map_of (lru_index (c_ll c))"
    using assms(1) d by (subst map_of_inject_set) (simp_all add: lru_inv_def Let_def)
  ultimately show ?thesis using assms(1) d by (simp add: lru_inv_def Let_def list_all_iff)
qed

lemma lru_index_setValue: "lru_index (el_setValue p v ll) = lru_index ll"
  by (auto simp: lru_index_def el_setValue_def)

lemma lru_inv_setValue:
  "lru_inv c \<Longrightarrow> lru_inv (c\<lparr>c_ll := el_setValue p v (c_ll c)\<rparr>)"
  by (simp add: lru_inv_def lru_index_setValue)

lemma lru_inv_removeOldest:
  assumes "lru_inv c"
  shows "lru_inv (snd (lru_removeOldest c))"
    and "lru_abs (snd (lru_removeOldest c)) = butlast (lru_abs c)"
proof -
  have "lru_inv (snd (lru_removeOldest c)) \<and> lru_abs (snd (lru_removeOldest c)) = butlast (lru_abs c)"
  proof (cases "c_ll c" rule: rev_cases)
    case Nil
    then show ?thesis using assms by (simp add: lru_removeOldest_def lru_abs_def)
  next
    case (snoc ll e)
    obtain p k v where e: "e = (p, k, v)" by (cases e)
    have "k \<notin> fst ` set (lru_index ll)"
      using assms by (simp add: lru_inv_def Let_def lru_index_def snoc e image_image)
    then have "map_of (lru_index ll) k = None" by (simp add: map_of_eq_None_iff)
    with assms show ?thesis
      by (auto simp: lru_removeOldest_def lru_abs_def lru_inv_def Let_def lru_index_def snoc e
          map_add_def fun_eq_iff split: option.splits)
  qed
  then show "lru_inv (snd (lru_removeOldest c))"
    and "lru_abs (snd (lru_removeOldest c)) = butlast (lru_abs c)" by blast+
qed

lemma lru_inv_push:
  assumes "lru_inv c" and "c_cache c k = None"
  shows "lru_inv (c\<lparr>c_ll := (c_fresh c, k, v) # c_ll c, c_cache := (c_cache c)(k \<mapsto> c_fresh c),
    c_fresh := Suc (c_fresh c)\<rparr>)"
  using assms
  by (auto simp: lru_inv_def Let_def lru_index_def map_of_eq_None_iff list_all_iff image_image)

lemma lru_Add_refines:
  assumes "lru_inv c"
  shows "lru_inv (lru_Add k v c)"
    and "lru_abs (lru_Add k v c) = spec_add (c_maxEntries c) k v (lru_abs c)"
proof -
  have "lru_inv (lru_Add k v c) \<and>
    lru_abs (lru_Add k v c) = spec_add (c_maxEntries c) k v (lru_abs c)"
  proof (cases "c_cache c k")
    case None
    let ?c = "c\<lparr>c_ll := (c_fresh c, k, v) # c_ll c, c_cache := (c_cache c)(k \<mapsto> c_fresh c),
      c_fresh := Suc (c_fresh c)\<rparr>"
    have k: "k \<notin> fst ` set (lru_abs c)" using None lru_absent [OF assms] by blast
    have "filter (\<lambda>e. fst e \<noteq> k) (lru_abs c) = lru_abs c"
      using k by (force simp: filter_id_conv)
    moreover have "map_of (lru_abs c) k = None" using k by (simp add: map_of_eq_None_iff)
    moreover have "length (lru_abs c) = length (c_ll c)" by (simp add: lru_abs_def)
    moreover have "lru_abs ?c = (k, v) # lru_abs c" by (simp add: lru_abs_def)
    ultimately show ?thesis
      using None lru_inv_push [OF assms None, of v] lru_inv_removeOldest [of ?c]
      by (auto simp: lru_Add_def Let_def spec_add_def spec_touch_def)
  next
    case (Some p)
    then obtain u where u: "(p, k, u) \<in> set (c_ll c)" using assms lru_present by blast
    let ?ll = "el_MoveToFront p (c_ll c)"
    have "lru_inv (c\<lparr>c_ll := ?ll\<rparr>)" using assms mset_MoveToFront by (rule lru_inv_mset)
    then have "lru_inv (lru_Add k v c)"
      using lru_inv_setValue [of "c\<lparr>c_ll := ?ll\<rparr>" p v] Some by (simp add: lru_Add_def)
    moreover have "el_setValue p v ?ll = (p, k, v) # filter (\<lambda>e. fst e \<noteq> p) (c_ll c)"
      using filter_addr(1) [OF assms u]
      by (auto simp: el_MoveToFront_def el_setValue_def intro: map_idI)
    then have "lru_abs (lru_Add k v c) = spec_touch k v (lru_abs c)"
      using filter_addr(2) [OF assms u] Some by (simp add: lru_Add_def lru_abs_def spec_touch_def)
    moreover have "map_of (lru_abs c) k \<noteq> None"
      using Some lru_absent [OF assms, of k] by (simp add: map_of_eq_None_iff)
    ultimately show ?thesis by (auto simp: spec_add_def)
  qed
  then show "lru_inv (lru_Add k v c)"
    and "lru_abs (lru_Add k v c) = spec_add (c_maxEntries c) k v (lru_abs c)" by blast+
qed

lemma lru_Get_refines:
  assumes "lru_inv c"
  shows "fst (lru_Get k c) = (map_of (lru_abs c) k, map_of (lru_abs c) k \<noteq> None)"
    and "lru_abs (snd (lru_Get k c)) =
      (case map_of (lru_abs c) k of None \<Rightarrow> lru_abs c | Some v \<Rightarrow> spec_touch k v (lru_abs c))"
    and "lru_inv (snd (lru_Get k c))"
proof -
  have *: "fst (lru_Get k c) = (map_of (lru_abs c) k, map_of (lru_abs c) k \<noteq> None) \<and>
    lru_abs (snd (lru_Get k c)) =
      (case map_of (lru_abs c) k of None \<Rightarrow> lru_abs c | Some v \<Rightarrow> spec_touch k v (lru_abs c)) \<and>
    lru_inv (snd (lru_Get k c))"
  proof (cases "c_cache c k")
    case None
    then show ?thesis using assms by (simp add: lru_Get_def map_of_lru_abs)
  next
    case (Some p)
    then obtain v where v: "(p, k, v) \<in> set (c_ll c)" using assms lru_present by blast
    have val: "el_Value p (c_ll c) = Some (k, v)"
      using v lru_distinct [OF assms] by (simp add: el_Value_def)
    let ?ll = "el_MoveToFront p (c_ll c)"
    have ll: "?ll = (p, k, v) # filter (\<lambda>e. fst e \<noteq> p) (c_ll c)"
      using filter_addr(1) [OF assms v] by (simp add: el_MoveToFront_def)
    have "lru_inv (c\<lparr>c_ll := ?ll\<rparr>)" using assms mset_MoveToFront by (rule lru_inv_mset)
    moreover have "lru_abs (c\<lparr>c_ll := ?ll\<rparr>) = spec_touch k v (lru_abs c)"
      using filter_addr(2) [OF assms v] by (simp add: ll lru_abs_def spec_touch_def)
    ultimately show ?thesis
      using Some val by (simp add: lru_Get_def map_of_lru_abs [OF assms])
  qed
  then show "fst (lru_Get k c) = (map_of (lru_abs c) k, map_of (lru_abs c) k \<noteq> None)"
    and "lru_abs (snd (lru_Get k c)) =
      (case map_of (lru_abs c) k of None \<Rightarrow> lru_abs c | Some v \<Rightarrow> spec_touch k v (lru_abs c))"
    and "lru_inv (snd (lru_Get k c))" by blast+
qed

section \<open>Runs\<close>

datatype 'v lru_op = OpAdd string 'v | OpGet string | OpRemoveOldest

fun lru_step :: "'v lru_op \<Rightarrow> 'v Cache \<Rightarrow> 'v Cache" where
  "lru_step (OpAdd k v) c = lru_Add k v c"
| "lru_step (OpGet k) c = snd (lru_Get k c)"
| "lru_step OpRemoveOldest c = snd (lru_RemoveOldest c)"

fun spec_step :: "int \<Rightarrow> 'v lru_op \<Rightarrow> (string \<times> 'v) list \<Rightarrow> (string \<times> 'v) list" where
  "spec_step n (OpAdd k v) xs = spec_add n k v xs"
| "spec_step n (OpGet k) xs = (case map_of xs k of None \<Rightarrow> xs | Some v \<Rightarrow> spec_touch k v xs)"
| "spec_step n OpRemoveOldest xs = butlast xs"

lemma lru_step_refines:
  assumes "lru_inv c"
  shows "lru_inv (lru_step op c)"
    and "lru_abs (lru_step op c) = spec_step (c_maxEntries c) op (lru_abs c)"
    and "c_maxEntries (lru_step op c) = c_maxEntries c"
proof -
  show "lru_inv (lru_step op c)"
    using assms lru_Add_refines(1) lru_Get_refines(3) lru_inv_removeOldest(1)
    by (cases op) (simp_all add: lru_RemoveOldest_def)
  show "lru_abs (lru_step op c) = spec_step (c_maxEntries c) op (lru_abs c)"
    using lru_Add_refines(2) [OF assms] lru_Get_refines(2) [OF assms] lru_inv_removeOldest(2) [OF assms]
    by (cases op) (simp_all add: lru_RemoveOldest_def)
  show "c_maxEntries (lru_step op c) = c_maxEntries c"
    by (cases op) (auto simp: lru_RemoveOldest_def lru_Add_def lru_Get_def lru_removeOldest_def
        Let_def split: option.split prod.split)
qed

lemma spec_step_length:
  assumes "distinct (map fst xs)" and "int (length xs) \<le> n"
  shows "int (length (spec_step n op xs)) \<le> n"
proof (cases op)
  case (OpAdd k v)
  show ?thesis
  proof (cases "map_of xs k")
    case None
    then have "filter (\<lambda>e. fst e \<noteq> k) xs = xs" by (auto simp: filter_id_conv map_of_eq_None_iff)
    then show ?thesis using assms(2) OpAdd None by (simp add: spec_add_def spec_touch_def)
  next
    case (Some u)
    then have "length (filter (\<lambda>e. fst e \<noteq> k) xs) < length xs"
      by (intro length_filter_less [of "(k, u)"]) (auto dest: map_of_SomeD)
    then show ?thesis using assms(2) OpAdd Some by (simp add: spec_add_def spec_touch_def)
  qed
next
  case (OpGet k)
  have "length (filter (\<lambda>e. fst e \<noteq> k) xs) < length xs" if "map_of xs k = Some u" for u
    using that by (intro length_filter_less [of "(k, u)"]) (auto dest: map_of_SomeD)
  then show ?thesis using assms(2) OpGet by (fastforce simp: spec_touch_def split: option.split)
next
  case OpRemoveOldest
  then show ?thesis using assms(2) by simp
qed

lemma lru_run:
  assumes "lru_inv c" and "lru_Len c \<le> c_maxEntries c"
  shows "lru_inv (fold lru_step ops c) \<and>
    lru_abs (fold lru_step ops c) = fold (spec_step (c_maxEntries c)) ops (lru_abs c) \<and>
    lru_Len (fold lru_step ops c) \<le> c_maxEntries c"
  using assms
proof (induction ops arbitrary: c)
  case (Cons op ops)
  note st = lru_step_refines [OF Cons.prems(1), of op]
  have len: "lru_Len x = int (length (lru_abs x))" for x :: "'a Cache" by (simp add: lru_Len_def lru_abs_def)
  have "lru_Len (lru_step op c) \<le> c_maxEntries c"
    using spec_step_length [OF lru_distinct(2) [OF Cons.prems(1)]] Cons.prems(2) st(2)
    by (simp add: len)
  with Cons.IH [OF st(1)] st show ?case by simp
qed simp

lemma lru_inv_New [simp]: "lru_inv (lru_New n)" and lru_abs_New [simp]: "lru_abs (lru_New n) = []"
  and lru_Len_New [simp]: "lru_Len (lru_New n) = 0" and lru_max_New [simp]: "c_maxEntries (lru_New n) = n"
  by (simp_all add: lru_inv_def lru_New_def lru_index_def lru_abs_def lru_Len_def)

section \<open>Correctness\<close>

text \<open>
  C26 [lru].  Any sequence of \<open>Add\<close>, \<open>Get\<close> and \<open>RemoveOldest\<close> on a new cache of non-negative
  capacity behaves as on one list of entries, most recently used first: the map and the linked
  list stay consistent, the contents are those of the recency list, a following \<open>Get\<close> returns
  what that list holds, and the number of entries never exceeds \<open>maxEntries\<close>.
\<close>

theorem lru_implements_recency_list:
  assumes "0 \<le> n"
  shows "lru_inv (fold lru_step ops (lru_New n)) \<and>
    lru_abs (fold lru_step ops (lru_New n)) = fold (spec_step n) ops [] \<and>
    fst (lru_Get k (fold lru_step ops (lru_New n))) =
      (map_of (fold (spec_step n) ops []) k, map_of (fold (spec_step n) ops []) k \<noteq> None) \<and>
    lru_Len (fold lru_step ops (lru_New n)) \<le> n"
proof -
  note run = lru_run [of "lru_New n" ops]
  then show ?thesis using assms lru_Get_refines(1) [of "fold lru_step ops (lru_New n)" k] by auto
qed

theorem lru_implements_recency_list_witness:
  "0 \<le> (2 :: int) \<and>
   fold (spec_step 2) [OpAdd ''a'' (1 :: nat), OpAdd ''b'' 2, OpGet ''a'', OpAdd ''c'' 3] [] =
     [(''c'', 3), (''a'', 1)] \<and>
   lru_abs (fold lru_step [OpAdd ''a'' (1 :: nat), OpAdd ''b'' 2, OpGet ''a'', OpAdd ''c'' 3] (lru_New 2)) =
     [(''c'', 3), (''a'', 1)]"
  using lru_implements_recency_list [of 2 "[OpAdd ''a'' (1 :: nat), OpAdd ''b'' 2, OpGet ''a'', OpAdd ''c'' 3]"]
  by (simp add: spec_add_def spec_touch_def)

end
