(* ===== verification/RollSum.thy ===== *)
theory RollSum
  imports Prelude
begin

text \<open>
  Package \<open>pkg/rollsum\<close>: the rolling checksum that decides where files are cut into chunks.
  All arithmetic is that of the source's machine words; the checksum is given in closed form
  over the bytes that left and the bytes still in the window.
\<close>

section \<open>Operations\<close>

definition windowSize :: nat where "windowSize = 64"
definition charOffset :: nat where "charOffset = 31"
definition blobBits :: nat where "blobBits = 13"
definition blobSize :: nat where "blobSize = 2 ^ blobBits"

record RollSum =
  s1 :: u32
  s2 :: u32
  window :: bytes
  wofs :: nat

definition rs_New :: RollSum where
  "rs_New =
     \<lparr>s1 = of_nat (windowSize * charOffset),
      s2 = of_nat (windowSize * (windowSize - 1) * charOffset),
      window = replicate windowSize 0, wofs = 0\<rparr>"

text \<open>The sum \<open>drop+charOffset\<close> is computed in eight bits before it is widened.\<close>

definition rs_add :: "u8 \<Rightarrow> u8 \<Rightarrow> RollSum \<Rightarrow> RollSum" where
  "rs_add drp add rs =
     (let rs = rs\<lparr>s1 := s1 rs + (ucast add - ucast drp)\<rparr>
      in rs\<lparr>s2 := s2 rs + (s1 rs - of_nat windowSize * ucast (drp + of_nat charOffset))\<rparr>)"

definition Roll :: "u8 \<Rightarrow> RollSum \<Rightarrow> RollSum" where
  "Roll ch rs =
     (let rs = rs_add (window rs ! wofs rs) ch rs;
          rs = rs\<lparr>window := (window rs)[wofs rs := ch]\<rparr>
      in rs\<lparr>wofs := (wofs rs + 1) mod windowSize\<rparr>)"

definition OnSplit :: "RollSum \<Rightarrow> bool" where
  "OnSplit rs \<longleftrightarrow> s2 rs AND of_nat (blobSize - 1) = of_nat (blobSize - 1)"

definition OnSplitWithBits :: "u32 \<Rightarrow> RollSum \<Rightarrow> bool" where
  "OnSplitWithBits n rs \<longleftrightarrow>
     (let mask = push_bit (unat n) 1 - 1 in s2 rs AND mask = NOT 0 AND mask)"

definition Digest :: "RollSum \<Rightarrow> u32" where
  "Digest rs = push_bit 16 (s1 rs) OR (s2 rs AND 0xffff)"

lemma drop_bit_word_less:
  fixes w :: u32
  assumes "w \<noteq> 0"
  shows "unat (drop_bit 1 w) < unat w"
  using assms unat_gt_0 [of w] by (simp add: drop_bit_eq_div unat_div)

function bits_loop :: "u32 \<Rightarrow> nat \<Rightarrow> nat" where
  "bits_loop rsum bits =
     (if drop_bit 1 rsum AND 1 \<noteq> 0 then bits_loop (drop_bit 1 rsum) (bits + 1) else bits)"
  by pat_completeness auto
termination
proof (relation "measure (\<lambda>(r, b). unat r)")
  fix rsum :: u32 and bits
  assume "drop_bit 1 rsum AND 1 \<noteq> 0"
  then have "rsum \<noteq> 0" by auto
  then show "((drop_bit 1 rsum, bits + 1), rsum, bits) \<in> measure (\<lambda>(r, b). unat r)"
    using drop_bit_word_less [of rsum] by simp
qed simp

declare bits_loop.simps [simp del]

definition Bits :: "RollSum \<Rightarrow> nat" where
  "Bits rs = bits_loop (drop_bit blobBits (Digest rs)) blobBits"

section \<open>The window\<close>

text \<open>The bytes in the window, oldest first, and the sums kept of them.\<close>

definition rs_ring :: "RollSum \<Rightarrow> bytes" where
  "rs_ring rs = drop (wofs rs) (window rs) @ take (wofs rs) (window rs)"

definition bsum :: "bytes \<Rightarrow> u32" where
  "bsum bs = sum_list (map ucast bs)"

fun wsum :: "bytes \<Rightarrow> u32" where
  "wsum [] = 0"
| "wsum (b # bs) = of_nat (Suc (length bs)) * ucast b + wsum bs"

definition roll_all :: "bytes \<Rightarrow> RollSum" where
  "roll_all bs = fold Roll bs rs_New"

definition padded :: "bytes \<Rightarrow> bytes" where
  "padded bs = replicate windowSize 0 @ bs"

lemma bsum_simps [simp]:
  "bsum [] = 0" "bsum (b # bs) = ucast b + bsum bs" "bsum (xs @ ys) = bsum xs + bsum ys"
  by (simp_all add: bsum_def)

lemma wsum_snoc: "wsum (xs @ [c]) = wsum xs + bsum xs + ucast c"
  by (induction xs) (simp_all add: algebra_simps)

lemma ucast_offset:
  fixes d :: u8
  shows "(ucast (d + 31) :: u32) = ucast d + 31 - (if 225 \<le> d then 256 else 0)"
proof -
  have d: "unat d < 256" using unsigned_less [of d] by simp
  have eq: "unat (d + 31) = (if 225 \<le> d then unat d + 31 - 256 else unat d + 31)"
    using d by (auto simp: unat_word_ariths word_le_nat_alt mod_if)
  have "(ucast (d + 31) :: u32) = of_nat (unat (d + 31))" by simp
  also have "\<dots> = of_nat (if 225 \<le> d then unat d + 31 - 256 else unat d + 31)" by (simp only: eq)
  also have "\<dots> = ucast d + 31 - (if 225 \<le> d then 256 else 0)"
    by (auto simp: word_le_nat_alt of_nat_diff)
  finally show ?thesis .
qed

lemma Roll_ring:
  assumes "length (window rs) = 64" and "wofs rs < 64"
  obtains d ds where "rs_ring rs = d # ds" and "rs_ring (Roll ch rs) = ds @ [ch]"
    and "d = window rs ! wofs rs"
    and "length (window (Roll ch rs)) = 64" and "wofs (Roll ch rs) < 64"
proof -
  let ?w = "window rs" and ?i = "wofs rs"
  have w: "drop ?i ?w = ?w ! ?i # drop (Suc ?i) ?w" using assms by (simp add: Cons_nth_drop_Suc)
  have ring: "rs_ring (Roll ch rs) = drop (Suc ?i) ?w @ take ?i ?w @ [ch]"
  proof (cases "Suc ?i = 64")
    case True
    then show ?thesis
      using assms by (simp add: rs_ring_def Roll_def rs_add_def Let_def windowSize_def take_Suc_conv_app_nth
          list_update_append upd_conv_take_nth_drop)
  next
    case False
    then show ?thesis
      using assms by (simp add: rs_ring_def Roll_def rs_add_def Let_def windowSize_def
          upd_conv_take_nth_drop take_Suc_conv_app_nth)
  qed
  show thesis
    by (rule that [of "?w ! ?i" "drop (Suc ?i) ?w @ take ?i ?w"])
      (use assms w ring in \<open>simp_all add: rs_ring_def Roll_def rs_add_def Let_def windowSize_def\<close>)
qed


text \<open>Both sums in closed form, over the ring and the number of wrapped offsets so far.\<close>

definition rs_closed :: "nat \<Rightarrow> RollSum \<Rightarrow> bool" where
  "rs_closed k rs \<longleftrightarrow>
     length (window rs) = 64 \<and> wofs rs < 64 \<and>
     s1 rs = 1984 + bsum (rs_ring rs) \<and>
     s2 rs = 124992 + wsum (rs_ring rs) + 2 ^ 14 * of_nat k"

lemma rs_closed_New: "rs_closed 0 rs_New" and rs_ring_New: "rs_ring rs_New = replicate 64 0"
proof -
  have "bsum (replicate n 0) = 0" "wsum (replicate n 0) = 0" for n by (induction n) simp_all
  then show "rs_closed 0 rs_New" "rs_ring rs_New = replicate 64 0"
    by (simp_all add: rs_closed_def rs_New_def rs_ring_def windowSize_def charOffset_def)
qed

lemma rs_closed_Roll:
  assumes "rs_closed k rs" and "rs_ring rs = d # ds"
  shows "rs_closed (k + (if 225 \<le> d then 1 else 0)) (Roll ch rs)" and "rs_ring (Roll ch rs) = ds @ [ch]"
proof -
  have wf: "length (window rs) = 64" "wofs rs < 64" using assms(1) by (simp_all add: rs_closed_def)
  obtain d' ds' where r: "rs_ring rs = d' # ds'" "rs_ring (Roll ch rs) = ds' @ [ch]"
    "d' = window rs ! wofs rs" "length (window (Roll ch rs)) = 64" "wofs (Roll ch rs) < 64"
    using Roll_ring [OF wf] by blast
  with assms(2) show ring: "rs_ring (Roll ch rs) = ds @ [ch]" by simp
  have len: "length ds = 63"
    using wf arg_cong [OF assms(2), of length] unfolding rs_ring_def length_append by simp
  have s1: "s1 (Roll ch rs) = s1 rs + (ucast ch - ucast d)"
    and s2: "s2 (Roll ch rs) = s2 rs + (s1 (Roll ch rs) - 64 * ucast (d + 31))"
    using r assms(2)
    by (simp_all add: Roll_def rs_add_def Let_def windowSize_def charOffset_def)
  have "s1 (Roll ch rs) = 1984 + bsum (ds @ [ch])"
    using assms by (simp add: s1 rs_closed_def)
  moreover have "s2 (Roll ch rs) =
      124992 + wsum (ds @ [ch]) + 2 ^ 14 * of_nat (k + (if 225 \<le> d then 1 else 0))"
    unfolding s2 calculation ucast_offset
    using assms len by (simp add: rs_closed_def wsum_snoc algebra_simps)
  ultimately show "rs_closed (k + (if 225 \<le> d then 1 else 0)) (Roll ch rs)"
    using r by (simp add: rs_closed_def ring)
qed

text \<open>The bytes that left the window, and those in it, after rolling in \<open>bs\<close>.\<close>

definition rolled_out :: "bytes \<Rightarrow> bytes" where
  "rolled_out bs = take (length bs) (padded bs)"

definition rolled_in :: "bytes \<Rightarrow> bytes" where
  "rolled_in bs = drop (length bs) (padded bs)"

lemma roll_all_closed:
  "rs_closed (length (filter (\<lambda>b. 225 \<le> b) (rolled_out bs))) (roll_all bs) \<and>
   rs_ring (roll_all bs) = rolled_in bs"
proof (induction bs rule: rev_induct)
  case Nil
  then show ?case
    by (simp add: roll_all_def rs_closed_New rs_ring_New rolled_out_def rolled_in_def padded_def windowSize_def)
next
  case (snoc c bs)
  have len: "length bs < length (padded bs)" by (simp add: padded_def windowSize_def)
  define d where "d = padded bs ! length bs"
  have "rolled_in bs = d # drop (Suc (length bs)) (padded bs)"
    using len by (simp add: rolled_in_def d_def Cons_nth_drop_Suc)
  note st = rs_closed_Roll [OF conjunct1 [OF snoc] trans [OF conjunct2 [OF snoc] this], of c]
  have "rolled_out (bs @ [c]) = rolled_out bs @ [d]"
    using take_Suc_conv_app_nth [OF len] len by (simp add: rolled_out_def padded_def d_def)
  moreover have "rolled_in (bs @ [c]) = drop (Suc (length bs)) (padded bs) @ [c]"
    using len by (simp add: rolled_in_def padded_def)
  ultimately show ?case using st by (simp add: roll_all_def split: if_splits)
qed


section \<open>Correctness\<close>

lemma take_bit_wrapped:
  fixes a :: u32
  assumes "n \<le> 14"
  shows "take_bit n (a + 2 ^ 14 * b) = take_bit n a"
proof -
  have dvd: "(2 :: nat) ^ n dvd 2 ^ 32" "(2 :: nat) ^ n dvd 2 ^ 14 * unat b"
    using assms by (intro dvd_mult2 le_imp_power_dvd; linarith)+
  have "unat (a + 2 ^ 14 * b) = (unat a + 2 ^ 14 * unat b) mod 2 ^ 32"
    by (simp add: unat_word_ariths mod_simps)
  then have "unat (take_bit n (a + 2 ^ 14 * b)) = (unat a + 2 ^ 14 * unat b) mod 2 ^ 32 mod 2 ^ n"
    unfolding unsigned_take_bit_eq by (simp only: take_bit_eq_mod)
  also have "\<dots> = unat a mod 2 ^ n"
    unfolding mod_mod_cancel [OF dvd(1)] using dvd(2) by (simp add: mod_add_eq dvd_eq_mod_eq_0 flip: mod_add_right_eq)
  also have "\<dots> = unat (take_bit n a)" unfolding unsigned_take_bit_eq by (simp only: take_bit_eq_mod)
  finally show ?thesis by (simp only: word_unat_eq_iff)
qed

lemma and_mask_iff:
  fixes a b :: u32
  assumes "take_bit n a = take_bit n b"
  shows "a AND mask n = b AND mask n"
  using assms by (simp add: take_bit_eq_mask)

lemma rolled_in_suffix:
  assumes "64 \<le> length sfx"
  shows "rolled_in (pre @ sfx) = drop (length sfx - 64) sfx"
  using assms by (simp add: rolled_in_def padded_def windowSize_def)

lemma OnSplit_bits: "OnSplit rs = OnSplitWithBits 13 rs"
  by (simp add: OnSplit_def OnSplitWithBits_def blobSize_def blobBits_def)

lemma bits_loop_bounds: "unat r < 2 ^ n \<Longrightarrow> bits \<le> bits_loop r bits \<and> bits_loop r bits \<le> bits + n"
proof (induction r bits arbitrary: n rule: bits_loop.induct)
  case (1 r bits)
  show ?case
  proof (cases "drop_bit 1 r AND 1 \<noteq> (0 :: u32)")
    case True
    then have "r \<noteq> 0" by auto
    then have "0 < unat r" by (simp add: unat_gt_0)
    with "1.prems" obtain m where m: "n = Suc m" by (cases n) auto
    have "unat (drop_bit 1 r) < 2 ^ m"
      using "1.prems" by (simp add: m drop_bit_eq_div unat_div)
    from "1.IH" [OF True this] True show ?thesis
      by (subst (1 2) bits_loop.simps) (simp add: m)
  next
    case False
    then show ?thesis by (subst (1 2) bits_loop.simps) simp
  qed
qed

text \<open>
  C33 [rollsum_closed].  After rolling in any bytes, \<open>s1\<close> and \<open>s2\<close> are the window sum and the
  position-weighted window sum of the last 64 bytes (the window starts as zeros), except that
  every byte of value 225 or more that has left the window has added \<open>2^14\<close> to \<open>s2\<close>: the
  eight-bit addition \<open>drop+charOffset\<close> wraps for those bytes.
\<close>

theorem roll_sums_closed_form:
  "s1 (roll_all bs) = 1984 + bsum (rolled_in bs) \<and>
   s2 (roll_all bs) = 124992 + wsum (rolled_in bs)
     + 2 ^ 14 * of_nat (length (filter (\<lambda>b. 225 \<le> b) (rolled_out bs)))"
  using roll_all_closed [of bs] by (simp add: rs_closed_def)

text \<open>
  C34 [rollsum_split].  The split decision depends on the last 64 bytes only, whatever came before:
  \<open>OnSplit\<close>, and \<open>OnSplitWithBits\<close> up to 14 bits.
\<close>

theorem OnSplit_last_window:
  assumes "64 \<le> length sfx" and "n \<le> 14"
  shows "OnSplit (roll_all (p @ sfx)) = OnSplit (roll_all (q @ sfx)) \<and>
    OnSplitWithBits n (roll_all (p @ sfx)) = OnSplitWithBits n (roll_all (q @ sfx))"
proof -
  have "take_bit m (s2 (roll_all (p @ sfx))) = take_bit m (s2 (roll_all (q @ sfx)))" if "m \<le> 14" for m
    using roll_all_closed [of "p @ sfx"] roll_all_closed [of "q @ sfx"] rolled_in_suffix [OF assms(1)]
    by (simp add: rs_closed_def take_bit_wrapped [OF that, simplified])
  then have *: "OnSplitWithBits m (roll_all (p @ sfx)) = OnSplitWithBits m (roll_all (q @ sfx))"
    if "unat m \<le> 14" for m
    using that and_mask_iff [of "unat m" "s2 (roll_all (p @ sfx))" "s2 (roll_all (q @ sfx))"]
    by (simp add: OnSplitWithBits_def Let_def mask_eq_exp_minus_1 push_bit_eq_mult)
  show ?thesis using * [of 13] * [of n] assms(2) by (simp add: OnSplit_bits word_le_nat_alt)
qed

theorem OnSplit_last_window_witness:
  "OnSplit (roll_all ([255] @ replicate 64 7)) = OnSplit (roll_all ([] @ replicate 64 7))"
  using OnSplit_last_window [of "replicate 64 7" 13 "[255]" "[]"] by simp

text \<open>
  The checksum itself is not a function of the last 64 bytes: two streams
  that end in the same 64 bytes get different \<open>Digest\<close> and \<open>Bits\<close> values when one of them
  once contained a byte of value 225 or more.
\<close>

theorem Digest_depends_on_history:
  "rs_ring (roll_all ([255] @ replicate 64 0)) = rs_ring (roll_all (replicate 64 0)) \<and>
   Digest (roll_all ([255] @ replicate 64 0)) \<noteq> Digest (roll_all (replicate 64 0)) \<and>
   Bits (roll_all ([255] @ replicate 64 0)) = 13 \<and> Bits (roll_all (replicate 64 0)) = 15"
proof -
  let ?p = "[255] @ replicate 64 0 :: bytes" and ?q = "replicate 64 0 :: bytes"
  have zero: "bsum (replicate n 0) = 0" "wsum (replicate n 0) = 0" for n by (induction n) simp_all
  have i: "rolled_in ?p = ?q" "rolled_in ?q = ?q"
    by (simp_all add: rolled_in_def padded_def windowSize_def)
  have o: "rolled_out ?p = replicate 64 0 @ [255]" "rolled_out ?q = replicate 64 0"
    by (simp_all add: rolled_out_def padded_def windowSize_def)
  have s: "s1 (roll_all ?p) = 1984" "s1 (roll_all ?q) = 1984"
    "s2 (roll_all ?p) = 141376" "s2 (roll_all ?q) = 124992"
    using roll_all_closed [of ?p] roll_all_closed [of ?q]
    unfolding rs_closed_def i o by (simp_all add: zero i o)
  have d: "Digest (roll_all ?p) = 130033728" "Digest (roll_all ?q) = 130082880"
    unfolding Digest_def s by simp_all
  have "Bits (roll_all ?p) = 13" "Bits (roll_all ?q) = 15"
    unfolding Bits_def d blobBits_def by (simp_all add: bits_loop.simps)
  then show ?thesis using roll_all_closed [of ?p] roll_all_closed [of ?q] by (simp add: i [simplified] d [simplified])
qed

text \<open>
  \<open>Bits\<close> terminates and returns a level between 13 and 32.
\<close>

theorem Bits_bounds: "13 \<le> Bits rs \<and> Bits rs \<le> 32"
proof -
  have "unat (drop_bit 13 (Digest rs)) < 2 ^ 19"
    using unsigned_less [of "Digest rs", where ?'a = nat]
    by (simp add: drop_bit_eq_div unat_div less_mult_imp_div_less)
  from bits_loop_bounds [OF this, of 13] show ?thesis by (simp add: Bits_def blobBits_def)
qed

end
