(* ===== verification/Strutil.thy ===== *)
theory Strutil
  imports Prelude
begin

text \<open>
  Package \<open>pkg/strutil\<close>: splitting without allocation (\<open>strutil.go\<close>), the JSON heuristic, and
  the number parser over byte slices (\<open>strconv.go\<close>) in 64-bit arithmetic.
\<close>

section \<open>Splitting\<close>

text \<open>\<open>strings.Count(s, sep)\<close> for a non-empty \<open>sep\<close>: non-overlapping occurrences from the left.\<close>

function str_Count :: "string \<Rightarrow> string \<Rightarrow> nat" where
  "str_Count s sep =
     (if sep = [] \<or> length s < length sep then 0
      else if take (length sep) s = sep then Suc (str_Count (drop (length sep) s) sep)
      else str_Count (tl s) sep)"
  by pat_completeness auto
termination
  by (relation "measure (\<lambda>(s, sep). length s)") (auto simp flip: length_greater_0_conv)

declare str_Count.simps [simp del]

text \<open>The loop: index \<open>i\<close>, start of the current piece, pieces made so far.\<close>

function gs_loop ::
  "string \<Rightarrow> string \<Rightarrow> nat \<Rightarrow> int \<Rightarrow> nat \<Rightarrow> nat \<Rightarrow> int \<Rightarrow> string list \<Rightarrow> nat \<times> string list" where
  "gs_loop s sep sepSave n i start na dst =
     (if i + length sep \<le> length s \<and> na + 1 < n \<and> sep \<noteq> [] then
        if s ! i = sep ! 0 \<and> (length sep = 1 \<or> take (length sep) (drop i s) = sep)
        then gs_loop s sep sepSave n (i + length sep) (i + length sep) (na + 1)
               (dst @ [take (i + sepSave - start) (drop start s)])
        else gs_loop s sep sepSave n (i + 1) start na dst
      else (start, dst))"
  by pat_completeness auto
termination
  by (relation "measure (\<lambda>(s, sep, sepSave, n, i, start, na, dst). length s - i)")
    (auto simp flip: length_greater_0_conv)

declare gs_loop.simps [simp del]

definition genSplit ::
  "string list \<Rightarrow> string \<Rightarrow> string \<Rightarrow> nat \<Rightarrow> int \<Rightarrow> string list outcome" where
  "genSplit dst s sep sepSave n =
     (if n = 0 then Ret []
      else if sep = [] then Panic ''sep is empty''
      else
        let n = (if n < 0 then int (str_Count s sep) + 1 else n);
            (start, dst) = gs_loop s sep sepSave n 0 0 0 dst
        in Ret (dst @ [drop start s]))"

definition AppendSplitN :: "string list \<Rightarrow> string \<Rightarrow> string \<Rightarrow> int \<Rightarrow> string list outcome" where
  "AppendSplitN dst s sep n = genSplit dst s sep 0 n"

section \<open>Plausible JSON\<close>

definition isASCIIWhite :: "char \<Rightarrow> bool" where
  "isASCIIWhite b \<longleftrightarrow> b = CHR '' '' \<or> b = CHR 0x0A \<or> b = CHR 0x0D \<or> b = CHR 0x09"

fun startsWithOpenBrace :: "string \<Rightarrow> bool" where
  "startsWithOpenBrace [] = False"
| "startsWithOpenBrace (c # s) =
     (if c = CHR ''{'' then True else if isASCIIWhite c then startsWithOpenBrace s else False)"

function endsWithCloseBrace :: "string \<Rightarrow> bool" where
  "endsWithCloseBrace s =
     (if s = [] then False
      else if last s = CHR ''}'' then True
      else if isASCIIWhite (last s) then endsWithCloseBrace (butlast s)
      else False)"
  by pat_completeness auto
termination
  by (relation "measure length") (auto simp: length_greater_0_conv)

declare endsWithCloseBrace.simps [simp del]

definition IsPlausibleJSON :: "string \<Rightarrow> bool" where
  "IsPlausibleJSON s \<longleftrightarrow> startsWithOpenBrace s \<and> endsWithCloseBrace s"

section \<open>Unsigned numbers\<close>

definition cutoff64 :: "int \<Rightarrow> u64" where
  "cutoff64 base = (if base < 2 then 0 else (- 1) div of_int base + 1)"

text \<open>The value of a digit byte, \<open>None\<close> for the default case of the switch.\<close>

definition pu_digit :: "u8 \<Rightarrow> u8 option" where
  "pu_digit d =
     (if byte_of_char CHR ''0'' \<le> d \<and> d \<le> byte_of_char CHR ''9'' then Some (d - byte_of_char CHR ''0'')
      else if byte_of_char CHR ''a'' \<le> d \<and> d \<le> byte_of_char CHR ''z'' then Some (d - byte_of_char CHR ''a'' + 10)
      else if byte_of_char CHR ''A'' \<le> d \<and> d \<le> byte_of_char CHR ''Z'' then Some (d - byte_of_char CHR ''A'' + 10)
      else None)"

fun pu_loop :: "int \<Rightarrow> u64 \<Rightarrow> u64 \<Rightarrow> bytes \<Rightarrow> u64 \<Rightarrow> u64 \<times> goerr option" where
  "pu_loop base cutoff maxVal [] n = (n, None)"
| "pu_loop base cutoff maxVal (d # ds) n =
     (case pu_digit d of
        None \<Rightarrow> (0, Some ErrSyntax)
      | Some v \<Rightarrow>
          if int (unat v) \<ge> base then (0, Some ErrSyntax)
          else if n \<ge> cutoff then (- 1, Some ErrRange)
          else
            let n = n * of_int base;
                n1 = n + ucast v
            in if n1 < n \<or> n1 > maxVal then (- 1, Some ErrRange)
               else pu_loop base cutoff maxVal ds n1)"

text \<open>\<open>strconv.IntSize\<close> is 64; a shift count is converted to \<open>uint\<close> first.\<close>

definition pu_run :: "bytes \<Rightarrow> int \<Rightarrow> int \<Rightarrow> u64 \<times> goerr option" where
  "pu_run s base bitSize =
     pu_loop base (cutoff64 base) (push_bit (nat (bitSize mod 2 ^ 64)) 1 - 1) s 0"

definition ParseUintBytes :: "bytes \<Rightarrow> int \<Rightarrow> int \<Rightarrow> u64 \<times> goerr option" where
  "ParseUintBytes s base bitSize =
     (let bitSize = (if bitSize = 0 then 64 else bitSize) in
      if length s < 1 then (0, Some ErrSyntax)
      else if 2 \<le> base \<and> base \<le> 36 then pu_run s base bitSize
      else if base = 0 then
        if s ! 0 = byte_of_char CHR ''0'' \<and> length s > 1
           \<and> (s ! 1 = byte_of_char CHR ''x'' \<or> s ! 1 = byte_of_char CHR ''X'')
        then let s = drop 2 s
             in if length s < 1 then (0, Some ErrSyntax) else pu_run s 16 bitSize
        else if s ! 0 = byte_of_char CHR ''0'' then pu_run s 8 bitSize
        else pu_run s 10 bitSize
      else (0, Some (ErrText ''invalid base'')))"

section \<open>Splitting is inverse to joining\<close>

fun str_Join :: "string list \<Rightarrow> string \<Rightarrow> string" where
  "str_Join [] sep = []"
| "str_Join [p] sep = p"
| "str_Join (p # q # ps) sep = p @ sep @ str_Join (q # ps) sep"

lemma str_Join_Cons: "ps \<noteq> [] \<Longrightarrow> str_Join (p # ps) sep = p @ sep @ str_Join ps sep"
  by (cases ps) simp_all

lemma match_iff:
  assumes "sep \<noteq> []" and "i + length sep \<le> length s"
  shows "s ! i = sep ! 0 \<and> (length sep = 1 \<or> take (length sep) (drop i s) = sep) \<longleftrightarrow>
    take (length sep) (drop i s) = sep"
proof -
  have i: "i < length s" using assms by (cases sep) auto
  then have "drop i s = s ! i # drop (Suc i) s" by (simp add: Cons_nth_drop_Suc)
  with assms(1) show ?thesis by (cases sep) auto
qed

lemma gs_loop_spec:
  assumes "sep \<noteq> []" and "start \<le> i" and "i \<le> length s"
  shows "\<exists>parts start'. gs_loop s sep 0 n i start na dst = (start', dst @ parts) \<and>
    str_Join (parts @ [drop start' s]) sep = drop start s \<and>
    int (length parts) = max 0 (min (n - 1 - na) (int (str_Count (drop i s) sep)))"
  using assms
proof (induction s sep "0 :: nat" n i start na dst rule: gs_loop.induct)
  case (1 s sep n i start na dst)
  note m = match_iff [OF "1.prems"(1), of i s]
  let ?P = "take (length sep) (drop i s) = sep"
  show ?case
  proof (cases "i + length sep \<le> length s \<and> na + 1 < n")
    case False
    then have "max 0 (min (n - 1 - na) (int (str_Count (drop i s) sep))) = 0"
      using "1.prems"(3) by (subst str_Count.simps) (auto simp: not_le)
    then show ?thesis using False by (subst gs_loop.simps) auto
  next
    case True
    have i: "i < length s" using True "1.prems"(1) by (cases sep) auto
    note guard = conjI [OF conjunct1 [OF True] conjI [OF conjunct2 [OF True] "1.prems"(1)]]
    show ?thesis
    proof (cases ?P)
      case match: True
      let ?p = "take (i - start) (drop start s)"
      obtain parts start' where ih:
        "gs_loop s sep 0 n (i + length sep) (i + length sep) (na + 1) (dst @ [?p]) = (start', (dst @ [?p]) @ parts)"
        "str_Join (parts @ [drop start' s]) sep = drop (i + length sep) s"
        "int (length parts) = max 0 (min (n - 1 - (na + 1)) (int (str_Count (drop (i + length sep) s) sep)))"
        using "1.hyps"(1) [OF guard _ "1.prems"(1)] m True match by auto
      have cnt: "str_Count (drop i s) sep = Suc (str_Count (drop (i + length sep) s) sep)"
        using match True "1.prems"(1) by (subst str_Count.simps) (auto simp: add.commute)
      have "drop start s = ?p @ drop i s"
        using "1.prems"(2) by (metis append_take_drop_id drop_drop le_add_diff_inverse2)
      also have "drop i s = sep @ drop (i + length sep) s"
        using match by (metis append_take_drop_id drop_drop add.commute)
      finally have "str_Join ((?p # parts) @ [drop start' s]) sep = drop start s"
        using ih(2) by (simp add: str_Join_Cons)
      then show ?thesis
        using ih(1,3) True match m guard cnt
        by (intro exI [of _ "?p # parts"] exI [of _ start']) (subst gs_loop.simps, auto)
    next
      case no: False
      obtain parts start' where ih:
        "gs_loop s sep 0 n (i + 1) start na dst = (start', dst @ parts)"
        "str_Join (parts @ [drop start' s]) sep = drop start s"
        "int (length parts) = max 0 (min (n - 1 - na) (int (str_Count (drop (i + 1) s) sep)))"
        using "1.hyps"(2) [OF guard _ "1.prems"(1)] m True no i "1.prems" by (simp add: Suc_le_eq) blast
      have "str_Count (drop i s) sep = str_Count (drop (i + 1) s) sep"
        using no True "1.prems"(1) by (subst str_Count.simps) (auto simp: tl_drop drop_Suc)
      then show ?thesis
        using ih True no m guard
        by (intro exI [of _ parts] exI [of _ start']) (subst gs_loop.simps, auto)
    qed
  qed
qed


text \<open>
  For a non-empty separator and \<open>n \<noteq> 0\<close>, \<open>AppendSplitN\<close> keeps the strings already in \<open>dst\<close>
  and appends pieces that joined by the separator give back the input; their number is one more
  than the number of separators, capped by \<open>n\<close> when \<open>n\<close> is positive.
\<close>

theorem AppendSplitN_join:
  assumes "sep \<noteq> []" and "n \<noteq> 0"
  shows "\<exists>parts. AppendSplitN dst s sep n = Ret (dst @ parts) \<and> str_Join parts sep = s \<and>
    int (length parts) =
      (if n < 0 then int (str_Count s sep) + 1 else min n (int (str_Count s sep) + 1))"
proof -
  let ?n = "if n < 0 then int (str_Count s sep) + 1 else n"
  obtain parts start where "gs_loop s sep 0 ?n 0 0 0 dst = (start, dst @ parts)"
    "str_Join (parts @ [drop start s]) sep = s"
    "int (length parts) = max 0 (min (?n - 1 - 0) (int (str_Count s sep)))"
    using gs_loop_spec [OF assms(1), of 0 0 s ?n 0 dst] by auto
  then show ?thesis
    using assms by (intro exI [of _ "parts @ [drop start s]"]) (auto simp: AppendSplitN_def genSplit_def)
qed

theorem AppendSplitN_join_witness:
  "\<exists>parts. AppendSplitN [''x''] ''a|b|c'' ''|'' 2 = Ret ([''x''] @ parts) \<and> str_Join parts ''|'' = ''a|b|c'' \<and>
    int (length parts) = 2"
  using AppendSplitN_join [of "''|''" 2 "[''x'']" "''a|b|c''"] by (simp add: str_Count.simps)

section \<open>The JSON heuristic\<close>

lemma startsWithOpenBrace_iff:
  "startsWithOpenBrace s \<longleftrightarrow> (\<exists>w t. s = w @ CHR ''{'' # t \<and> list_all isASCIIWhite w)"
proof (induction s)
  case (Cons c s)
  have "\<not> isASCIIWhite CHR ''{''" by (simp add: isASCIIWhite_def)
  then show ?case using Cons by (auto simp: Cons_eq_append_conv) (metis list.pred_inject(2))
qed simp

lemma endsWithCloseBrace_rev:
  "endsWithCloseBrace s \<longleftrightarrow> (\<exists>w t. s = t @ CHR ''}'' # w \<and> list_all isASCIIWhite w)"
proof (induction s rule: rev_induct)
  case Nil
  then show ?case by (simp add: endsWithCloseBrace.simps)
next
  case (snoc c s)
  have nw: "\<not> isASCIIWhite CHR ''}''" by (simp add: isASCIIWhite_def)
  have "(\<exists>w t. s @ [c] = t @ CHR ''}'' # w \<and> list_all isASCIIWhite w) \<longleftrightarrow>
    c = CHR ''}'' \<or> isASCIIWhite c \<and> (\<exists>w t. s = t @ CHR ''}'' # w \<and> list_all isASCIIWhite w)"
    (is "?L \<longleftrightarrow> ?R")
  proof
    assume ?L
    then obtain w t where "s @ [c] = t @ CHR ''}'' # w" "list_all isASCIIWhite w" by blast
    then show ?R by (cases w rule: rev_cases) auto
  next
    assume ?R
    then show ?L
    proof (elim disjE conjE exE)
      assume "c = CHR ''}''"
      then show ?L by (intro exI [of _ "[]"] exI [of _ s]) simp
    next
      fix w t
      assume "isASCIIWhite c" "s = t @ CHR ''}'' # w" "list_all isASCIIWhite w"
      then show ?L by (intro exI [of _ "w @ [c]"] exI [of _ t]) simp
    qed
  qed
  then show ?case using snoc by (subst endsWithCloseBrace.simps) auto
qed

section \<open>Number parsing\<close>

definition digit_ok :: "int \<Rightarrow> u8 \<Rightarrow> bool" where
  "digit_ok base d = (case pu_digit d of None \<Rightarrow> False | Some v \<Rightarrow> int (unat v) < base)"

definition digit_nat :: "u8 \<Rightarrow> nat" where
  "digit_nat d = (case pu_digit d of None \<Rightarrow> 0 | Some v \<Rightarrow> unat v)"

definition digits_value :: "nat \<Rightarrow> nat \<Rightarrow> bytes \<Rightarrow> nat" where
  "digits_value b acc ds = foldl (\<lambda>n d. n * b + digit_nat d) acc ds"

lemma digits_value_mono: "0 < b \<Longrightarrow> acc \<le> digits_value b acc ds"
proof (induction ds arbitrary: acc)
  case (Cons d ds)
  have "acc \<le> acc * b + digit_nat d" using Cons.prems by (cases b) auto
  also have "\<dots> \<le> digits_value b (acc * b + digit_nat d) ds" using Cons by blast
  finally show ?case by (simp add: digits_value_def)
qed (simp add: digits_value_def)

lemma unat_cutoff64:
  assumes "2 \<le> b" and "b \<le> 36"
  shows "unat (cutoff64 (int b)) = (2 ^ 64 - 1) div b + 1"
proof -
  have b: "unat (of_nat b :: u64) = b" using assms by (simp add: unat_of_nat)
  have "(2 ^ 64 - 1) div b \<le> (2 ^ 64 - 1) div 2" using assms(1) by (intro div_le_mono2) auto
  then have "(2 ^ 64 - 1) div b + 1 < (2 ^ 64 :: nat)" by simp
  moreover have "unat ((- 1 :: u64) div of_nat b) = (2 ^ 64 - 1) div b"
    by (simp add: unat_div b unsigned_minus_1_eq_mask mask_eq_exp_minus_1)
  ultimately show ?thesis
    using assms by (simp add: cutoff64_def unat_word_ariths)
qed

lemma cutoff64_iff:
  assumes "2 \<le> b" and "b \<le> 36"
  shows "cutoff64 (int b) \<le> n \<longleftrightarrow> 2 ^ 64 \<le> unat n * b"
proof -
  have "cutoff64 (int b) \<le> n \<longleftrightarrow> (2 ^ 64 - 1) div b < unat n"
    by (simp add: word_le_nat_alt unat_cutoff64 [OF assms] Suc_le_eq)
  also have "\<dots> \<longleftrightarrow> 2 ^ 64 - 1 < unat n * b" using assms(1) by (intro div_less_iff_less_mult) simp
  finally show ?thesis by auto
qed

lemma unat_maxVal:
  assumes "0 < k" and "k \<le> 64"
  shows "unat (push_bit k 1 - 1 :: u64) = 2 ^ k - 1"
proof (cases "k = 64")
  case True
  then show ?thesis by (simp add: unsigned_minus_1_eq_mask mask_eq_exp_minus_1)
next
  case False
  then have "(2 :: nat) ^ k < 2 ^ 64" using assms(2) by (intro power_strict_increasing) auto
  then have "unat (of_nat (2 ^ k) :: u64) = 2 ^ k" by (simp add: unat_of_nat del: of_nat_power)
  then have u: "unat (2 ^ k :: u64) = 2 ^ k" by simp
  have "unat (2 ^ k - 1 :: u64) = 2 ^ k - 1"
    using u by (subst unat_sub) (simp_all add: word_le_nat_alt)
  then show ?thesis by (simp add: push_bit_eq_mult)
qed

lemma pu_step:
  fixes n :: u64 and v :: u8
  assumes b: "2 \<le> b" "b \<le> 36" and k: "0 < k" "k \<le> 64" and v: "unat v < b"
    and ok: "\<not> cutoff64 (int b) \<le> n" and y: "y = n * of_nat b + ucast v"
  shows "(y < n * of_nat b \<or> push_bit k 1 - 1 < y) \<longleftrightarrow> 2 ^ k \<le> unat n * b + unat v"
    and "unat n * b + unat v < 2 ^ k \<Longrightarrow> unat y = unat n * b + unat v"
proof -
  have bw: "unat (of_nat b :: u64) = b" using b by (simp add: unat_of_nat)
  have x: "unat n * b < 2 ^ 64" using ok cutoff64_iff [OF b] by auto
  then have nb: "unat (n * of_nat b) = unat n * b" by (simp add: unat_word_ariths bw)
  have "unat (ucast v :: u64) = unat v" 
    using unsigned_less [of v, where ?'a = nat] by (simp add: unsigned_ucast_eq take_bit_nat_eq_self)
  then have yv: "unat y = (unat n * b + unat v) mod 2 ^ 64" by (simp add: y unat_word_ariths bw mod_simps)
  have pow: "(2 :: nat) ^ k \<le> 2 ^ 64" using k(2) by (intro power_increasing) auto
  have pred: "2 ^ k - 1 < z \<longleftrightarrow> 2 ^ k \<le> z" for z :: nat
    using zero_less_power [of "2 :: nat" k] by linarith
  have "y < n * of_nat b \<longleftrightarrow> 2 ^ 64 \<le> unat n * b + unat v"
    using x v b(2) by (simp add: word_less_nat_alt nb yv mod_if) linarith
  moreover have "push_bit k 1 - 1 < y \<longleftrightarrow> 2 ^ k - 1 < (unat n * b + unat v) mod 2 ^ 64"
    by (simp only: word_less_nat_alt unat_maxVal [OF k] yv)
  ultimately show "(y < n * of_nat b \<or> push_bit k 1 - 1 < y) \<longleftrightarrow> 2 ^ k \<le> unat n * b + unat v"
    using order_trans [OF pow, of "unat n * b + unat v"] pred
    by (cases "2 ^ 64 \<le> unat n * b + unat v") (simp_all del: power_numeral)
  show "unat y = unat n * b + unat v" if "unat n * b + unat v < 2 ^ k"
    using that pow by (simp add: yv)
qed

lemma pu_loop_spec:
  assumes b: "2 \<le> b" "b \<le> 36" and k: "0 < k" "k \<le> 64" and "unat n < 2 ^ k"
  defines "L \<equiv> pu_loop (int b) (cutoff64 (int b)) (push_bit k 1 - 1)"
  shows "list_all (digit_ok (int b)) ds \<Longrightarrow> digits_value b (unat n) ds < 2 ^ k \<Longrightarrow>
      L ds n = (of_nat (digits_value b (unat n) ds), None)"
    and "list_all (digit_ok (int b)) ds \<Longrightarrow> 2 ^ k \<le> digits_value b (unat n) ds \<Longrightarrow>
      L ds n = (- 1, Some ErrRange)"
    and "\<not> list_all (digit_ok (int b)) ds \<Longrightarrow> snd (L ds n) \<noteq> None"
proof -
  have *: "(list_all (digit_ok (int b)) ds \<longrightarrow> L ds n =
      (if digits_value b (unat n) ds < 2 ^ k then (of_nat (digits_value b (unat n) ds), None)
       else (- 1, Some ErrRange))) \<and>
    (\<not> list_all (digit_ok (int b)) ds \<longrightarrow> snd (L ds n) \<noteq> None)"
    using assms(5)
  proof (induction ds arbitrary: n)
    case Nil
    then show ?case by (simp add: L_def digits_value_def)
  next
    case (Cons d ds)
    show ?case
    proof (cases "digit_ok (int b) d")
      case False
      then show ?thesis by (auto simp: L_def digit_ok_def split: option.splits)
    next
      case True
      then obtain v where v: "pu_digit d = Some v" "unat v < b"
        by (auto simp: digit_ok_def split: option.splits)
      then have uv: "int (unat v) < int b" by (simp only: of_nat_less_iff)
      let ?N = "unat n * b + unat v"
      have val: "digits_value b (unat n) (d # ds) = digits_value b ?N ds"
        by (simp add: digits_value_def digit_nat_def v)
      have ge: "?N \<le> digits_value b ?N ds" using b by (intro digits_value_mono) simp
      have pow: "(2 :: nat) ^ k \<le> 2 ^ 64" using k(2) by (intro power_increasing) auto
      show ?thesis
      proof (cases "cutoff64 (int b) \<le> n \<or> 2 ^ k \<le> ?N")
        case bad: True
        have "2 ^ k \<le> ?N" using bad cutoff64_iff [OF b, of n] pow by auto
        moreover have "L (d # ds) n = (- 1, Some ErrRange)"
          using bad v uv pu_step(1) [OF b k v(2) _ refl, of n] by (auto simp: L_def Let_def)
        ultimately show ?thesis using ge by (auto simp: val)
      next
        case good: False
        let ?n = "n * of_nat b + ucast v"
        have n': "unat ?n = ?N" using good pu_step(2) [OF b k v(2) _ refl, of n] by auto
        moreover have "L (d # ds) n = L ds ?n"
          using good v uv pu_step(1) [OF b k v(2) _ refl, of n] by (auto simp: L_def Let_def)
        ultimately show ?thesis using Cons.IH [of ?n] good True by (auto simp: val)
      qed
    qed
  qed
  show "list_all (digit_ok (int b)) ds \<Longrightarrow> digits_value b (unat n) ds < 2 ^ k \<Longrightarrow>
      L ds n = (of_nat (digits_value b (unat n) ds), None)"
    and "list_all (digit_ok (int b)) ds \<Longrightarrow> 2 ^ k \<le> digits_value b (unat n) ds \<Longrightarrow>
      L ds n = (- 1, Some ErrRange)"
    and "\<not> list_all (digit_ok (int b)) ds \<Longrightarrow> snd (L ds n) \<noteq> None" using * by auto
qed

section \<open>Decimal printing\<close>

text \<open>\<open>strconv.Itoa\<close> on a non-negative number.\<close>

definition digit_char :: "nat \<Rightarrow> char" where
  "digit_char d = ''0123456789'' ! d"

fun itoa :: "nat \<Rightarrow> string" where
  "itoa n = (if n < 10 then [digit_char n] else itoa (n div 10) @ [digit_char (n mod 10)])"

declare itoa.simps [simp del]

lemma less_10_cases: "(n::nat) < 10 \<longleftrightarrow> n \<in> {0, 1, 2, 3, 4, 5, 6, 7, 8, 9}"
  by (simp only: insert_iff empty_iff) presburger

lemma digit_char_digit:
  assumes "d < 10"
  shows "digit_ok 10 (byte_of_char (digit_char d))" and "digit_nat (byte_of_char (digit_char d)) = d"
  using assms unfolding less_10_cases
  by (elim insertE emptyE; simp add: digit_char_def digit_ok_def digit_nat_def pu_digit_def byte_of_char_def)+

lemma digits_value_snoc: "digits_value b acc (ds @ [d]) = digits_value b acc ds * b + digit_nat d"
  by (simp add: digits_value_def)

lemma itoa_digits:
  "list_all (digit_ok 10) (bytes_of_string (itoa n)) \<and> digits_value 10 0 (bytes_of_string (itoa n)) = n"
proof (induction n rule: itoa.induct)
  case (1 n)
  show ?case
  proof (cases "n < 10")
    case True
    then show ?thesis
      by (subst (1 2) itoa.simps) (simp add: digit_char_digit digits_value_def)
  next
    case False
    then show ?thesis
      using 1 by (subst (1 2) itoa.simps) (simp add: digit_char_digit digits_value_snoc)
  qed
qed

lemma itoa_nonempty [simp]: "itoa n \<noteq> []"
  by (subst itoa.simps) simp

lemma itoa_chars: "set (itoa n) \<subseteq> set ''0123456789''"
proof (induction n rule: itoa.induct)
  case (1 n)
  have "digit_char d \<in> set ''0123456789''" if "d < 10" for d
    using that unfolding digit_char_def less_10_cases by (elim insertE emptyE) simp_all
  then show ?case using 1 by (subst itoa.simps) auto
qed

text \<open>
  C32 [parseuint].  \<open>ParseUintBytes\<close> with a base from 2 to 36 and a size of 1 to 64 bits accepts exactly
  the non-empty digit strings of that base whose value fits in the size and returns that value;
  on a longer value of valid digits it returns \<open>ErrRange\<close> with the largest \<open>uint64\<close>.  The
  overflow tests in 64-bit arithmetic miss no case.
\<close>

theorem ParseUintBytes_correct:
  assumes "2 \<le> b" and "b \<le> 36" and "0 < k" and "k \<le> 64" and "s \<noteq> []"
  shows "(ParseUintBytes s (int b) (int k) = (n, None) \<longleftrightarrow>
      list_all (digit_ok (int b)) s \<and> digits_value b 0 s < 2 ^ k \<and> n = of_nat (digits_value b 0 s)) \<and>
    (list_all (digit_ok (int b)) s \<and> 2 ^ k \<le> digits_value b 0 s \<longrightarrow>
      ParseUintBytes s (int b) (int k) = (- 1, Some ErrRange))"
proof -
  have "ParseUintBytes s (int b) (int k) = pu_loop (int b) (cutoff64 (int b)) (push_bit k 1 - 1) s 0"
    using assms by (simp add: ParseUintBytes_def pu_run_def Suc_le_eq)
  with pu_loop_spec [OF assms(1-4), of 0 s] show ?thesis
    by (cases "list_all (digit_ok (int b)) s"; cases "digits_value b 0 s < 2 ^ k") auto
qed

theorem ParseUintBytes_correct_witness:
  "ParseUintBytes (bytes_of_string ''255'') (int 10) (int 8) = (255, None) \<and>
   ParseUintBytes (bytes_of_string ''256'') (int 10) (int 8) = (- 1, Some ErrRange)"
  using ParseUintBytes_correct [of 10 8 "bytes_of_string ''255''" 255]
    ParseUintBytes_correct [of 10 8 "bytes_of_string ''256''" 0]
  by (simp add: digits_value_def digit_ok_def digit_nat_def pu_digit_def byte_of_char_def)

text \<open>What \<open>Itoa\<close> prints, \<open>ParseUint\<close> reads back.\<close>

lemma ParseUint_itoa:
  assumes "n < 2 ^ k" and "0 < k" and "k \<le> 64"
  shows "ParseUintBytes (bytes_of_string (itoa n)) 10 (int k) = (of_nat n, None)"
proof -
  have ne: "bytes_of_string (itoa n) \<noteq> []" by (metis itoa_nonempty length_bytes_of_string length_0_conv)
  have "ParseUintBytes (bytes_of_string (itoa n)) (int 10) (int k) =
      pu_loop (int 10) (cutoff64 (int 10)) (push_bit k 1 - 1) (bytes_of_string (itoa n)) 0"
    using ne assms by (simp add: ParseUintBytes_def pu_run_def Suc_le_eq)
  also have "\<dots> = (of_nat n, None)"
    using pu_loop_spec(1) [of 10 k 0 "bytes_of_string (itoa n)"] assms itoa_digits [of n] by simp
  finally show ?thesis by simp
qed

end
