(* ===== verification/BlobServer.thy ===== *)
theory BlobServer
  imports Blob
begin

text \<open>
  Package \<open>pkg/blobserver\<close>: the storage interface (\<open>interface.go\<close>), checked reception
  (\<open>receive.go\<close>), the notification hub (\<open>blobhub.go\<close>) and the storage that implements nothing
  (\<open>noimpl.go\<close>).  The promises of the interface are the locale \<open>stores\<close>, stated for a family of
  storages that live in one world, so that the same laws serve a single storage and the
  storages that distribute over several.
\<close>

section \<open>The storage interface\<close>

text \<open>
  How far a receiver read its source: not at all, up to some point, or until the reader
  reported its end.
\<close>

datatype progress = NotRead | PartRead | ReadToEnd

type_synonym recv_ret = "SizedRef \<times> goerr option \<times> progress"

text \<open>
  A context is \<open>None\<close> if it is never cancelled, and \<open>Some k\<close> if an enumeration under it sees the
  cancellation in place of its send number \<open>k\<close>.
\<close>

type_synonym ctx = "nat option"

text \<open>
  A value sent on a destination channel is an element of the returned list.  Enumerations do not
  change the world.  \<open>sto_notify\<close> is \<open>NotifyBlobReceived\<close> of the storage's hub.
\<close>

record 'w Storage =
  sto_Fetch :: "'w fetcher"
  sto_ReceiveBlob :: "Ref \<Rightarrow> reader \<Rightarrow> 'w \<Rightarrow> (recv_ret \<times> 'w) outcome"
  sto_StatBlobs :: "Ref list \<Rightarrow> 'w \<Rightarrow> ((SizedRef list \<times> goerr option) \<times> 'w) outcome"
  sto_EnumerateBlobs :: "ctx \<Rightarrow> string \<Rightarrow> int \<Rightarrow> 'w \<Rightarrow> (SizedRef list \<times> goerr option) outcome"
  sto_RemoveBlobs :: "Ref list \<Rightarrow> 'w \<Rightarrow> (goerr option \<times> 'w) outcome"
  sto_notify :: "SizedRef \<Rightarrow> 'w \<Rightarrow> (goerr option \<times> 'w) outcome"

text \<open>
  \<open>StatBlob\<close> makes a channel of capacity one and reads it without blocking; a storage that
  sends two values would block on the second.
\<close>

definition StatBlob :: "'w Storage \<Rightarrow> Ref \<Rightarrow> 'w \<Rightarrow> ((SizedRef \<times> goerr option) \<times> 'w) outcome" where
  "StatBlob bs br w =
     obind (sto_StatBlobs bs [br] w) (\<lambda>((c, err), w).
       if length c > 1 then Hang
       else if err \<noteq> None then Ret ((zeroSizedRef, err), w)
       else case c of
              [] \<Rightarrow> Ret ((zeroSizedRef, Some ErrNotExist), w)
            | sb # _ \<Rightarrow> Ret ((sb, None), w))"

section \<open>Reception with verification\<close>

text \<open>
  What a consumer sees of a \<open>checkHashReader\<close>: the end of the source becomes \<open>ErrCorruptBlob\<close> if
  the digest of what was read does not match.
\<close>

definition chr_corrupt :: "hash \<Rightarrow> Ref \<Rightarrow> reader \<Rightarrow> bool" where
  "chr_corrupt h br src \<longleftrightarrow> rd_err src = None \<and> \<not> HashMatches br (hash_Write h (rd_data src))"

definition checkHashReader :: "hash \<Rightarrow> Ref \<Rightarrow> reader \<Rightarrow> reader" where
  "checkHashReader h br src =
     (if chr_corrupt h br src then src\<lparr>rd_err := Some ErrCorruptBlob\<rparr> else src)"

text \<open>
  A reference of an unsupported digest has a nil hash; the first read then writes to nil and
  panics, which happens if the receiver reads at all.
\<close>

definition receive :: "'w Storage \<Rightarrow> Ref \<Rightarrow> reader \<Rightarrow> bool \<Rightarrow> 'w \<Rightarrow> ((SizedRef \<times> goerr option) \<times> 'w) outcome" where
  "receive dst br src checkHash w =
     (let src = limit_reader src MaxBlobSize;
          finish = (\<lambda>sb w. obind (sto_notify dst sb w) (\<lambda>(err, w). Ret ((sb, err), w)))
      in if checkHash then
           obind (ref_Hash br) (\<lambda>h.
             case h of
               None \<Rightarrow>
                 obind (sto_ReceiveBlob dst br src w) (\<lambda>((sb, err, prog), w).
                   if prog \<noteq> NotRead then Panic ''nil pointer dereference''
                   else if err \<noteq> None then Ret ((sb, err), w) else finish sb w)
             | Some h \<Rightarrow>
                 obind (sto_ReceiveBlob dst br (checkHashReader h br src) w) (\<lambda>((sb, err, prog), w).
                   if err \<noteq> None then
                     if prog = ReadToEnd \<and> chr_corrupt h br src
                     then Ret ((sb, Some ErrCorruptBlob), w) else Ret ((sb, err), w)
                   else finish sb w))
         else
           obind (sto_ReceiveBlob dst br src w) (\<lambda>((sb, err, prog), w).
             if err \<noteq> None then Ret ((sb, err), w) else finish sb w))"

definition Receive :: "'w Storage \<Rightarrow> Ref \<Rightarrow> reader \<Rightarrow> 'w \<Rightarrow> ((SizedRef \<times> goerr option) \<times> 'w) outcome" where
  "Receive dst br src w = receive dst br src True w"

definition ReceiveNoHash :: "'w Storage \<Rightarrow> Ref \<Rightarrow> reader \<Rightarrow> 'w \<Rightarrow> ((SizedRef \<times> goerr option) \<times> 'w) outcome" where
  "ReceiveNoHash dst br src w = receive dst br src False w"

definition ReceiveString :: "'w Storage \<Rightarrow> string \<Rightarrow> 'w \<Rightarrow> ((SizedRef \<times> goerr option) \<times> 'w) outcome" where
  "ReceiveString dst s w = Receive dst (RefFromString s) (bytes_reader (bytes_of_string s)) w"

section \<open>The hub\<close>

text \<open>
  Channels are identified by numbers.  The maps used as sets are lists without duplicates,
  \<open>None\<close> standing for a nil map.
\<close>

type_synonym chan = nat

record 'w memHub =
  hub_hooks :: "(SizedRef \<Rightarrow> 'w \<Rightarrow> (goerr option \<times> 'w) outcome) list"
  hub_listeners :: "chan list option"
  hub_blobListeners :: "(Ref \<times> chan list) list option"

definition newHub :: "'w memHub" where
  "newHub = \<lparr>hub_hooks = [], hub_listeners = None, hub_blobListeners = None\<rparr>"

text \<open>
  The hooks run in parallel and each is waited for; they are modelled in the order of
  registration.  \<open>syncutil.Group.Err\<close> reports the first error.
\<close>

fun run_hooks :: "(SizedRef \<Rightarrow> 'w \<Rightarrow> (goerr option \<times> 'w) outcome) list \<Rightarrow> SizedRef \<Rightarrow> goerr option \<Rightarrow> 'w
    \<Rightarrow> (goerr option \<times> 'w) outcome" where
  "run_hooks [] sb err w = Ret (err, w)"
| "run_hooks (h # hs) sb err w =
     obind (h sb w) (\<lambda>(e, w). run_hooks hs sb (if err \<noteq> None then err else e) w)"

text \<open>The third component lists the messages handed to goroutines for sending.\<close>

definition NotifyBlobReceived ::
  "'w memHub \<Rightarrow> SizedRef \<Rightarrow> 'w \<Rightarrow> (goerr option \<times> (chan \<times> Ref) list \<times> 'w) outcome" where
  "NotifyBlobReceived h sb w =
     obind (run_hooks (hub_hooks h) sb None w) (\<lambda>(err, w).
       if err \<noteq> None then Ret (err, [], w)
       else
         let br = sr_Ref sb;
             global = (case hub_listeners h of None \<Rightarrow> [] | Some l \<Rightarrow> l);
             specific = (case hub_blobListeners h of
                           None \<Rightarrow> []
                         | Some m \<Rightarrow> (case map_of m br of None \<Rightarrow> [] | Some l \<Rightarrow> l))
         in Ret (None, map (\<lambda>c. (c, br)) global @ map (\<lambda>c. (c, br)) specific, w))"

definition RegisterListener :: "chan \<Rightarrow> 'w memHub \<Rightarrow> 'w memHub" where
  "RegisterListener ch h =
     h\<lparr>hub_listeners := Some (List.insert ch (case hub_listeners h of None \<Rightarrow> [] | Some l \<Rightarrow> l))\<rparr>"

definition UnregisterListener :: "chan \<Rightarrow> 'w memHub \<Rightarrow> 'w memHub outcome" where
  "UnregisterListener ch h =
     (case hub_listeners h of
        None \<Rightarrow> Panic ''blobhub: UnregisterListener called without RegisterListener''
      | Some l \<Rightarrow> Ret (h\<lparr>hub_listeners := Some (removeAll ch l)\<rparr>))"

definition RegisterBlobListener :: "Ref \<Rightarrow> chan \<Rightarrow> 'w memHub \<Rightarrow> 'w memHub" where
  "RegisterBlobListener br ch h =
     (let m = (case hub_blobListeners h of None \<Rightarrow> [] | Some m \<Rightarrow> m);
          l = (case map_of m br of None \<Rightarrow> [] | Some l \<Rightarrow> l)
      in h\<lparr>hub_blobListeners := Some (AList.update br (List.insert ch l) m)\<rparr>)"

definition UnregisterBlobListener :: "Ref \<Rightarrow> chan \<Rightarrow> 'w memHub \<Rightarrow> 'w memHub outcome" where
  "UnregisterBlobListener br ch h =
     (case hub_blobListeners h of
        None \<Rightarrow> Panic ''blobhub: UnregisterBlobListener called without RegisterBlobListener''
      | Some m \<Rightarrow>
          (case map_of m br of
             None \<Rightarrow> Panic ''blobhub: UnregisterBlobListener called without RegisterBlobListener for''
           | Some l \<Rightarrow>
               (let l = removeAll ch l
                in Ret (h\<lparr>hub_blobListeners :=
                     Some (if l = [] then AList.delete br m else AList.update br l m)\<rparr>))))"

definition AddReceiveHook ::
  "(SizedRef \<Rightarrow> 'w \<Rightarrow> (goerr option \<times> 'w) outcome) \<Rightarrow> 'w memHub \<Rightarrow> 'w memHub" where
  "AddReceiveHook hook h = h\<lparr>hub_hooks := hub_hooks h @ [hook]\<rparr>"

text \<open>The table of hubs, keyed by the identity of the storage object.\<close>

definition getHub :: "nat \<Rightarrow> (nat \<times> 'w memHub) list \<Rightarrow> 'w memHub option" where
  "getHub storage stohub = map_of stohub storage"

definition GetHub :: "nat \<Rightarrow> (nat \<times> 'w memHub) list \<Rightarrow> 'w memHub \<times> (nat \<times> 'w memHub) list" where
  "GetHub storage stohub =
     (case getHub storage stohub of
        Some h \<Rightarrow> (h, stohub)
      | None \<Rightarrow> (newHub, AList.update storage newHub stohub))"

section \<open>NoImplStorage\<close>

text \<open>
  \<open>EnumerateBlobs\<close> of \<open>NoImplStorage\<close> returns without closing the channel, which a caller that
  ranges over it waits for; the returned error is what callers that check it first see.
\<close>

definition NoImplStorage :: "'w Storage" where
  "NoImplStorage =
     \<lparr>sto_Fetch = \<lambda>br w. Ret ((None, 0, Some ErrNotExist), w),
      sto_ReceiveBlob = \<lambda>br src w.
        Ret ((zeroSizedRef, Some (ErrText ''ReceiveBlob not implemented''), NotRead), w),
      sto_StatBlobs = \<lambda>brs w. Ret (([], Some (ErrText ''Stat not implemented'')), w),
      sto_EnumerateBlobs = \<lambda>c after limit w. Ret ([], Some (ErrText ''EnumerateBlobs not implemented'')),
      sto_RemoveBlobs = \<lambda>brs w. Ret (Some (ErrText ''Remove not implemented''), w),
      sto_notify = \<lambda>sb w. Ret (None, w)\<rparr>"


section \<open>The contract of a storage\<close>

text \<open>The abstract state is the map from references to contents.\<close>

type_synonym blobmap = "Ref \<rightharpoonup> bytes"

definition sized :: "Ref \<Rightarrow> bytes \<Rightarrow> SizedRef" where
  "sized br b = \<lparr>sr_Ref = br, sr_Size = of_nat (length b)\<rparr>"

definition fetch_spec :: "blobmap \<Rightarrow> Ref \<Rightarrow> fetch_ret" where
  "fetch_spec m br =
     (case m br of
        None \<Rightarrow> (None, 0, Some ErrNotExist)
      | Some b \<Rightarrow> (Some (bytes_reader b), of_nat (length b), None))"

text \<open>A blob already present is kept as it is.\<close>

definition put :: "blobmap \<Rightarrow> Ref \<Rightarrow> bytes \<Rightarrow> blobmap" where
  "put m br b = (case m br of None \<Rightarrow> m(br \<mapsto> b) | Some _ \<Rightarrow> m)"

definition stat_spec :: "blobmap \<Rightarrow> Ref list \<Rightarrow> SizedRef list" where
  "stat_spec m brs = concat (map (\<lambda>br. case m br of None \<Rightarrow> [] | Some b \<Rightarrow> [sized br b]) brs)"

definition refs_after :: "blobmap \<Rightarrow> string \<Rightarrow> Ref set" where
  "refs_after m after = {br \<in> dom m. after < ref_String br}"

definition enum_spec :: "blobmap \<Rightarrow> string \<Rightarrow> nat \<Rightarrow> SizedRef list" where
  "enum_spec m after n =
     map (\<lambda>br. sized br (the (m br))) (take n (sorted_list_of_set (refs_after m after)))"

text \<open>Every blob is stored under the reference of its contents.\<close>

definition blobs_ok :: "blobmap \<Rightarrow> bool" where
  "blobs_ok m \<longleftrightarrow> finite (dom m) \<and> (\<forall>br b. m br = Some b \<longrightarrow> br = SHA1FromBytes b)"

lemma blobs_ok_put: "blobs_ok m \<Longrightarrow> blobs_ok (put m (SHA1FromBytes b) b)"
  by (auto simp: blobs_ok_def put_def split: option.split if_splits)

lemma blobs_ok_restrict: "blobs_ok m \<Longrightarrow> blobs_ok (m |` A)"
  by (auto simp: blobs_ok_def restrict_map_def split: if_splits intro: finite_subset [of _ "dom m"])

lemma put_present: "put m br b br \<noteq> None"
  by (auto simp: put_def split: option.split)

lemma refs_after_subset: "refs_after m after \<subseteq> dom m"
  by (auto simp: refs_after_def)

lemma blobs_ok_canonical: "blobs_ok m \<Longrightarrow> br \<in> dom m \<Longrightarrow> ref_canonical br"
  unfolding blobs_ok_def by (metis SHA1FromBytes_canonical domD)

text \<open>
  A family of storages \<open>sto 0\<close>, \<dots>, \<open>sto (n - 1)\<close> in one world: the operations of one do not
  change the contents of the others.  The laws are those documented for \<open>Fetcher\<close>,
  \<open>BlobReceiver\<close>, \<open>BlobStatter\<close>, \<open>BlobEnumerator\<close> and \<open>BlobRemover\<close>, for storages that are not
  failing.
\<close>

locale stores =
  fixes sto :: "nat \<Rightarrow> 'w Storage"
    and n :: nat
    and C :: "'w \<Rightarrow> nat \<Rightarrow> blobmap"
    and I :: "'w \<Rightarrow> bool"
  assumes ok: "I w \<Longrightarrow> i < n \<Longrightarrow> blobs_ok (C w i)"
    and Fetch: "I w \<Longrightarrow> i < n \<Longrightarrow>
      \<exists>w'. sto_Fetch (sto i) br w = Ret (fetch_spec (C w i) br, w') \<and> I w' \<and> C w' = C w"
    and ReceiveBlob: "I w \<Longrightarrow> i < n \<Longrightarrow> br = SHA1FromBytes data \<Longrightarrow>
      \<exists>w'. sto_ReceiveBlob (sto i) br (bytes_reader data) w = Ret ((sized br data, None, ReadToEnd), w')
        \<and> I w' \<and> C w' = (C w)(i := put (C w i) br data)"
    and ReceiveBlob_err: "I w \<Longrightarrow> i < n \<Longrightarrow> ref_Hash br = Ret (Some h) \<Longrightarrow> rd_err src = Some e \<Longrightarrow>
      \<exists>w' sb e'. sto_ReceiveBlob (sto i) br src w = Ret ((sb, Some e', ReadToEnd), w') \<and> I w' \<and> C w' = C w"
    and StatBlobs: "I w \<Longrightarrow> i < n \<Longrightarrow>
      \<exists>w'. sto_StatBlobs (sto i) brs w = Ret ((stat_spec (C w i) brs, None), w') \<and> I w' \<and> C w' = C w"
    and EnumerateBlobs: "I w \<Longrightarrow> i < n \<Longrightarrow> limit > 0 \<Longrightarrow>
      sto_EnumerateBlobs (sto i) None after limit w = Ret (enum_spec (C w i) after (nat limit), None)"
    and RemoveBlobs: "I w \<Longrightarrow> i < n \<Longrightarrow>
      \<exists>w'. sto_RemoveBlobs (sto i) brs w = Ret (None, w') \<and> I w' \<and>
        C w' = (C w)(i := C w i |` (- set brs))"
    and notify: "I w \<Longrightarrow> i < n \<Longrightarrow>
      \<exists>w'. sto_notify (sto i) sb w = Ret (None, w') \<and> I w' \<and> C w' = C w"
begin

text \<open>A blob whose contents match its reference is received and stored.\<close>

lemma receive_good:
  assumes "I w" and "i < n" and "br = SHA1FromBytes data" and "length data \<le> MaxBlobSize"
  shows "\<exists>w'. receive (sto i) br (bytes_reader data) ch w = Ret ((sized br data, None), w') \<and> I w' \<and>
    C w' = (C w)(i := put (C w i) br data)"
proof -
  obtain w1 where w1: "sto_ReceiveBlob (sto i) br (bytes_reader data) w =
      Ret ((sized br data, None, ReadToEnd), w1)" "I w1" "C w1 = (C w)(i := put (C w i) br data)"
    using ReceiveBlob [OF assms(1-3)] by blast
  obtain w2 where w2: "sto_notify (sto i) (sized br data) w1 = Ret (None, w2)" "I w2" "C w2 = C w1"
    using notify [OF w1(2) assms(2)] by blast
  have src: "limit_reader (bytes_reader data) MaxBlobSize = bytes_reader data"
    using assms(4) by (simp add: limit_reader_def bytes_reader_def)
  have chk: "checkHashReader sha1_New br (bytes_reader data) = bytes_reader data"
    by (simp add: checkHashReader_def chr_corrupt_def assms(3))
  have "ref_Hash br = Ret (Some sha1_New)" by (simp add: assms(3))
  then show ?thesis using w1 w2 by (simp add: receive_def src chk Let_def)
qed

text \<open>
  A source that ends without an error but does not match the reference, or is longer than
  \<open>MaxBlobSize\<close>, is reported as corrupt and nothing is stored.
\<close>

lemma Receive_corrupt:
  assumes "I w" and "i < n" and "ref_Hash br = Ret (Some h)"
    and "br \<noteq> SHA1FromBytes (take MaxBlobSize data)"
  shows "\<exists>w' sb. Receive (sto i) br (bytes_reader data) w = Ret ((sb, Some ErrCorruptBlob), w') \<and> I w' \<and>
    C w' = C w"
proof -
  let ?src = "limit_reader (bytes_reader data) MaxBlobSize"
  have src: "rd_data ?src = take MaxBlobSize data" "rd_err ?src = None"
    by (auto simp: limit_reader_def bytes_reader_def)
  have c: "chr_corrupt h br ?src"
    using HashMatches_imp_SHA1 [OF assms(3)] assms(4) src by (auto simp: chr_corrupt_def)
  obtain w' sb e where "sto_ReceiveBlob (sto i) br (checkHashReader h br ?src) w =
      Ret ((sb, Some e, ReadToEnd), w')" "I w'" "C w' = C w"
    using ReceiveBlob_err [OF assms(1-3), of "checkHashReader h br ?src"] c
    by (auto simp: checkHashReader_def)
  then show ?thesis using c assms(3) by (auto simp: Receive_def receive_def Let_def)
qed

text \<open>What was received can be fetched, under the same reference, until it is removed.\<close>

lemma Fetch_after_receive:
  assumes "I w" and "i < n" and "br = SHA1FromBytes data" and "length data \<le> MaxBlobSize"
  shows "\<exists>w1 w2 b. receive (sto i) br (bytes_reader data) ch w = Ret ((sized br data, None), w1) \<and>
    sto_Fetch (sto i) br w1 = Ret ((Some (bytes_reader b), of_nat (length b), None), w2) \<and>
    SHA1FromBytes b = br \<and> (C w i br = None \<longrightarrow> b = data)"
proof -
  obtain w1 where w1: "receive (sto i) br (bytes_reader data) ch w = Ret ((sized br data, None), w1)"
    "I w1" "C w1 = (C w)(i := put (C w i) br data)"
    using receive_good [OF assms] by blast
  obtain b where b: "C w1 i br = Some b" using put_present w1(3) by fastforce
  have "SHA1FromBytes b = br" using ok [OF w1(2) assms(2)] b by (auto simp: blobs_ok_def)
  moreover have "C w i br = None \<Longrightarrow> b = data" using b w1(3) by (simp add: put_def)
  ultimately show ?thesis
    using w1 b Fetch [OF w1(2) assms(2), of br] by (auto simp: fetch_spec_def)
qed

lemma StatBlob_spec:
  assumes "I w" and "i < n"
  shows "\<exists>w'. StatBlob (sto i) br w =
    Ret ((case C w i br of None \<Rightarrow> (zeroSizedRef, Some ErrNotExist) | Some b \<Rightarrow> (sized br b, None)), w')
    \<and> I w' \<and> C w' = C w"
  using StatBlobs [OF assms, of "[br]"]
  by (auto simp: StatBlob_def stat_spec_def split: option.split)

end

section \<open>Hub properties\<close>

text \<open>A failing hook keeps every listener from being notified.\<close>

lemma run_hooks_err: "run_hooks hs sb (Some e) w = Ret (r, w') \<Longrightarrow> r = Some e"
  by (induction hs arbitrary: w) (auto simp: obind_eq_Ret)

end
