(* ===== verification/Enumerate.thy ===== *)
theory Enumerate
  imports BlobServer
begin

text \<open>
  Package \<open>pkg/blobserver\<close>: enumeration over several storages (\<open>mergedenum.go\<close>), over all batches of
  one (\<open>enumerate.go\<close>), the comparison of two enumerations (\<open>sync.go\<close>) and the concatenation of
  blob streams (\<open>multistream.go\<close>).
\<close>

section \<open>Merged enumeration\<close>

definition me_buffered :: nat where
  "me_buffered = 8"

text \<open>\<open>for !peeker.Closed() && tooLow(peeker.MustPeek().Ref) { peeker.Take() }\<close>\<close>

lemma cp_MustPeek_items:
  "cp_MustPeek cp = Ret (sr, cp') \<Longrightarrow> cp_items cp' = cp_items cp \<and> cp_items cp \<noteq> []"
  by (auto simp: cp_MustPeek_def cp_Peek_def cp_items_def Let_def split: if_splits list.splits)

function me_skip :: "(Ref \<Rightarrow> bool) \<Rightarrow> ChanPeeker \<Rightarrow> ChanPeeker outcome" where
  "me_skip tooLow cp =
     (if fst (cp_Closed cp) then Ret (snd (cp_Closed cp))
      else obind (cp_MustPeek (snd (cp_Closed cp))) (\<lambda>x.
        if tooLow (sr_Ref (fst x)) then me_skip tooLow (snd (cp_Take (snd x))) else Ret (snd x)))"
  by pat_completeness auto
termination
proof (relation "measure (\<lambda>(t, cp). length (cp_items cp))")
  fix tooLow :: "Ref \<Rightarrow> bool" and cp x
  assume "cp_MustPeek (snd (cp_Closed cp)) = Ret x"
  then have "cp_items (snd x) = cp_items cp" "cp_items cp \<noteq> []"
    using cp_MustPeek_items [of "snd (cp_Closed cp)" "fst x" "snd x"] by (simp_all add: cp_Closed_items)
  then show "((tooLow, snd (cp_Take (snd x))), tooLow, cp) \<in> measure (\<lambda>(t, cp). length (cp_items cp))"
    by (simp add: cp_Take_items)
qed simp

declare me_skip.simps [simp del]

text \<open>One pass over the peekers: the lowest head, the first one among equals.\<close>

fun me_scan :: "(Ref \<Rightarrow> bool) \<Rightarrow> ChanPeeker list \<Rightarrow> SizedRef option
    \<Rightarrow> (SizedRef option \<times> ChanPeeker list) outcome" where
  "me_scan tooLow [] lowest = Ret (lowest, [])"
| "me_scan tooLow (p # ps) lowest =
     obind (me_skip tooLow p) (\<lambda>p.
       let (closed, p) = cp_Closed p in
       if closed then obind (me_scan tooLow ps lowest) (\<lambda>(low, ps). Ret (low, p # ps))
       else
         obind (cp_MustPeek p) (\<lambda>(sb, p).
           let lowest = (case lowest of
                           None \<Rightarrow> Some sb
                         | Some l \<Rightarrow> if ref_Less (sr_Ref sb) (sr_Ref l) then Some sb else lowest)
           in obind (me_scan tooLow ps lowest) (\<lambda>(low, ps). Ret (low, p # ps))))"

definition me_tooLow :: "Ref \<Rightarrow> Ref \<Rightarrow> bool" where
  "me_tooLow lastSent br \<longleftrightarrow> ref_Valid lastSent \<and> (br = lastSent \<or> ref_Less br lastSent)"

text \<open>The main loop; returns the values sent and the peekers as they are left.\<close>

function me_loop :: "int \<Rightarrow> int \<Rightarrow> Ref \<Rightarrow> ChanPeeker list \<Rightarrow> (SizedRef list \<times> ChanPeeker list) outcome" where
  "me_loop limit nSent lastSent peekers =
     (if nSent < limit then
        obind (me_scan (me_tooLow lastSent) peekers None) (\<lambda>(lowest, peekers).
          case lowest of
            None \<Rightarrow> Ret ([], peekers)
          | Some sb \<Rightarrow>
              obind (me_loop limit (nSent + 1) (sr_Ref sb) peekers) (\<lambda>(sent, peekers).
                Ret (sb # sent, peekers)))
      else Ret ([], peekers))"
  by pat_completeness auto
termination
  by (relation "measure (\<lambda>(limit, nSent, lastSent, peekers). nat (limit - nSent))") auto

declare me_loop.simps [simp del]

fun me_start :: "(ctx \<Rightarrow> string \<Rightarrow> int \<Rightarrow> 'w \<Rightarrow> (SizedRef list \<times> goerr option) outcome) list
    \<Rightarrow> ctx \<Rightarrow> string \<Rightarrow> int \<Rightarrow> 'w \<Rightarrow> (ChanPeeker list \<times> goerr option list) outcome" where
  "me_start [] ctx after limit w = Ret ([], [])"
| "me_start (s # ss) ctx after limit w =
     obind (s ctx after limit w) (\<lambda>(items, err).
       obind (me_start ss ctx after limit w) (\<lambda>(ps, errs).
         Ret (newChanPeeker items # ps, err # errs)))"

text \<open>
  After the loop every source is waited for.  A source whose remaining values do not fit in the
  channel's buffer is still blocked in a send: it returns only once the context is cancelled,
  and the context of the sources is cancelled by the function's own return or by the caller.
\<close>

definition me_blocked :: "ChanPeeker \<Rightarrow> bool" where
  "me_blocked p \<longleftrightarrow> length (cp_Ch p) > me_buffered"

fun me_wait :: "ctx \<Rightarrow> (ChanPeeker \<times> goerr option) list \<Rightarrow> goerr option \<Rightarrow> goerr option outcome" where
  "me_wait ctx [] retErr = Ret retErr"
| "me_wait ctx ((p, err) # rest) retErr =
     (if me_blocked p \<and> ctx = None then Hang
      else
        let err = (if me_blocked p then Some ErrCanceled else err)
        in me_wait ctx rest (if err \<noteq> None then err else retErr))"

definition mergedEnumerate ::
  "(ctx \<Rightarrow> string \<Rightarrow> int \<Rightarrow> 'w \<Rightarrow> (SizedRef list \<times> goerr option) outcome) list
    \<Rightarrow> ctx \<Rightarrow> string \<Rightarrow> int \<Rightarrow> 'w \<Rightarrow> (SizedRef list \<times> goerr option) outcome" where
  "mergedEnumerate sources ctx after limit w =
     obind (me_start sources ctx after limit w) (\<lambda>(peekers, errs).
       obind (me_loop limit 0 zeroRef peekers) (\<lambda>(sent, peekers).
         obind (me_wait ctx (zip peekers errs) None) (\<lambda>retErr. Ret (sent, retErr))))"

definition MergedEnumerate ::
  "(ctx \<Rightarrow> string \<Rightarrow> int \<Rightarrow> 'w \<Rightarrow> (SizedRef list \<times> goerr option) outcome) list
    \<Rightarrow> ctx \<Rightarrow> string \<Rightarrow> int \<Rightarrow> 'w \<Rightarrow> (SizedRef list \<times> goerr option) outcome" where
  "MergedEnumerate sources ctx after limit w = mergedEnumerate sources ctx after limit w"

definition MergedEnumerateStorage ::
  "'w Storage list \<Rightarrow> ctx \<Rightarrow> string \<Rightarrow> int \<Rightarrow> 'w \<Rightarrow> (SizedRef list \<times> goerr option) outcome" where
  "MergedEnumerateStorage sources ctx after limit w =
     mergedEnumerate (map sto_EnumerateBlobs sources) ctx after limit w"

section \<open>Enumerating everything\<close>

text \<open>
  The goroutine that consumes one batch: after an error of \<open>fn\<close> the rest is received and
  ignored.  Returns the error, the last reference handed to \<open>fn\<close> and their number.
\<close>

fun ea_consume :: "(SizedRef \<Rightarrow> 'w \<Rightarrow> goerr option \<times> 'w) \<Rightarrow> SizedRef list \<Rightarrow> string \<Rightarrow> nat \<Rightarrow> 'w
    \<Rightarrow> goerr option \<times> string \<times> nat \<times> 'w" where
  "ea_consume fn [] after n w = (None, after, n, w)"
| "ea_consume fn (sb # sbs) after n w =
     (let (err, w) = fn sb w
      in if err \<noteq> None then (err, ref_String (sr_Ref sb), n + 1, w)
         else ea_consume fn sbs (ref_String (sr_Ref sb)) (n + 1) w)"

definition ea_batchSize :: int where
  "ea_batchSize = 1000"

text \<open>
  The outer loop runs until a batch is empty; \<open>fuel\<close> bounds the number of batches, and \<open>None\<close>
  means it was used up.  When the source fails, \<open>fn\<close> has seen some of the values sent before: the
  first \<open>seen\<close>.
\<close>

fun EnumerateAllFrom :: "nat \<Rightarrow> nat \<Rightarrow> (ctx \<Rightarrow> string \<Rightarrow> int \<Rightarrow> 'w \<Rightarrow> (SizedRef list \<times> goerr option) outcome)
    \<Rightarrow> ctx \<Rightarrow> string \<Rightarrow> (SizedRef \<Rightarrow> 'w \<Rightarrow> goerr option \<times> 'w) \<Rightarrow> 'w \<Rightarrow> (goerr option \<times> 'w) outcome option" where
  "EnumerateAllFrom 0 seen src ctx after fn w = None"
| "EnumerateAllFrom (Suc fuel) seen src ctx after fn w =
     (case src ctx after ea_batchSize w of
        Panic m \<Rightarrow> Some (Panic m)
      | Hang \<Rightarrow> Some Hang
      | Ret (items, srcErr) \<Rightarrow>
          if srcErr \<noteq> None then
            let (_, _, _, w) = ea_consume fn (take seen items) after 0 w in Some (Ret (srcErr, w))
          else
            let (err, after, n, w) = ea_consume fn items after 0 w
            in if err \<noteq> None then Some (Ret (err, w))
               else if n = 0 then Some (Ret (None, w))
               else EnumerateAllFrom fuel seen src ctx after fn w)"

definition EnumerateAll :: "nat \<Rightarrow> nat \<Rightarrow> (ctx \<Rightarrow> string \<Rightarrow> int \<Rightarrow> 'w \<Rightarrow> (SizedRef list \<times> goerr option) outcome)
    \<Rightarrow> ctx \<Rightarrow> (SizedRef \<Rightarrow> 'w \<Rightarrow> goerr option \<times> 'w) \<Rightarrow> 'w \<Rightarrow> (goerr option \<times> 'w) outcome option" where
  "EnumerateAll fuel seen src ctx fn w = EnumerateAllFrom fuel seen src ctx [] fn w"

definition RefTypes :: "string list \<times> goerr option" where
  "RefTypes = ([''sha1''], None)"

section \<open>What the destination lacks\<close>

lemma cp_Peek_items: "cp_items (snd (cp_Peek cp)) = cp_items cp"
  by (auto simp: cp_Peek_def cp_items_def split: list.splits)

lemma cp_Peek_same: "((v, ok), cp') = cp_Peek cp \<Longrightarrow> cp_items cp' = cp_items cp"
  using cp_Peek_items [of cp] by (metis snd_conv)

lemma cp_MustPeek_same: "cp_MustPeek cp = Ret x \<Longrightarrow> cp_items (snd x) = cp_items cp \<and> cp_items cp \<noteq> []"
  using cp_MustPeek_items by (cases x) auto

lemma cp_MustTake_items:
  "cp_MustTake cp = Ret x \<Longrightarrow> cp_items cp \<noteq> [] \<and> cp_items (snd x) = tl (cp_items cp)"
  by (cases x) (auto simp: cp_MustTake_def cp_Take_def cp_Peek_def cp_items_def Let_def
      split: if_splits list.splits)

text \<open>
  One iteration of the loop and what it does: stop, send a value to \<open>destMissing\<close>, skip a value
  both sides have (with the reference passed to \<open>sizeMismatch\<close>, if any), or skip a value of the
  destination.  When none of the three cases of the switch applies the loop repeats unchanged
  for ever.
\<close>

datatype lm_act = LmStop | LmMissing SizedRef | LmBoth "Ref option" | LmSkip

definition lm_step :: "ChanPeeker \<Rightarrow> ChanPeeker \<Rightarrow> (lm_act \<times> ChanPeeker \<times> ChanPeeker) outcome" where
  "lm_step src dst =
     (let ((srcSized, ok), src) = cp_Peek src in
      if \<not> ok then Ret (LmStop, src, dst)
      else if \<not> ref_Valid (sr_Ref srcSized) then Ret (LmStop, src, dst)
      else
        let ((_, ok), dst) = cp_Peek dst in
        if \<not> ok then obind (cp_MustTake src) (\<lambda>(sb, src). Ret (LmMissing sb, src, dst))
        else
          obind (cp_MustPeek src) (\<lambda>(s, src).
          obind (cp_MustPeek dst) (\<lambda>(d, dst).
            let srcBlob = sr_Ref s; dstRef = sr_Ref d in
            if \<not> ref_Valid dstRef then Ret (LmStop, src, dst)
            else if srcBlob = dstRef then
              obind (cp_MustTake src) (\<lambda>(sb, src).
              obind (cp_MustTake dst) (\<lambda>(db, dst).
                Ret (LmBoth (if sr_Size sb \<noteq> sr_Size db then Some (sr_Ref sb) else None), src, dst)))
            else if ref_Less srcBlob dstRef then
              obind (cp_MustTake src) (\<lambda>(sb, src). Ret (LmMissing sb, src, dst))
            else if ref_Less dstRef srcBlob then Ret (LmSkip, src, snd (cp_Take dst))
            else Hang)))"

lemma lm_step_decreases:
  assumes "lm_step src dst = Ret (act, src', dst')" and "act \<noteq> LmStop"
  shows "length (cp_items src') + length (cp_items dst') < length (cp_items src) + length (cp_items dst)"
proof -
  obtain s ok src1 where s: "cp_Peek src = ((s, ok), src1)" by (metis prod.collapse)
  obtain d dok dst1 where d: "cp_Peek dst = ((d, dok), dst1)" by (metis prod.collapse)
  have items: "cp_items src1 = cp_items src" "cp_items dst1 = cp_items dst"
    using cp_Peek_same [OF s [symmetric]] cp_Peek_same [OF d [symmetric]] by simp_all
  show ?thesis
    using assms items
    by (auto simp: lm_step_def s d obind_eq_Ret Let_def cp_Take_items split: if_splits
        dest!: cp_MustTake_items cp_MustPeek_same simp flip: length_greater_0_conv)
qed

text \<open>The values sent to \<open>destMissing\<close> and the references passed to \<open>sizeMismatch\<close>.\<close>

function lm_loop :: "ChanPeeker \<Rightarrow> ChanPeeker \<Rightarrow> (SizedRef list \<times> Ref list) outcome" where
  "lm_loop src dst =
     obind (lm_step src dst) (\<lambda>(act, src, dst).
       case act of
         LmStop \<Rightarrow> Ret ([], [])
       | LmMissing sb \<Rightarrow> obind (lm_loop src dst) (\<lambda>(miss, mism). Ret (sb # miss, mism))
       | LmBoth br \<Rightarrow> obind (lm_loop src dst) (\<lambda>(miss, mism).
           Ret (miss, (case br of None \<Rightarrow> [] | Some br \<Rightarrow> [br]) @ mism))
       | LmSkip \<Rightarrow> lm_loop src dst)"
  by pat_completeness auto
termination
  by (relation "measure (\<lambda>(s, d). length (cp_items s) + length (cp_items d))")
    (auto dest: lm_step_decreases)

declare lm_loop.simps [simp del]

definition ListMissingDestinationBlobs :: "SizedRef list \<Rightarrow> SizedRef list \<Rightarrow> (SizedRef list \<times> Ref list) outcome" where
  "ListMissingDestinationBlobs srcch dstch = lm_loop (newChanPeeker srcch) (newChanPeeker dstch)"


section \<open>Correctness of the comparison\<close>

lemma cp_Peek_Cons:
  assumes "cp_inv cp" and "cp_items cp = x # xs"
  obtains cp' where "cp_Peek cp = ((x, True), cp')" and "cp_inv cp'" and "cp_items cp' = x # xs"
  using that [of "snd (cp_Peek cp)"] cp_Peek_spec [OF assms(1)] assms(2)
  by (metis list.simps(5) prod.collapse)

lemma cp_Peek_Nil:
  assumes "cp_inv cp" and "cp_items cp = []"
  obtains cp' where "cp_Peek cp = ((zeroSizedRef, False), cp')" and "cp_inv cp'" and "cp_items cp' = []"
  using that [of "snd (cp_Peek cp)"] cp_Peek_spec [OF assms(1)] assms(2)
  by (metis list.simps(4) prod.collapse)

lemma lm_step_dst_end:
  assumes "cp_inv src" and "cp_items src = x # xs" and "ref_Valid (sr_Ref x)"
    and "cp_inv dst" and "cp_items dst = []"
  obtains src' dst' where "lm_step src dst = Ret (LmMissing x, src', dst')"
    and "cp_inv src'" and "cp_items src' = xs" and "cp_inv dst'" and "cp_items dst' = []"
proof -
  obtain src1 where s: "cp_Peek src = ((x, True), src1)" "cp_inv src1" "cp_items src1 = x # xs"
    using cp_Peek_Cons [OF assms(1,2)] by blast
  obtain dst1 where d: "cp_Peek dst = ((zeroSizedRef, False), dst1)" "cp_inv dst1" "cp_items dst1 = []"
    using cp_Peek_Nil [OF assms(4,5)] by blast
  obtain src2 where "cp_MustTake src1 = Ret (x, src2)" "cp_inv src2" "cp_items src2 = xs"
    using cp_MustTake_spec [OF s(2,3)] by blast
  with s d assms(3) that show thesis by (simp add: lm_step_def)
qed

lemma lm_step_both:
  assumes "cp_inv src" and "cp_items src = x # xs" and "ref_canonical (sr_Ref x)"
    and "cp_inv dst" and "cp_items dst = y # ys" and "ref_canonical (sr_Ref y)"
  obtains act src' dst' where "lm_step src dst = Ret (act, src', dst')" and "cp_inv src'" and "cp_inv dst'"
    and "act = (if sr_Ref x = sr_Ref y then LmBoth (if sr_Size x \<noteq> sr_Size y then Some (sr_Ref x) else None)
      else if sr_Ref x < sr_Ref y then LmMissing x else LmSkip)"
    and "cp_items src' = (if sr_Ref x \<le> sr_Ref y then xs else x # xs)"
    and "cp_items dst' = (if sr_Ref y \<le> sr_Ref x then ys else y # ys)"
proof -
  have v: "ref_Valid (sr_Ref x)" "ref_Valid (sr_Ref y)"
    using assms(3,6) by (simp_all add: ref_wf_Valid ref_canonical_wf)
  note less = ref_Less_iff_less [OF assms(3,6)] ref_Less_iff_less [OF assms(6,3)]
  obtain src1 where s: "cp_Peek src = ((x, True), src1)" "cp_inv src1" "cp_items src1 = x # xs"
    using cp_Peek_Cons [OF assms(1,2)] by blast
  obtain dst1 where d: "cp_Peek dst = ((y, True), dst1)" "cp_inv dst1" "cp_items dst1 = y # ys"
    using cp_Peek_Cons [OF assms(4,5)] by blast
  obtain src2 where s2: "cp_MustPeek src1 = Ret (x, src2)" "cp_inv src2" "cp_items src2 = x # xs"
    using cp_MustPeek_spec [OF s(2,3)] by blast
  obtain dst2 where d2: "cp_MustPeek dst1 = Ret (y, dst2)" "cp_inv dst2" "cp_items dst2 = y # ys"
    using cp_MustPeek_spec [OF d(2,3)] by blast
  obtain src3 where s3: "cp_MustTake src2 = Ret (x, src3)" "cp_inv src3" "cp_items src3 = xs"
    using cp_MustTake_spec [OF s2(2,3)] by blast
  obtain dst3 where d3: "cp_MustTake dst2 = Ret (y, dst3)" "cp_inv dst3" "cp_items dst3 = ys"
    using cp_MustTake_spec [OF d2(2,3)] by blast
  have t: "cp_inv (snd (cp_Take dst2))" "cp_items (snd (cp_Take dst2)) = ys"
    using cp_Take_spec(2) [OF d2(2)] cp_Take_items [of dst2] d2(3) by simp_all
  have "\<exists>src' dst'. lm_step src dst = Ret ((if sr_Ref x = sr_Ref y then LmBoth (if sr_Size x \<noteq> sr_Size y then Some (sr_Ref x) else None)
      else if sr_Ref x < sr_Ref y then LmMissing x else LmSkip), src', dst') \<and> cp_inv src' \<and> cp_inv dst' \<and>
    cp_items src' = (if sr_Ref x \<le> sr_Ref y then xs else x # xs) \<and>
    cp_items dst' = (if sr_Ref y \<le> sr_Ref x then ys else y # ys)"
    by (cases "sr_Ref x" "sr_Ref y" rule: linorder_cases)
      (use v less s d s2 d2 s3 d3 t in \<open>auto simp: lm_step_def Let_def\<close>)
  then show thesis using that by blast
qed

definition missing_spec :: "SizedRef list \<Rightarrow> SizedRef list \<Rightarrow> SizedRef list" where
  "missing_spec xs ys = filter (\<lambda>x. sr_Ref x \<notin> sr_Ref ` set ys) xs"

definition mismatch_spec :: "SizedRef list \<Rightarrow> SizedRef list \<Rightarrow> Ref list" where
  "mismatch_spec xs ys =
     map sr_Ref (filter (\<lambda>x. list_ex (\<lambda>y. sr_Ref y = sr_Ref x \<and> sr_Size y \<noteq> sr_Size x) ys) xs)"

definition enumerated :: "SizedRef list \<Rightarrow> bool" where
  "enumerated xs \<longleftrightarrow> sorted_wrt (<) (map sr_Ref xs) \<and> list_all (\<lambda>x. ref_canonical (sr_Ref x)) xs"

lemma enumerated_Cons:
  "enumerated (x # xs) \<longleftrightarrow> ref_canonical (sr_Ref x) \<and> (\<forall>y \<in> set xs. sr_Ref x < sr_Ref y) \<and> enumerated xs"
  by (auto simp: enumerated_def)

lemma enumerated_Nil [simp]: "enumerated []"
  by (simp add: enumerated_def)

lemma missing_below:
  assumes "enumerated (y # ys)" and "\<forall>x \<in> set xs. sr_Ref y < sr_Ref x"
  shows "missing_spec xs (y # ys) = missing_spec xs ys" and "mismatch_spec xs (y # ys) = mismatch_spec xs ys"
  using assms(2) by (auto simp: missing_spec_def mismatch_spec_def intro!: filter_cong arg_cong [of _ _ "map sr_Ref"])

lemma lm_loop_spec:
  assumes "cp_inv src" and "cp_inv dst" and "enumerated (cp_items src)" and "enumerated (cp_items dst)"
  shows "lm_loop src dst =
    Ret (missing_spec (cp_items src) (cp_items dst), mismatch_spec (cp_items src) (cp_items dst))"
  using assms
proof (induction src dst rule: lm_loop.induct)
  case (1 src dst)
  show ?case
  proof (cases "cp_items src")
    case Nil
    obtain src1 where "cp_Peek src = ((zeroSizedRef, False), src1)"
      using cp_Peek_Nil [OF "1.prems"(1) Nil] by blast
    then show ?thesis
      by (subst lm_loop.simps) (simp add: lm_step_def Nil missing_spec_def mismatch_spec_def)
  next
    case x: (Cons x xs)
    have cx: "ref_canonical (sr_Ref x)" using "1.prems"(3) by (simp add: x enumerated_Cons)
    show ?thesis
    proof (cases "cp_items dst")
      case Nil
      obtain src' dst' where st: "lm_step src dst = Ret (LmMissing x, src', dst')"
        "cp_inv src'" "cp_items src' = xs" "cp_inv dst'" "cp_items dst' = []"
        using lm_step_dst_end [OF "1.prems"(1) x _ "1.prems"(2) Nil] cx
        by (metis ref_canonical_wf ref_wf_Valid)
      have "lm_loop src' dst' = Ret (missing_spec xs [], mismatch_spec xs [])"
        using "1.IH"(1) [OF st(1)] st "1.prems"(3) by (simp add: x enumerated_Cons)
      then show ?thesis
        using st(1) by (subst lm_loop.simps) (simp add: x Nil missing_spec_def mismatch_spec_def)
    next
      case y: (Cons y ys)
      have cy: "ref_canonical (sr_Ref y)" using "1.prems"(4) by (simp add: y enumerated_Cons)
      obtain act src' dst' where st: "lm_step src dst = Ret (act, src', dst')" "cp_inv src'" "cp_inv dst'"
        "act = (if sr_Ref x = sr_Ref y then LmBoth (if sr_Size x \<noteq> sr_Size y then Some (sr_Ref x) else None)
          else if sr_Ref x < sr_Ref y then LmMissing x else LmSkip)"
        "cp_items src' = (if sr_Ref x \<le> sr_Ref y then xs else x # xs)"
        "cp_items dst' = (if sr_Ref y \<le> sr_Ref x then ys else y # ys)"
        using lm_step_both [OF "1.prems"(1) x cx "1.prems"(2) y cy] by blast
      have en: "enumerated (cp_items src')" "enumerated (cp_items dst')"
        using "1.prems"(3,4) st(5,6) by (simp_all add: x y enumerated_Cons)
      show ?thesis
      proof (cases "sr_Ref x" "sr_Ref y" rule: linorder_cases)
        case less
        then have a: "act = LmMissing x" "cp_items src' = xs" "cp_items dst' = y # ys" using st(4-6) by auto
        have "lm_loop src' dst' = Ret (missing_spec xs (y # ys), mismatch_spec xs (y # ys))"
          using "1.IH"(1) [OF st(1)] a st(2,3) en by simp
        moreover have "\<forall>z \<in> set (y # ys). sr_Ref z \<noteq> sr_Ref x"
          using less "1.prems"(4) by (force simp: y enumerated_Cons)
        ultimately show ?thesis
          using st(1) a(1)
          by (subst lm_loop.simps) (auto simp: x y missing_spec_def mismatch_spec_def list_ex_iff image_iff)
      next
        case equal
        then have a: "act = LmBoth (if sr_Size x \<noteq> sr_Size y then Some (sr_Ref x) else None)"
          "cp_items src' = xs" "cp_items dst' = ys" using st(4-6) by auto
        have ih: "lm_loop src' dst' = Ret (missing_spec xs ys, mismatch_spec xs ys)"
          using "1.IH"(2) [OF st(1)] a st(2,3) en by simp
        have "\<forall>z \<in> set xs. sr_Ref y < sr_Ref z" using "1.prems"(3) equal by (auto simp: x enumerated_Cons)
        note below = missing_below [OF "1.prems"(4) [unfolded y] this]
        have "\<forall>z \<in> set ys. sr_Ref z \<noteq> sr_Ref x" using "1.prems"(4) equal by (auto simp: y enumerated_Cons)
        then have "missing_spec (x # xs) (y # ys) = missing_spec xs (y # ys)"
          "mismatch_spec (x # xs) (y # ys) =
             (if sr_Size x \<noteq> sr_Size y then [sr_Ref x] else []) @ mismatch_spec xs (y # ys)"
          using equal by (auto simp: missing_spec_def mismatch_spec_def list_ex_iff)
        then show ?thesis
          using st(1) a(1) ih by (subst lm_loop.simps) (simp add: x y below)
      next
        case greater
        then have a: "act = LmSkip" "cp_items src' = x # xs" "cp_items dst' = ys" using st(4-6) by auto
        have ih: "lm_loop src' dst' = Ret (missing_spec (x # xs) ys, mismatch_spec (x # xs) ys)"
          using "1.IH"(3) [OF st(1)] a st(2,3) en by simp
        have "\<forall>z \<in> set (x # xs). sr_Ref y < sr_Ref z"
          using "1.prems"(3) greater by (auto simp: x enumerated_Cons)
        note below = missing_below [OF "1.prems"(4) [unfolded y] this]
        show ?thesis using st(1) a(1) ih by (subst lm_loop.simps) (simp add: x y below)
      qed
    qed
  qed
qed

text \<open>
  C19 [missing].  For two enumerations in the order of \<open>Less\<close> with canonical references,
  \<open>ListMissingDestinationBlobs\<close> ends, sends exactly the source blobs that the destination lacks, in
  order, and reports exactly the blobs both have with different sizes.
\<close>

theorem ListMissingDestinationBlobs_correct:
  assumes "enumerated src" and "enumerated dst"
  shows "ListMissingDestinationBlobs src dst = Ret (missing_spec src dst, mismatch_spec src dst)"
  using lm_loop_spec [of "newChanPeeker src" "newChanPeeker dst"] assms
  by (simp add: ListMissingDestinationBlobs_def)

definition sref :: "string \<Rightarrow> u32 \<Rightarrow> SizedRef" where
  "sref s sz = \<lparr>sr_Ref = fst (Parse s), sr_Size = sz\<rparr>"

theorem ListMissingDestinationBlobs_correct_witness:
  "ListMissingDestinationBlobs [sref ''foo-aa'' 1, sref ''foo-bb'' 2, sref ''foo-cc'' 3]
      [sref ''foo-aa'' 1, sref ''foo-cc'' 4] =
    Ret ([sref ''foo-bb'' 2], [sr_Ref (sref ''foo-cc'' 3)])"
proof -
  let ?s = "[sref ''foo-aa'' 1, sref ''foo-bb'' 2, sref ''foo-cc'' 3]"
  let ?d = "[sref ''foo-aa'' 1, sref ''foo-cc'' 4]"
  have e: "enumerated ?s" "enumerated ?d" by code_simp+
  have "missing_spec ?s ?d = [sref ''foo-bb'' 2]" "mismatch_spec ?s ?d = [sr_Ref (sref ''foo-cc'' 3)]"
    by code_simp+
  then show ?thesis by (simp only: ListMissingDestinationBlobs_correct [OF e])
qed



section \<open>Correctness of the merge\<close>

lemma zeroRef_least: "zeroRef \<le> r"
  by (simp add: less_eq_Ref_def ref_key_def zeroRef_def)

lemma zeroRef_less_canonical: "ref_canonical r \<Longrightarrow> zeroRef < r"
  using zeroRef_least [of r] by (auto simp: order_less_le ref_canonical_def zeroRef_def)

lemma me_tooLow_iff:
  assumes "lst = zeroRef \<or> ref_canonical lst" and "ref_canonical br"
  shows "me_tooLow lst br \<longleftrightarrow> br \<le> lst"
proof (cases "lst = zeroRef")
  case True
  then show ?thesis
    using zeroRef_less_canonical [OF assms(2)] by (auto simp: me_tooLow_def ref_Valid_def zeroRef_def)
next
  case False
  with assms(1) have c: "ref_canonical lst" by blast
  then have "ref_Valid lst" by (simp add: ref_wf_Valid ref_canonical_wf)
  then show ?thesis
    using ref_Less_iff_less [OF assms(2) c] by (auto simp: me_tooLow_def order_le_less)
qed

lemma cp_Closed_spec:
  assumes "cp_inv p"
  obtains p' where "cp_Closed p = (cp_items p = [], p')" and "cp_inv p'" and "cp_items p' = cp_items p"
    and "cp_closed p' \<or> cp_peekok p'"
proof
  show "cp_Closed p = (cp_items p = [], snd (cp_Closed p))" by (simp add: prod_eq_iff cp_Closed_items)
  show "cp_closed (snd (cp_Closed p)) \<or> cp_peekok (snd (cp_Closed p))"
    using cp_Peek_spec(4) [OF assms] by (auto simp: cp_Closed_def split: prod.splits)
qed (simp_all add: assms cp_Closed_inv cp_Closed_items)

lemma me_skip_spec:
  assumes "cp_inv p" and "lst = zeroRef \<or> ref_canonical lst" and "enumerated (cp_items p)"
  shows "\<exists>p'. me_skip (me_tooLow lst) p = Ret p' \<and> cp_inv p' \<and>
    cp_items p' = dropWhile (\<lambda>x. sr_Ref x \<le> lst) (cp_items p)"
  using assms
proof (induction "me_tooLow lst" p rule: me_skip.induct)
  case (1 p)
  obtain p1 where p1: "cp_Closed p = (cp_items p = [], p1)" "cp_inv p1" "cp_items p1 = cp_items p"
    using cp_Closed_spec [OF "1.prems"(1)] by blast
  show ?case
  proof (cases "cp_items p")
    case Nil
    then show ?thesis using p1 by (subst me_skip.simps) simp
  next
    case (Cons x xs)
    then obtain p2 where p2: "cp_MustPeek p1 = Ret (x, p2)" "cp_inv p2" "cp_items p2 = x # xs"
      using cp_MustPeek_spec [OF p1(2)] p1(3) by metis
    have low: "me_tooLow lst (sr_Ref x) \<longleftrightarrow> sr_Ref x \<le> lst"
      using "1.prems"(2,3) by (intro me_tooLow_iff) (auto simp: Cons enumerated_Cons)
    have take: "cp_inv (snd (cp_Take p2))" "cp_items (snd (cp_Take p2)) = xs"
      using cp_Take_spec(2) [OF p2(2)] cp_Take_items [of p2] p2(3) by simp_all
    show ?thesis
    proof (cases "sr_Ref x \<le> lst")
      case True
      have "\<exists>p'. me_skip (me_tooLow lst) (snd (cp_Take p2)) = Ret p' \<and> cp_inv p' \<and>
          cp_items p' = dropWhile (\<lambda>x. sr_Ref x \<le> lst) xs"
        using "1.hyps" [of "(x, p2)"] "1.prems" p1 p2 take True low Cons by (simp add: enumerated_Cons)
      then show ?thesis using p1 p2 True low Cons by (subst me_skip.simps) simp
    next
      case False
      then show ?thesis using p1 p2 low Cons by (subst me_skip.simps) simp
    qed
  qed
qed

text \<open>The state of a peeker after a pass that skipped everything up to \<open>lst\<close>.\<close>

definition pk_ok :: "ChanPeeker \<Rightarrow> bool" where
  "pk_ok p \<longleftrightarrow> cp_inv p \<and> enumerated (cp_items p)"

definition pk_seen :: "ChanPeeker \<Rightarrow> bool" where
  "pk_seen p \<longleftrightarrow> cp_closed p \<or> cp_peekok p"

definition above :: "Ref \<Rightarrow> SizedRef list \<Rightarrow> SizedRef list" where
  "above lst xs = dropWhile (\<lambda>x. sr_Ref x \<le> lst) xs"

lemma enumerated_above: "enumerated xs \<Longrightarrow> enumerated (above lst xs)"
  by (induction xs) (auto simp: above_def enumerated_Cons)

lemma set_above: "enumerated xs \<Longrightarrow> set (above lst xs) = {x \<in> set xs. lst < sr_Ref x}"
proof (induction xs)
  case (Cons a xs)
  show ?case
  proof (cases "sr_Ref a \<le> lst")
    case False
    then show ?thesis using Cons.prems by (force simp: above_def enumerated_Cons)
  qed (use Cons in \<open>auto simp: above_def enumerated_Cons\<close>)
qed (simp add: above_def)

text \<open>One step of a pass: skip, then look.\<close>

lemma me_scan_step:
  assumes "pk_ok p" and "lst = zeroRef \<or> ref_canonical lst"
  obtains p' where "pk_ok p'" and "pk_seen p'" and "cp_items p' = above lst (cp_items p)"
    and "me_scan (me_tooLow lst) (p # ps) low =
      obind (me_scan (me_tooLow lst) ps
        (case above lst (cp_items p) of
           [] \<Rightarrow> low
         | sb # _ \<Rightarrow>
             (case low of None \<Rightarrow> Some sb | Some l \<Rightarrow> if ref_Less (sr_Ref sb) (sr_Ref l) then Some sb else low)))
        (\<lambda>(low, ps). Ret (low, p' # ps))"
proof -
  obtain p1 where p1: "me_skip (me_tooLow lst) p = Ret p1" "cp_inv p1" "cp_items p1 = above lst (cp_items p)"
    using me_skip_spec [of p lst] assms by (auto simp: pk_ok_def above_def)
  obtain p2 where p2: "cp_Closed p1 = (cp_items p1 = [], p2)" "cp_inv p2" "cp_items p2 = cp_items p1"
    "pk_seen p2"
    using cp_Closed_spec [OF p1(2)] unfolding pk_seen_def by metis
  have en: "enumerated (above lst (cp_items p))" using assms(1) by (simp add: pk_ok_def enumerated_above)
  show thesis
  proof (cases "above lst (cp_items p)")
    case Nil
    show thesis by (rule that [of p2]) (use p1 p2 en Nil in \<open>simp_all add: pk_ok_def\<close>)
  next
    case (Cons sb xs)
    obtain p3 where p3: "cp_MustPeek p2 = Ret (sb, p3)" "cp_inv p3" "cp_items p3 = sb # xs"
      using cp_MustPeek_spec [OF p2(2)] p2(3) p1(3) Cons by metis
    have "pk_seen p3"
      using p3(1) by (auto simp: cp_MustPeek_def cp_Peek_def pk_seen_def Let_def split: if_splits list.splits)
    show thesis
      by (rule that [of p3]) (use p1 p2 p3 en Cons \<open>pk_seen p3\<close> in \<open>simp_all add: pk_ok_def\<close>)
  qed
qed


definition heads :: "Ref \<Rightarrow> ChanPeeker list \<Rightarrow> SizedRef set" where
  "heads lst ps = {hd (above lst (cp_items p)) | p. p \<in> set ps \<and> above lst (cp_items p) \<noteq> []}"

definition lowest_of :: "SizedRef option \<Rightarrow> SizedRef set \<Rightarrow> bool" where
  "lowest_of low X \<longleftrightarrow>
     (case low of None \<Rightarrow> X = {} | Some sb \<Rightarrow> sb \<in> X \<and> (\<forall>x \<in> X. sr_Ref sb \<le> sr_Ref x))"

lemma heads_Cons:
  "heads lst (p # ps) =
     (if above lst (cp_items p) = [] then {} else {hd (above lst (cp_items p))}) \<union> heads lst ps"
  by (auto simp: heads_def)

lemma lowest_of_pick:
  assumes "ref_canonical (sr_Ref sb)" and "\<forall>l. low = Some l \<longrightarrow> ref_canonical (sr_Ref l)"
    and "lowest_of low' (set_option (case low of None \<Rightarrow> Some sb
      | Some l \<Rightarrow> if ref_Less (sr_Ref sb) (sr_Ref l) then Some sb else low) \<union> X)"
  shows "lowest_of low' (set_option low \<union> ({sb} \<union> X))"
proof (cases low)
  case None
  then show ?thesis using assms(3) by (simp add: lowest_of_def split: option.splits)
next
  case (Some l)
  then have "ref_Less (sr_Ref sb) (sr_Ref l) \<longleftrightarrow> sr_Ref sb < sr_Ref l"
    using assms(1,2) by (simp add: ref_Less_iff_less)
  then show ?thesis
    using assms(3) Some by (auto simp: lowest_of_def split: option.splits if_splits)
qed

lemma me_scan_spec:
  assumes "lst = zeroRef \<or> ref_canonical lst" and "list_all pk_ok ps"
    and "\<forall>l. low = Some l \<longrightarrow> ref_canonical (sr_Ref l)"
  shows "\<exists>low' ps'. me_scan (me_tooLow lst) ps low = Ret (low', ps') \<and>
    map cp_items ps' = map (above lst \<circ> cp_items) ps \<and> list_all pk_ok ps' \<and> list_all pk_seen ps' \<and>
    lowest_of low' (set_option low \<union> heads lst ps)"
  using assms(2,3)
proof (induction ps arbitrary: low)
  case Nil
  then show ?case by (auto simp: heads_def lowest_of_def split: option.splits)
next
  case (Cons p ps)
  let ?a = "above lst (cp_items p)"
  let ?low = "case ?a of [] \<Rightarrow> low
    | sb # _ \<Rightarrow> (case low of None \<Rightarrow> Some sb | Some l \<Rightarrow> if ref_Less (sr_Ref sb) (sr_Ref l) then Some sb else low)"
  obtain p' where p': "pk_ok p'" "pk_seen p'" "cp_items p' = ?a"
    "me_scan (me_tooLow lst) (p # ps) low =
      obind (me_scan (me_tooLow lst) ps ?low) (\<lambda>(low, ps). Ret (low, p' # ps))"
    using me_scan_step [of p lst ps low] Cons.prems(1) assms(1) by auto
  have can: "ref_canonical (sr_Ref x)" if "x \<in> set ?a" for x
    using p'(1,3) that by (simp add: pk_ok_def enumerated_def list_all_iff)
  have "\<forall>l. ?low = Some l \<longrightarrow> ref_canonical (sr_Ref l)"
    using Cons.prems(2) can by (auto split: list.splits option.splits if_splits)
  then obtain low' ps' where r: "me_scan (me_tooLow lst) ps ?low = Ret (low', ps')"
    "map cp_items ps' = map (above lst \<circ> cp_items) ps" "list_all pk_ok ps'" "list_all pk_seen ps'"
    "lowest_of low' (set_option ?low \<union> heads lst ps)"
    using Cons.IH [of ?low] Cons.prems(1) by auto
  have "lowest_of low' (set_option low \<union> heads lst (p # ps))"
  proof (cases ?a)
    case Nil
    then show ?thesis using r(5) by (simp add: heads_Cons)
  next
    case (Cons sb xs)
    then have "ref_canonical (sr_Ref sb)" using can by simp
    from lowest_of_pick [OF this \<open>\<forall>l. low = Some l \<longrightarrow> ref_canonical (sr_Ref l)\<close>, of low' "heads lst ps"]
    show ?thesis using r(5) Cons by (simp add: heads_Cons)
  qed
  then show ?case using p' r by simp
qed

definition pending :: "Ref \<Rightarrow> ChanPeeker list \<Rightarrow> Ref set" where
  "pending lst ps = {r. \<exists>p \<in> set ps. \<exists>x \<in> set (cp_items p). sr_Ref x = r \<and> lst < r}"

lemma finite_pending: "finite (pending lst ps)"
proof -
  have "pending lst ps \<subseteq> (\<Union>p \<in> set ps. sr_Ref ` set (cp_items p))" by (auto simp: pending_def)
  then show ?thesis by (rule finite_subset) simp
qed

lemma hd_above_least:
  assumes "enumerated xs" and "x \<in> set xs" and "lst < sr_Ref x"
  shows "above lst xs \<noteq> [] \<and> sr_Ref (hd (above lst xs)) \<le> sr_Ref x"
proof -
  have "x \<in> set (above lst xs)" using assms by (simp add: set_above)
  moreover have "enumerated (above lst xs)" using assms(1) by (rule enumerated_above)
  ultimately show ?thesis by (cases "above lst xs") (auto simp: enumerated_Cons intro: less_imp_le)
qed

lemma pending_step:
  assumes "list_all pk_ok ps" and "lowest_of (Some sb) (heads lst ps)"
    and "map cp_items ps' = map (above lst \<circ> cp_items) ps"
  shows "sr_Ref sb \<in> pending lst ps" and "\<forall>r \<in> pending lst ps. sr_Ref sb \<le> r"
    and "pending (sr_Ref sb) ps' = pending lst ps - {sr_Ref sb}"
    and "\<exists>p \<in> set ps. sb \<in> set (cp_items p)" and "ref_canonical (sr_Ref sb)"
    and "\<forall>p' \<in> set ps'. \<forall>x \<in> set (cp_items p'). sr_Ref sb \<le> sr_Ref x"
proof -
  have en: "enumerated (cp_items p)" if "p \<in> set ps" for p
    using assms(1) that by (auto simp: list_all_iff pk_ok_def)
  from assms(2) obtain p where p: "p \<in> set ps" "above lst (cp_items p) \<noteq> []" "sb = hd (above lst (cp_items p))"
    by (auto simp: lowest_of_def heads_def)
  then have sb: "sb \<in> set (above lst (cp_items p))" by simp
  then have sb': "sb \<in> set (cp_items p)" "lst < sr_Ref sb" using set_above [OF en [OF p(1)]] by auto
  then show "sr_Ref sb \<in> pending lst ps" "\<exists>p \<in> set ps. sb \<in> set (cp_items p)"
    using p(1) by (auto simp: pending_def)
  show "ref_canonical (sr_Ref sb)" using en [OF p(1)] sb'(1) by (auto simp: enumerated_def list_all_iff)
  have least: "sr_Ref sb \<le> sr_Ref x" if "q \<in> set ps" "x \<in> set (cp_items q)" "lst < sr_Ref x" for q x
  proof -
    have "hd (above lst (cp_items q)) \<in> heads lst ps" "sr_Ref (hd (above lst (cp_items q))) \<le> sr_Ref x"
      using hd_above_least [OF en [OF that(1)] that(2,3)] that(1) by (auto simp: heads_def)
    then show ?thesis using assms(2) unfolding lowest_of_def by (auto intro: order_trans)
  qed
  then show "\<forall>r \<in> pending lst ps. sr_Ref sb \<le> r" by (auto simp: pending_def)
  have items: "(\<exists>p' \<in> set ps'. x \<in> set (cp_items p')) \<longleftrightarrow> (\<exists>p \<in> set ps. x \<in> set (cp_items p) \<and> lst < sr_Ref x)" for x
  proof -
    have "(\<exists>p' \<in> set ps'. x \<in> set (cp_items p')) \<longleftrightarrow> (\<exists>xs \<in> set (map cp_items ps'). x \<in> set xs)" by auto
    also have "\<dots> \<longleftrightarrow> (\<exists>p \<in> set ps. x \<in> set (above lst (cp_items p)))" by (auto simp: assms(3))
    also have "\<dots> \<longleftrightarrow> (\<exists>p \<in> set ps. x \<in> set (cp_items p) \<and> lst < sr_Ref x)" using set_above en by auto
    finally show ?thesis .
  qed
  have "r \<in> pending (sr_Ref sb) ps' \<longleftrightarrow> (\<exists>x. (\<exists>p' \<in> set ps'. x \<in> set (cp_items p')) \<and> sr_Ref x = r \<and> sr_Ref sb < r)" for r
    by (auto simp: pending_def)
  then show "pending (sr_Ref sb) ps' = pending lst ps - {sr_Ref sb}"
    using least sb'(2) by (fastforce simp: items pending_def)
  show "\<forall>p' \<in> set ps'. \<forall>x \<in> set (cp_items p'). sr_Ref sb \<le> sr_Ref x"
    using items least by blast
qed


lemma sorted_list_of_set_Min:
  assumes "finite A" and "m \<in> A" and "\<forall>x \<in> A. m \<le> x"
  shows "sorted_list_of_set A = m # sorted_list_of_set (A - {m})"
proof -
  have "Min A = m" using assms by (intro Min_eqI) auto
  then show ?thesis using sorted_list_of_set_nonempty [OF assms(1)] assms(2) by auto
qed

lemma pending_None:
  assumes "list_all pk_ok ps" and "lowest_of None (heads lst ps)"
    and "map cp_items ps' = map (above lst \<circ> cp_items) ps"
  shows "pending lst ps = {}" and "\<forall>p' \<in> set ps'. cp_items p' = []"
proof -
  have nil: "above lst (cp_items p) = []" if "p \<in> set ps" for p
    using assms(2) that by (auto simp: lowest_of_def heads_def)
  then have "set (map cp_items ps') \<subseteq> {[]}" unfolding assms(3) by auto
  then show "\<forall>p' \<in> set ps'. cp_items p' = []" by auto
  show "pending lst ps = {}"
  proof -
    have "\<not> lst < sr_Ref x" if "p \<in> set ps" "x \<in> set (cp_items p)" for p x
    proof -
      have "enumerated (cp_items p)" using assms(1) that(1) by (auto simp: list_all_iff pk_ok_def)
      from set_above [OF this, of lst] nil [OF that(1)] that(2) show ?thesis by auto
    qed
    then show ?thesis by (auto simp: pending_def)
  qed
qed

lemma drained:
  assumes "pk_ok p" and "pk_seen p" and "\<forall>x \<in> set (cp_items p). sr_Ref x = r"
  shows "cp_Ch p = []"
proof -
  have "length (cp_items p) \<le> 1"
    using assms(1,3) by (cases "cp_items p" rule: list.exhaust [case_names Nil Cons])
      (auto simp: pk_ok_def enumerated_Cons neq_Nil_conv split: list.splits)
  then show ?thesis
    using assms(1,2) by (auto simp: pk_ok_def pk_seen_def cp_inv_def cp_items_def split: if_splits)
qed

text \<open>
  The loop sends the least pending references, up to the limit; if it is not cut short by the
  limit, no source has a value left to send.
\<close>

lemma me_loop_spec:
  assumes "lst = zeroRef \<or> ref_canonical lst" and "list_all pk_ok ps"
    and "nSent < limit \<or> list_all pk_seen ps \<and> (\<forall>p \<in> set ps. \<forall>x \<in> set (cp_items p). lst \<le> sr_Ref x)"
  shows "\<exists>sent ps'. me_loop limit nSent lst ps = Ret (sent, ps') \<and>
    map sr_Ref sent = take (nat (limit - nSent)) (sorted_list_of_set (pending lst ps)) \<and>
    set sent \<subseteq> (\<Union>p \<in> set ps. set (cp_items p)) \<and>
    (int (card (pending lst ps)) \<le> limit - nSent \<longrightarrow> (\<forall>p' \<in> set ps'. cp_Ch p' = []))"
  using assms
proof (induction limit nSent lst ps rule: me_loop.induct)
  case (1 limit nSent lst ps)
  show ?case
  proof (cases "nSent < limit")
    case False
    have "\<forall>p \<in> set ps. cp_Ch p = []" if "card (pending lst ps) = 0"
    proof
      fix p
      assume p: "p \<in> set ps"
      have "pending lst ps = {}" using that finite_pending by (metis card_0_eq)
      then have "\<forall>x \<in> set (cp_items p). sr_Ref x = lst"
        using "1.prems"(3) False p by (fastforce simp: pending_def)
      with "1.prems"(2,3) False p show "cp_Ch p = []" by (intro drained [of p lst]) (auto simp: list_all_iff)
    qed
    then show ?thesis using False by (subst me_loop.simps) auto
  next
    case True
    obtain low ps1 where scan: "me_scan (me_tooLow lst) ps None = Ret (low, ps1)"
      "map cp_items ps1 = map (above lst \<circ> cp_items) ps" "list_all pk_ok ps1" "list_all pk_seen ps1"
      "lowest_of low (heads lst ps)"
      using me_scan_spec [OF "1.prems"(1,2), of None] by auto
    show ?thesis
    proof (cases low)
      case None
      note none = pending_None [OF "1.prems"(2) scan(5) [unfolded None] scan(2)]
      have "\<forall>p' \<in> set ps1. cp_Ch p' = []"
        using none(2) scan(3,4) by (auto intro!: drained [where r = lst] simp: list_all_iff)
      then show ?thesis using True scan(1) None none(1) by (subst me_loop.simps) simp
    next
      case (Some sb)
      note st = pending_step [OF "1.prems"(2) scan(5) [unfolded Some] scan(2)]
      obtain sent ps' where ih: "me_loop limit (nSent + 1) (sr_Ref sb) ps1 = Ret (sent, ps')"
        "map sr_Ref sent = take (nat (limit - (nSent + 1))) (sorted_list_of_set (pending (sr_Ref sb) ps1))"
        "set sent \<subseteq> (\<Union>p \<in> set ps1. set (cp_items p))"
        "int (card (pending (sr_Ref sb) ps1)) \<le> limit - (nSent + 1) \<longrightarrow> (\<forall>p' \<in> set ps'. cp_Ch p' = [])"
        using "1.IH" [OF True scan(1) refl Some] st(5,6) scan(3,4) by auto
      have sorted: "sorted_list_of_set (pending lst ps) = sr_Ref sb # sorted_list_of_set (pending (sr_Ref sb) ps1)"
        using sorted_list_of_set_Min [OF finite_pending st(1,2)] st(3) by simp
      have card: "card (pending lst ps) = Suc (card (pending (sr_Ref sb) ps1))"
        using st(1,3) finite_pending by (metis card_Suc_Diff1)
      have "(\<Union>p \<in> set ps1. set (cp_items p)) = (\<Union>xs \<in> set (map cp_items ps1). set xs)" by simp
      also have "\<dots> \<subseteq> (\<Union>p \<in> set ps. set (cp_items p))"
        unfolding scan(2) by (auto simp: above_def dest: set_dropWhileD)
      finally have "(\<Union>p \<in> set ps1. set (cp_items p)) \<subseteq> (\<Union>p \<in> set ps. set (cp_items p))" .
      moreover have "nat (limit - nSent) = Suc (nat (limit - (nSent + 1)))" using True by simp
      ultimately show ?thesis
        using True scan(1) Some ih st(4) card
        by (subst me_loop.simps) (auto simp: sorted)
    qed
  qed
qed


lemma me_start_spec:
  assumes "list_all2 (\<lambda>s xs. s ctx after limit w = Ret (xs, None)) sources xss"
  shows "me_start sources ctx after limit w = Ret (map newChanPeeker xss, map (\<lambda>_. None) xss)"
  using assms by (induction rule: list_all2_induct) simp_all

lemma me_wait_None:
  assumes "\<forall>(p, e) \<in> set pes. e = None"
  shows "me_wait None pes None = (if \<exists>(p, e) \<in> set pes. me_blocked p then Hang else Ret None)"
  using assms by (induction pes) (auto simp: Let_def)

lemma mergedEnumerate_spec:
  assumes "0 < limit" and "list_all2 (\<lambda>s xs. s None after limit w = Ret (xs, None)) sources xss"
    and "list_all enumerated xss" and U: "U = (\<Union>xs \<in> set xss. sr_Ref ` set xs)"
  shows "(mergedEnumerate sources None after limit w = Hang \<and> limit < int (card U)) \<or>
    (\<exists>sent. mergedEnumerate sources None after limit w = Ret (sent, None) \<and>
       map sr_Ref sent = take (nat limit) (sorted_list_of_set U) \<and> set sent \<subseteq> (\<Union>xs \<in> set xss. set xs))"
proof -
  let ?ps = "map newChanPeeker xss"
  have ok: "list_all pk_ok ?ps" using assms(3) by (auto simp: list_all_iff pk_ok_def)
  have "zeroRef < sr_Ref x" if "xs \<in> set xss" "x \<in> set xs" for xs x
    using assms(3) that by (auto simp: list_all_iff enumerated_def intro: zeroRef_less_canonical)
  then have U': "pending zeroRef ?ps = U" by (auto simp: pending_def U)
  obtain sent ps' where loop: "me_loop limit 0 zeroRef ?ps = Ret (sent, ps')"
    "map sr_Ref sent = take (nat limit) (sorted_list_of_set U)" "set sent \<subseteq> (\<Union>xs \<in> set xss. set xs)"
    "int (card U) \<le> limit \<longrightarrow> (\<forall>p' \<in> set ps'. cp_Ch p' = [])"
    using me_loop_spec [of zeroRef ?ps 0 limit] ok assms(1) by (auto simp: U')
  have pes: "\<forall>(p, e) \<in> set (zip ps' (map (\<lambda>_. None) xss)). e = None"
    by (auto dest: set_zip_rightD)
  define B where "B \<longleftrightarrow> (\<exists>(p, e) \<in> set (zip ps' (map (\<lambda>_. None :: goerr option) xss)). me_blocked p)"
  have "limit < int (card U)" if B
    using that loop(4) by (force simp: B_def me_blocked_def dest: set_zip_leftD)
  moreover have "me_wait None (zip ps' (map (\<lambda>_. None) xss)) None = (if B then Hang else Ret None)"
    using me_wait_None [OF pes] by (simp add: B_def)
  ultimately show ?thesis
    using loop(1-3) by (cases B) (simp_all add: mergedEnumerate_def me_start_spec [OF assms(2)])
qed

text \<open>
  C11 [merge].  Merging enumerations in the order of \<open>Less\<close> with canonical references, and a positive limit:
  if \<open>mergedEnumerate\<close> returns, it has sent the first \<open>limit\<close> references of the union of the sources,
  in order and without duplicates, each with a size one of the sources gave; and it does return
  if the union has at most \<open>limit\<close> references.
\<close>

theorem mergedEnumerate_correct:
  assumes "0 < limit" and "list_all2 (\<lambda>s xs. s None after limit w = Ret (xs, None)) sources xss"
    and "list_all enumerated xss" and U: "U = (\<Union>xs \<in> set xss. sr_Ref ` set xs)"
  shows "(mergedEnumerate sources None after limit w = Hang \<and> limit < int (card U)) \<or>
    (\<exists>sent. mergedEnumerate sources None after limit w = Ret (sent, None) \<and>
       map sr_Ref sent = take (nat limit) (sorted_list_of_set U) \<and> set sent \<subseteq> (\<Union>xs \<in> set xss. set xs))"
  using mergedEnumerate_spec [OF assms] .

theorem mergedEnumerate_correct_witness:
  "\<exists>sent. mergedEnumerate [\<lambda>c a l (w :: unit). Ret ([sref ''foo-aa'' 1, sref ''foo-cc'' 3], None),
      \<lambda>c a l w. Ret ([sref ''foo-bb'' 2, sref ''foo-cc'' 3], None)] None [] 5 () = Ret (sent, None) \<and>
    map sr_Ref sent = take 5 (sorted_list_of_set {sr_Ref (sref ''foo-aa'' 1), sr_Ref (sref ''foo-bb'' 2), sr_Ref (sref ''foo-cc'' 3)})"
proof -
  let ?xss = "[[sref ''foo-aa'' 1, sref ''foo-cc'' 3], [sref ''foo-bb'' 2, sref ''foo-cc'' 3]]"
  let ?U = "{sr_Ref (sref ''foo-aa'' 1), sr_Ref (sref ''foo-bb'' 2), sr_Ref (sref ''foo-cc'' 3)}"
  have en: "list_all enumerated ?xss" by code_simp
  have U: "?U = (\<Union>xs \<in> set ?xss. sr_Ref ` set xs)" by auto
  have "card ?U \<le> 3" by (simp add: card_insert_if)
  then show ?thesis
    using mergedEnumerate_correct [of 5 "[]" "()" "[\<lambda>c a l w. Ret ([sref ''foo-aa'' 1, sref ''foo-cc'' 3], None),
      \<lambda>c a l w. Ret ([sref ''foo-bb'' 2, sref ''foo-cc'' 3], None)]" ?xss, OF _ _ en U]
    by auto
qed

text \<open>
  C36 [merge_hang].  When the limit cuts the merge short, \<open>mergedEnumerate\<close> may never return: two sources
  of ten blobs each, all of the first below all of the second, and a limit of ten.  The tenth
  blob of the second source does not fit in its channel, the source is waited for, and the
  context that would release it is cancelled only after the wait.
\<close>

definition ten_refs :: "char \<Rightarrow> SizedRef list" where
  "ten_refs c = map (\<lambda>d. sref (''foo-'' @ [c, d]) 1) ''0123456789''"



section \<open>First elements of a union\<close>

definition firsts :: "nat \<Rightarrow> 'a::linorder set \<Rightarrow> 'a set" where
  "firsts n A = {x \<in> A. card {y \<in> A. y < x} < n}"

lemma set_take_sorted_list_of_set:
  assumes "finite A"
  shows "set (take n (sorted_list_of_set A)) = firsts n A"
proof -
  let ?L = "sorted_list_of_set A"
  have L: "set ?L = A" "sorted_wrt (<) ?L" "distinct ?L" using assms by simp_all
  have pos: "{y \<in> A. y < ?L ! i} = set (take i ?L)" if "i < length ?L" for i
  proof -
    have split: "?L = take i ?L @ ?L ! i # drop (Suc i) ?L" using that by (rule id_take_nth_drop)
    have "sorted_wrt (<) (take i ?L @ ?L ! i # drop (Suc i) ?L)" using L(2) split by simp
    then have "\<forall>y \<in> set (take i ?L). y < ?L ! i" "\<forall>y \<in> set (drop (Suc i) ?L). ?L ! i < y"
      by (simp_all add: sorted_wrt_append)
    moreover have "y \<in> A \<longleftrightarrow> y \<in> set (take i ?L) \<or> y = ?L ! i \<or> y \<in> set (drop (Suc i) ?L)" for y
      using L(1) arg_cong [OF split, of set] by auto
    ultimately show ?thesis by (fastforce dest: less_asym)
  qed
  have "card {y \<in> A. y < ?L ! i} = i" if "i < length ?L" for i
    using pos [OF that] L(3) that by (simp add: distinct_card)
  moreover have mem: "x \<in> A \<longleftrightarrow> (\<exists>i < length ?L. x = ?L ! i)" for x
    using in_set_conv_nth [of x ?L] L(1) by auto
  ultimately have "x \<in> firsts n A \<longleftrightarrow> (\<exists>i < length ?L. x = ?L ! i \<and> i < n)" for x
    unfolding firsts_def mem_Collect_eq by metis
  moreover have "x \<in> set (take n ?L) \<longleftrightarrow> (\<exists>i < length ?L. x = ?L ! i \<and> i < n)" for x
    by (force simp: in_set_conv_nth)
  ultimately show ?thesis by blast
qed

lemma firsts_subset: "firsts n A \<subseteq> A"
  by (auto simp: firsts_def)

lemma firsts_down: "finite A \<Longrightarrow> x \<in> firsts n A \<Longrightarrow> y \<in> A \<Longrightarrow> y < x \<Longrightarrow> y \<in> firsts n A"
proof -
  assume a: "finite A" "x \<in> firsts n A" "y \<in> A" "y < x"
  then have "card {z \<in> A. z < y} \<le> card {z \<in> A. z < x}" by (intro card_mono) auto
  with a show ?thesis by (auto simp: firsts_def)
qed

lemma firsts_of_part:
  assumes "finite U" and "B \<subseteq> U" and "firsts n U \<subseteq> B"
  shows "firsts n B = firsts n U"
proof (intro set_eqI iffI)
  fix x
  assume x: "x \<in> firsts n U"
  have "{y \<in> B. y < x} = {y \<in> U. y < x}" using assms firsts_down [OF assms(1) x] by blast
  with x assms(3) show "x \<in> firsts n B" by (auto simp: firsts_def)
next
  fix x
  assume x: "x \<in> firsts n B"
  have "finite B" using assms(1,2) by (rule rev_finite_subset)
  show "x \<in> firsts n U"
  proof (rule ccontr)
    assume "x \<notin> firsts n U"
    then have big: "n \<le> card {y \<in> U. y < x}" using x assms(2) by (auto simp: firsts_def)
    let ?F = "firsts n U"
    have lt: "y < x" if "y \<in> ?F" for y
      using that x \<open>x \<notin> ?F\<close> firsts_down [OF assms(1) that] assms(2) by (metis firsts_subset linorder_neqE subsetD)
    have "card ?F = n"
    proof -
      have "n \<le> card U" using big card_mono [OF assms(1), of "{y \<in> U. y < x}"] by auto
      then have "length (take n (sorted_list_of_set U)) = n" by simp
      moreover have "distinct (take n (sorted_list_of_set U))" by simp
      ultimately show ?thesis using set_take_sorted_list_of_set [OF assms(1)] by (metis distinct_card)
    qed
    moreover have "card ?F \<le> card {y \<in> B. y < x}"
      using lt assms(3) \<open>finite B\<close> by (intro card_mono) auto
    ultimately show False using x by (auto simp: firsts_def)
  qed
qed

lemma take_sorted_union:
  assumes "finite J" and "\<And>j. j \<in> J \<Longrightarrow> finite (A j)"
  shows "take n (sorted_list_of_set (\<Union>j \<in> J. set (take n (sorted_list_of_set (A j))))) =
    take n (sorted_list_of_set (\<Union>j \<in> J. A j))"
proof -
  let ?U = "\<Union>j \<in> J. A j" and ?B = "\<Union>j \<in> J. firsts n (A j)"
  have fin: "finite ?U" using assms by blast
  have sub: "?B \<subseteq> ?U" using firsts_subset by blast
  have "firsts n ?U \<subseteq> ?B"
  proof
    fix x
    assume x: "x \<in> firsts n ?U"
    then obtain j where j: "j \<in> J" "x \<in> A j" by (auto simp: firsts_def)
    have "card {y \<in> A j. y < x} \<le> card {y \<in> ?U. y < x}" using j by (intro card_mono rev_finite_subset [OF fin]) auto
    with x j show "x \<in> ?B" by (auto simp: firsts_def)
  qed
  then have eq: "firsts n ?B = firsts n ?U" using firsts_of_part [OF fin sub] by blast
  have fB: "finite ?B" using fin sub by (rule rev_finite_subset)
  have "take n (sorted_list_of_set ?B) = take n (sorted_list_of_set ?U)"
    by (rule strict_sorted_eqI)
      (simp_all add: sorted_wrt_take set_take_sorted_list_of_set fin fB eq)
  then show ?thesis using assms(2) by (simp add: set_take_sorted_list_of_set)
qed


text \<open>The enumeration of a storage in the terms of the merge.\<close>

lemma enum_spec_refs: "map sr_Ref (enum_spec m after k) = take k (sorted_list_of_set (refs_after m after))"
  by (simp add: enum_spec_def sized_def comp_def)

lemma finite_refs_after: "blobs_ok m \<Longrightarrow> finite (refs_after m after)"
  unfolding blobs_ok_def by (meson refs_after_subset finite_subset)

lemma enum_spec_enumerated:
  assumes "blobs_ok m"
  shows "enumerated (enum_spec m after k)"
proof -
  let ?L = "sorted_list_of_set (refs_after m after)"
  have L: "set ?L = refs_after m after" "sorted_wrt (<) ?L" using finite_refs_after [OF assms] by simp_all
  have "ref_canonical r" if "r \<in> set (take k ?L)" for r
    using in_set_takeD [OF that] L(1) refs_after_subset blobs_ok_canonical [OF assms] by blast
  moreover have "sr_Ref sb \<in> set (take k ?L)" if "sb \<in> set (enum_spec m after k)" for sb
    using imageI [OF that, of sr_Ref] by (metis enum_spec_refs list.set_map)
  ultimately show ?thesis
    using sorted_wrt_take [OF L(2), of k] by (auto simp: enumerated_def list_all_iff enum_spec_refs)
qed

lemma map_enum_spec:
  assumes "map sr_Ref xs = take k (sorted_list_of_set (refs_after m after))"
    and "\<And>x. x \<in> set xs \<Longrightarrow> \<exists>b. m (sr_Ref x) = Some b \<and> x = sized (sr_Ref x) b"
  shows "xs = enum_spec m after k"
proof -
  have "map (\<lambda>br. sized br (the (m br))) (map sr_Ref xs) = map id xs"
    unfolding map_map by (rule map_cong [OF refl]) (use assms(2) in force)
  then show ?thesis by (simp add: enum_spec_def flip: assms(1))
qed

text \<open>
  Merging the storages of a family that agree on the blobs they share gives the enumeration of
  the union of their contents, or does not come back because the limit cuts it short.
\<close>

context stores
begin

lemma MergedEnumerate_union:
  assumes "I w" and "0 < limit" and M: "\<And>i. i < n \<Longrightarrow> C w i \<subseteq>\<^sub>m M" and dom: "dom M = (\<Union>i<n. dom (C w i))"
  shows "(MergedEnumerateStorage (map sto [0..<n]) None after limit w = Hang \<and>
      limit < int (card (refs_after M after))) \<or>
    MergedEnumerateStorage (map sto [0..<n]) None after limit w = Ret (enum_spec M after (nat limit), None)"
proof -
  let ?e = "\<lambda>i. enum_spec (C w i) after (nat limit)" and ?R = "\<lambda>i. refs_after (C w i) after"
  let ?xss = "map ?e [0..<n]" and ?me = "mergedEnumerate (map sto_EnumerateBlobs (map sto [0..<n])) None after limit w"
  define U where "U = (\<Union>xs \<in> set ?xss. sr_Ref ` set xs)"
  have fin: "finite (?R i)" if "i < n" for i using finite_refs_after [OF ok [OF assms(1) that]] .
  have R: "refs_after M after = (\<Union>i \<in> {..<n}. ?R i)" by (auto simp: refs_after_def dom)
  have refs: "sr_Ref ` set (?e i) = set (take (nat limit) (sorted_list_of_set (?R i)))" for i
    by (metis enum_spec_refs list.set_map)
  have U: "U = (\<Union>i \<in> {..<n}. set (take (nat limit) (sorted_list_of_set (?R i))))"
    by (auto simp: U_def refs atLeast0LessThan)
  have src: "list_all2 (\<lambda>s xs. s None after limit w = Ret (xs, None)) (map sto_EnumerateBlobs (map sto [0..<n])) ?xss"
    using EnumerateBlobs [OF assms(1) _ assms(2)] by (simp add: list_all2_conv_all_nth)
  have en: "list_all enumerated ?xss" using enum_spec_enumerated ok [OF assms(1)] by (simp add: list_all_iff)
  have "U \<subseteq> refs_after M after" using fin by (auto simp: U R dest!: in_set_takeD)
  moreover have "finite (refs_after M after)" using fin by (simp add: R)
  ultimately have card: "card U \<le> card (refs_after M after)" by (rule card_mono [rotated])
  have take: "take (nat limit) (sorted_list_of_set U) = take (nat limit) (sorted_list_of_set (refs_after M after))"
    unfolding U R by (rule take_sorted_union) (simp_all add: fin)
  have "sent = enum_spec M after (nat limit)"
    if sent: "map sr_Ref sent = take (nat limit) (sorted_list_of_set U)" "set sent \<subseteq> (\<Union>xs \<in> set ?xss. set xs)" for sent
  proof (rule map_enum_spec)
    show "map sr_Ref sent = take (nat limit) (sorted_list_of_set (refs_after M after))" using sent(1) take by simp
    fix x assume "x \<in> set sent"
    then obtain i where i: "i < n" "x \<in> set (?e i)" using sent(2) by auto
    then obtain br where br: "br \<in> ?R i" "x = sized br (the (C w i br))"
      using fin [OF i(1)] by (auto simp: enum_spec_def dest: in_set_takeD)
    then obtain b where "C w i br = Some b" by (auto simp: refs_after_def)
    then show "\<exists>b. M (sr_Ref x) = Some b \<and> x = sized (sr_Ref x) b"
      using M [OF i(1)] br(2) by (force simp: map_le_def sized_def)
  qed
  then show ?thesis
    using mergedEnumerate_spec [OF assms(2) src en U_def] card unfolding MergedEnumerateStorage_def by force
qed

end


section \<open>Everything is visited\<close>

lemma ea_consume_total:
  assumes "\<And>sb w. fst (fn sb w) = None"
  shows "ea_consume fn sbs after k w =
    (None, if sbs = [] then after else ref_String (sr_Ref (last sbs)), k + length sbs,
     fold (\<lambda>sb w. snd (fn sb w)) sbs w)"
proof (induction sbs arbitrary: after k w)
  case (Cons sb sbs)
  obtain w' where "fn sb w = (None, w')" using assms by (metis prod.collapse)
  then show ?case by (simp add: Cons.IH)
qed simp

text \<open>Resuming after the last reference of a batch continues where the batch ended.\<close>

lemma refs_after_batch:
  assumes "blobs_ok m" and "0 < k" and L: "L = sorted_list_of_set (refs_after m after)" and "L \<noteq> []"
  shows "sorted_list_of_set (refs_after m (ref_String (last (take k L)))) = drop k L"
proof (rule strict_sorted_eqI)
  have fin: "finite (refs_after m a)" for a
    using assms(1) refs_after_subset by (metis blobs_ok_def finite_subset)
  show "sorted_wrt (<) (sorted_list_of_set (refs_after m (ref_String (last (take k L)))))" by simp
  have sL: "sorted_wrt (<) L" by (simp add: L)
  then show "sorted_wrt (<) (drop k L)" by (rule sorted_wrt_drop)
  let ?x = "last (take k L)"
  have ne: "take k L \<noteq> []" using assms(2,4) by simp
  have set: "set L = refs_after m after" using fin by (simp add: L)
  have x: "?x \<in> set L" using last_in_set [OF ne] by (rule in_set_takeD)
  have can: "ref_canonical r" if "r \<in> dom m" for r using blobs_ok_canonical [OF assms(1) that] .
  have dx: "?x \<in> dom m" "after < ref_String ?x" using x set by (auto simp: refs_after_def)
  have "?x < r \<longleftrightarrow> ref_String ?x < ref_String r" if "r \<in> dom m" for r
    using can [OF dx(1)] can [OF that] by (rule ref_less_iff_String)
  then have "r \<in> refs_after m (ref_String ?x) \<longleftrightarrow> r \<in> set L \<and> ?x < r" for r
    using dx(2) unfolding set refs_after_def by (auto intro: order.strict_trans)
  moreover have "r \<in> set L \<and> ?x < r \<longleftrightarrow> r \<in> set (drop k L)" for r
  proof -
    have "\<forall>x \<in> set (take k L). \<forall>y \<in> set (drop k L). x < y"
      using sL by (metis append_take_drop_id sorted_wrt_append)
    then have "\<forall>y \<in> set (drop k L). ?x < y" using last_in_set [OF ne] by blast
    moreover have "sorted_wrt (<) (butlast (take k L) @ [?x])"
      using sorted_wrt_take [OF sL, of k] ne by simp
    then have "\<forall>y \<in> set (take k L). y \<le> ?x"
      using ne by (metis append_butlast_last_id in_set_conv_decomp less_imp_le order_refl set_ConsD sorted_wrt_append
          Un_iff empty_iff list.set(1) list.set_intros(1) set_append)
    moreover have "r \<in> set L \<longleftrightarrow> r \<in> set (take k L) \<or> r \<in> set (drop k L)"
      by (metis Un_iff append_take_drop_id set_append)
    ultimately show ?thesis by (auto dest: leD)
  qed
  ultimately show "set (sorted_list_of_set (refs_after m (ref_String ?x))) = set (drop k L)"
    using fin by (simp add: set_eq_iff)
qed

lemma EnumerateAllFrom_visits:
  assumes "blobs_ok m" and "\<And>sb w. fst (fn sb w) = None" and "\<And>sb w. J w \<Longrightarrow> J (snd (fn sb w))"
    and "\<And>after w. J w \<Longrightarrow> src c after 1000 w = Ret (enum_spec m after 1000, None)"
    and "J w" and "card (refs_after m after) < fuel"
  shows "EnumerateAllFrom fuel seen src c after fn w =
    Some (Ret (None, fold (\<lambda>sb w. snd (fn sb w)) (enum_spec m after (card (refs_after m after))) w))"
  using assms(5,6)
proof (induction fuel arbitrary: after w)
  case (Suc fuel)
  define L where "L = sorted_list_of_set (refs_after m after)"
  let ?e = "\<lambda>rs. map (\<lambda>br. sized br (the (m br))) rs"
  have len: "card (refs_after m after) = length L" by (simp add: L_def)
  have src: "src c after 1000 w = Ret (?e (take 1000 L), None)"
    using assms(4) Suc.prems(1) by (simp add: enum_spec_def L_def)
  have keep: "J (fold (\<lambda>sb w. snd (fn sb w)) sbs w)" if "J w" for sbs w
    using that assms(3) by (induction sbs arbitrary: w) auto
  show ?case
  proof (cases "L = []")
    case True
    then show ?thesis
      using src len by (simp add: ea_batchSize_def enum_spec_def ea_consume_total [OF assms(2)])
  next
    case False
    let ?after = "ref_String (last (take 1000 L))"
    let ?w = "fold (\<lambda>sb w. snd (fn sb w)) (?e (take 1000 L)) w"
    have rest: "sorted_list_of_set (refs_after m ?after) = drop 1000 L"
      using refs_after_batch [OF assms(1) _ L_def False, of 1000] by simp
    then have card: "card (refs_after m ?after) = length L - 1000" by (metis length_drop length_sorted_list_of_set)
    have "EnumerateAllFrom (Suc fuel) seen src c after fn w = EnumerateAllFrom fuel seen src c ?after fn ?w"
      using src False by (simp add: min_def ea_batchSize_def ea_consume_total [OF assms(2)] last_map sized_def)
    also have "\<dots> = Some (Ret (None, fold (\<lambda>sb w. snd (fn sb w)) (?e (drop 1000 L)) ?w))"
    proof -
      have "0 < length L" using False by simp
      then have "card (refs_after m ?after) < fuel" using Suc.prems(2) card len by linarith
      from Suc.IH [OF keep [OF Suc.prems(1)] this] show ?thesis by (simp add: enum_spec_def rest card)
    qed
    finally show ?thesis
      unfolding enum_spec_def len L_def [symmetric]
      by (metis (no_types, lifting) append_take_drop_id comp_apply fold_append map_append order_refl take_all)
  qed
qed simp

end
