(* ===== verification/MemStorage.thy ===== *)
theory MemStorage
  imports Enumerate Lru
begin

text \<open>
  Package \<open>pkg/blobserver/memory\<close>: the in-memory storage, which is also a size-bounded LRU cache.
  Without a size limit it is an interpretation of the storage contract \<open>stores\<close>; with one, its
  size never exceeds the limit after a reception.
\<close>

section \<open>State\<close>

text \<open>
  The Go map \<open>m\<close> is an association list with distinct keys (nil and empty behave alike); \<open>lru\<close> is
  \<open>None\<close> when nil, and its values are all nil.  The counters are unbounded.
\<close>

record memsto =
  ms_maxSize :: int
  ms_m :: "(Ref \<times> bytes) list"
  ms_size :: int
  ms_lru :: "unit Cache option"
  ms_blobsFetched :: int
  ms_bytesFetched :: int

definition mem_New :: memsto where
  "mem_New = \<lparr>ms_maxSize = 0, ms_m = [], ms_size = 0, ms_lru = None, ms_blobsFetched = 0, ms_bytesFetched = 0\<rparr>"

definition mem_NewCache :: "int \<Rightarrow> memsto" where
  "mem_NewCache sz = mem_New\<lparr>ms_maxSize := sz, ms_lru := Some (lru_New (2 ^ 31 - 1))\<rparr>"

section \<open>Operations\<close>

definition mem_Fetch :: "Ref \<Rightarrow> memsto \<Rightarrow> fetch_ret \<times> memsto" where
  "mem_Fetch ref s =
     (let s = (case ms_lru s of None \<Rightarrow> s | Some c \<Rightarrow> s\<lparr>ms_lru := Some (snd (lru_Get (ref_String ref) c))\<rparr>)
      in case map_of (ms_m s) ref of
           None \<Rightarrow> ((None, 0, Some ErrNotExist), s)
         | Some b \<Rightarrow>
             ((Some (bytes_reader b), of_nat (length b), None),
              s\<lparr>ms_blobsFetched := ms_blobsFetched s + 1,
                ms_bytesFetched := ms_bytesFetched s + int (length b)\<rparr>))"

text \<open>
  What a read of \<open>io.NewSectionReader(bytes.NewReader(b), offset, length)\<close> delivers: nothing for a
  non-positive length, an error for a negative offset.
\<close>

definition section_reader :: "bytes \<Rightarrow> int \<Rightarrow> int \<Rightarrow> reader" where
  "section_reader b offset len =
     (if len \<le> 0 then bytes_reader []
      else if offset < 0 then \<lparr>rd_data = [], rd_err = Some (ErrText ''bytes: negative offset'')\<rparr>
      else bytes_reader (take (nat len) (drop (nat offset) b)))"

definition mem_SubFetch :: "Ref \<Rightarrow> int \<Rightarrow> int \<Rightarrow> memsto \<Rightarrow> (reader option \<times> goerr option) \<times> memsto" where
  "mem_SubFetch ref offset len s =
     (case map_of (ms_m s) ref of
        None \<Rightarrow> ((None, Some ErrNotExist), s)
      | Some b \<Rightarrow>
          ((Some (section_reader b offset len), None),
           s\<lparr>ms_blobsFetched := ms_blobsFetched s + 1, ms_bytesFetched := ms_bytesFetched s + len\<rparr>))"

definition mem_removeBlobLocked :: "Ref \<Rightarrow> memsto \<Rightarrow> memsto" where
  "mem_removeBlobLocked br s =
     (case map_of (ms_m s) br of
        None \<Rightarrow> s
      | Some v \<Rightarrow> s\<lparr>ms_size := ms_size s - int (length v), ms_m := AList.delete br (ms_m s)\<rparr>)"

text \<open>The eviction loop of \<open>ReceiveBlob\<close>; a nil \<open>lru\<close> would be dereferenced.\<close>

definition lru_count :: "memsto \<Rightarrow> nat" where
  "lru_count s = (case ms_lru s of None \<Rightarrow> 0 | Some c \<Rightarrow> length (c_ll c))"

lemma lru_RemoveOldest_shrinks:
  "fst (fst (lru_RemoveOldest c)) \<noteq> [] \<Longrightarrow> length (c_ll (snd (lru_RemoveOldest c))) < length (c_ll c)"
  by (auto simp: lru_RemoveOldest_def lru_removeOldest_def split: prod.splits if_splits)

function mem_evict :: "memsto \<Rightarrow> memsto outcome" where
  "mem_evict s =
     (if ms_maxSize s \<noteq> 0 \<and> ms_size s > ms_maxSize s then
        case ms_lru s of
          None \<Rightarrow> Panic ''nil pointer dereference''
        | Some c \<Rightarrow>
            (let key = fst (fst (lru_RemoveOldest c));
                 s' = s\<lparr>ms_lru := Some (snd (lru_RemoveOldest c))\<rparr>
             in if key \<noteq> [] then obind (MustParse key) (\<lambda>br. mem_evict (mem_removeBlobLocked br s'))
                else Ret s')
      else Ret s)"
  by pat_completeness auto
termination
  by (relation "measure lru_count")
    (auto simp: lru_count_def mem_removeBlobLocked_def lru_RemoveOldest_shrinks split: option.splits)

declare mem_evict.simps [simp del]

definition mem_ReceiveBlob :: "Ref \<Rightarrow> reader \<Rightarrow> memsto \<Rightarrow> (recv_ret \<times> memsto) outcome" where
  "mem_ReceiveBlob br source s =
     obind (ref_Hash br) (\<lambda>h.
       case h of
         None \<Rightarrow> Ret ((zeroSizedRef, Some (ErrText ''Unsupported blobref hash''), NotRead), s)
       | Some h \<Rightarrow>
           (let (all, err) = read_all source in
            if err \<noteq> None then Ret ((zeroSizedRef, err, ReadToEnd), s)
            else if \<not> HashMatches br (hash_Write h all)
            then Ret ((zeroSizedRef, Some (ErrText ''Hash mismatch receiving blob''), ReadToEnd), s)
            else
              let sb = \<lparr>sr_Ref = br, sr_Size = of_nat (length all)\<rparr> in
              if map_of (ms_m s) br \<noteq> None then Ret ((sb, None, ReadToEnd), s)
              else
                let s = s\<lparr>ms_m := AList.update br all (ms_m s)\<rparr>;
                    s = (case ms_lru s of
                           None \<Rightarrow> s
                         | Some c \<Rightarrow> s\<lparr>ms_lru := Some (lru_Add (ref_String br) () c)\<rparr>);
                    s = s\<lparr>ms_size := ms_size s + int (length all)\<rparr>
                in obind (mem_evict s) (\<lambda>s. Ret ((sb, None, ReadToEnd), s))))"

fun mem_StatBlobs :: "Ref list \<Rightarrow> memsto \<Rightarrow> SizedRef list" where
  "mem_StatBlobs [] s = []"
| "mem_StatBlobs (br # brs) s =
     (case map_of (ms_m s) br of
        None \<Rightarrow> mem_StatBlobs brs s
      | Some b \<Rightarrow> \<lparr>sr_Ref = br, sr_Size = of_nat (length b)\<rparr> # mem_StatBlobs brs s)"

text \<open>\<open>sort.Sort(blob.ByRef(...))\<close>, the order being \<open>Less\<close>.\<close>

fun insert_ByRef :: "Ref \<Rightarrow> Ref list \<Rightarrow> Ref list" where
  "insert_ByRef r [] = [r]"
| "insert_ByRef r (x # xs) = (if ref_Less x r then x # insert_ByRef r xs else r # x # xs)"

definition sort_ByRef :: "Ref list \<Rightarrow> Ref list" where
  "sort_ByRef rs = foldr insert_ByRef rs []"

fun mem_enum_loop :: "ctx \<Rightarrow> string \<Rightarrow> int \<Rightarrow> (Ref \<times> bytes) list \<Rightarrow> Ref list \<Rightarrow> nat
    \<Rightarrow> SizedRef list \<times> goerr option" where
  "mem_enum_loop ctx after limit m [] n = ([], None)"
| "mem_enum_loop ctx after limit m (br # brs) n =
     (if after \<noteq> [] \<and> ref_String br \<le> after then mem_enum_loop ctx after limit m brs n
      else if ctx = Some n then ([], Some ErrCanceled)
      else
        let sb = \<lparr>sr_Ref = br, sr_Size = of_nat (length (the (map_of m br)))\<rparr>
        in if limit > 0 \<and> int (n + 1) = limit then ([sb], None)
           else let (sbs, err) = mem_enum_loop ctx after limit m brs (n + 1) in (sb # sbs, err))"

definition mem_EnumerateBlobs :: "ctx \<Rightarrow> string \<Rightarrow> int \<Rightarrow> memsto \<Rightarrow> SizedRef list \<times> goerr option" where
  "mem_EnumerateBlobs ctx after limit s =
     mem_enum_loop ctx after limit (ms_m s) (sort_ByRef (map fst (ms_m s))) 0"

text \<open>
  \<open>StreamBlobs\<close>: the contents are read through \<open>Fetch\<close> when the blob is opened; a streamed blob
  is its reference, size and continuation token.
\<close>

fun mem_stream_loop :: "ctx \<Rightarrow> string \<Rightarrow> (Ref \<times> bytes) list \<Rightarrow> Ref list \<Rightarrow> nat
    \<Rightarrow> (SizedRef \<times> string) list \<times> goerr option" where
  "mem_stream_loop ctx contToken m [] n = ([], None)"
| "mem_stream_loop ctx contToken m (br # brs) n =
     (if ref_String br < contToken then mem_stream_loop ctx contToken m brs n
      else if ctx = Some n then ([], Some ErrCanceled)
      else
        let bt = (\<lparr>sr_Ref = br, sr_Size = of_nat (length (the (map_of m br)))\<rparr>, ref_String br);
            (bts, err) = mem_stream_loop ctx contToken m brs (n + 1)
        in (bt # bts, err))"

definition mem_StreamBlobs :: "ctx \<Rightarrow> string \<Rightarrow> memsto \<Rightarrow> (SizedRef \<times> string) list \<times> goerr option" where
  "mem_StreamBlobs ctx contToken s =
     mem_stream_loop ctx contToken (ms_m s) (sort_ByRef (map fst (ms_m s))) 0"

definition mem_RemoveBlobs :: "Ref list \<Rightarrow> memsto \<Rightarrow> memsto" where
  "mem_RemoveBlobs brs s = fold mem_removeBlobLocked brs s"

definition mem_BlobContents :: "Ref \<Rightarrow> memsto \<Rightarrow> string \<times> bool" where
  "mem_BlobContents br s =
     (case map_of (ms_m s) br of None \<Rightarrow> ([], False) | Some b \<Rightarrow> (string_of_bytes b, True))"

definition mem_NumBlobs :: "memsto \<Rightarrow> nat" where
  "mem_NumBlobs s = length (ms_m s)"

definition mem_SumBlobSize :: "memsto \<Rightarrow> int" where
  "mem_SumBlobSize s = ms_size s"

definition mem_BlobrefStrings :: "memsto \<Rightarrow> string list" where
  "mem_BlobrefStrings s = sort (map (\<lambda>e. ref_String (fst e)) (ms_m s))"

definition mem_Stats :: "memsto \<Rightarrow> int \<times> int" where
  "mem_Stats s = (ms_blobsFetched s, ms_bytesFetched s)"

text \<open>Memory storage number \<open>i\<close> of a world of memory storages, with a hub without hooks.\<close>

definition mem_at :: "nat \<Rightarrow> (nat \<Rightarrow> memsto) Storage" where
  "mem_at i =
     \<lparr>sto_Fetch = \<lambda>br w. (let (r, s) = mem_Fetch br (w i) in Ret (r, w(i := s))),
      sto_ReceiveBlob = \<lambda>br src w. obind (mem_ReceiveBlob br src (w i)) (\<lambda>(r, s). Ret (r, w(i := s))),
      sto_StatBlobs = \<lambda>brs w. Ret ((mem_StatBlobs brs (w i), None), w),
      sto_EnumerateBlobs = \<lambda>c after limit w. Ret (mem_EnumerateBlobs c after limit (w i)),
      sto_RemoveBlobs = \<lambda>brs w. Ret (None, w(i := mem_RemoveBlobs brs (w i))),
      sto_notify = \<lambda>sb w. obind (NotifyBlobReceived newHub sb w) (\<lambda>(err, _, w). Ret (err, w))\<rparr>"


section \<open>Invariant\<close>

definition mem_inv :: "memsto \<Rightarrow> bool" where
  "mem_inv s \<longleftrightarrow>
     distinct (map fst (ms_m s)) \<and> blobs_ok (map_of (ms_m s)) \<and>
     ms_size s = sum_list (map (\<lambda>e. int (length (snd e))) (ms_m s))"

lemma mem_inv_cong:
  "ms_m s' = ms_m s \<Longrightarrow> ms_size s' = ms_size s \<Longrightarrow> mem_inv s' = mem_inv s"
  by (simp add: mem_inv_def)

lemma alist_update_absent: "map_of al k = None \<Longrightarrow> AList.update k v al = al @ [(k, v)]"
  by (induction al) (auto split: if_splits)

lemma sum_delete:
  assumes "distinct (map fst al)" and "map_of al k = Some v"
  shows "sum_list (map (\<lambda>e. int (length (snd e))) (AList.delete k al)) =
    sum_list (map (\<lambda>e. int (length (snd e))) al) - int (length v)"
  using assms
proof (induction al)
  case (Cons e al)
  show ?case
  proof (cases "fst e = k")
    case True
    then have "k \<notin> fst ` set al" using Cons.prems(1) by auto
    then have "AList.delete k al = al" by (force simp: AList.delete_eq filter_id_conv)
    then show ?thesis using True Cons.prems(2) by (auto simp: AList.delete_eq)
  next
    case False
    then show ?thesis using Cons by (auto simp: AList.delete_eq)
  qed
qed simp

lemma mem_removeBlobLocked_spec:
  assumes "mem_inv s"
  shows "mem_inv (mem_removeBlobLocked br s)"
    and "map_of (ms_m (mem_removeBlobLocked br s)) = map_of (ms_m s) |` (- {br})"
    and "ms_maxSize (mem_removeBlobLocked br s) = ms_maxSize s"
    and "ms_lru (mem_removeBlobLocked br s) = ms_lru s"
proof -
  have m: "map_of (ms_m (mem_removeBlobLocked br s)) = map_of (ms_m s) |` (- {br})"
    by (auto simp: mem_removeBlobLocked_def delete_conv' restrict_map_def fun_eq_iff split: option.split)
  then show "map_of (ms_m (mem_removeBlobLocked br s)) = map_of (ms_m s) |` (- {br})" .
  have "blobs_ok (map_of (ms_m s) |` (- {br}))" using assms blobs_ok_restrict by (auto simp: mem_inv_def)
  then have "blobs_ok (map_of (ms_m (mem_removeBlobLocked br s)))" by (simp add: m)
  then show "mem_inv (mem_removeBlobLocked br s)"
    using assms sum_delete [of "ms_m s" br]
    by (cases "map_of (ms_m s) br") (simp_all add: mem_inv_def mem_removeBlobLocked_def distinct_delete)
  show "ms_maxSize (mem_removeBlobLocked br s) = ms_maxSize s" "ms_lru (mem_removeBlobLocked br s) = ms_lru s"
    by (auto simp: mem_removeBlobLocked_def split: option.split)
qed

lemma mem_RemoveBlobs_spec:
  assumes "mem_inv s"
  shows "mem_inv (mem_RemoveBlobs brs s) \<and> map_of (ms_m (mem_RemoveBlobs brs s)) = map_of (ms_m s) |` (- set brs)
    \<and> ms_maxSize (mem_RemoveBlobs brs s) = ms_maxSize s"
  using assms
proof (induction brs arbitrary: s)
  case (Cons br brs)
  then show ?case
    using mem_removeBlobLocked_spec [OF Cons.prems, of br]
    by (simp add: mem_RemoveBlobs_def restrict_restrict) (metis Compl_insert Diff_eq inf_commute)
qed (simp add: mem_RemoveBlobs_def restrict_map_def)

lemma mem_Fetch_spec:
  "fst (mem_Fetch br s) = fetch_spec (map_of (ms_m s)) br" "ms_m (snd (mem_Fetch br s)) = ms_m s"
  "ms_size (snd (mem_Fetch br s)) = ms_size s" "ms_maxSize (snd (mem_Fetch br s)) = ms_maxSize s"
  by (auto simp: mem_Fetch_def fetch_spec_def Let_def split: option.split)

lemma mem_StatBlobs_spec: "mem_StatBlobs brs s = stat_spec (map_of (ms_m s)) brs"
  by (induction brs) (auto simp: stat_spec_def sized_def split: option.split)

section \<open>Enumeration is sorted\<close>

lemma insert_ByRef_insort:
  "list_all ref_canonical (r # xs) \<Longrightarrow> insert_ByRef r xs = insort r xs"
  by (induction xs) (auto simp: ref_Less_iff_less)

lemma sort_ByRef_sort: "list_all ref_canonical rs \<Longrightarrow> sort_ByRef rs = sort rs"
proof (induction rs)
  case (Cons r rs)
  then have "list_all ref_canonical (r # sort rs)" by (auto simp: list_all_iff)
  with Cons show ?case by (simp add: sort_ByRef_def insert_ByRef_insort)
qed (simp add: sort_ByRef_def)

lemma mem_enum_loop_take:
  assumes "int n < limit"
  shows "mem_enum_loop None after limit m rs n =
    (map (\<lambda>br. sized br (the (map_of m br)))
      (take (nat limit - n) (filter (\<lambda>br. \<not> (after \<noteq> [] \<and> ref_String br \<le> after)) rs)), None)"
  using assms
proof (induction rs arbitrary: n)
  case (Cons br rs)
  show ?case
  proof (cases "after \<noteq> [] \<and> ref_String br \<le> after")
    case False
    then have keep: "(after \<noteq> [] \<and> ref_String br \<le> after) = False" by blast
    show ?thesis
    proof (cases "int (n + 1) = limit")
      case True
      then have "nat limit - n = 1" using Cons.prems by simp
      then show ?thesis using True Cons.prems by (simp add: keep sized_def)
    next
      case False
      then have "nat limit - n = Suc (nat limit - (n + 1))" "int (n + 1) < limit" using Cons.prems by linarith+
      then show ?thesis using False Cons.IH [of "n + 1"] by (simp add: keep sized_def)
    qed
  qed (use Cons in simp)
qed simp

lemma ref_String_nonempty: "ref_canonical r \<Longrightarrow> ref_String r \<noteq> []"
  by (auto simp: ref_canonical_def ref_String_wf split: option.splits) (metis Ref.exhaust_sel append_is_Nil_conv list.distinct(1) ref_String_wf)

lemma mem_EnumerateBlobs_spec:
  assumes "mem_inv s" and "limit > 0"
  shows "mem_EnumerateBlobs None after limit s = (enum_spec (map_of (ms_m s)) after (nat limit), None)"
proof -
  let ?m = "map_of (ms_m s)" and ?ks = "map fst (ms_m s)"
  have can: "ref_canonical r" if "r \<in> set ?ks" for r
    using blobs_ok_canonical [of ?m r] assms(1) that by (simp add: mem_inv_def dom_map_of_conv_image_fst)
  have "[] < ref_String r" if "r \<in> set ?ks" for r
    using ref_String_nonempty [OF can [OF that]] by (cases "ref_String r") simp_all
  then have "filter (\<lambda>br. \<not> (after \<noteq> [] \<and> ref_String br \<le> after)) (sort ?ks) = filter (\<lambda>br. after < ref_String br) (sort ?ks)"
    by (intro filter_cong) (auto simp: not_le simp del: set_map)
  also have "\<dots> = sorted_list_of_set (refs_after ?m after)"
  proof (rule strict_sorted_eqI)
    show "sorted_wrt (<) (filter (\<lambda>br. after < ref_String br) (sort ?ks))"
      using assms(1) by (intro sorted_wrt_filter) (simp add: strict_sorted_iff mem_inv_def)
    have "finite (refs_after ?m after)" using refs_after_subset finite_dom_map_of by (rule finite_subset)
    then show "set (filter (\<lambda>br. after < ref_String br) (sort ?ks)) = set (sorted_list_of_set (refs_after ?m after))"
      by (auto simp: refs_after_def dom_map_of_conv_image_fst)
  qed simp
  finally show ?thesis
    using mem_enum_loop_take [of 0 limit after "ms_m s" "sort ?ks"] assms(2) can
    by (simp add: mem_EnumerateBlobs_def enum_spec_def sort_ByRef_sort list_all_iff)
qed

section \<open>Reception\<close>

lemma mem_ReceiveBlob_err:
  assumes "ref_Hash br = Ret (Some h)" and "rd_err src = Some e"
  shows "mem_ReceiveBlob br src s = Ret ((zeroSizedRef, Some e, ReadToEnd), s)"
  using assms by (simp add: mem_ReceiveBlob_def read_all_def)

lemma mem_evict_unlimited: "ms_maxSize s = 0 \<Longrightarrow> mem_evict s = Ret s"
  by (simp add: mem_evict.simps)

lemma mem_insert_inv:
  assumes "mem_inv s" and "map_of (ms_m s) br = None" and "br = SHA1FromBytes data"
    and "ms_m s' = AList.update br data (ms_m s)" and "ms_size s' = ms_size s + int (length data)"
  shows "mem_inv s'" and "map_of (ms_m s') = put (map_of (ms_m s)) br data"
proof -
  show m: "map_of (ms_m s') = put (map_of (ms_m s)) br data"
    using assms(2,4) by (simp add: put_def update_conv')
  have "blobs_ok (map_of (ms_m s'))"
    unfolding m using assms(1,3) blobs_ok_put by (simp add: mem_inv_def)
  then show "mem_inv s'"
    using assms by (auto simp: mem_inv_def alist_update_absent map_of_eq_None_iff)
qed

lemma mem_ReceiveBlob_plain:
  assumes "mem_inv s" and "ms_maxSize s = 0" and "br = SHA1FromBytes data"
  shows "\<exists>s'. mem_ReceiveBlob br (bytes_reader data) s = Ret ((sized br data, None, ReadToEnd), s') \<and>
    mem_inv s' \<and> ms_maxSize s' = 0 \<and> map_of (ms_m s') = put (map_of (ms_m s)) br data"
proof (cases "map_of (ms_m s) br")
  case (Some b)
  then show ?thesis using assms by (simp add: mem_ReceiveBlob_def sized_def put_def)
next
  case None
  let ?s = "(case ms_lru s of None \<Rightarrow> s\<lparr>ms_m := AList.update br data (ms_m s)\<rparr>
      | Some c \<Rightarrow> s\<lparr>ms_m := AList.update br data (ms_m s), ms_lru := Some (lru_Add (ref_String br) () c)\<rparr>)
      \<lparr>ms_size := ms_size s + int (length data)\<rparr>"
  have s: "ms_m ?s = AList.update br data (ms_m s)" "ms_size ?s = ms_size s + int (length data)" "ms_maxSize ?s = 0"
    using assms(2) by (auto split: option.split)
  have "mem_ReceiveBlob br (bytes_reader data) s = Ret ((sized br data, None, ReadToEnd), ?s)"
    using assms None s(3) mem_evict_unlimited [of ?s]
    by (auto simp: mem_ReceiveBlob_def sized_def Let_def split: option.splits)
  then show ?thesis using mem_insert_inv [OF assms(1) None assms(3) s(1,2)] s(3) by blast
qed

section \<open>The contract\<close>

definition mem_C :: "(nat \<Rightarrow> memsto) \<Rightarrow> nat \<Rightarrow> blobmap" where
  "mem_C w i = map_of (ms_m (w i))"

definition mem_I :: "(nat \<Rightarrow> memsto) \<Rightarrow> bool" where
  "mem_I w \<longleftrightarrow> (\<forall>i. mem_inv (w i) \<and> ms_maxSize (w i) = 0)"

lemma mem_I_upd: "mem_I w \<Longrightarrow> mem_inv s \<Longrightarrow> ms_maxSize s = 0 \<Longrightarrow> mem_I (w(i := s))"
  by (simp add: mem_I_def)

lemma mem_C_upd: "mem_C (w(i := s)) = (mem_C w)(i := map_of (ms_m s))"
  by (auto simp: mem_C_def)

interpretation mems: stores mem_at n mem_C mem_I for n
proof
  fix w :: "nat \<Rightarrow> memsto" and i br data src h e brs limit after sb
  assume w: "mem_I w" and i: "i < n"
  then have inv: "mem_inv (w i)" "ms_maxSize (w i) = 0" by (simp_all add: mem_I_def)
  show "blobs_ok (mem_C w i)" using inv by (simp add: mem_C_def mem_inv_def)
  show "\<exists>w'. sto_Fetch (mem_at i) br w = Ret (fetch_spec (mem_C w i) br, w') \<and> mem_I w' \<and> mem_C w' = mem_C w"
  proof -
    have "mem_C (w(i := snd (mem_Fetch br (w i)))) = mem_C w"
      by (auto simp: mem_C_def mem_Fetch_spec)
    moreover have "mem_I (w(i := snd (mem_Fetch br (w i))))"
      using inv mem_inv_cong [OF mem_Fetch_spec(2,3), of br "w i"]
      by (intro mem_I_upd [OF w]) (simp_all add: mem_Fetch_spec)
    ultimately show ?thesis
      using mem_Fetch_spec(1) [of br "w i"] by (auto simp: mem_at_def mem_C_def split: prod.splits)
  qed
  show "br = SHA1FromBytes data \<Longrightarrow>
      \<exists>w'. sto_ReceiveBlob (mem_at i) br (bytes_reader data) w = Ret ((sized br data, None, ReadToEnd), w')
        \<and> mem_I w' \<and> mem_C w' = (mem_C w)(i := put (mem_C w i) br data)"
  proof -
    assume br: "br = SHA1FromBytes data"
    obtain s' where s': "mem_ReceiveBlob br (bytes_reader data) (w i) = Ret ((sized br data, None, ReadToEnd), s')"
      "mem_inv s'" "ms_maxSize s' = 0" "map_of (ms_m s') = put (map_of (ms_m (w i))) br data"
      using mem_ReceiveBlob_plain [OF inv br] by blast
    then show ?thesis
      by (intro exI [of _ "w(i := s')"]) (simp add: mem_at_def mem_I_upd [OF w] mem_C_upd mem_C_def)
  qed
  show "ref_Hash br = Ret (Some h) \<Longrightarrow> rd_err src = Some e \<Longrightarrow>
      \<exists>w' sb e'. sto_ReceiveBlob (mem_at i) br src w = Ret ((sb, Some e', ReadToEnd), w') \<and> mem_I w' \<and> mem_C w' = mem_C w"
    using w by (simp add: mem_at_def mem_ReceiveBlob_err)
  show "\<exists>w'. sto_StatBlobs (mem_at i) brs w = Ret ((stat_spec (mem_C w i) brs, None), w') \<and> mem_I w' \<and> mem_C w' = mem_C w"
    using w by (simp add: mem_at_def mem_StatBlobs_spec mem_C_def)
  show "0 < limit \<Longrightarrow> sto_EnumerateBlobs (mem_at i) None after limit w =
      Ret (enum_spec (mem_C w i) after (nat limit), None)"
    using mem_EnumerateBlobs_spec [OF inv(1)] by (simp add: mem_at_def mem_C_def)
  show "\<exists>w'. sto_RemoveBlobs (mem_at i) brs w = Ret (None, w') \<and> mem_I w' \<and>
      mem_C w' = (mem_C w)(i := mem_C w i |` (- set brs))"
    using mem_RemoveBlobs_spec [OF inv(1), of brs] inv(2)
    by (simp add: mem_at_def mem_I_upd [OF w] mem_C_upd) (simp add: mem_C_def)
  show "\<exists>w'. sto_notify (mem_at i) sb w = Ret (None, w') \<and> mem_I w' \<and> mem_C w' = mem_C w"
    using w by (simp add: mem_at_def NotifyBlobReceived_def newHub_def)
qed


section \<open>The cache\<close>

definition lru_keys :: "'v Cache \<Rightarrow> string set" where
  "lru_keys c = fst ` set (lru_abs c)"

definition mem_cache_inv :: "memsto \<Rightarrow> bool" where
  "mem_cache_inv s \<longleftrightarrow>
     mem_inv s \<and> 0 < ms_maxSize s \<and>
     (case ms_lru s of
        None \<Rightarrow> False
      | Some c \<Rightarrow>
          lru_inv c \<and> ref_String ` dom (map_of (ms_m s)) \<subseteq> lru_keys c \<and>
          lru_keys c \<subseteq> ref_String ` {br. ref_wf br})"

lemma lru_keys_Get: "lru_inv c \<Longrightarrow> lru_keys (snd (lru_Get k c)) = lru_keys c"
  by (auto simp: lru_keys_def lru_Get_refines(2) spec_touch_def split: option.splits
      intro: image_eqI [of _ fst "(k, _)"] dest: map_of_SomeD)

lemma lru_keys_Add:
  assumes "lru_inv c" and "lru_Len c < c_maxEntries c"
  shows "lru_keys (lru_Add k v c) = insert k (lru_keys c)" and "lru_Len (lru_Add k v c) \<le> lru_Len c + 1"
proof -
  have len: "lru_Len c = int (length (lru_abs c))" for c :: "'a Cache" by (simp add: lru_Len_def lru_abs_def)
  have abs: "lru_abs (lru_Add k v c) = spec_touch k v (lru_abs c)"
    using lru_Add_refines(2) [OF assms(1), of k v] assms(2) by (simp add: spec_add_def len)
  then show "lru_keys (lru_Add k v c) = insert k (lru_keys c)"
    by (auto simp: lru_keys_def spec_touch_def)
  show "lru_Len (lru_Add k v c) \<le> lru_Len c + 1"
    unfolding len abs by (simp add: spec_touch_def)
qed

lemma lru_oldest:
  assumes "lru_inv c" and "c_ll c \<noteq> []"
  obtains k where "fst (fst (lru_RemoveOldest c)) = k" and "k \<in> lru_keys c"
    and "lru_keys (snd (lru_RemoveOldest c)) = lru_keys c - {k}" and "lru_inv (snd (lru_RemoveOldest c))"
proof -
  obtain p k v where e: "last (c_ll c) = (p, k, v)" by (cases "last (c_ll c)")
  have abs: "lru_abs c = butlast (lru_abs c) @ [(k, v)]"
    using assms(2) e by (simp add: lru_abs_def map_butlast last_map flip: snoc_eq_iff_butlast)
      (metis append_butlast_last_id last_map list.map_disc_iff map_butlast snd_conv)
  have "distinct (map fst (lru_abs c))" using assms(1) by (rule lru_distinct)
  then have "k \<notin> fst ` set (butlast (lru_abs c))" by (subst (asm) abs) auto
  moreover have "lru_keys c = insert k (fst ` set (butlast (lru_abs c)))"
    unfolding lru_keys_def by (subst abs) simp
  moreover have "lru_keys (snd (lru_RemoveOldest c)) = fst ` set (butlast (lru_abs c))"
    using lru_inv_removeOldest(2) [OF assms(1)] by (simp add: lru_keys_def lru_RemoveOldest_def)
  moreover have "fst (fst (lru_RemoveOldest c)) = k"
    using assms(2) e by (simp add: lru_RemoveOldest_def lru_removeOldest_def)
  moreover have "lru_inv (snd (lru_RemoveOldest c))"
    using lru_inv_removeOldest(1) [OF assms(1)] by (simp add: lru_RemoveOldest_def)
  ultimately show thesis using that by auto
qed

lemma ref_wf_String_nonempty: "ref_wf r \<Longrightarrow> ref_String r \<noteq> []"
  by (cases r) (auto simp: ref_wf_def ref_String_wf split: option.splits)

lemma MustParse_String: "ref_wf r \<Longrightarrow> MustParse (ref_String r) = Ret r"
  by (simp add: MustParse_def Parse_String)

text \<open>The eviction loop ends without a panic, within the limit, having only removed blobs.\<close>

lemma mem_evict_spec:
  assumes "mem_cache_inv s"
  shows "\<exists>s'. mem_evict s = Ret s' \<and> mem_cache_inv s' \<and> ms_size s' \<le> ms_maxSize s' \<and>
    ms_maxSize s' = ms_maxSize s \<and> map_of (ms_m s') \<subseteq>\<^sub>m map_of (ms_m s) \<and> lru_count s' \<le> lru_count s"
  using assms
proof (induction s rule: mem_evict.induct)
  case (1 s)
  obtain c where c: "ms_lru s = Some c" "lru_inv c" "ref_String ` dom (map_of (ms_m s)) \<subseteq> lru_keys c"
    "lru_keys c \<subseteq> ref_String ` {br. ref_wf br}" and s: "mem_inv s" "0 < ms_maxSize s"
    using "1.prems" by (auto simp: mem_cache_inv_def split: option.splits)
  show ?case
  proof (cases "ms_size s > ms_maxSize s")
    case False
    then show ?thesis using "1.prems" by (subst mem_evict.simps) (auto simp: mem_cache_inv_def)
  next
    case True
    have "c_ll c \<noteq> []"
    proof
      assume "c_ll c = []"
      then have "dom (map_of (ms_m s)) = {}" using c(3) by (auto simp: lru_keys_def lru_abs_def)
      then have "ms_m s = []" by (metis dom_map_of_conv_image_fst image_is_empty set_empty)
      then show False using True s by (simp add: mem_inv_def)
    qed
    then obtain k where k: "fst (fst (lru_RemoveOldest c)) = k" "k \<in> lru_keys c"
      "lru_keys (snd (lru_RemoveOldest c)) = lru_keys c - {k}" "lru_inv (snd (lru_RemoveOldest c))"
      using lru_oldest [OF c(2)] by blast
    then obtain br where br: "ref_wf br" "k = ref_String br" using c(4) by blast
    let ?s1 = "s\<lparr>ms_lru := Some (snd (lru_RemoveOldest c))\<rparr>"
    let ?s2 = "mem_removeBlobLocked br ?s1"
    have i1: "mem_inv ?s1" using s(1) by (simp add: mem_inv_def)
    note rm = mem_removeBlobLocked_spec [OF i1, of br]
    have wf: "ref_wf r" if "r \<in> dom (map_of (ms_m s))" for r
      using s(1) that blobs_ok_canonical ref_canonical_wf by (auto simp: mem_inv_def)
    have "ref_String ` dom (map_of (ms_m ?s2)) \<subseteq> lru_keys c - {k}"
      using rm(2) c(3) wf br ref_String_inject by (fastforce simp: restrict_map_def split: if_splits)
    then have inv2: "mem_cache_inv ?s2"
      using rm s k c(4) by (auto simp: mem_cache_inv_def)
    have step: "mem_evict s = mem_evict ?s2"
      using True s(2) c(1) k(1) br MustParse_String ref_wf_String_nonempty by (subst mem_evict.simps) simp
    have "lru_count ?s2 \<le> lru_count s"
      using lru_RemoveOldest_shrinks [of c] k(1) br ref_wf_String_nonempty rm(4) c(1) by (simp add: lru_count_def)
    moreover obtain s' where "mem_evict ?s2 = Ret s'" "mem_cache_inv s'" "ms_size s' \<le> ms_maxSize s'"
      "ms_maxSize s' = ms_maxSize ?s2" "map_of (ms_m s') \<subseteq>\<^sub>m map_of (ms_m ?s2)" "lru_count s' \<le> lru_count ?s2"
      using "1.IH" [OF _ c(1) refl refl] True s(2) k(1) br MustParse_String ref_wf_String_nonempty inv2 by auto
    moreover have "map_of (ms_m ?s2) \<subseteq>\<^sub>m map_of (ms_m s)" using rm(2) by (auto simp: map_le_def restrict_map_def)
    ultimately show ?thesis using step rm(3) by (auto intro: map_le_trans)
  qed
qed


definition mem_max_entries :: "memsto \<Rightarrow> bool" where
  "mem_max_entries s \<longleftrightarrow> (\<forall>c. ms_lru s = Some c \<longrightarrow> c_maxEntries c = 2 ^ 31 - 1)"

lemma lru_ops_max:
  "c_maxEntries (snd (lru_Get k c)) = c_maxEntries c" "c_maxEntries (lru_Add k v c) = c_maxEntries c"
  "c_maxEntries (snd (lru_RemoveOldest c)) = c_maxEntries c"
  by (auto simp: lru_Get_def lru_Add_def lru_RemoveOldest_def lru_removeOldest_def Let_def
      split: option.split prod.split)

lemma mem_evict_max: "mem_evict s = Ret s' \<Longrightarrow> mem_max_entries s \<Longrightarrow> mem_max_entries s'"
proof (induction s rule: mem_evict.induct)
  case (1 s)
  show ?case
  proof (cases "ms_maxSize s \<noteq> 0 \<and> ms_size s > ms_maxSize s")
    case False
    then show ?thesis using "1.prems" by (subst (asm) mem_evict.simps) auto
  next
    case True
    obtain c where c: "ms_lru s = Some c"
      using True "1.prems"(1) by (subst (asm) mem_evict.simps) (auto split: option.splits)
    let ?s1 = "s\<lparr>ms_lru := Some (snd (lru_RemoveOldest c))\<rparr>"
    have m: "mem_max_entries ?s1" "\<And>br. mem_max_entries (mem_removeBlobLocked br ?s1)"
      using "1.prems"(2) c
      by (auto simp: mem_max_entries_def lru_ops_max mem_removeBlobLocked_def split: option.split)
    show ?thesis
      using "1.prems"(1) "1.IH" [OF True c refl refl] m c True
      by (subst (asm) mem_evict.simps) (auto simp: Let_def obind_eq_Ret split: if_splits)
  qed
qed

lemma mem_cache_Receive:
  assumes "mem_cache_inv s" and "ms_size s \<le> ms_maxSize s" and "int (lru_count s) < 2 ^ 31 - 1"
    and "mem_max_entries s"
  shows "\<exists>s'. mem_ReceiveBlob (SHA1FromBytes data) (bytes_reader data) s =
      Ret ((sized (SHA1FromBytes data) data, None, ReadToEnd), s') \<and>
    mem_cache_inv s' \<and> ms_size s' \<le> ms_maxSize s' \<and> ms_maxSize s' = ms_maxSize s \<and>
    lru_count s' \<le> lru_count s + 1 \<and> mem_max_entries s' \<and>
    map_of (ms_m s') \<subseteq>\<^sub>m put (map_of (ms_m s)) (SHA1FromBytes data) data"
proof -
  let ?br = "SHA1FromBytes data"
  obtain c where c: "ms_lru s = Some c" "lru_inv c" "ref_String ` dom (map_of (ms_m s)) \<subseteq> lru_keys c"
    "lru_keys c \<subseteq> ref_String ` {br. ref_wf br}" and s: "mem_inv s" "0 < ms_maxSize s"
    using assms(1) by (auto simp: mem_cache_inv_def split: option.splits)
  show ?thesis
  proof (cases "map_of (ms_m s) ?br")
    case (Some b)
    then show ?thesis using assms by (simp add: mem_ReceiveBlob_def sized_def put_def)
  next
    case None
    let ?s = "s\<lparr>ms_m := AList.update ?br data (ms_m s), ms_lru := Some (lru_Add (ref_String ?br) () c),
      ms_size := ms_size s + int (length data)\<rparr>"
    have "lru_Len c < c_maxEntries c" using assms(3,4) c(1) by (simp add: mem_max_entries_def lru_count_def lru_Len_def)
    note add = lru_keys_Add [OF c(2) this, of "ref_String ?br" "()"]
    note ins = mem_insert_inv [OF s(1) None refl, of ?s, simplified]
    have wf: "ref_wf ?br" by (simp add: ref_canonical_wf)
    have "dom (map_of (ms_m ?s)) = insert ?br (dom (map_of (ms_m s)))"
      using ins(2) None by (auto simp: put_def)
    then have "mem_cache_inv ?s"
      using ins(1) s(2) c(3,4) add(1) lru_Add_refines(1) [OF c(2)] wf by (auto simp: mem_cache_inv_def)
    from mem_evict_spec [OF this] obtain s' where s': "mem_evict ?s = Ret s'" "mem_cache_inv s'"
      "ms_size s' \<le> ms_maxSize s'" "ms_maxSize s' = ms_maxSize s"
      "map_of (ms_m s') \<subseteq>\<^sub>m map_of (ms_m ?s)" "lru_count s' \<le> lru_count ?s" by auto
    have "lru_count ?s \<le> lru_count s + 1" using add(2) c(1) by (simp add: lru_count_def lru_Len_def)
    with s'(6) have "lru_count s' \<le> lru_count s + 1" by (rule order_trans)
    moreover have "mem_max_entries s'"
      using mem_evict_max [OF s'(1)] assms(4) c(1) by (simp add: mem_max_entries_def lru_ops_max)
    moreover have "mem_ReceiveBlob ?br (bytes_reader data) s = Ret ((sized ?br data, None, ReadToEnd), s')"
      using None c(1) s'(1) by (simp add: mem_ReceiveBlob_def sized_def)
    ultimately show ?thesis using s' ins(2) by simp
  qed
qed

datatype mem_op = MemReceive bytes | MemFetch Ref | MemRemove "Ref list"

fun mem_step :: "mem_op \<Rightarrow> memsto \<Rightarrow> memsto outcome" where
  "mem_step (MemReceive data) s =
     obind (mem_ReceiveBlob (SHA1FromBytes data) (bytes_reader data) s) (\<lambda>(r, s). Ret s)"
| "mem_step (MemFetch br) s = Ret (snd (mem_Fetch br s))"
| "mem_step (MemRemove brs) s = Ret (mem_RemoveBlobs brs s)"

fun mem_run :: "mem_op list \<Rightarrow> memsto \<Rightarrow> memsto outcome" where
  "mem_run [] s = Ret s"
| "mem_run (op # ops) s = obind (mem_step op s) (mem_run ops)"

definition mem_cache_ok :: "memsto \<Rightarrow> bool" where
  "mem_cache_ok s \<longleftrightarrow> mem_cache_inv s \<and> ms_size s \<le> ms_maxSize s \<and> mem_max_entries s"

lemma mem_RemoveBlobs_cache:
  assumes "mem_cache_ok s"
  shows "mem_cache_ok (mem_RemoveBlobs brs s) \<and> ms_maxSize (mem_RemoveBlobs brs s) = ms_maxSize s \<and>
    lru_count (mem_RemoveBlobs brs s) = lru_count s"
  using assms
proof (induction brs arbitrary: s)
  case (Cons br brs)
  let ?s = "mem_removeBlobLocked br s"
  have i: "mem_inv s" using Cons.prems by (simp add: mem_cache_ok_def mem_cache_inv_def)
  note rm = mem_removeBlobLocked_spec [OF i, of br]
  have "dom (map_of (ms_m ?s)) \<subseteq> dom (map_of (ms_m s))" using rm(2) by (auto simp: restrict_map_def split: if_splits)
  moreover have "ms_size ?s \<le> ms_size s" by (auto simp: mem_removeBlobLocked_def split: option.split)
  ultimately have "mem_cache_ok ?s"
    using Cons.prems rm by (fastforce simp: mem_cache_ok_def mem_cache_inv_def mem_max_entries_def split: option.splits)
  from Cons.IH [OF this] rm show ?case by (simp add: mem_RemoveBlobs_def lru_count_def)
qed (simp add: mem_RemoveBlobs_def)

lemma length_MoveToFront: "length (el_MoveToFront p ll) = length ll"
  using mset_MoveToFront [of p ll] by (metis size_mset)

lemma mem_Fetch_cache:
  assumes "mem_cache_ok s"
  shows "mem_cache_ok (snd (mem_Fetch br s)) \<and> lru_count (snd (mem_Fetch br s)) = lru_count s"
proof -
  obtain c where c: "ms_lru s = Some c" using assms by (auto simp: mem_cache_ok_def mem_cache_inv_def split: option.splits)
  then have l: "ms_lru (snd (mem_Fetch br s)) = Some (snd (lru_Get (ref_String br) c))"
    by (auto simp: mem_Fetch_def Let_def split: option.split)
  have "length (c_ll (snd (lru_Get (ref_String br) c))) = length (c_ll c)"
    by (auto simp: lru_Get_def length_MoveToFront split: option.split)
  moreover have "mem_inv (snd (mem_Fetch br s)) = mem_inv s" by (rule mem_inv_cong) (simp_all add: mem_Fetch_spec)
  ultimately show ?thesis
    using assms c l lru_Get_refines(3) [of c "ref_String br"] lru_keys_Get [of c "ref_String br"]
    by (auto simp: mem_cache_ok_def mem_cache_inv_def mem_max_entries_def lru_count_def lru_ops_max mem_Fetch_spec)
qed

lemma mem_run_cache:
  assumes "mem_cache_ok s" and "int (lru_count s) + int (length ops) < 2 ^ 31"
  shows "\<exists>s'. mem_run ops s = Ret s' \<and> mem_cache_ok s' \<and> ms_maxSize s' = ms_maxSize s"
  using assms
proof (induction ops arbitrary: s)
  case (Cons op ops)
  have "\<exists>s1. mem_step op s = Ret s1 \<and> mem_cache_ok s1 \<and> lru_count s1 \<le> lru_count s + 1 \<and> ms_maxSize s1 = ms_maxSize s"
  proof (cases op)
    case (MemReceive data)
    obtain s1 where s1: "mem_ReceiveBlob (SHA1FromBytes data) (bytes_reader data) s =
        Ret ((sized (SHA1FromBytes data) data, None, ReadToEnd), s1)" "mem_cache_inv s1"
      "ms_size s1 \<le> ms_maxSize s1" "ms_maxSize s1 = ms_maxSize s" "lru_count s1 \<le> lru_count s + 1"
      "mem_max_entries s1"
      using mem_cache_Receive [of s data] Cons.prems by (auto simp: mem_cache_ok_def)
    then show ?thesis using MemReceive by (simp add: mem_cache_ok_def)
  next
    case (MemFetch br)
    then show ?thesis using mem_Fetch_cache [OF Cons.prems(1), of br] by (simp add: mem_Fetch_spec)
  next
    case (MemRemove brs)
    then show ?thesis using mem_RemoveBlobs_cache [OF Cons.prems(1), of brs] by simp
  qed
  then show ?case using Cons.IH Cons.prems(2) by fastforce
qed simp


section \<open>Properties\<close>

text \<open>
  C9 [mem_cache].  A cache with a positive size limit never panics and never holds more than its limit:
  after any sequence of receptions, fetches and removals (fewer than \<open>2^31\<close>, the capacity of
  the LRU list), the recorded size is the sum of the sizes of the stored blobs, it is within the
  limit, and every blob is stored under the digest of its contents.
\<close>

theorem mem_cache_bounded:
  assumes "0 < sz" and "length ops < 2 ^ 31"
  shows "\<exists>s. mem_run ops (mem_NewCache sz) = Ret s \<and> mem_inv s \<and> mem_SumBlobSize s \<le> sz"
proof -
  have "mem_cache_ok (mem_NewCache sz)"
    using assms(1)
    by (simp add: mem_cache_ok_def mem_cache_inv_def mem_NewCache_def mem_New_def mem_inv_def blobs_ok_def
        lru_keys_def mem_max_entries_def)
  moreover have "lru_count (mem_NewCache sz) = 0" "ms_maxSize (mem_NewCache sz) = sz"
    by (simp_all add: lru_count_def mem_NewCache_def lru_New_def)
  ultimately show ?thesis
    using mem_run_cache [of "mem_NewCache sz" ops] assms(2)
    by (auto simp: mem_cache_ok_def mem_cache_inv_def mem_SumBlobSize_def)
qed

theorem mem_cache_bounded_witness:
  "\<exists>s. mem_run [MemReceive [1, 2], MemReceive [3, 4], MemFetch (SHA1FromBytes [1, 2])] (mem_NewCache 3) = Ret s \<and>
    mem_inv s \<and> mem_SumBlobSize s \<le> 3"
  using mem_cache_bounded [of 3 "[MemReceive [1, 2], MemReceive [3, 4], MemFetch (SHA1FromBytes [1, 2])]"] by simp

text \<open>
  C2 [mem_fetch].  A blob given to \<open>Receive\<close> under the digest of its contents is accepted by the
  memory storage, and a following \<open>Fetch\<close> returns contents with that digest, namely the received
  ones if the reference was not there before.
\<close>

theorem mem_Fetch_after_Receive:
  assumes "mem_I w" and "length data \<le> MaxBlobSize"
  shows "\<exists>w1 w2 b. Receive (mem_at i) (SHA1FromBytes data) (bytes_reader data) w =
      Ret ((sized (SHA1FromBytes data) data, None), w1) \<and>
    sto_Fetch (mem_at i) (SHA1FromBytes data) w1 = Ret ((Some (bytes_reader b), of_nat (length b), None), w2) \<and>
    SHA1FromBytes b = SHA1FromBytes data \<and>
    (map_of (ms_m (w i)) (SHA1FromBytes data) = None \<longrightarrow> b = data)"
  using mems.Fetch_after_receive [OF assms(1) lessI refl assms(2), of i True]
  by (simp add: Receive_def mem_C_def)

theorem mem_Fetch_after_Receive_witness:
  "\<exists>w1 w2. Receive (mem_at 0) (SHA1FromBytes [1]) (bytes_reader [1]) (\<lambda>_. mem_New) =
      Ret ((sized (SHA1FromBytes [1]) [1], None), w1) \<and>
    sto_Fetch (mem_at 0) (SHA1FromBytes [1]) w1 = Ret ((Some (bytes_reader [1]), 1, None), w2)"
proof -
  have "mem_I (\<lambda>_. mem_New)" by (simp add: mem_I_def mem_inv_def mem_New_def blobs_ok_def)
  then show ?thesis
    using mem_Fetch_after_Receive [of "\<lambda>_. mem_New" "[1]" 0] by (auto simp: MaxBlobSize_def mem_New_def)
qed


definition other_sum :: "bytes \<Rightarrow> Ref" where
  "other_sum data = Ref (Some (Sha1Digest (map (\<lambda>b. b + 1) (sha1_sum data))))"


text \<open>
  C10 [mem_enum].  The memory storage enumerates, for a positive limit, exactly the first \<open>limit\<close> references
  above \<open>after\<close> in increasing order, with their sizes.
\<close>

theorem mem_Enumerate_sorted:
  assumes "mem_inv s" and "limit > 0"
  shows "\<exists>sbs. mem_EnumerateBlobs None after limit s = (sbs, None) \<and> enumerated sbs \<and>
    int (length sbs) = min limit (int (card (refs_after (map_of (ms_m s)) after))) \<and>
    set sbs \<subseteq> (\<lambda>br. sized br (the (map_of (ms_m s) br))) ` refs_after (map_of (ms_m s)) after \<and>
    (\<forall>r \<in> refs_after (map_of (ms_m s)) after. r \<in> sr_Ref ` set sbs \<or> (\<forall>sb \<in> set sbs. sr_Ref sb < r))"
proof -
  let ?m = "map_of (ms_m s)" and ?L = "sorted_list_of_set (refs_after (map_of (ms_m s)) after)"
  let ?sbs = "enum_spec ?m after (nat limit)"
  have bo: "blobs_ok ?m" using assms(1) by (simp add: mem_inv_def)
  have refs: "map sr_Ref ?sbs = take (nat limit) ?L" by (rule enum_spec_refs)
  have L: "set ?L = refs_after ?m after" "sorted_wrt (<) ?L" using finite_refs_after [OF bo] by simp_all
  have "enumerated ?sbs" using bo by (rule enum_spec_enumerated)
  moreover have "int (length ?sbs) = min limit (int (card (refs_after ?m after)))"
    using assms(2) by (auto simp: enum_spec_def)
  moreover have "set ?sbs \<subseteq> (\<lambda>br. sized br (the (?m br))) ` refs_after ?m after"
    using L(1) by (auto simp: enum_spec_def dest: in_set_takeD)
  moreover have "r \<in> sr_Ref ` set ?sbs \<or> (\<forall>sb \<in> set ?sbs. sr_Ref sb < r)" if "r \<in> refs_after ?m after" for r
  proof -
    have set: "sr_Ref ` set ?sbs = set (take (nat limit) ?L)" using refs by (metis list.set_map)
    have "r \<in> set (take (nat limit) ?L) \<or> r \<in> set (drop (nat limit) ?L)"
      using that L(1) by (metis Un_iff append_take_drop_id set_append)
    moreover have "\<forall>x \<in> set (take (nat limit) ?L). \<forall>y \<in> set (drop (nat limit) ?L). x < y"
      using L(2) by (metis append_take_drop_id sorted_wrt_append)
    ultimately show ?thesis using set by (metis image_eqI)
  qed
  ultimately show ?thesis using mem_EnumerateBlobs_spec [OF assms] by blast
qed

theorem mem_Enumerate_sorted_witness:
  "\<exists>sbs. mem_EnumerateBlobs None [] 1 mem_New = (sbs, None) \<and> enumerated sbs"
  using mem_Enumerate_sorted [of mem_New 1 "[]"] by (auto simp: mem_inv_def mem_New_def blobs_ok_def)

end
