(* ===== verification/BlobStore.thy ===== *)
theory BlobStore
  imports BlobServer
begin

text \<open>
  The contract the composed storages (shards, replicas, caches, namespaces) give to their
  callers: whatever they do with the storages below, they behave as one map from references to
  contents.  \<open>sto_run\<close> runs a sequence of receptions and removals, \<open>sto_abs\<close> is its effect on
  the map.
\<close>

text \<open>
  The constructors of the composed storages look their parts up one by one; the first failure
  is returned.
\<close>

fun get_storages :: "(string \<Rightarrow> goerr + 'a) \<Rightarrow> string list \<Rightarrow> goerr + 'a list" where
  "get_storages ld [] = Inr []"
| "get_storages ld (p # ps) =
     (case ld p of
        Inl e \<Rightarrow> Inl e
      | Inr s \<Rightarrow> (case get_storages ld ps of Inl e \<Rightarrow> Inl e | Inr ss \<Rightarrow> Inr (s # ss)))"

lemma get_storages_length: "get_storages ld ps = Inr ss \<Longrightarrow> length ss = length ps"
  by (induction ps arbitrary: ss) (auto split: sum.splits)

section \<open>Storages as one map\<close>

lemma in_stat_spec: "x \<in> set (stat_spec m bs) \<longleftrightarrow> (\<exists>br \<in> set bs. \<exists>b. m br = Some b \<and> x = sized br b)"
  by (force simp: stat_spec_def split: option.splits)

datatype sto_op = OpReceive bytes | OpRemove "Ref list"

fun sto_run :: "(Ref \<Rightarrow> reader \<Rightarrow> 'w \<Rightarrow> (recv_ret \<times> 'w) outcome) \<Rightarrow> (Ref list \<Rightarrow> 'w \<Rightarrow> (goerr option \<times> 'w) outcome)
    \<Rightarrow> sto_op list \<Rightarrow> 'w \<Rightarrow> (goerr option list \<times> 'w) outcome" where
  "sto_run recv rem [] w = Ret ([], w)"
| "sto_run recv rem (OpReceive data # ops) w =
     obind (recv (SHA1FromBytes data) (bytes_reader data) w) (\<lambda>((_, err, _), w).
     obind (sto_run recv rem ops w) (\<lambda>(errs, w). Ret (err # errs, w)))"
| "sto_run recv rem (OpRemove brs # ops) w =
     obind (rem brs w) (\<lambda>(err, w).
     obind (sto_run recv rem ops w) (\<lambda>(errs, w). Ret (err # errs, w)))"

fun sto_abs :: "sto_op list \<Rightarrow> blobmap \<Rightarrow> blobmap" where
  "sto_abs [] m = m"
| "sto_abs (OpReceive data # ops) m = sto_abs ops (put m (SHA1FromBytes data) data)"
| "sto_abs (OpRemove brs # ops) m = sto_abs ops (m |` (- set brs))"

text \<open>
  The references the callers use satisfy \<open>V\<close>, the contents they store are in \<open>D\<close>, a set in which a
  storage may have to assume that there are no colliding digests.
\<close>

fun op_valid :: "(Ref \<Rightarrow> bool) \<Rightarrow> bytes set \<Rightarrow> sto_op \<Rightarrow> bool" where
  "op_valid V D (OpReceive data) = (length data \<le> MaxBlobSize \<and> data \<in> D)"
| "op_valid V D (OpRemove brs) = list_all V brs"

locale blob_store =
  fixes fetch :: "'w fetcher"
    and recv :: "Ref \<Rightarrow> reader \<Rightarrow> 'w \<Rightarrow> (recv_ret \<times> 'w) outcome"
    and stat :: "Ref list \<Rightarrow> 'w \<Rightarrow> ((SizedRef list \<times> goerr option) \<times> 'w) outcome"
    and rem :: "Ref list \<Rightarrow> 'w \<Rightarrow> (goerr option \<times> 'w) outcome"
    and A :: "'w \<Rightarrow> blobmap"
    and J :: "'w \<Rightarrow> bool"
    and V :: "Ref \<Rightarrow> bool"
    and D :: "bytes set"
  assumes fetch: "J w \<Longrightarrow> V br \<Longrightarrow>
      \<exists>w'. fetch br w = Ret (fetch_spec (A w) br, w') \<and> J w' \<and> A w' = A w"
    and recv: "J w \<Longrightarrow> br = SHA1FromBytes data \<Longrightarrow> length data \<le> MaxBlobSize \<Longrightarrow> data \<in> D \<Longrightarrow>
      \<exists>w' p. recv br (bytes_reader data) w = Ret ((sized br data, None, p), w') \<and> J w' \<and> A w' = put (A w) br data"
    and stat: "J w \<Longrightarrow> list_all V brs \<Longrightarrow>
      \<exists>w' out. stat brs w = Ret ((out, None), w') \<and> set out = set (stat_spec (A w) brs) \<and> J w' \<and> A w' = A w"
    and rem: "J w \<Longrightarrow> list_all V brs \<Longrightarrow>
      \<exists>w'. rem brs w = Ret (None, w') \<and> J w' \<and> A w' = A w |` (- set brs)"
begin

lemma run_refines:
  assumes "J w" and "list_all (op_valid V D) ops"
  shows "\<exists>w'. sto_run recv rem ops w = Ret (replicate (length ops) None, w') \<and> J w' \<and> A w' = sto_abs ops (A w)"
  using assms
proof (induction ops arbitrary: w)
  case (Cons op ops)
  show ?case
  proof (cases op)
    case (OpReceive data)
    obtain w1 p where w1: "recv (SHA1FromBytes data) (bytes_reader data) w = Ret ((sized (SHA1FromBytes data) data, None, p), w1)"
      "J w1" "A w1 = put (A w) (SHA1FromBytes data) data" using recv [OF Cons.prems(1) refl, of data] Cons.prems(2) OpReceive by auto
    then show ?thesis using Cons.IH [OF w1(2)] Cons.prems(2) OpReceive by auto
  next
    case (OpRemove brs)
    obtain w1 where w1: "rem brs w = Ret (None, w1)" "J w1" "A w1 = A w |` (- set brs)"
      using rem [OF Cons.prems(1)] Cons.prems(2) OpRemove by auto
    then show ?thesis using Cons.IH [OF w1(2)] Cons.prems(2) OpRemove by auto
  qed
qed simp

text \<open>After any run, the reading operations answer as the map does.\<close>

lemma run_then_read:
  assumes "J w" and "list_all (op_valid V D) ops" and "V br" and "list_all V brs"
  shows "\<exists>w1 w2 w3 out. sto_run recv rem ops w = Ret (replicate (length ops) None, w1) \<and>
    fetch br w1 = Ret (fetch_spec (sto_abs ops (A w)) br, w2) \<and>
    stat brs w2 = Ret ((out, None), w3) \<and> set out = set (stat_spec (sto_abs ops (A w)) brs) \<and>
    J w3 \<and> A w3 = sto_abs ops (A w)"
proof -
  obtain w1 where w1: "sto_run recv rem ops w = Ret (replicate (length ops) None, w1)" "J w1"
    "A w1 = sto_abs ops (A w)" using run_refines [OF assms(1,2)] by blast
  obtain w2 where w2: "fetch br w1 = Ret (fetch_spec (A w1) br, w2)" "J w2" "A w2 = A w1"
    using fetch [OF w1(2) assms(3)] by blast
  obtain w3 out where "stat brs w2 = Ret ((out, None), w3)" "set out = set (stat_spec (A w2) brs)" "J w3" "A w3 = A w2"
    using stat [OF w2(2) assms(4)] by blast
  then show ?thesis using w1 w2 by auto
qed

end

end
