(* ===== verification/JsonConfig.thy ===== *)
theory JsonConfig
  imports Complex_Main Prelude
begin

text \<open>
  Package \<open>pkg/jsonconfig\<close>: typed access to configuration objects with accumulation of errors
  (\<open>jsonconfig.go\<close>).
\<close>

section \<open>Configuration objects\<close>

text \<open>
  An \<open>Obj\<close> is a Go map with dynamically typed values: what \<open>encoding/json\<close> decodes to
  (\<open>nil\<close>, \<open>bool\<close>, \<open>float64\<close>, \<open>string\<close>, \<open>[]interface{}\<close>, \<open>map[string]interface{}\<close>), and the two types the
  package itself keeps under the keys \<open>_knownkeys\<close> and \<open>_errors\<close> of the same map.  A
  \<open>float64\<close> decoded from JSON is finite, hence a rational number.
\<close>

datatype jval =
    JNil
  | JBool bool
  | JNum rat
  | JStr string
  | JList "jval list"
  | JObj "(string \<times> jval) list"
  | JKnown "string list"
  | JErrs "goerr list"

type_synonym Obj = "(string \<times> jval) list"

text \<open>\<open>int(b)\<close> of a \<open>float64\<close> in the range of \<open>int\<close>: truncation towards zero.\<close>

definition trunc :: "rat \<Rightarrow> int" where
  "trunc x = (if x < 0 then - \<lfloor>- x\<rfloor> else \<lfloor>x\<rfloor>)"

text \<open>\<open>strconv.ParseBool\<close>.\<close>

definition ParseBool :: "string \<Rightarrow> bool \<times> goerr option" where
  "ParseBool s =
     (if s \<in> {''1'', ''t'', ''T'', ''true'', ''TRUE'', ''True''} then (True, None)
      else if s \<in> {''0'', ''f'', ''F'', ''false'', ''FALSE'', ''False''} then (False, None)
      else (False, Some ErrSyntax))"

text \<open>The type assertions on the package's own entries panic when the configuration has such an entry itself.\<close>

definition noteKnownKey :: "string \<Rightarrow> Obj \<Rightarrow> Obj outcome" where
  "noteKnownKey key jc =
     (case map_of jc ''_knownkeys'' of
        None \<Rightarrow> Ret (AList.update ''_knownkeys'' (JKnown [key]) jc)
      | Some (JKnown ks) \<Rightarrow> Ret (AList.update ''_knownkeys'' (JKnown (List.insert key ks)) jc)
      | Some _ \<Rightarrow> Panic ''interface conversion'')"

definition appendError :: "goerr \<Rightarrow> Obj \<Rightarrow> Obj outcome" where
  "appendError err jc =
     (case map_of jc ''_errors'' of
        None \<Rightarrow> Ret (AList.update ''_errors'' (JErrs [err]) jc)
      | Some (JErrs es) \<Rightarrow> Ret (AList.update ''_errors'' (JErrs (es @ [err])) jc)
      | Some _ \<Rightarrow> Panic ''interface conversion'')"

text \<open>\<open>fail_with\<close> is the common tail of the accessors: note the error and return the zero value.\<close>

definition fail_with :: "string \<Rightarrow> 'a \<Rightarrow> Obj \<Rightarrow> ('a \<times> Obj) outcome" where
  "fail_with msg zero jc = obind (appendError (ErrText msg) jc) (\<lambda>jc. Ret (zero, jc))"

definition jc_obj :: "string \<Rightarrow> bool \<Rightarrow> Obj \<Rightarrow> (Obj \<times> Obj) outcome" where
  "jc_obj key optional jc =
     obind (noteKnownKey key jc) (\<lambda>jc.
       case map_of jc key of
         None \<Rightarrow> if optional then Ret ([], jc) else fail_with ''Missing required config key (object)'' [] jc
       | Some (JObj m) \<Rightarrow> Ret (m, jc)
       | Some _ \<Rightarrow> fail_with ''Expected config key to be an object'' [] jc)"

definition RequiredObject :: "string \<Rightarrow> Obj \<Rightarrow> (Obj \<times> Obj) outcome" where
  "RequiredObject key jc = jc_obj key False jc"

definition OptionalObject :: "string \<Rightarrow> Obj \<Rightarrow> (Obj \<times> Obj) outcome" where
  "OptionalObject key jc = jc_obj key True jc"

definition jc_string :: "string \<Rightarrow> string option \<Rightarrow> Obj \<Rightarrow> (string \<times> Obj) outcome" where
  "jc_string key dflt jc =
     obind (noteKnownKey key jc) (\<lambda>jc.
       case map_of jc key of
         None \<Rightarrow> (case dflt of
                    Some d \<Rightarrow> Ret (d, jc)
                  | None \<Rightarrow> fail_with ''Missing required config key (string)'' [] jc)
       | Some (JStr s) \<Rightarrow> Ret (s, jc)
       | Some _ \<Rightarrow> fail_with ''Expected config key to be a string'' [] jc)"

definition RequiredString :: "string \<Rightarrow> Obj \<Rightarrow> (string \<times> Obj) outcome" where
  "RequiredString key jc = jc_string key None jc"

definition OptionalString :: "string \<Rightarrow> string \<Rightarrow> Obj \<Rightarrow> (string \<times> Obj) outcome" where
  "OptionalString key dflt jc = jc_string key (Some dflt) jc"

text \<open>The results of \<open>stringOrObject\<close> are \<open>interface{}\<close> values: nil, a string or an object.\<close>

definition stringOrObject :: "string \<Rightarrow> bool \<Rightarrow> Obj \<Rightarrow> (jval \<times> Obj) outcome" where
  "stringOrObject key required jc =
     obind (noteKnownKey key jc) (\<lambda>jc.
       case map_of jc key of
         None \<Rightarrow> if \<not> required then Ret (JNil, jc)
                 else fail_with ''Missing required config key (string or object)'' (JStr []) jc
       | Some (JObj m) \<Rightarrow> Ret (JObj m, jc)
       | Some (JStr s) \<Rightarrow> Ret (JStr s, jc)
       | Some _ \<Rightarrow> fail_with ''Expected config key to be a string or object'' (JStr []) jc)"

definition RequiredStringOrObject :: "string \<Rightarrow> Obj \<Rightarrow> (jval \<times> Obj) outcome" where
  "RequiredStringOrObject key jc = stringOrObject key True jc"

definition OptionalStringOrObject :: "string \<Rightarrow> Obj \<Rightarrow> (jval \<times> Obj) outcome" where
  "OptionalStringOrObject key jc = stringOrObject key False jc"

definition jc_bool :: "string \<Rightarrow> bool option \<Rightarrow> Obj \<Rightarrow> (bool \<times> Obj) outcome" where
  "jc_bool key dflt jc =
     obind (noteKnownKey key jc) (\<lambda>jc.
       case map_of jc key of
         None \<Rightarrow> (case dflt of
                    Some d \<Rightarrow> Ret (d, jc)
                  | None \<Rightarrow> fail_with ''Missing required config key (boolean)'' False jc)
       | Some (JBool v) \<Rightarrow> Ret (v, jc)
       | Some (JStr v) \<Rightarrow>
           (let (b, err) = ParseBool v
            in if err \<noteq> None then fail_with ''Config key has bad boolean format'' b jc else Ret (b, jc))
       | Some _ \<Rightarrow> fail_with ''Expected config key to be a boolean'' False jc)"

definition RequiredBool :: "string \<Rightarrow> Obj \<Rightarrow> (bool \<times> Obj) outcome" where
  "RequiredBool key jc = jc_bool key None jc"

definition OptionalBool :: "string \<Rightarrow> bool \<Rightarrow> Obj \<Rightarrow> (bool \<times> Obj) outcome" where
  "OptionalBool key dflt jc = jc_bool key (Some dflt) jc"

definition jc_int :: "string \<Rightarrow> int option \<Rightarrow> Obj \<Rightarrow> (int \<times> Obj) outcome" where
  "jc_int key dflt jc =
     obind (noteKnownKey key jc) (\<lambda>jc.
       case map_of jc key of
         None \<Rightarrow> (case dflt of
                    Some d \<Rightarrow> Ret (d, jc)
                  | None \<Rightarrow> fail_with ''Missing required config key (integer)'' 0 jc)
       | Some (JNum b) \<Rightarrow> Ret (trunc b, jc)
       | Some _ \<Rightarrow> fail_with ''Expected config key to be a number'' 0 jc)"

definition RequiredInt :: "string \<Rightarrow> Obj \<Rightarrow> (int \<times> Obj) outcome" where
  "RequiredInt key jc = jc_int key None jc"

definition OptionalInt :: "string \<Rightarrow> int \<Rightarrow> Obj \<Rightarrow> (int \<times> Obj) outcome" where
  "OptionalInt key dflt jc = jc_int key (Some dflt) jc"

text \<open>\<open>int64\<close> is the same code as \<open>int\<close>, which has 64 bits on the platforms modelled.\<close>

definition jc_int64 :: "string \<Rightarrow> int option \<Rightarrow> Obj \<Rightarrow> (int \<times> Obj) outcome" where
  "jc_int64 key dflt jc =
     obind (noteKnownKey key jc) (\<lambda>jc.
       case map_of jc key of
         None \<Rightarrow> (case dflt of
                    Some d \<Rightarrow> Ret (d, jc)
                  | None \<Rightarrow> fail_with ''Missing required config key (integer)'' 0 jc)
       | Some (JNum b) \<Rightarrow> Ret (trunc b, jc)
       | Some _ \<Rightarrow> fail_with ''Expected config key to be a number'' 0 jc)"

definition RequiredInt64 :: "string \<Rightarrow> Obj \<Rightarrow> (int \<times> Obj) outcome" where
  "RequiredInt64 key jc = jc_int64 key None jc"

definition OptionalInt64 :: "string \<Rightarrow> int \<Rightarrow> Obj \<Rightarrow> (int \<times> Obj) outcome" where
  "OptionalInt64 key dflt jc = jc_int64 key (Some dflt) jc"

text \<open>The loop over the elements; \<open>None\<close> if one of them is not a string.\<close>

fun list_strings :: "jval list \<Rightarrow> string list option" where
  "list_strings [] = Some []"
| "list_strings (JStr s # es) = map_option (Cons s) (list_strings es)"
| "list_strings (_ # es) = None"

definition requiredList :: "string \<Rightarrow> bool \<Rightarrow> Obj \<Rightarrow> (string list \<times> Obj) outcome" where
  "requiredList key required jc =
     obind (noteKnownKey key jc) (\<lambda>jc.
       case map_of jc key of
         None \<Rightarrow> if required then fail_with ''Missing required config key (list of strings)'' [] jc else Ret ([], jc)
       | Some (JList eil) \<Rightarrow>
           (case list_strings eil of
              Some sl \<Rightarrow> Ret (sl, jc)
            | None \<Rightarrow> fail_with ''Expected config key index to be a string'' [] jc)
       | Some _ \<Rightarrow> fail_with ''Expected config key to be a list'' [] jc)"

definition RequiredList :: "string \<Rightarrow> Obj \<Rightarrow> (string list \<times> Obj) outcome" where
  "RequiredList key jc = requiredList key True jc"

definition OptionalList :: "string \<Rightarrow> Obj \<Rightarrow> (string list \<times> Obj) outcome" where
  "OptionalList key jc = requiredList key False jc"

definition has_prefix :: "string \<Rightarrow> string \<Rightarrow> bool" where
  "has_prefix s pre \<longleftrightarrow> take (length pre) s = pre"

definition UnknownKeys :: "Obj \<Rightarrow> string list outcome" where
  "UnknownKeys jc =
     obind (case map_of jc ''_knownkeys'' of
              None \<Rightarrow> Ret []
            | Some (JKnown ks) \<Rightarrow> Ret ks
            | Some _ \<Rightarrow> Panic ''interface conversion'')
       (\<lambda>known. Ret (sort (filter (\<lambda>k. k \<notin> set known \<and> \<not> has_prefix k ''_'') (remdups (map fst jc)))))"

fun append_unknown :: "string list \<Rightarrow> Obj \<Rightarrow> Obj outcome" where
  "append_unknown [] jc = Ret jc"
| "append_unknown (k # ks) jc = obind (appendError (ErrText ''Unknown key'') jc) (append_unknown ks)"

definition Validate :: "Obj \<Rightarrow> (goerr option \<times> Obj) outcome" where
  "Validate jc =
     obind (UnknownKeys jc) (\<lambda>unknown.
     obind (append_unknown unknown jc) (\<lambda>jc.
       case map_of jc ''_errors'' of
         None \<Rightarrow> Ret (None, jc)
       | Some (JErrs [e]) \<Rightarrow> Ret (Some e, jc)
       | Some (JErrs es) \<Rightarrow> Ret (Some (ErrText ''Multiple errors: ''), jc)
       | Some _ \<Rightarrow> Panic ''interface conversion''))"

section \<open>What validation accepts\<close>

text \<open>One access to a configuration, with the default value or the flag of the call.\<close>

datatype jreq =
    ReqObj string bool
  | ReqStr string "string option"
  | ReqStrOrObj string bool
  | ReqBool string "bool option"
  | ReqInt string "int option"
  | ReqInt64 string "int option"
  | ReqList string bool

fun req_key :: "jreq \<Rightarrow> string" where
  "req_key (ReqObj k _) = k"
| "req_key (ReqStr k _) = k"
| "req_key (ReqStrOrObj k _) = k"
| "req_key (ReqBool k _) = k"
| "req_key (ReqInt k _) = k"
| "req_key (ReqInt64 k _) = k"
| "req_key (ReqList k _) = k"

definition drop_val :: "('a \<times> Obj) outcome \<Rightarrow> Obj outcome" where
  "drop_val x = obind x (\<lambda>(_, jc). Ret jc)"

fun req_run :: "jreq \<Rightarrow> Obj \<Rightarrow> Obj outcome" where
  "req_run (ReqObj k opt) jc = drop_val (jc_obj k opt jc)"
| "req_run (ReqStr k d) jc = drop_val (jc_string k d jc)"
| "req_run (ReqStrOrObj k r) jc = drop_val (stringOrObject k r jc)"
| "req_run (ReqBool k d) jc = drop_val (jc_bool k d jc)"
| "req_run (ReqInt k d) jc = drop_val (jc_int k d jc)"
| "req_run (ReqInt64 k d) jc = drop_val (jc_int64 k d jc)"
| "req_run (ReqList k r) jc = drop_val (requiredList k r jc)"

fun reqs_run :: "jreq list \<Rightarrow> Obj \<Rightarrow> Obj outcome" where
  "reqs_run [] jc = Ret jc"
| "reqs_run (r # rs) jc = obind (req_run r jc) (reqs_run rs)"

text \<open>What each access asks of the value under its key.\<close>

fun is_str :: "jval \<Rightarrow> bool" where
  "is_str (JStr s) = True"
| "is_str _ = False"

fun val_ok :: "jreq \<Rightarrow> jval \<Rightarrow> bool" where
  "val_ok (ReqObj _ _) (JObj _) = True"
| "val_ok (ReqStr _ _) (JStr _) = True"
| "val_ok (ReqStrOrObj _ _) (JObj _) = True"
| "val_ok (ReqStrOrObj _ _) (JStr _) = True"
| "val_ok (ReqBool _ _) (JBool _) = True"
| "val_ok (ReqBool _ _) (JStr s) = (snd (ParseBool s) = None)"
| "val_ok (ReqInt _ _) (JNum _) = True"
| "val_ok (ReqInt64 _ _) (JNum _) = True"
| "val_ok (ReqList _ _) (JList es) = list_all is_str es"
| "val_ok _ _ = False"

fun may_miss :: "jreq \<Rightarrow> bool" where
  "may_miss (ReqObj _ opt) = opt"
| "may_miss (ReqStr _ d) = (d \<noteq> None)"
| "may_miss (ReqStrOrObj _ r) = (\<not> r)"
| "may_miss (ReqBool _ d) = (d \<noteq> None)"
| "may_miss (ReqInt _ d) = (d \<noteq> None)"
| "may_miss (ReqInt64 _ d) = (d \<noteq> None)"
| "may_miss (ReqList _ r) = (\<not> r)"

definition req_ok :: "jreq \<Rightarrow> Obj \<Rightarrow> bool" where
  "req_ok r jc = (case map_of jc (req_key r) of None \<Rightarrow> may_miss r | Some v \<Rightarrow> val_ok r v)"

definition own_keys :: "string set" where
  "own_keys = {''_knownkeys'', ''_errors''}"

text \<open>The object while it is being read: the configuration, the keys asked for, whether all went well.\<close>

definition cfg_st :: "Obj \<Rightarrow> string set \<Rightarrow> bool \<Rightarrow> Obj \<Rightarrow> bool" where
  "cfg_st jc K ok j \<longleftrightarrow>
     (\<forall>k. k \<notin> own_keys \<longrightarrow> map_of j k = map_of jc k) \<and>
     (map_of j ''_knownkeys'' = None \<and> K = {} \<or> (\<exists>ks. map_of j ''_knownkeys'' = Some (JKnown ks) \<and> set ks = K)) \<and>
     (map_of j ''_errors'' = None \<and> ok \<or> (\<exists>es. map_of j ''_errors'' = Some (JErrs es) \<and> es \<noteq> [] \<and> \<not> ok))"

lemma own_neq: "''_knownkeys'' \<noteq> ''_errors''" "''_knownkeys'' \<in> own_keys" "''_errors'' \<in> own_keys"
  by (simp_all add: own_keys_def)

lemma cfg_noteKnownKey:
  assumes "cfg_st jc K ok j"
  shows "\<exists>j'. noteKnownKey key j = Ret j' \<and> cfg_st jc (insert key K) ok j'"
proof -
  from assms consider "map_of j ''_knownkeys'' = None" "K = {}" | ks where "map_of j ''_knownkeys'' = Some (JKnown ks)" "set ks = K"
    unfolding cfg_st_def by metis
  then obtain ks' where n: "noteKnownKey key j = Ret (AList.update ''_knownkeys'' (JKnown ks') j)" and ks': "set ks' = insert key K"
    by cases (auto simp: noteKnownKey_def)
  have "cfg_st jc (insert key K) ok (AList.update ''_knownkeys'' (JKnown ks') j)"
    using assms ks' own_neq unfolding cfg_st_def update_conv' by auto
  with n show ?thesis by blast
qed

lemma cfg_appendError:
  assumes "cfg_st jc K ok j"
  shows "\<exists>j'. appendError e j = Ret j' \<and> cfg_st jc K False j'"
proof -
  from assms consider "map_of j ''_errors'' = None" | es where "map_of j ''_errors'' = Some (JErrs es)"
    unfolding cfg_st_def by metis
  then obtain es' where n: "appendError e j = Ret (AList.update ''_errors'' (JErrs es') j)" and "es' \<noteq> []"
    by cases (auto simp: appendError_def)
  moreover have "cfg_st jc K False (AList.update ''_errors'' (JErrs es') j)"
    using assms \<open>es' \<noteq> []\<close> own_neq unfolding cfg_st_def update_conv' by auto
  ultimately show ?thesis by blast
qed

lemma list_strings_None: "list_strings es = None \<longleftrightarrow> \<not> list_all is_str es"
  by (induction es rule: list_strings.induct) auto

lemma list_strings_Some: "list_strings es = Some sl \<Longrightarrow> list_all is_str es"
  using list_strings_None [of es] by simp

lemma drop_val_simps:
  "drop_val (Ret (v, j)) = Ret j"
  "drop_val (obind x f) = obind x (\<lambda>a. drop_val (f a))"
  "drop_val (fail_with msg z j) = appendError (ErrText msg) j"
  by (simp add: drop_val_def, cases x, simp_all add: drop_val_def fail_with_def, cases "appendError (ErrText msg) j", simp_all)

lemma cfg_req_run:
  assumes "cfg_st jc K ok j" and "req_key r \<notin> own_keys"
  shows "\<exists>j'. req_run r j = Ret j' \<and> cfg_st jc (insert (req_key r) K) (ok \<and> req_ok r jc) j'"
proof -
  obtain j1 where j1: "noteKnownKey (req_key r) j = Ret j1" "cfg_st jc (insert (req_key r) K) ok j1"
    using cfg_noteKnownKey [OF assms(1)] by blast
  have v: "map_of j1 (req_key r) = map_of jc (req_key r)" using j1(2) assms(2) by (simp add: cfg_st_def)
  note fail = cfg_appendError [OF j1(2)]
  show ?thesis
  proof (cases "map_of jc (req_key r)")
    case None
    then show ?thesis using j1 v fail
      by (cases r) (auto simp: req_ok_def jc_obj_def jc_string_def stringOrObject_def jc_bool_def jc_int_def
          jc_int64_def requiredList_def drop_val_simps split: option.split)
  next
    case (Some w)
    then show ?thesis using j1 v fail
      by (cases r; cases w) (auto simp: req_ok_def jc_obj_def jc_string_def stringOrObject_def jc_bool_def jc_int_def
          jc_int64_def requiredList_def drop_val_simps list_strings_None dest: list_strings_Some split: option.split prod.split)
  qed
qed

lemma cfg_reqs_run:
  assumes "cfg_st jc K ok j" and "\<forall>r \<in> set rs. req_key r \<notin> own_keys"
  shows "\<exists>j'. reqs_run rs j = Ret j' \<and> cfg_st jc (K \<union> req_key ` set rs) (ok \<and> list_all (\<lambda>r. req_ok r jc) rs) j'"
  using assms
proof (induction rs arbitrary: K ok j)
  case (Cons r rs)
  obtain j1 where "req_run r j = Ret j1" "cfg_st jc (insert (req_key r) K) (ok \<and> req_ok r jc) j1"
    using cfg_req_run [OF Cons.prems(1)] Cons.prems(2) by auto
  then show ?case using Cons.IH [of "insert (req_key r) K" "ok \<and> req_ok r jc" j1] Cons.prems(2) by (simp add: conj_assoc)
qed auto

lemma cfg_append_unknown:
  assumes "cfg_st jc K ok j"
  shows "\<exists>j'. append_unknown ks j = Ret j' \<and> cfg_st jc K (ok \<and> ks = []) j'"
  using assms
proof (induction ks arbitrary: ok j)
  case (Cons k ks)
  obtain j1 where "appendError (ErrText ''Unknown key'') j = Ret j1" "cfg_st jc K False j1"
    using cfg_appendError [OF Cons.prems] by blast
  then show ?case using Cons.IH [of False j1] by simp
qed simp

lemma own_has_prefix: "k \<in> own_keys \<Longrightarrow> has_prefix k ''_''"
  by (auto simp: own_keys_def has_prefix_def)

lemma sort_empty: "sort xs = [] \<longleftrightarrow> xs = []"
  by (metis length_0_conv length_sort)

lemma cfg_UnknownKeys:
  assumes "cfg_st jc K ok j"
  shows "\<exists>ks. UnknownKeys j = Ret ks \<and>
    (ks = [] \<longleftrightarrow> (\<forall>k \<in> dom (map_of jc). k \<in> K \<or> has_prefix k ''_''))"
proof -
  have k: "UnknownKeys j = Ret (sort (filter (\<lambda>k. k \<notin> K \<and> \<not> has_prefix k ''_'') (remdups (map fst j))))"
  proof -
    from assms consider "map_of j ''_knownkeys'' = None" "K = {}" | ks where "map_of j ''_knownkeys'' = Some (JKnown ks)" "set ks = K"
      unfolding cfg_st_def by metis
    then show ?thesis by cases (simp_all add: UnknownKeys_def)
  qed
  have d: "k \<in> dom (map_of j) \<longleftrightarrow> k \<in> dom (map_of jc)" if "k \<notin> own_keys" for k
    using assms that by (simp add: cfg_st_def dom_def)
  have "sort (filter (\<lambda>k. k \<notin> K \<and> \<not> has_prefix k ''_'') (remdups (map fst j))) = [] \<longleftrightarrow>
      (\<forall>k \<in> dom (map_of j). k \<in> K \<or> has_prefix k ''_'')"
    by (simp add: filter_empty_conv dom_map_of_conv_image_fst sort_empty)
  also have "\<dots> \<longleftrightarrow> (\<forall>k \<in> dom (map_of jc). k \<in> K \<or> has_prefix k ''_'')"
    using d own_has_prefix by blast
  finally show ?thesis using k by blast
qed

lemma cfg_Validate:
  assumes "cfg_st jc K ok j"
  shows "\<exists>err j'. Validate j = Ret (err, j') \<and>
    (err = None \<longleftrightarrow> ok \<and> (\<forall>k \<in> dom (map_of jc). k \<in> K \<or> has_prefix k ''_''))"
proof -
  obtain ks where ks: "UnknownKeys j = Ret ks"
    "ks = [] \<longleftrightarrow> (\<forall>k \<in> dom (map_of jc). k \<in> K \<or> has_prefix k ''_'')" using cfg_UnknownKeys [OF assms] by blast
  obtain j1 where j1: "append_unknown ks j = Ret j1" "cfg_st jc K (ok \<and> ks = []) j1"
    using cfg_append_unknown [OF assms] by blast
  from j1(2) consider "map_of j1 ''_errors'' = None" "ok" "ks = []"
    | es where "map_of j1 ''_errors'' = Some (JErrs es)" "es \<noteq> []" "\<not> (ok \<and> ks = [])"
    unfolding cfg_st_def by metis
  then show ?thesis using ks j1(1) by cases (auto simp: Validate_def neq_Nil_conv split: list.split)
qed

text \<open>
  C28 [config].  For a configuration without the keys the package reserves for itself, \<open>Validate\<close> after any
  sequence of \<open>Required\<close> and \<open>Optional\<close> accesses reports no error exactly if every access found a
  value of its type or a permitted absence, and every key that is not a comment (a leading
  underscore) was asked for.
\<close>

theorem Validate_complete:
  assumes "own_keys \<inter> dom (map_of jc) = {}" and "\<forall>r \<in> set rs. req_key r \<notin> own_keys"
  shows "\<exists>j err j'. reqs_run rs jc = Ret j \<and> Validate j = Ret (err, j') \<and>
    (err = None \<longleftrightarrow> list_all (\<lambda>r. req_ok r jc) rs \<and>
       (\<forall>k \<in> dom (map_of jc). k \<in> req_key ` set rs \<or> has_prefix k ''_''))"
proof -
  have "''_knownkeys'' \<notin> dom (map_of jc)" "''_errors'' \<notin> dom (map_of jc)" using assms(1) by (auto simp: own_keys_def)
  then have "cfg_st jc {} True jc" by (simp add: cfg_st_def domIff)
  from cfg_reqs_run [OF this assms(2)] show ?thesis using cfg_Validate by fastforce
qed

theorem Validate_complete_witness:
  "\<exists>j err j'. reqs_run [ReqList ''backends'' True, ReqInt ''min'' (Some 2)] [(''backends'', JList [JStr ''/a/'']), (''_note'', JNil)] = Ret j \<and>
    Validate j = Ret (err, j') \<and> err = None"
proof -
  let ?jc = "[(''backends'', JList [JStr ''/a/'']), (''_note'', JNil)]"
  let ?rs = "[ReqList ''backends'' True, ReqInt ''min'' (Some 2)]"
  have "own_keys \<inter> dom (map_of ?jc) = {}" "\<forall>r \<in> set ?rs. req_key r \<notin> own_keys"
    by (simp_all add: own_keys_def)
  then have "\<exists>j err j'. reqs_run ?rs ?jc = Ret j \<and> Validate j = Ret (err, j') \<and>
    (err = None \<longleftrightarrow> list_all (\<lambda>r. req_ok r ?jc) ?rs \<and> (\<forall>k \<in> dom (map_of ?jc). k \<in> req_key ` set ?rs \<or> has_prefix k ''_''))"
    by (rule Validate_complete)
  moreover have "list_all (\<lambda>r. req_ok r ?jc) ?rs \<and> (\<forall>k \<in> dom (map_of ?jc). k \<in> req_key ` set ?rs \<or> has_prefix k ''_'')"
    by (simp add: req_ok_def has_prefix_def)
  ultimately show ?thesis by blast
qed

text \<open>
  A comment under one of the reserved names, which the rule for leading underscores
  permits, makes the first access panic.
\<close>

theorem comment_key_panics:
  "RequiredString ''path'' [(''path'', JStr ''/a/''), (''_knownkeys'', JStr ''a comment'')] = Panic ''interface conversion'' \<and>
   obind (RequiredString ''path'' [(''_errors'', JStr ''a comment'')]) (\<lambda>(_, jc). Validate jc) = Panic ''interface conversion''"
  by code_simp

end
