(* ===== verification/Shard.thy ===== *)
theory Shard
  imports MemStorage BlobStore JsonConfig
begin

text \<open>
  Package \<open>pkg/blobserver/shard\<close>: a storage that sends each blob to one of several storages, chosen by
  the first four bytes of its digest.  Over storages that keep their contract it is one storage
  whose contents are the union of theirs.
\<close>

section \<open>Operations\<close>

definition shardNum :: "'w Storage list \<Rightarrow> Ref \<Rightarrow> u32 outcome" where
  "shardNum shards b =
     obind (Sum32 b) (\<lambda>s.
       if (of_nat (length shards) :: u32) = 0 then Panic ''integer divide by zero''
       else Ret (s mod of_nat (length shards)))"

definition shard :: "'w Storage list \<Rightarrow> Ref \<Rightarrow> 'w Storage outcome" where
  "shard shards b =
     obind (shardNum shards b) (\<lambda>sn.
       if unat sn < length shards then Ret (shards ! unat sn) else Panic ''index out of range'')"

definition shard_Fetch :: "'w Storage list \<Rightarrow> 'w fetcher" where
  "shard_Fetch shards b w = obind (shard shards b) (\<lambda>s. sto_Fetch s b w)"

definition shard_ReceiveBlob :: "'w Storage list \<Rightarrow> Ref \<Rightarrow> reader \<Rightarrow> 'w \<Rightarrow> (recv_ret \<times> 'w) outcome" where
  "shard_ReceiveBlob shards b source w = obind (shard shards b) (\<lambda>s. sto_ReceiveBlob s b source w)"

text \<open>The map \<open>m\<close> of \<open>batchedShards\<close>.\<close>

type_synonym shard_groups = "(u32 \<times> Ref list) list"

fun group_shards :: "'w Storage list \<Rightarrow> Ref list \<Rightarrow> shard_groups \<Rightarrow> shard_groups outcome" where
  "group_shards shards [] m = Ret m"
| "group_shards shards (b # bs) m =
     obind (shardNum shards b) (\<lambda>sn.
       group_shards shards bs
         (AList.update sn ((case map_of m sn of None \<Rightarrow> [] | Some l \<Rightarrow> l) @ [b]) m))"

text \<open>
  The goroutines, one per shard, run and report in the order of the list; the last error wins.
  \<open>fn\<close> also returns the values sent to a destination channel.
\<close>

fun run_shards :: "'w Storage list \<Rightarrow> ('w Storage \<Rightarrow> Ref list \<Rightarrow> 'w \<Rightarrow> ((SizedRef list \<times> goerr option) \<times> 'w) outcome)
    \<Rightarrow> shard_groups \<Rightarrow> 'w \<Rightarrow> ((SizedRef list \<times> goerr option) \<times> 'w) outcome" where
  "run_shards shards fn [] w = Ret (([], None), w)"
| "run_shards shards fn ((sn, sblobs) # m) w =
     (if unat sn < length shards then
        obind (fn (shards ! unat sn) sblobs w) (\<lambda>((out, err), w).
        obind (run_shards shards fn m w) (\<lambda>((outs, reterr), w).
          Ret ((out @ outs, if reterr \<noteq> None then reterr else err), w)))
      else Panic ''index out of range'')"

text \<open>\<open>ord\<close> is the order in which the map is iterated and the goroutines are scheduled.\<close>

definition batchedShards ::
  "(shard_groups \<Rightarrow> shard_groups) \<Rightarrow> 'w Storage list \<Rightarrow> Ref list
    \<Rightarrow> ('w Storage \<Rightarrow> Ref list \<Rightarrow> 'w \<Rightarrow> ((SizedRef list \<times> goerr option) \<times> 'w) outcome)
    \<Rightarrow> 'w \<Rightarrow> ((SizedRef list \<times> goerr option) \<times> 'w) outcome" where
  "batchedShards ord shards blobs fn w =
     obind (group_shards shards blobs []) (\<lambda>m. run_shards shards fn (ord m) w)"

definition shard_RemoveBlobs ::
  "(shard_groups \<Rightarrow> shard_groups) \<Rightarrow> 'w Storage list \<Rightarrow> Ref list \<Rightarrow> 'w \<Rightarrow> (goerr option \<times> 'w) outcome" where
  "shard_RemoveBlobs ord shards blobs w =
     obind (batchedShards ord shards blobs
             (\<lambda>s blobs w. obind (sto_RemoveBlobs s blobs w) (\<lambda>(err, w). Ret (([], err), w))) w)
       (\<lambda>((_, err), w). Ret (err, w))"

definition shard_StatBlobs ::
  "(shard_groups \<Rightarrow> shard_groups) \<Rightarrow> 'w Storage list \<Rightarrow> Ref list \<Rightarrow> 'w
    \<Rightarrow> ((SizedRef list \<times> goerr option) \<times> 'w) outcome" where
  "shard_StatBlobs ord shards blobs w = batchedShards ord shards blobs sto_StatBlobs w"

definition shard_EnumerateBlobs ::
  "'w Storage list \<Rightarrow> ctx \<Rightarrow> string \<Rightarrow> int \<Rightarrow> 'w \<Rightarrow> (SizedRef list \<times> goerr option) outcome" where
  "shard_EnumerateBlobs shards ctx after limit w = MergedEnumerateStorage shards ctx after limit w"

text \<open>The configuration: \<open>ld\<close> is \<open>Loader.GetStorage\<close>.\<close>

definition shard_newFromConfig :: "(string \<Rightarrow> goerr + 'w Storage) \<Rightarrow> Obj \<Rightarrow> (goerr + 'w Storage list) outcome" where
  "shard_newFromConfig ld config =
     obind (RequiredList ''backends'' config) (\<lambda>(shardPrefixes, config).
     obind (Validate config) (\<lambda>(err, _).
       case err of
         Some e \<Rightarrow> Ret (Inl e)
       | None \<Rightarrow>
           if shardPrefixes = [] then Ret (Inl (ErrText ''shard: need at least one shard''))
           else Ret (get_storages ld shardPrefixes)))"

section \<open>Placement\<close>

definition shard_of :: "nat \<Rightarrow> Ref \<Rightarrow> nat" where
  "shard_of n b = (case Sum32 b of Ret s \<Rightarrow> unat s mod n | _ \<Rightarrow> 0)"

lemma shardNum_Ret:
  assumes "ref_Valid b" and "0 < length shards" and "length shards < 2 ^ 32"
  shows "\<exists>sn. shardNum shards b = Ret sn \<and> unat sn = shard_of (length shards) b \<and> unat sn < length shards"
proof -
  obtain s where s: "Sum32 b = Ret s" using assms(1) by (auto simp: ref_Valid_def Sum32_def)
  have n: "unat (of_nat (length shards) :: u32) = length shards" using assms(3) by (simp add: unat_of_nat)
  then have "(of_nat (length shards) :: u32) \<noteq> 0" using assms(2) by (metis less_irrefl unat_0)
  moreover have "unat (s mod of_nat (length shards)) = unat s mod length shards" by (simp add: unat_mod n)
  ultimately show ?thesis using s assms(2) by (simp add: shardNum_def shard_of_def)
qed

lemma shard_Ret:
  assumes "ref_Valid b" and "0 < length shards" and "length shards < 2 ^ 32"
  shows "shard shards b = Ret (shards ! shard_of (length shards) b) \<and> shard_of (length shards) b < length shards"
  using shardNum_Ret [OF assms] by (auto simp: shard_def)

text \<open>Grouping puts every reference in the group of its shard, and in no other.\<close>

definition groups_ok :: "nat \<Rightarrow> Ref set \<Rightarrow> shard_groups \<Rightarrow> bool" where
  "groups_ok n B m \<longleftrightarrow> distinct (map fst m) \<and>
     (\<forall>sn bs b. map_of m sn = Some bs \<longrightarrow> unat sn < n \<and> (b \<in> set bs \<longrightarrow> shard_of n b = unat sn)) \<and>
     (\<forall>b. b \<in> B \<longleftrightarrow> (\<exists>sn bs. map_of m sn = Some bs \<and> b \<in> set bs))"

lemma group_extend:
  fixes f :: "'k \<rightharpoonup> 'v list" and k0
  defines "l \<equiv> (case f k0 of None \<Rightarrow> [] | Some l \<Rightarrow> l)"
  shows "(\<exists>k v. (f(k0 \<mapsto> l @ [b])) k = Some v \<and> x \<in> set v) \<longleftrightarrow> x = b \<or> (\<exists>k v. f k = Some v \<and> x \<in> set v)"
proof
  assume "\<exists>k v. (f(k0 \<mapsto> l @ [b])) k = Some v \<and> x \<in> set v"
  then show "x = b \<or> (\<exists>k v. f k = Some v \<and> x \<in> set v)" by (auto simp: l_def split: if_splits option.splits)
next
  assume "x = b \<or> (\<exists>k v. f k = Some v \<and> x \<in> set v)"
  then consider "x = b" | v where "f k0 = Some v" "x \<in> set v" | k v where "k \<noteq> k0" "f k = Some v" "x \<in> set v"
    by (metis)
  then show "\<exists>k v. (f(k0 \<mapsto> l @ [b])) k = Some v \<and> x \<in> set v"
    by cases (rule exI [of _ k0], simp add: l_def, rule exI [of _ k0], simp add: l_def, auto)
qed

lemma groups_ok_insert:
  assumes "groups_ok n B m" and "unat sn = shard_of n b" and "unat sn < n"
  shows "groups_ok n (insert b B) (AList.update sn ((case map_of m sn of None \<Rightarrow> [] | Some l \<Rightarrow> l) @ [b]) m)"
proof -
  have "distinct (map fst m)" and B: "\<forall>b. b \<in> B \<longleftrightarrow> (\<exists>sn bs. map_of m sn = Some bs \<and> b \<in> set bs)"
    and m: "\<forall>sn bs b. map_of m sn = Some bs \<longrightarrow> unat sn < n \<and> (b \<in> set bs \<longrightarrow> shard_of n b = unat sn)"
    using assms(1) by (simp_all add: groups_ok_def)
  moreover have "\<forall>s bs x. ((map_of m)(sn \<mapsto> (case map_of m sn of None \<Rightarrow> [] | Some l \<Rightarrow> l) @ [b])) s = Some bs \<longrightarrow>
      unat s < n \<and> (x \<in> set bs \<longrightarrow> shard_of n x = unat s)"
    using m assms(2,3) by (cases "map_of m sn") (auto simp del: map_of_eq_Some_iff)
  ultimately show ?thesis
    unfolding groups_ok_def update_conv' group_extend by (simp add: distinct_update)
qed

lemma group_shards_ok:
  assumes "\<forall>b \<in> set bs. ref_Valid b" and "0 < length shards" and "length shards < 2 ^ 32"
    and "groups_ok (length shards) B m"
  shows "\<exists>m'. group_shards shards bs m = Ret m' \<and> groups_ok (length shards) (B \<union> set bs) m'"
  using assms(1,4)
proof (induction bs arbitrary: B m)
  case (Cons b bs)
  obtain sn where sn: "shardNum shards b = Ret sn" "unat sn = shard_of (length shards) b" "unat sn < length shards"
    using shardNum_Ret [of b shards] Cons.prems(1) assms(2,3) by auto
  let ?m = "AList.update sn ((case map_of m sn of None \<Rightarrow> [] | Some l \<Rightarrow> l) @ [b]) m"
  have "groups_ok (length shards) (insert b B) ?m" using Cons.prems(2) sn(2,3) by (rule groups_ok_insert)
  then obtain m' where "group_shards shards bs ?m = Ret m'" "groups_ok (length shards) (insert b B \<union> set bs) m'"
    using Cons.IH [of "insert b B" ?m] Cons.prems(1) by auto
  moreover have "insert b B \<union> set bs = B \<union> set (b # bs)" by auto
  ultimately show ?case using sn(1) by simp
qed simp


section \<open>One storage out of many\<close>

text \<open>A blob is in the shard its reference selects, and nowhere else.\<close>

definition shard_map :: "nat \<Rightarrow> (nat \<Rightarrow> blobmap) \<Rightarrow> blobmap" where
  "shard_map n c br = (if ref_Valid br then c (shard_of n br) br else None)"

definition placed :: "nat \<Rightarrow> (nat \<Rightarrow> blobmap) \<Rightarrow> bool" where
  "placed n c \<longleftrightarrow> (\<forall>i < n. \<forall>br \<in> dom (c i). shard_of n br = i)"

lemma placed_put:
  assumes "placed n c" and "shard_of n br = i"
  shows "placed n (c(i := put (c i) br b))"
  using assms by (auto simp: placed_def put_def split: option.splits if_splits)

lemma shard_map_put:
  assumes "shard_of n br = i" and "ref_Valid br"
  shows "shard_map n (c(i := put (c i) br b)) = put (shard_map n c) br b"
  using assms by (auto simp: shard_map_def put_def fun_eq_iff split: option.splits)

lemma dom_shard_map:
  assumes "placed n c" and "\<And>i. i < n \<Longrightarrow> blobs_ok (c i)" and "0 < n"
  shows "dom (shard_map n c) = (\<Union>i < n. dom (c i))"
proof (intro set_eqI iffI)
  fix br
  assume "br \<in> dom (shard_map n c)"
  then have "br \<in> dom (c (shard_of n br))" by (auto simp: shard_map_def split: if_splits)
  moreover have "shard_of n br < n" using assms(3) by (auto simp: shard_of_def split: outcome.split)
  ultimately show "br \<in> (\<Union>i < n. dom (c i))" by blast
next
  fix br
  assume "br \<in> (\<Union>i < n. dom (c i))"
  then obtain i where i: "i < n" "br \<in> dom (c i)" by blast
  have "ref_Valid br" using blobs_ok_canonical [OF assms(2) [OF i(1)] i(2)] by (simp add: ref_wf_Valid ref_canonical_wf)
  moreover have "shard_of n br = i" using assms(1) i by (simp add: placed_def)
  ultimately show "br \<in> dom (shard_map n c)" using i(2) by (simp add: shard_map_def dom_def)
qed

lemma shard_map_at:
  assumes "placed n c" and "\<And>i. i < n \<Longrightarrow> blobs_ok (c i)" and "i < n" and "br \<in> dom (c i)"
  shows "shard_map n c br = c i br"
proof -
  have "ref_Valid br"
    using blobs_ok_canonical [OF assms(2) [OF assms(3)] assms(4)] by (simp add: ref_wf_Valid ref_canonical_wf)
  then show ?thesis using assms by (auto simp: placed_def shard_map_def)
qed

lemma groups_ok_member:
  assumes "groups_ok n B m"
  shows "(\<exists>sn bs. (sn, bs) \<in> set m \<and> unat sn = i \<and> b \<in> set bs) \<longleftrightarrow> b \<in> B \<and> shard_of n b = i"
proof -
  have m: "map_of m sn = Some bs \<longleftrightarrow> (sn, bs) \<in> set m" for sn bs
    using assms by (intro map_of_eq_Some_iff) (simp add: groups_ok_def)
  have "(b \<in> B) = (\<exists>sn bs. (sn, bs) \<in> set m \<and> b \<in> set bs)"
    and "\<forall>sn bs. (sn, bs) \<in> set m \<longrightarrow> b \<in> set bs \<longrightarrow> shard_of n b = unat sn"
    using assms unfolding groups_ok_def m by simp_all
  then show ?thesis by metis
qed

lemma UN_pair_iff: "x \<in> (\<Union>(s, b) \<in> A. F s b) \<longleftrightarrow> (\<exists>s b. (s, b) \<in> A \<and> x \<in> F s b)"
  by auto

lemma set_concat_pairs: "set (concat (map (\<lambda>(s, b). f s b) l)) = (\<Union>(s, b) \<in> set l. set (f s b))"
  by force

text \<open>The references removed from storage \<open>i\<close> are those of the groups of \<open>i\<close>.\<close>

definition group_refs :: "shard_groups \<Rightarrow> nat \<Rightarrow> Ref set" where
  "group_refs m i = (\<Union>(sn, bs) \<in> set m. if unat sn = i then set bs else {})"

context stores
begin

text \<open>The size of the list fits the 32-bit arithmetic that selects the shard.\<close>

lemma Fetch_shard:
  assumes "I w" and "0 < n" and "n < 2 ^ 32" and "ref_Valid br"
  shows "\<exists>w'. shard_Fetch (map sto [0..<n]) br w = Ret (fetch_spec (shard_map n (C w)) br, w') \<and> I w' \<and> C w' = C w"
proof -
  have s: "shard (map sto [0..<n]) br = Ret (sto (shard_of n br))" "shard_of n br < n"
    using shard_Ret [OF assms(4), of "map sto [0..<n]"] assms(2,3) by auto
  have "fetch_spec (C w (shard_of n br)) br = fetch_spec (shard_map n (C w)) br"
    using assms(4) by (simp add: fetch_spec_def shard_map_def)
  then show ?thesis using Fetch [OF assms(1) s(2), of br] s(1) by (simp add: shard_Fetch_def)
qed

lemma ReceiveBlob_shard:
  assumes "I w" and "0 < n" and "n < 2 ^ 32" and "placed n (C w)" and "br = SHA1FromBytes data"
  shows "\<exists>w'. shard_ReceiveBlob (map sto [0..<n]) br (bytes_reader data) w = Ret ((sized br data, None, ReadToEnd), w') \<and>
    I w' \<and> placed n (C w') \<and> shard_map n (C w') = put (shard_map n (C w)) br data"
proof -
  have v: "ref_Valid br" by (simp add: assms(5) ref_wf_Valid ref_canonical_wf)
  have s: "shard (map sto [0..<n]) br = Ret (sto (shard_of n br))" "shard_of n br < n"
    using shard_Ret [OF v, of "map sto [0..<n]"] assms(2,3) by auto
  show ?thesis
    using ReceiveBlob [OF assms(1) s(2) assms(5)] s(1) placed_put [OF assms(4) refl] shard_map_put [OF refl v]
    by (auto simp: shard_ReceiveBlob_def)
qed

lemma run_stat:
  assumes "I w" and "\<forall>(sn, bs) \<in> set m. unat sn < n"
  shows "\<exists>w'. run_shards (map sto [0..<n]) sto_StatBlobs m w =
      Ret ((concat (map (\<lambda>(sn, bs). stat_spec (C w (unat sn)) bs) m), None), w') \<and> I w' \<and> C w' = C w"
  using assms
proof (induction m arbitrary: w)
  case (Cons e m)
  obtain sn bs where e: "e = (sn, bs)" by (cases e)
  have i: "unat sn < n" using Cons.prems(2) e by simp
  obtain w1 where w1: "sto_StatBlobs (sto (unat sn)) bs w = Ret ((stat_spec (C w (unat sn)) bs, None), w1)"
    "I w1" "C w1 = C w" using StatBlobs [OF Cons.prems(1) i] by blast
  show ?case using Cons.IH [OF w1(2)] Cons.prems(2) w1 i by (auto simp: e)
qed simp

lemma run_remove:
  assumes "I w" and "\<forall>(sn, bs) \<in> set m. unat sn < n"
  shows "\<exists>w'. run_shards (map sto [0..<n]) (\<lambda>s blobs w. obind (sto_RemoveBlobs s blobs w) (\<lambda>(err, w). Ret (([], err), w))) m w =
      Ret (([], None), w') \<and> I w' \<and> C w' = (\<lambda>i. C w i |` (- group_refs m i))"
  using assms
proof (induction m arbitrary: w)
  case (Cons e m)
  obtain sn bs where e: "e = (sn, bs)" by (cases e)
  have i: "unat sn < n" using Cons.prems(2) e by simp
  obtain w1 where w1: "sto_RemoveBlobs (sto (unat sn)) bs w = Ret (None, w1)" "I w1"
    "C w1 = (C w)(unat sn := C w (unat sn) |` (- set bs))" using RemoveBlobs [OF Cons.prems(1) i] by blast
  have "(C w1 i |` (- group_refs m i)) = C w i |` (- group_refs (e # m) i)" for i
    by (auto simp: w1(3) group_refs_def e restrict_map_def fun_eq_iff)
  then show ?case using Cons.IH [OF w1(2)] Cons.prems(2) w1 i by (auto simp: e)
qed (simp add: group_refs_def restrict_map_def)

lemma groups_bound: "groups_ok n B m \<Longrightarrow> set m' = set m \<Longrightarrow> \<forall>(sn, bs) \<in> set m'. unat sn < n"
  unfolding groups_ok_def by (auto simp: map_of_eq_Some_iff)

lemma StatBlobs_shard:
  assumes "I w" and "0 < n" and "n < 2 ^ 32" and "\<forall>b \<in> set blobs. ref_Valid b" and "\<And>m. set (ord m) = set m"
  shows "\<exists>w' out. shard_StatBlobs ord (map sto [0..<n]) blobs w = Ret ((out, None), w') \<and>
    set out = set (stat_spec (shard_map n (C w)) blobs) \<and> I w' \<and> C w' = C w"
proof -
  obtain m where m: "group_shards (map sto [0..<n]) blobs [] = Ret m" "groups_ok n (set blobs) m"
    using group_shards_ok [of blobs "map sto [0..<n]" "{}" "[]"] assms(2-4) by (auto simp: groups_ok_def)
  have "set (concat (map (\<lambda>(sn, bs). stat_spec (C w (unat sn)) bs) (ord m))) = set (stat_spec (shard_map n (C w)) blobs)"
  proof (rule set_eqI)
    fix x
    have "x \<in> set (concat (map (\<lambda>(sn, bs). stat_spec (C w (unat sn)) bs) (ord m))) \<longleftrightarrow>
        (\<exists>i br b. (\<exists>sn bs. (sn, bs) \<in> set m \<and> unat sn = i \<and> br \<in> set bs) \<and> C w i br = Some b \<and> x = sized br b)"
      unfolding set_concat_pairs assms(5) UN_pair_iff in_stat_spec by blast
    also have "\<dots> \<longleftrightarrow> x \<in> set (stat_spec (shard_map n (C w)) blobs)"
      using assms(4) unfolding groups_ok_member [OF m(2)] in_stat_spec shard_map_def by auto
    finally show "x \<in> set (concat (map (\<lambda>(sn, bs). stat_spec (C w (unat sn)) bs) (ord m))) \<longleftrightarrow>
      x \<in> set (stat_spec (shard_map n (C w)) blobs)" .
  qed
  then show ?thesis
    using run_stat [OF assms(1) groups_bound [OF m(2) assms(5)]] m(1)
    by (auto simp: shard_StatBlobs_def batchedShards_def)
qed

lemma RemoveBlobs_shard:
  assumes "I w" and "0 < n" and "n < 2 ^ 32" and "placed n (C w)" and "\<forall>b \<in> set blobs. ref_Valid b"
    and "\<And>m. set (ord m) = set m"
  shows "\<exists>w'. shard_RemoveBlobs ord (map sto [0..<n]) blobs w = Ret (None, w') \<and> I w' \<and> placed n (C w') \<and>
    shard_map n (C w') = shard_map n (C w) |` (- set blobs)"
proof -
  obtain m where m: "group_shards (map sto [0..<n]) blobs [] = Ret m" "groups_ok n (set blobs) m"
    using group_shards_ok [of blobs "map sto [0..<n]" "{}" "[]"] assms(2-3,5) by (auto simp: groups_ok_def)
  have "br \<in> group_refs (ord m) (shard_of n br) \<longleftrightarrow> br \<in> set blobs" for br
    using groups_ok_member [OF m(2), of "shard_of n br" br] unfolding group_refs_def assms(6) UN_pair_iff by force
  then have "shard_map n (\<lambda>i. C w i |` (- group_refs (ord m) i)) = shard_map n (C w) |` (- set blobs)"
    by (auto simp: shard_map_def restrict_map_def)
  moreover have "placed n (\<lambda>i. C w i |` (- group_refs (ord m) i))" using assms(4) by (auto simp: placed_def)
  ultimately show ?thesis
    using run_remove [OF assms(1) groups_bound [OF m(2) assms(6)]] m(1)
    by (auto simp: shard_RemoveBlobs_def batchedShards_def)
qed

lemma EnumerateBlobs_shard:
  assumes "I w" and "0 < n" and "placed n (C w)" and "0 < limit"
  shows "(shard_EnumerateBlobs (map sto [0..<n]) None after limit w = Hang \<and>
      limit < int (card (refs_after (shard_map n (C w)) after))) \<or>
    shard_EnumerateBlobs (map sto [0..<n]) None after limit w = Ret (enum_spec (shard_map n (C w)) after (nat limit), None)"
  unfolding shard_EnumerateBlobs_def
proof (rule MergedEnumerate_union [OF assms(1,4)])
  show "C w i \<subseteq>\<^sub>m shard_map n (C w)" if "i < n" for i
    using shard_map_at [OF assms(3) ok [OF assms(1)] that] by (simp add: map_le_def)
  show "dom (shard_map n (C w)) = (\<Union>i<n. dom (C w i))"
    by (rule dom_shard_map [OF assms(3) ok [OF assms(1)] assms(2)])
qed

end

section \<open>Shards of memory storages\<close>

definition shard_J :: "(shard_groups \<Rightarrow> shard_groups) \<Rightarrow> nat \<Rightarrow> (nat \<Rightarrow> memsto) \<Rightarrow> bool" where
  "shard_J ord n w \<longleftrightarrow> mem_I w \<and> placed n (mem_C w) \<and> 0 < n \<and> n < 2 ^ 32 \<and> (\<forall>m. set (ord m) = set m)"

interpretation mem_shard: blob_store "shard_Fetch (map mem_at [0..<n])" "shard_ReceiveBlob (map mem_at [0..<n])"
  "shard_StatBlobs ord (map mem_at [0..<n])" "shard_RemoveBlobs ord (map mem_at [0..<n])"
  "\<lambda>w. shard_map n (mem_C w)" "shard_J ord n" ref_Valid UNIV for n ord
proof (unfold_locales, goal_cases)
  case (1 w br)
  then show ?case using mems.Fetch_shard [of w n br] by (fastforce simp: shard_J_def)
next
  case (2 w br data)
  then show ?case using mems.ReceiveBlob_shard [of w n br data] by (fastforce simp: shard_J_def)
next
  case (3 w brs)
  then show ?case using mems.StatBlobs_shard [of w n brs ord] by (fastforce simp: shard_J_def list_all_iff)
next
  case (4 w brs)
  then show ?case using mems.RemoveBlobs_shard [of w n brs ord] by (fastforce simp: shard_J_def list_all_iff)
qed



end
