(* ===== verification/Replica.thy ===== *)
theory Replica
  imports MemStorage BlobStore JsonConfig
begin

text \<open>
  Package \<open>pkg/blobserver/replica\<close>: a storage that writes to all of its replicas, acknowledges once
  \<open>minWritesForSuccess\<close> of them have stored the blob, and reads from the first replica that answers.
\<close>

section \<open>State and construction\<close>

record 'w replicaStorage =
  rep_replicaPrefixes :: "string list"
  rep_replicas :: "'w Storage list"
  rep_readPrefixes :: "string list"
  rep_readReplicas :: "'w Storage list"
  rep_minWritesForSuccess :: int

definition replica_NewForTest :: "'w Storage list \<Rightarrow> 'w replicaStorage" where
  "replica_NewForTest sto =
     (let names = replicate (length sto) ''/unknown-prefix/''
      in \<lparr>rep_replicaPrefixes = names, rep_replicas = sto, rep_readPrefixes = names, rep_readReplicas = sto,
          rep_minWritesForSuccess = int (length sto)\<rparr>)"

text \<open>
  \<open>ld\<close> is \<open>Loader.GetStorage\<close>; \<open>ldh\<close> is \<open>Loader.GetHandler\<close> followed by the assertion that the handler is a
  storage.
\<close>

definition get_replica :: "(string \<Rightarrow> goerr + 'w Storage) \<Rightarrow> (string \<Rightarrow> 'w Storage option) \<Rightarrow> string \<Rightarrow> goerr + 'w Storage" where
  "get_replica ld ldh prefix =
     (case ld prefix of
        Inr s \<Rightarrow> Inr s
      | Inl err \<Rightarrow> (case ldh prefix of Some s \<Rightarrow> Inr s | None \<Rightarrow> Inl err))"

definition replica_newFromConfig ::
  "(string \<Rightarrow> goerr + 'w Storage) \<Rightarrow> (string \<Rightarrow> 'w Storage option) \<Rightarrow> Obj \<Rightarrow> (goerr + 'w replicaStorage) outcome" where
  "replica_newFromConfig ld ldh config =
     obind (RequiredList ''backends'' config) (\<lambda>(replicaPrefixes, config).
     obind (OptionalList ''readBackends'' config) (\<lambda>(readPrefixes, config).
     let nReplicas = length replicaPrefixes in
     obind (OptionalInt ''minWritesForSuccess'' (int nReplicas) config) (\<lambda>(minWrites, config).
     obind (Validate config) (\<lambda>(err, _).
       case err of
         Some e \<Rightarrow> Ret (Inl e)
       | None \<Rightarrow>
           if nReplicas = 0 then Ret (Inl (ErrText ''replica: need at least one replica''))
           else
             let minWrites = (if minWrites = 0 then int nReplicas else minWrites);
                 readPrefixes = (if readPrefixes = [] then replicaPrefixes else readPrefixes)
             in case get_storages (get_replica ld ldh) replicaPrefixes of
                  Inl e \<Rightarrow> Ret (Inl e)
                | Inr replicas \<Rightarrow>
                    (case get_storages ld readPrefixes of
                       Inl e \<Rightarrow> Ret (Inl e)
                     | Inr readReplicas \<Rightarrow>
                         Ret (Inr \<lparr>rep_replicaPrefixes = replicaPrefixes, rep_replicas = replicas,
                           rep_readPrefixes = readPrefixes, rep_readReplicas = readReplicas,
                           rep_minWritesForSuccess = minWrites\<rparr>))))))"

section \<open>Reading\<close>

text \<open>With no replica to read from, the zero values are returned and there is no error.\<close>

fun replica_fetch_loop :: "'w Storage list \<Rightarrow> Ref \<Rightarrow> fetch_ret \<Rightarrow> 'w \<Rightarrow> (fetch_ret \<times> 'w) outcome" where
  "replica_fetch_loop [] b ret w = Ret (ret, w)"
| "replica_fetch_loop (r # rs) b ret w =
     obind (sto_Fetch r b w) (\<lambda>((file, sz, err), w).
       if err = None then Ret ((file, sz, err), w) else replica_fetch_loop rs b (file, sz, err) w)"

definition replica_Fetch :: "'w replicaStorage \<Rightarrow> 'w fetcher" where
  "replica_Fetch s b w = replica_fetch_loop (rep_readReplicas s) b (None, 0, None) w"

text \<open>The goroutine that filters what the replicas report: each wanted reference is passed on once.\<close>

fun need_filter :: "Ref list \<Rightarrow> SizedRef list \<Rightarrow> SizedRef list \<times> Ref list" where
  "need_filter need [] = ([], need)"
| "need_filter need (sb # sbs) =
     (if sr_Ref sb \<in> set need then
        let (out, need') = need_filter (removeAll (sr_Ref sb) need) sbs in (sb # out, need')
      else need_filter need sbs)"

text \<open>The replicas' calls, in the order in which they run and report.\<close>

fun replica_stats :: "'w Storage list \<Rightarrow> Ref list \<Rightarrow> 'w \<Rightarrow> ((SizedRef list list \<times> goerr option list) \<times> 'w) outcome" where
  "replica_stats [] blobs w = Ret (([], []), w)"
| "replica_stats (r # rs) blobs w =
     obind (sto_StatBlobs r blobs w) (\<lambda>((out, err), w).
     obind (replica_stats rs blobs w) (\<lambda>((outs, errs), w). Ret ((out # outs, err # errs), w)))"

text \<open>The error kept by a loop that overwrites it: the last one.\<close>

definition last_err :: "goerr option list \<Rightarrow> goerr option" where
  "last_err errs = (case filter (\<lambda>e. e \<noteq> None) errs of [] \<Rightarrow> None | es \<Rightarrow> last es)"

text \<open>\<open>ord\<close> orders the indices of the replicas as their goroutines run, \<open>mix\<close> is how their sends on \<open>ch\<close> interleave.\<close>

definition in_order :: "(nat list \<Rightarrow> nat list) \<Rightarrow> 'a list \<Rightarrow> 'a list" where
  "in_order ord xs = map (\<lambda>i. xs ! i) (ord [0..<length xs])"

definition replica_StatBlobs ::
  "(nat list \<Rightarrow> nat list) \<Rightarrow> (SizedRef list list \<Rightarrow> SizedRef list) \<Rightarrow> 'w replicaStorage \<Rightarrow> Ref list \<Rightarrow> 'w
    \<Rightarrow> ((SizedRef list \<times> goerr option) \<times> 'w) outcome" where
  "replica_StatBlobs ord mix s blobs w =
     obind (replica_stats (in_order ord (rep_readReplicas s)) blobs w) (\<lambda>((outs, errs), w).
       let (out, need) = need_filter (remdups blobs) (mix outs)
       in Ret ((out, if need = [] then None else last_err errs), w))"

definition replica_EnumerateBlobs ::
  "'w replicaStorage \<Rightarrow> ctx \<Rightarrow> string \<Rightarrow> int \<Rightarrow> 'w \<Rightarrow> (SizedRef list \<times> goerr option) outcome" where
  "replica_EnumerateBlobs s ctx after limit w = MergedEnumerateStorage (rep_readReplicas s) ctx after limit w"

section \<open>Writing\<close>

record sizedBlobAndError =
  sbe_idx :: nat
  sbe_sb :: SizedRef
  sbe_err :: "goerr option"

text \<open>
  The uploads, in the order in which they complete.  The model runs all of them before the
  results are read; the code returns at the acknowledgement and the others complete in the
  background.
\<close>

fun uploads :: "'w Storage list \<Rightarrow> nat list \<Rightarrow> Ref \<Rightarrow> bytes \<Rightarrow> 'w \<Rightarrow> (sizedBlobAndError list \<times> 'w) outcome" where
  "uploads replicas [] br buf w = Ret ([], w)"
| "uploads replicas (idx # idxs) br buf w =
     obind (ReceiveNoHash (replicas ! idx) br (bytes_reader buf) w) (\<lambda>((sb, err), w).
     obind (uploads replicas idxs br buf w) (\<lambda>(res, w).
       Ret (\<lparr>sbe_idx = idx, sbe_sb = sb, sbe_err = err\<rparr> # res, w)))"

definition upload_ok :: "int \<Rightarrow> sizedBlobAndError \<Rightarrow> bool" where
  "upload_ok sz res \<longleftrightarrow> sbe_err res = None \<and> int (unat (sr_Size (sbe_sb res))) = sz"

text \<open>
  The loop over the results: \<open>Inl sb\<close> is the acknowledgement \<open>return res.sb, nil\<close>, \<open>Inr\<close> the values of
  \<open>err\<close> and \<open>fails\<close> when the loop ends.
\<close>

fun collect :: "int \<Rightarrow> int \<Rightarrow> sizedBlobAndError list \<Rightarrow> int \<Rightarrow> goerr option \<Rightarrow> sizedBlobAndError list
    \<Rightarrow> SizedRef + (goerr option \<times> sizedBlobAndError list)" where
  "collect minWrites sz [] nSuccess err fails = Inr (err, fails)"
| "collect minWrites sz (res # rest) nSuccess err fails =
     (if upload_ok sz res then
        if nSuccess + 1 = minWrites then Inl (sbe_sb res)
        else collect minWrites sz rest (nSuccess + 1) err fails
      else if sbe_err res = None then
        let e = Some (ErrText ''replica: upload shard reported size'')
        in collect minWrites sz rest nSuccess e (fails @ [res\<lparr>sbe_err := e\<rparr>])
      else collect minWrites sz rest nSuccess (sbe_err res) (fails @ [res]))"

definition replica_ReceiveBlob ::
  "(nat list \<Rightarrow> nat list) \<Rightarrow> 'w replicaStorage \<Rightarrow> Ref \<Rightarrow> reader \<Rightarrow> 'w \<Rightarrow> (recv_ret \<times> 'w) outcome" where
  "replica_ReceiveBlob ord s br src w =
     (case rd_err src of
        Some e \<Rightarrow> Ret ((zeroSizedRef, Some e, ReadToEnd), w)
      | None \<Rightarrow>
          obind (uploads (rep_replicas s) (ord [0..<length (rep_replicas s)]) br (rd_data src) w) (\<lambda>(results, w).
            case collect (rep_minWritesForSuccess s) (int (length (rd_data src))) results 0 None [] of
              Inl sb \<Rightarrow> Ret ((sb, None, ReadToEnd), w)
            | Inr (err, fails) \<Rightarrow>
                if list_all (\<lambda>res. sbe_idx res < length (rep_replicaPrefixes s)) fails
                then Ret ((zeroSizedRef, err, ReadToEnd), w) else Panic ''index out of range''))"

fun replica_removes :: "'w Storage list \<Rightarrow> Ref list \<Rightarrow> 'w \<Rightarrow> (goerr option list \<times> 'w) outcome" where
  "replica_removes [] blobs w = Ret ([], w)"
| "replica_removes (r # rs) blobs w =
     obind (sto_RemoveBlobs r blobs w) (\<lambda>(err, w).
     obind (replica_removes rs blobs w) (\<lambda>(errs, w). Ret (err # errs, w)))"

definition replica_RemoveBlobs ::
  "(nat list \<Rightarrow> nat list) \<Rightarrow> 'w replicaStorage \<Rightarrow> Ref list \<Rightarrow> 'w \<Rightarrow> (goerr option \<times> 'w) outcome" where
  "replica_RemoveBlobs ord s blobs w =
     obind (replica_removes (in_order ord (rep_replicas s)) blobs w) (\<lambda>(errs, w).
       Ret (if None \<in> set errs then None else last_err errs, w))"

section \<open>Generations\<close>

text \<open>
  A replica that is a \<open>Generationer\<close> supplies its two operations; times are seconds, 0 standing for the
  zero time.
\<close>

fun replica_reset_loop :: "('w \<Rightarrow> (goerr option \<times> 'w) outcome) option list \<Rightarrow> nat \<Rightarrow> goerr option \<Rightarrow> 'w
    \<Rightarrow> (goerr option \<times> 'w) outcome" where
  "replica_reset_loop [] k ret w = Ret (if k = 0 then Some (ErrText ''ResetStorageGeneration not supported'') else ret, w)"
| "replica_reset_loop (None # gs) k ret w = replica_reset_loop gs k ret w"
| "replica_reset_loop (Some g # gs) k ret w =
     obind (g w) (\<lambda>(err, w). replica_reset_loop gs (k + 1) (if err \<noteq> None \<and> ret = None then err else ret) w)"

definition replica_ResetStorageGeneration :: "('w \<Rightarrow> (goerr option \<times> 'w) outcome) option list \<Rightarrow> 'w \<Rightarrow> (goerr option \<times> 'w) outcome" where
  "replica_ResetStorageGeneration gens w = replica_reset_loop gens 0 None w"

fun replica_gen_loop :: "(nat \<times> string \<times> goerr option) option list \<Rightarrow> nat \<Rightarrow> nat \<Rightarrow> string \<Rightarrow> goerr option
    \<Rightarrow> nat \<times> string \<times> goerr option" where
  "replica_gen_loop [] k t buf err =
     (t, buf, if k = 0 then Some (ErrText ''No replicas support StorageGeneration'') else err)"
| "replica_gen_loop (None # gs) k t buf err = replica_gen_loop gs k t buf err"
| "replica_gen_loop (Some (rt, rrand, rerr) # gs) k t buf err =
     (if rerr \<noteq> None then replica_gen_loop gs (k + 1) t buf rerr
      else replica_gen_loop gs (k + 1) (max t rt) ((if buf \<noteq> [] then buf @ ''/'' else buf) @ rrand) err)"

definition replica_StorageGeneration :: "(nat \<times> string \<times> goerr option) option list \<Rightarrow> nat \<times> string \<times> goerr option" where
  "replica_StorageGeneration gens = replica_gen_loop gens 0 0 [] None"

section \<open>Acknowledgement\<close>

definition successes :: "int \<Rightarrow> sizedBlobAndError list \<Rightarrow> int" where
  "successes sz results = int (length (filter (upload_ok sz) results))"

lemma successes_simps [simp]:
  "successes sz [] = 0"
  "successes sz (res # rest) = successes sz rest + (if upload_ok sz res then 1 else 0)"
  by (simp_all add: successes_def)

lemma successes_bounds: "0 \<le> successes sz results" "successes sz results \<le> int (length results)"
  by (simp_all add: successes_def)

lemma successes_all: "successes sz results = int (length results) \<Longrightarrow> list_all (upload_ok sz) results"
  unfolding successes_def list_all_iff by (metis filter_id_conv length_filter_less linorder_neq_iff of_nat_eq_iff)

text \<open>The loop acknowledges exactly if enough uploads succeeded, and otherwise keeps an error if one failed.\<close>

lemma collect_ack:
  assumes "k < m" and "m \<le> k + successes sz results"
  shows "\<exists>res \<in> set results. upload_ok sz res \<and> collect m sz results k err fails = Inl (sbe_sb res)"
  using assms
proof (induction results arbitrary: k err fails)
  case (Cons res rest)
  show ?case
  proof (cases "upload_ok sz res \<and> k + 1 = m")
    case False
    then show ?thesis using Cons.IH [of "k + 1"] Cons.IH [of k] Cons.prems by (auto simp: Let_def)
  qed auto
qed simp

lemma collect_fail:
  assumes "k + successes sz results < m \<or> m \<le> k"
  shows "\<exists>err' fails'. collect m sz results k err fails = Inr (err', fails') \<and>
    (err' = None \<longleftrightarrow> err = None \<and> successes sz results = int (length results))"
  using assms
proof (induction results arbitrary: k err fails)
  case (Cons res rest)
  let ?e = "Some (ErrText ''replica: upload shard reported size'')"
  show ?case
  proof (cases "upload_ok sz res")
    case True
    then have "k + 1 \<noteq> m" "(k + 1) + successes sz rest < m \<or> m \<le> k + 1"
      using Cons.prems successes_bounds(1) [of sz rest] by auto
    then show ?thesis using True Cons.IH [of "k + 1" err fails] by auto
  next
    case False
    let ?err = "if sbe_err res = None then ?e else sbe_err res"
    let ?fails = "fails @ [if sbe_err res = None then res\<lparr>sbe_err := ?e\<rparr> else res]"
    have "collect m sz (res # rest) k err fails = collect m sz rest k ?err ?fails" using False by (simp add: Let_def)
    moreover have "k + successes sz rest < m \<or> m \<le> k" using Cons.prems False by auto
    ultimately show ?thesis using Cons.IH [of k ?err ?fails] False successes_bounds(2) [of sz rest]
      by (auto simp del: collect.simps split: if_splits)
  qed
qed simp

lemma collect_idx:
  assumes "collect m sz results k err fails = Inr (err', fails')"
    and "\<forall>x \<in> set fails \<union> set results. sbe_idx x < N"
  shows "\<forall>x \<in> set fails'. sbe_idx x < N"
  using assms
proof (induction results arbitrary: k err fails)
  case (Cons res rest)
  let ?e = "Some (ErrText ''replica: upload shard reported size'')"
  consider "upload_ok sz res" | "\<not> upload_ok sz res" "sbe_err res = None" | "\<not> upload_ok sz res" "sbe_err res \<noteq> None" by blast
  then show ?case
  proof cases
    case 1
    then show ?thesis using Cons.IH [of "k + 1" err fails] Cons.prems by (simp split: if_splits)
  next
    case 2
    then show ?thesis using Cons.IH [of k ?e "fails @ [res\<lparr>sbe_err := ?e\<rparr>]"] Cons.prems by (simp add: Let_def)
  next
    case 3
    then show ?thesis using Cons.IH [of k "sbe_err res" "fails @ [res]"] Cons.prems by (auto split: if_splits)
  qed
qed simp

lemma collect_none:
  assumes "collect m sz results k err fails = Inr (None, fails')"
  shows "err = None \<and> fails' = fails"
  using assms
proof (induction results arbitrary: k err fails)
  case (Cons res rest)
  let ?e = "Some (ErrText ''replica: upload shard reported size'')"
  consider "upload_ok sz res" | "\<not> upload_ok sz res" "sbe_err res = None" | "\<not> upload_ok sz res" "sbe_err res \<noteq> None" by blast
  then show ?case
  proof cases
    case 1
    then show ?thesis using Cons.IH [of "k + 1" err fails] Cons.prems by (simp split: if_splits)
  next
    case 2
    then show ?thesis using Cons.IH [of k ?e "fails @ [res\<lparr>sbe_err := ?e\<rparr>]"] Cons.prems by (simp add: Let_def)
  next
    case 3
    then show ?thesis using Cons.IH [of k "sbe_err res" "fails @ [res]"] Cons.prems by (auto split: if_splits)
  qed
qed simp

lemma uploads_idx: "uploads rs idxs br buf w = Ret (results, w') \<Longrightarrow> map sbe_idx results = idxs"
proof (induction idxs arbitrary: w results)
  case (Cons idx idxs)
  then show ?case by (auto simp: obind_eq_Ret split: prod.splits)
qed simp

text \<open>
  C14 [replica_quorum].  Whatever the replicas do and in whatever order their uploads complete: if the required number
  of writes is between one and the number of replicas, \<open>ReceiveBlob\<close> reports success exactly
  if at least that many replicas stored the blob with its right size, and then returns the
  sized reference of one of them.
\<close>

theorem replica_write_quorum:
  assumes "1 \<le> rep_minWritesForSuccess s" and "rep_minWritesForSuccess s \<le> int (length (rep_replicas s))"
    and "length (rep_replicaPrefixes s) = length (rep_replicas s)" and "\<forall>xs. mset (ord xs) = mset xs"
    and "uploads (rep_replicas s) (ord [0..<length (rep_replicas s)]) br data w = Ret (results, w')"
  shows "\<exists>sb err. replica_ReceiveBlob ord s br (bytes_reader data) w = Ret ((sb, err, ReadToEnd), w') \<and>
    (err = None \<longleftrightarrow> rep_minWritesForSuccess s \<le> successes (int (length data)) results) \<and>
    (err = None \<longrightarrow> (\<exists>res \<in> set results. upload_ok (int (length data)) res \<and> sb = sbe_sb res))"
proof -
  let ?n = "length (rep_replicas s)" and ?m = "rep_minWritesForSuccess s" and ?sz = "int (length data)"
  have idx: "map sbe_idx results = ord [0..<?n]" using assms(5) by (rule uploads_idx)
  have len: "length results = ?n" using idx assms(4) by (metis length_map length_upt mset_eq_length diff_zero)
  have "sbe_idx ` set results = set (ord [0..<?n])" using idx by (metis list.set_map)
  also have "\<dots> = {0..<?n}" using assms(4) by (metis mset_eq_setD set_upt)
  finally have idxs: "sbe_idx ` set results = {0..<?n}" .
  have rd: "rd_err (bytes_reader data) = None" "rd_data (bytes_reader data) = data" by (simp_all add: bytes_reader_def)
  show ?thesis
  proof (cases "?m \<le> successes ?sz results")
    case True
    then obtain res where "res \<in> set results" "upload_ok ?sz res" "collect ?m ?sz results 0 None [] = Inl (sbe_sb res)"
      using collect_ack [of 0 ?m ?sz results] assms(1) by auto
    then show ?thesis using True assms(5) by (auto simp: replica_ReceiveBlob_def rd)
  next
    case False
    then obtain err fails where c: "collect ?m ?sz results 0 None [] = Inr (err, fails)"
      "err = None \<longleftrightarrow> successes ?sz results = int (length results)"
      using collect_fail [of 0 ?sz results ?m None "[]"] by auto
    have "list_all (\<lambda>res. sbe_idx res < length (rep_replicaPrefixes s)) fails"
      using collect_idx [OF c(1), of ?n] idxs assms(3) by (force simp: list_all_iff)
    moreover have "err \<noteq> None" using c(2) False len assms(2) by auto
    ultimately show ?thesis using False c(1) assms(5) by (auto simp: replica_ReceiveBlob_def rd)
  qed
qed

theorem replica_write_quorum_witness:
  "\<exists>sb err. replica_ReceiveBlob rev (replica_NewForTest [NoImplStorage :: unit Storage]) zeroRef (bytes_reader [1]) () =
     Ret ((sb, err, ReadToEnd), ()) \<and> err \<noteq> None"
proof -
  let ?s = "replica_NewForTest [NoImplStorage :: unit Storage]"
  let ?results = "[\<lparr>sbe_idx = 0, sbe_sb = zeroSizedRef, sbe_err = Some (ErrText ''ReceiveBlob not implemented'')\<rparr>]"
  have "uploads (rep_replicas ?s) (rev [0..<length (rep_replicas ?s)]) zeroRef [1] () = Ret (?results, ())"
    by (simp add: replica_NewForTest_def ReceiveNoHash_def receive_def NoImplStorage_def Let_def)
  moreover have "rep_minWritesForSuccess ?s = 1" "length (rep_replicas ?s) = 1" "length (rep_replicaPrefixes ?s) = 1"
    by (simp_all add: replica_NewForTest_def Let_def)
  moreover have "\<not> 1 \<le> successes 1 ?results" by (simp add: upload_ok_def)
  ultimately show ?thesis
    using replica_write_quorum [of ?s rev zeroRef "[1]" "()" ?results "()"] by (simp del: successes_simps) blast
qed

section \<open>Replicas of one store\<close>

lemma need_filter_set:
  assumes "\<And>x y. x \<in> set sbs \<Longrightarrow> y \<in> set sbs \<Longrightarrow> sr_Ref x = sr_Ref y \<Longrightarrow> x = y"
  shows "set (fst (need_filter need sbs)) = {x \<in> set sbs. sr_Ref x \<in> set need}"
  using assms
proof (induction need sbs rule: need_filter.induct)
  case (2 need sb sbs)
  have inj: "x = y" if "x \<in> set (sb # sbs)" "y \<in> set (sb # sbs)" "sr_Ref x = sr_Ref y" for x y
    using 2(3) that by blast
  show ?case
  proof (cases "sr_Ref sb \<in> set need")
    case True
    have "set (fst (need_filter (removeAll (sr_Ref sb) need) sbs)) = {x \<in> set sbs. sr_Ref x \<in> set need - {sr_Ref sb}}"
      using 2(1) [OF True] inj by simp
    moreover have "x = sb" if "x \<in> set sbs" "sr_Ref x = sr_Ref sb" for x using inj that by simp
    ultimately show ?thesis using True by (auto simp: Let_def split: prod.split) 
  next
    case False
    then show ?thesis using 2(2) inj by auto
  qed
qed simp

lemma last_err_None: "last_err (replicate k None) = None"
  by (simp add: last_err_def)

lemma in_order_stores:
  assumes "\<forall>xs. mset (ord xs) = mset xs"
  shows "in_order ord (map f [0..<n]) = map f (ord [0..<n])"
    and "set (ord [0..<n]) = {0..<n}" and "length (ord [0..<n]) = n"
proof -
  show s: "set (ord [0..<n]) = {0..<n}" using assms by (metis mset_eq_setD set_upt)
  show "length (ord [0..<n]) = n" using assms by (metis length_upt mset_eq_length diff_zero)
  show "in_order ord (map f [0..<n]) = map f (ord [0..<n])"
    using s unfolding in_order_def length_map length_upt diff_zero by (intro map_cong) auto
qed

text \<open>All replicas hold the same blobs.\<close>

definition same_on :: "nat \<Rightarrow> (nat \<Rightarrow> blobmap) \<Rightarrow> bool" where
  "same_on n c \<longleftrightarrow> (\<forall>i < n. c i = c 0)"

lemma same_onD: "same_on n c \<Longrightarrow> i < n \<Longrightarrow> c i = c 0"
  unfolding same_on_def by blast

lemma same_on_map: "same_on n c \<Longrightarrow> A = {0..<n} \<Longrightarrow> same_on n (\<lambda>i. if i \<in> A then f (c i) else c i)"
  unfolding same_on_def by (metis (mono_tags, lifting) atLeastLessThan_iff bot_nat_0.not_eq_extremum le0 less_trans)

context stores
begin

lemma uploads_good:
  assumes "I w" and "set idxs \<subseteq> {0..<n}" and "br = SHA1FromBytes data" and "length data \<le> MaxBlobSize"
  shows "\<exists>w'. uploads (map sto [0..<n]) idxs br data w =
      Ret (map (\<lambda>i. \<lparr>sbe_idx = i, sbe_sb = sized br data, sbe_err = None\<rparr>) idxs, w') \<and> I w' \<and>
    C w' = (\<lambda>i. if i \<in> set idxs then put (C w i) br data else C w i)"
  using assms(1,2)
proof (induction idxs arbitrary: w)
  case (Cons i idxs)
  have i: "i < n" using Cons.prems(2) by simp
  obtain w1 where w1: "receive (sto i) br (bytes_reader data) False w = Ret ((sized br data, None), w1)" "I w1"
    "C w1 = (C w)(i := put (C w i) br data)" using receive_good [OF Cons.prems(1) i assms(3,4)] by blast
  have pp: "put (put m br data) br data = put m br data" for m by (auto simp: put_def split: option.splits)
  have "(\<lambda>j. if j \<in> set idxs then put (C w1 j) br data else C w1 j) =
      (\<lambda>j. if j \<in> set (i # idxs) then put (C w j) br data else C w j)"
    by (rule ext) (simp add: w1(3) pp)
  then show ?case using Cons.IH [OF w1(2)] Cons.prems(2) w1(1) i by (auto simp: ReceiveNoHash_def)
qed simp

lemma removes_good:
  assumes "I w" and "set idxs \<subseteq> {0..<n}"
  shows "\<exists>w'. replica_removes (map sto idxs) brs w = Ret (replicate (length idxs) None, w') \<and> I w' \<and>
    C w' = (\<lambda>i. if i \<in> set idxs then C w i |` (- set brs) else C w i)"
  using assms
proof (induction idxs arbitrary: w)
  case (Cons i idxs)
  have i: "i < n" using Cons.prems(2) by simp
  obtain w1 where w1: "sto_RemoveBlobs (sto i) brs w = Ret (None, w1)" "I w1"
    "C w1 = (C w)(i := C w i |` (- set brs))" using RemoveBlobs [OF Cons.prems(1) i] by blast
  have "(\<lambda>j. if j \<in> set idxs then C w1 j |` (- set brs) else C w1 j) =
      (\<lambda>j. if j \<in> set (i # idxs) then C w j |` (- set brs) else C w j)"
    by (rule ext) (simp add: w1(3))
  then show ?case using Cons.IH [OF w1(2)] Cons.prems(2) w1(1) i by auto
qed simp

lemma stats_good:
  assumes "I w" and "set idxs \<subseteq> {0..<n}"
  shows "\<exists>w'. replica_stats (map sto idxs) brs w =
      Ret ((map (\<lambda>i. stat_spec (C w i) brs) idxs, replicate (length idxs) None), w') \<and> I w' \<and> C w' = C w"
  using assms
proof (induction idxs arbitrary: w)
  case (Cons i idxs)
  have i: "i < n" using Cons.prems(2) by simp
  obtain w1 where w1: "sto_StatBlobs (sto i) brs w = Ret ((stat_spec (C w i) brs, None), w1)" "I w1" "C w1 = C w"
    using StatBlobs [OF Cons.prems(1) i] by blast
  show ?case using Cons.IH [OF w1(2)] Cons.prems(2) w1 i by auto
qed simp

text \<open>The replicated storage over \<open>sto 0\<close>, \<dots>, \<open>sto (n - 1)\<close>, requiring \<open>m\<close> writes.\<close>

lemma Fetch_replica:
  assumes "I w" and "0 < n" and "same_on n (C w)" and "rep_readReplicas s = map sto [0..<n]"
  shows "\<exists>w'. replica_Fetch s br w = Ret (fetch_spec (C w 0) br, w') \<and> I w' \<and> C w' = C w"
proof -
  have "\<exists>w'. replica_fetch_loop (map sto is) br ret w = Ret (fetch_spec (C w 0) br, w') \<and> I w' \<and> C w' = C w"
    if "I w" "same_on n (C w)" "set is \<subseteq> {0..<n}" "is \<noteq> [] \<or> ret = fetch_spec (C w 0) br" for "is" ret w
    using that
  proof (induction "is" arbitrary: ret w)
    case (Cons i "is")
    have i: "i < n" using Cons.prems(3) by simp
    have same: "C w i = C w 0" using Cons.prems(2) i by (rule same_onD)
    obtain w1 where w1: "sto_Fetch (sto i) br w = Ret (fetch_spec (C w 0) br, w1)" "I w1" "C w1 = C w"
      using Fetch [OF Cons.prems(1) i, of br] unfolding same by blast
    show ?case
    proof (cases "C w 0 br")
      case None
      then have ret: "fetch_spec (C w 0) br = (None, 0, Some ErrNotExist)" by (simp add: fetch_spec_def)
      have "\<exists>w'. replica_fetch_loop (map sto is) br (None, 0, Some ErrNotExist) w1 = Ret (fetch_spec (C w1 0) br, w') \<and>
          I w' \<and> C w' = C w1"
        using Cons.prems(2,3) by (intro Cons.IH w1(2)) (simp_all add: w1(3) ret)
      then show ?thesis using w1(1) ret by (simp add: w1(3))
    next
      case (Some b)
      then have "fetch_spec (C w 0) br = (Some (bytes_reader b), of_nat (length b), None)" by (simp add: fetch_spec_def)
      then show ?thesis using w1 by simp
    qed
  qed simp
  from this [OF assms(1,3), of "[0..<n]"] show ?thesis using assms(2,4) by (simp add: replica_Fetch_def)
qed

lemma ReceiveBlob_replica:
  assumes "I w" and "0 < n" and "same_on n (C w)" and "br = SHA1FromBytes data" and "length data \<le> MaxBlobSize"
    and "rep_replicas s = map sto [0..<n]" and "\<forall>xs. mset (ord xs) = mset xs"
    and "1 \<le> rep_minWritesForSuccess s" and "rep_minWritesForSuccess s \<le> int n"
  shows "\<exists>w'. replica_ReceiveBlob ord s br (bytes_reader data) w = Ret ((sized br data, None, ReadToEnd), w') \<and>
    I w' \<and> same_on n (C w') \<and> C w' 0 = put (C w 0) br data"
proof -
  note o = in_order_stores(1) [OF assms(7), of sto n] in_order_stores(2,3) [OF assms(7), of n]
  let ?res = "map (\<lambda>i. \<lparr>sbe_idx = i, sbe_sb = sized br data, sbe_err = None\<rparr>) (ord [0..<n])"
  obtain w' where w': "uploads (map sto [0..<n]) (ord [0..<n]) br data w = Ret (?res, w')" "I w'"
    "C w' = (\<lambda>i. if i \<in> set (ord [0..<n]) then put (C w i) br data else C w i)"
    using uploads_good [OF assms(1) _ assms(4,5), of "ord [0..<n]"] o(2) by blast
  have unat: "unat (of_nat (length data) :: u32) = length data" using assms(5) by (simp add: MaxBlobSize_def unat_of_nat)
  have ok: "upload_ok (int (length data)) res" "sbe_sb res = sized br data" if "res \<in> set ?res" for res
    using that arg_cong [OF unat, of int] by (auto simp: upload_ok_def sized_def)
  then have "successes (int (length data)) ?res = int n" using o(3) by (simp add: successes_def)
  then have "collect (rep_minWritesForSuccess s) (int (length data)) ?res 0 None [] = Inl (sized br data)"
    using collect_ack [of 0 "rep_minWritesForSuccess s" "int (length data)" ?res None "[]"] assms(8,9) by auto
  moreover have "same_on n (C w')" "C w' 0 = put (C w 0) br data"
    using assms(2) same_on_map [OF assms(3), of "{0..<n}" "\<lambda>m. put m br data"] by (simp_all add: w'(3) o(2))
  ultimately show ?thesis using w'(1,2) assms(6) by (auto simp: replica_ReceiveBlob_def bytes_reader_def)
qed

lemma RemoveBlobs_replica:
  assumes "I w" and "0 < n" and "same_on n (C w)" and "rep_replicas s = map sto [0..<n]" and "\<forall>xs. mset (ord xs) = mset xs"
  shows "\<exists>w'. replica_RemoveBlobs ord s brs w = Ret (None, w') \<and> I w' \<and> same_on n (C w') \<and>
    C w' 0 = C w 0 |` (- set brs)"
proof -
  note o = in_order_stores(1) [OF assms(5), of sto n] in_order_stores(2,3) [OF assms(5), of n]
  obtain w' where w': "replica_removes (map sto (ord [0..<n])) brs w = Ret (replicate n None, w')" "I w'"
    "C w' = (\<lambda>i. if i \<in> {0..<n} then C w i |` (- set brs) else C w i)"
    using removes_good [OF assms(1), of "ord [0..<n]" brs] o(2,3) by auto
  have "same_on n (C w')" "C w' 0 = C w 0 |` (- set brs)"
    using assms(2) same_on_map [OF assms(3), of "{0..<n}" "\<lambda>m. m |` (- set brs)"] by (simp_all add: w'(3))
  then show ?thesis using w'(1,2) assms(2,4) o(1) by (simp add: replica_RemoveBlobs_def)
qed

lemma StatBlobs_replica:
  assumes "I w" and "0 < n" and "same_on n (C w)" and "rep_readReplicas s = map sto [0..<n]"
    and "\<forall>xs. mset (ord xs) = mset xs" and "\<forall>xss. set (mix xss) = set (concat xss)"
  shows "\<exists>w' out. replica_StatBlobs ord mix s brs w = Ret ((out, None), w') \<and>
    set out = set (stat_spec (C w 0) brs) \<and> I w' \<and> C w' = C w"
proof -
  note o = in_order_stores(1) [OF assms(5), of sto n] in_order_stores(2,3) [OF assms(5), of n]
  let ?outs = "map (\<lambda>i. stat_spec (C w i) brs) (ord [0..<n])"
  have same: "C w i = C w 0" if "i \<in> set (ord [0..<n])" for i
    using same_onD [OF assms(3), of i] that o(2) by auto
  have outs: "?outs = map (\<lambda>i. stat_spec (C w 0) brs) (ord [0..<n])"
    by (intro map_cong refl arg_cong2 [of _ _ _ _ stat_spec] same)
  have "set (concat (map (\<lambda>i. stat_spec (C w 0) brs) (ord [0..<n]))) = (\<Union>i \<in> {0..<n}. set (stat_spec (C w 0) brs))"
    by (simp add: o(2))
  then have m: "set (mix ?outs) = set (stat_spec (C w 0) brs)" using assms(2) unfolding spec [OF assms(6)] outs by auto
  have r: "sr_Ref x \<in> set brs" if "x \<in> set (stat_spec (C w 0) brs)" for x
    using that by (auto simp: in_stat_spec sized_def)
  have "set (fst (need_filter (remdups brs) (mix ?outs))) = {x \<in> set (mix ?outs). sr_Ref x \<in> set (remdups brs)}"
    by (rule need_filter_set) (auto simp: m in_stat_spec sized_def)
  also have "\<dots> = set (stat_spec (C w 0) brs)" by (auto simp: m r)
  finally show ?thesis
    using stats_good [OF assms(1), of "ord [0..<n]" brs] o(1-3) assms(4)
    by (auto simp: replica_StatBlobs_def last_err_None split: prod.split)
qed

end

section \<open>Replicas of memory storages\<close>

definition replica_J :: "(nat list \<Rightarrow> nat list) \<Rightarrow> (SizedRef list list \<Rightarrow> SizedRef list) \<Rightarrow> nat \<Rightarrow> (nat \<Rightarrow> memsto) replicaStorage \<Rightarrow> (nat \<Rightarrow> memsto) \<Rightarrow> bool" where
  "replica_J ord mix n s w \<longleftrightarrow> mem_I w \<and> same_on n (mem_C w) \<and> 0 < n \<and>
     rep_replicas s = map mem_at [0..<n] \<and> rep_readReplicas s = map mem_at [0..<n] \<and>
     1 \<le> rep_minWritesForSuccess s \<and> rep_minWritesForSuccess s \<le> int n \<and>
     (\<forall>xs. mset (ord xs) = mset xs) \<and> (\<forall>xss. set (mix xss) = set (concat xss))"

text \<open>
  C38 [replica_unreachable].  If more writes are required than there are replicas, all replicas store the blob
  and \<open>ReceiveBlob\<close> then returns no error but the zero sized reference, though the
  acknowledgement count was never reached.
\<close>

theorem replica_unreachable_quorum:
  assumes "mem_I w" and "br = SHA1FromBytes data" and "length data \<le> MaxBlobSize" and "\<forall>xs. mset (ord xs) = mset xs"
    and "rep_replicas s = map mem_at [0..<n]" and "int n < rep_minWritesForSuccess s"
  shows "\<exists>w'. replica_ReceiveBlob ord s br (bytes_reader data) w = Ret ((zeroSizedRef, None, ReadToEnd), w') \<and>
    (\<forall>i < n. mem_C w' i = put (mem_C w i) br data)"
proof -
  note o = in_order_stores(2,3) [OF assms(4), of n]
  let ?res = "map (\<lambda>i. \<lparr>sbe_idx = i, sbe_sb = sized br data, sbe_err = None\<rparr>) (ord [0..<n])"
  obtain w' where w': "uploads (map mem_at [0..<n]) (ord [0..<n]) br data w = Ret (?res, w')"
    "mem_C w' = (\<lambda>i. if i \<in> set (ord [0..<n]) then put (mem_C w i) br data else mem_C w i)"
    using mems.uploads_good [OF assms(1) _ assms(2,3), of "ord [0..<n]" n] o(1) by auto
  have "unat (of_nat (length data) :: u32) = length data" using assms(3) by (simp add: MaxBlobSize_def unat_of_nat)
  from arg_cong [OF this, of int] have "successes (int (length data)) ?res = int n"
    using o(2) by (simp add: successes_def upload_ok_def sized_def)
  then obtain fails where c: "collect (rep_minWritesForSuccess s) (int (length data)) ?res 0 None [] = Inr (None, fails)"
    using collect_fail [of 0 "int (length data)" ?res "rep_minWritesForSuccess s" None "[]"] o(2) assms(6) by auto
  have "fails = []" using collect_none [OF c] by simp
  then show ?thesis using w' c o(1) assms(5) by (auto simp: replica_ReceiveBlob_def bytes_reader_def)
qed

theorem replica_unreachable_quorum_witness:
  "\<exists>w'. replica_ReceiveBlob rev ((replica_NewForTest [mem_at 0])\<lparr>rep_minWritesForSuccess := 2\<rparr>) (SHA1FromBytes [1]) (bytes_reader [1])
      (\<lambda>_. mem_New) = Ret ((zeroSizedRef, None, ReadToEnd), w')"
proof -
  let ?s = "(replica_NewForTest [mem_at 0])\<lparr>rep_minWritesForSuccess := 2\<rparr>"
  have "mem_I (\<lambda>_. mem_New)" by (simp add: mem_I_def mem_inv_def mem_New_def blobs_ok_def)
  moreover have "rep_replicas ?s = map mem_at [0..<1]" "int 1 < rep_minWritesForSuccess ?s"
    by (simp_all add: replica_NewForTest_def Let_def)
  ultimately show ?thesis
    using replica_unreachable_quorum [of "\<lambda>_. mem_New" "SHA1FromBytes [1]" "[1]" rev ?s 1] by (simp add: MaxBlobSize_def) blast
qed

interpretation mem_replica: blob_store "replica_Fetch s" "replica_ReceiveBlob ord s" "replica_StatBlobs ord mix s"
  "replica_RemoveBlobs ord s" "\<lambda>w. mem_C w 0" "replica_J ord mix n s" ref_Valid UNIV for n ord mix s
proof (unfold_locales, goal_cases)
  case (1 w br)
  then show ?case using mems.Fetch_replica [of w n s br] by (fastforce simp: replica_J_def)
next
  case (2 w br data)
  then show ?case using mems.ReceiveBlob_replica [of w n br data s ord] by (fastforce simp: replica_J_def)
next
  case (3 w brs)
  then show ?case using mems.StatBlobs_replica [of w n s ord mix brs] by (fastforce simp: replica_J_def)
next
  case (4 w brs)
  then show ?case using mems.RemoveBlobs_replica [of w n s ord brs] by (fastforce simp: replica_J_def)
qed



end
