(* ===== verification/JsonEval.thy ===== *)
theory JsonEval
  imports JsonConfig
begin

text \<open>
  Expansion of configuration files (\<open>pkg/jsonconfig/eval.go\<close>): \<open>_env\<close> and \<open>_fileobj\<close>
  expressions, registered functions, and nested includes with the detection of cycles.
\<close>

section \<open>Environment and state\<close>

text \<open>
  What the parser reads from outside: the decoded contents of files (opening and JSON decoding
  in one step), which paths exist, path arithmetic, environment variables, the platform, and
  the registered functions.
\<close>

record cenv =
  e_file :: "string \<Rightarrow> goerr + Obj"
  e_stat :: "string \<Rightarrow> bool"
  e_abs :: "string \<Rightarrow> string option"
  e_join :: "string \<Rightarrow> string \<Rightarrow> string"
  e_configDir :: string
  e_getenv :: "string \<Rightarrow> string"
  e_windows :: bool
  e_regFunc :: "string \<Rightarrow> (jval list \<Rightarrow> goerr + jval) option"

record ConfigParser =
  cp_touchedFiles :: "string list"
  cp_includeStack :: "string list"

definition sv_Push :: "string \<Rightarrow> ConfigParser \<Rightarrow> ConfigParser" where
  "sv_Push s c = c\<lparr>cp_includeStack := cp_includeStack c @ [s]\<rparr>"

definition sv_Pop :: "ConfigParser \<Rightarrow> ConfigParser outcome" where
  "sv_Pop c = (if cp_includeStack c = [] then Panic ''slice bounds out of range''
               else Ret (c\<lparr>cp_includeStack := butlast (cp_includeStack c)\<rparr>))"

definition sv_Last :: "ConfigParser \<Rightarrow> string outcome" where
  "sv_Last c = (if cp_includeStack c = [] then Panic ''index out of range'' else Ret (last (cp_includeStack c)))"

section \<open>Environment variables\<close>

text \<open>The pattern \<open>\${[A-Za-z0-9_]+}\<close>: the variable name and the rest, if the string starts with a match.\<close>

definition env_char :: "char \<Rightarrow> bool" where
  "env_char c \<longleftrightarrow> (CHR ''A'' \<le> c \<and> c \<le> CHR ''Z'') \<or> (CHR ''a'' \<le> c \<and> c \<le> CHR ''z'') \<or>
     (CHR ''0'' \<le> c \<and> c \<le> CHR ''9'') \<or> c = CHR ''_''"

definition env_match :: "string \<Rightarrow> (string \<times> string) option" where
  "env_match s =
     (if take 2 s = ''${'' then
        let name = takeWhile env_char (drop 2 s); rest = dropWhile env_char (drop 2 s)
        in case rest of
             CHR ''}'' # r \<Rightarrow> if name = [] then None else Some (name, r)
           | _ \<Rightarrow> None
      else None)"

lemma env_match_shorter: "env_match s = Some (name, r) \<Longrightarrow> length r < length s"
proof -
  assume m: "env_match s = Some (name, r)"
  have "length (dropWhile env_char (drop 2 s)) \<le> length (drop 2 s)" by (rule length_dropWhile_le)
  with m show ?thesis
    by (auto simp: env_match_def Let_def split: if_splits list.splits char.splits bool.splits)
qed

definition env_value :: "cenv \<Rightarrow> string \<Rightarrow> string" where
  "env_value env envVar =
     (let v = e_getenv env envVar
      in if v = [] \<and> envVar = ''USER'' \<and> e_windows env then e_getenv env ''USERNAME'' else v)"

text \<open>\<open>ReplaceAllStringFunc\<close> with the closure of \<open>expandEnv\<close>; the second component is its \<open>err\<close>.\<close>

function env_replace :: "cenv \<Rightarrow> string option \<Rightarrow> string \<Rightarrow> goerr option \<Rightarrow> string \<times> goerr option" where
  "env_replace env dflt s err =
     (case env_match s of
        Some (name, r) \<Rightarrow>
          (let v = env_value env name;
               (sub, err) = (if v = [] then (case dflt of Some d \<Rightarrow> (d, err) | None \<Rightarrow> (v, Some (ErrText ''couldn't expand environment variable'')))
                             else (v, err));
               (t, err) = env_replace env dflt r err
           in (sub @ t, err))
      | None \<Rightarrow>
          (case s of
             [] \<Rightarrow> ([], err)
           | c # s' \<Rightarrow> let (t, err) = env_replace env dflt s' err in (c # t, err)))"
  by pat_completeness auto
termination
  by (relation "measure (\<lambda>(env, d, s, e). length s)") (auto dest: env_match_shorter)

declare env_replace.simps [simp del]

definition expandEnv :: "cenv \<Rightarrow> jval list \<Rightarrow> goerr + jval" where
  "expandEnv env v =
     (if length v < 1 \<or> length v > 2 then Inl (ErrText ''_env expansion expected 1 or 2 args'')
      else case v ! 0 of
        JStr s \<Rightarrow>
          (let dflt = (if length v = 2 then
                         (case v ! 1 of
                            JStr d \<Rightarrow> Inr (Some d, None)
                          | JBool b \<Rightarrow> Inr (Some [], Some b)
                          | _ \<Rightarrow> Inl (ErrText ''Expected default value in _env expansion''))
                       else Inr (None, None))
           in case dflt of
                Inl e \<Rightarrow> Inl e
              | Inr (d, wantsBool) \<Rightarrow>
                  (let (expanded, err) = env_replace env d s None
                   in case wantsBool of
                        Some boolDefault \<Rightarrow>
                          if expanded = [] then Inr (JBool boolDefault)
                          else (let (b, e) = ParseBool expanded in case e of None \<Rightarrow> Inr (JBool b) | Some e \<Rightarrow> Inl e)
                      | None \<Rightarrow> (case err of None \<Rightarrow> Inr (JStr expanded) | Some e \<Rightarrow> Inl e)))
      | _ \<Rightarrow> Inl (ErrText ''Expected a string after _env expansion''))"

section \<open>Includes\<close>

text \<open>\<open>osutil.FindCamliInclude\<close>.\<close>

fun split_on :: "char \<Rightarrow> string \<Rightarrow> string list" where
  "split_on c [] = [[]]"
| "split_on c (x # xs) =
     (if x = c then [] # split_on c xs
      else case split_on c xs of p # ps \<Rightarrow> (x # p) # ps | [] \<Rightarrow> [[x]])"

definition FindCamliInclude :: "cenv \<Rightarrow> string \<Rightarrow> string option" where
  "FindCamliInclude env configFile =
     (if e_stat env configFile then Some configFile
      else if take 1 configFile = ''/'' then None
      else if e_stat env (e_join env (e_configDir env) configFile) then Some (e_join env (e_configDir env) configFile)
      else find (e_stat env) (map (\<lambda>d. e_join env d configFile) (split_on CHR '':'' (e_getenv env ''CAMLI_INCLUDE_PATH''))))"

text \<open>
  The mutually recursive evaluation.  The number bounds the depth of includes, 0 standing for a
  reader that is still busy; every cycle is detected before that, as shown below, if it is
  larger than the number of files.  \<open>evalObj\<close> is the loop of \<open>evaluateExpressions\<close>: in a test-only
  run a list that is not itself an expression is still changed in place.
\<close>

type_synonym 'a eres = "((goerr + 'a) \<times> ConfigParser) outcome"

definition is_expander :: "cenv \<Rightarrow> jval list \<Rightarrow> bool" where
  "is_expander env sl =
     (case sl of
        JStr name # _ \<Rightarrow> name = ''_env'' \<or> name = ''_fileobj'' \<or> e_regFunc env name \<noteq> None
      | _ \<Rightarrow> False)"

function (sequential)
  evalValue :: "cenv \<Rightarrow> nat \<Rightarrow> jval \<Rightarrow> ConfigParser \<Rightarrow> jval eres"
  and evalElems :: "cenv \<Rightarrow> nat \<Rightarrow> jval list \<Rightarrow> ConfigParser \<Rightarrow> (jval list) eres"
  and evalObj :: "cenv \<Rightarrow> nat \<Rightarrow> bool \<Rightarrow> Obj \<Rightarrow> ConfigParser \<Rightarrow> Obj eres"
  and readJSON :: "cenv \<Rightarrow> nat \<Rightarrow> string \<Rightarrow> ConfigParser \<Rightarrow> Obj eres"
where
  "evalValue env n (JList []) c = Panic ''index out of range''"
| "evalValue env n (JList (v0 # rest)) c =
     (if is_expander env (v0 # rest) then
        (case v0 of
           JStr name \<Rightarrow>
             if name = ''_env'' then Ret (expandEnv env rest, c)
             else if name = ''_fileobj'' then
               (case rest of
                  [JStr p] \<Rightarrow>
                    (case FindCamliInclude env p of
                       None \<Rightarrow> Ret (Inl (ErrText ''Included config does not exist''), c)
                     | Some incPath \<Rightarrow>
                         obind (readJSON env n incPath c) (\<lambda>(r, c).
                           case r of
                             Inr m \<Rightarrow> Ret (Inr (JObj m), c)
                           | Inl e \<Rightarrow> obind (sv_Last c) (\<lambda>_. Ret (Inl (ErrText ''In file included from''), c))))
                | [_] \<Rightarrow> Panic ''interface conversion''
                | _ \<Rightarrow> Ret (Inl (ErrText ''_file expansion expected 1 arg''), c))
             else (case e_regFunc env name of Some f \<Rightarrow> Ret (f rest, c) | None \<Rightarrow> Hang)
         | _ \<Rightarrow> Hang)
      else
        obind (evalElems env n (v0 # rest) c) (\<lambda>(r, c).
          Ret (case r of Inl e \<Rightarrow> Inl e | Inr vs \<Rightarrow> Inr (JList vs), c)))"
| "evalValue env n v c = Ret (Inr v, c)"

| "evalElems env n [] c = Ret (Inr [], c)"
| "evalElems env n (v # vs) c =
     obind (evalValue env n v c) (\<lambda>(r, c).
       case r of
         Inl e \<Rightarrow> Ret (Inl e, c)
       | Inr v' \<Rightarrow>
           obind (evalElems env n vs c) (\<lambda>(r, c).
             Ret (case r of Inl e \<Rightarrow> Inl e | Inr vs' \<Rightarrow> Inr (v' # vs'), c)))"

| "evalObj env n testOnly [] c = Ret (Inr [], c)"
| "evalObj env n testOnly ((k, ei) # m) c =
     (let more = (\<lambda>v c. obind (evalObj env n testOnly m c) (\<lambda>(r, c).
                     Ret (case r of Inl e \<Rightarrow> Inl e | Inr m' \<Rightarrow> Inr ((k, v) # m'), c)))
      in case ei of
           JStr _ \<Rightarrow> more ei c
         | JBool _ \<Rightarrow> more ei c
         | JNum _ \<Rightarrow> more ei c
         | JNil \<Rightarrow> more ei c
         | JList subval \<Rightarrow>
             if subval = [] then more ei c
             else
               obind (evalValue env n (JList subval) c) (\<lambda>(r, c).
                 case r of
                   Inl e \<Rightarrow> Ret (Inl (ErrText '': value error''), c)
                 | Inr evaled \<Rightarrow> more (if testOnly \<and> is_expander env subval then ei else evaled) c)
         | JObj subval \<Rightarrow>
             obind (evalObj env n testOnly subval c) (\<lambda>(r, c).
               case r of
                 Inl e \<Rightarrow> Ret (Inl e, c)
               | Inr sub' \<Rightarrow> more (JObj sub') c)
         | _ \<Rightarrow> Ret (Inl (ErrText '': unhandled type''), c))"

| "readJSON env 0 configPath c = Hang"
| "readJSON env (Suc n) configPath c =
     (let body = (\<lambda>c.
            case e_file env configPath of
              Inl err \<Rightarrow> Ret (Inl (ErrText ''Failed to open config or error parsing JSON object''), c)
            | Inr decodedObject \<Rightarrow>
                obind (evalObj env n False decodedObject c) (\<lambda>(r, c).
                  Ret (case r of Inl e \<Rightarrow> Inl (ErrText ''error expanding JSON config expressions'') | Inr m \<Rightarrow> Inr m, c)))
      in if configPath \<noteq> [] then
           (case e_abs env configPath of
              None \<Rightarrow> Ret (Inl (ErrText ''Failed to expand absolute path''), c)
            | Some absConfigPath \<Rightarrow>
                if absConfigPath \<in> set (cp_touchedFiles c)
                then Ret (Inl (ErrText ''ConfigParser include cycle detected reading config''), c)
                else
                  obind (body (sv_Push absConfigPath (c\<lparr>cp_touchedFiles := absConfigPath # cp_touchedFiles c\<rparr>)))
                    (\<lambda>(r, c). obind (sv_Pop c) (\<lambda>c. Ret (r, c))))
         else body c)"
  by pat_completeness auto
termination
  by (relation "measures [case_sum (case_sum (\<lambda>(e, n, v, c). n) (\<lambda>(e, n, v, c). n)) (case_sum (\<lambda>(e, n, t, m, c). n) (\<lambda>(e, n, p, c). n)),
      case_sum (case_sum (\<lambda>(e, n, v, c). size v) (\<lambda>(e, n, vs, c). size_list size vs)) (case_sum (\<lambda>(e, n, t, m, c). size_list (size_prod (\<lambda>_. 0) size) m) (\<lambda>(e, n, p, c). 0))]")
    auto

text \<open>The functions of the source, one by one, as members of the mutual recursion.\<close>

definition evaluateExpressions :: "cenv \<Rightarrow> nat \<Rightarrow> Obj \<Rightarrow> bool \<Rightarrow> ConfigParser \<Rightarrow> Obj eres" where
  "evaluateExpressions env n m testOnly c = evalObj env n testOnly m c"

definition recursiveReadJSON :: "cenv \<Rightarrow> nat \<Rightarrow> string \<Rightarrow> ConfigParser \<Rightarrow> Obj eres" where
  "recursiveReadJSON env n configPath c = readJSON env n configPath c"

definition CheckTypes :: "cenv \<Rightarrow> nat \<Rightarrow> Obj \<Rightarrow> ConfigParser \<Rightarrow> Obj eres" where
  "CheckTypes env n m c = evaluateExpressions env n m True c"

definition ReadFile :: "cenv \<Rightarrow> nat \<Rightarrow> bool \<Rightarrow> string \<Rightarrow> ConfigParser \<Rightarrow> Obj eres" where
  "ReadFile env n has_open path c =
     (if path = [] \<and> \<not> has_open then Ret (Inl (ErrText ''ReadFile of empty string but Open hook not defined''), c)
      else recursiveReadJSON env n path (c\<lparr>cp_touchedFiles := []\<rparr>))"

section \<open>Includes end\<close>

text \<open>The files not yet read, among a finite set of absolute paths.\<close>

definition fresh :: "string set \<Rightarrow> ConfigParser \<Rightarrow> nat" where
  "fresh F c = card (F - set (cp_touchedFiles c))"

definition ext :: "ConfigParser \<Rightarrow> ConfigParser \<Rightarrow> bool" where
  "ext c c' \<longleftrightarrow> set (cp_touchedFiles c) \<subseteq> set (cp_touchedFiles c') \<and> cp_includeStack c' = cp_includeStack c"

text \<open>A result that came back, with the parser state only extended.\<close>

definition good :: "ConfigParser \<Rightarrow> 'a eres \<Rightarrow> bool" where
  "good c x \<longleftrightarrow> x \<noteq> Hang \<and> (\<forall>r c'. x = Ret (r, c') \<longrightarrow> ext c c')"

lemma ext_refl [simp]: "ext c c"
  by (simp add: ext_def)

lemma ext_trans: "ext a b \<Longrightarrow> ext b c \<Longrightarrow> ext a c"
  by (auto simp: ext_def)

lemma good_Ret [simp]: "good c (Ret (r, c))" and good_Panic [simp]: "good c (Panic m)"
  by (simp_all add: good_def)

lemma fresh_ext: "finite F \<Longrightarrow> ext c c' \<Longrightarrow> fresh F c' \<le> fresh F c"
  unfolding fresh_def ext_def by (intro card_mono) auto

lemma good_bind:
  assumes "good c x" and "\<And>r c'. x = Ret (r, c') \<Longrightarrow> ext c c' \<Longrightarrow> good c' (f (r, c'))"
  shows "good c (obind x f)"
proof (cases x)
  case (Ret a)
  obtain r c' where a: "a = (r, c')" by (cases a)
  have "ext c c'" "good c' (f (r, c'))" using assms Ret a by (auto simp: good_def)
  then show ?thesis using Ret a ext_trans by (auto simp: good_def)
qed (use assms(1) in \<open>auto simp: good_def\<close>)

lemma FindCamliInclude_stat: "FindCamliInclude env p = Some q \<Longrightarrow> e_stat env q"
  by (auto simp: FindCamliInclude_def find_Some_iff split: if_splits)

lemma good_map: "good c x \<Longrightarrow> good c (obind x (\<lambda>(r, c). Ret (g r, c)))"
  by (rule good_bind) simp_all

lemma good_pop:
  assumes "good (sv_Push q (c\<lparr>cp_touchedFiles := q # cp_touchedFiles c\<rparr>)) x"
  shows "good c (obind x (\<lambda>(r, c). obind (sv_Pop c) (\<lambda>c. Ret (r, c))))"
proof (cases x)
  case (Ret a)
  obtain r c' where a: "a = (r, c')" by (cases a)
  have "ext (sv_Push q (c\<lparr>cp_touchedFiles := q # cp_touchedFiles c\<rparr>)) c'" using assms Ret a by (auto simp: good_def)
  then have "cp_includeStack c' = cp_includeStack c @ [q]" "set (cp_touchedFiles c) \<subseteq> set (cp_touchedFiles c')"
    by (auto simp: ext_def sv_Push_def)
  then show ?thesis using Ret a by (simp add: good_def sv_Pop_def ext_def)
qed (use assms in \<open>auto simp: good_def\<close>)

text \<open>Absolute paths come from a finite set, and the empty path does not exist.\<close>

definition env_ok :: "string set \<Rightarrow> cenv \<Rightarrow> bool" where
  "env_ok F env \<longleftrightarrow> finite F \<and> (\<forall>p q. e_abs env p = Some q \<longrightarrow> q \<in> F) \<and> \<not> e_stat env []"

lemma eval_good:
  shows "env_ok F env \<Longrightarrow> fresh F c < n \<Longrightarrow> good c (evalValue env n v c)"
    and "env_ok F env \<Longrightarrow> fresh F c < n \<Longrightarrow> good c (evalElems env n vs c)"
    and "env_ok F env \<Longrightarrow> fresh F c < n \<Longrightarrow> good c (evalObj env n t m c)"
    and "env_ok F env \<Longrightarrow> fresh F c + (if p = [] then 1 else 0) < n \<Longrightarrow> good c (readJSON env n p c)"
proof (induction env n v c and env n vs c and env n t m c and env n p c
    rule: evalValue_evalElems_evalObj_readJSON.induct)
  case (2 env n v0 rest c)
  show ?case
  proof (cases "is_expander env (v0 # rest)")
    case False
    then show ?thesis using 2 by (simp del: evalElems.simps) (intro good_map)
  next
    case True
    then obtain name where v0: "v0 = JStr name" by (auto simp: is_expander_def split: jval.splits)
    show ?thesis
    proof (cases "name = ''_fileobj''")
      case name: True
      show ?thesis
      proof (cases "\<exists>p q. rest = [JStr p] \<and> FindCamliInclude env p = Some q")
        case True
        then obtain p q where pq: "rest = [JStr p]" "FindCamliInclude env p = Some q" by blast
        have "q \<noteq> []" using FindCamliInclude_stat [OF pq(2)] 2(3) by (auto simp: env_ok_def)
        then have "good c (readJSON env n q c)" using 2 v0 name pq \<open>is_expander env (v0 # rest)\<close> by simp
        then show ?thesis using v0 name pq \<open>is_expander env (v0 # rest)\<close>
          by (auto intro!: good_bind split: sum.split simp: sv_Last_def)
      next
        case False
        then show ?thesis using v0 name \<open>is_expander env (v0 # rest)\<close>
          by (auto split: list.split jval.split option.split)
      qed
    next
      case False
      then show ?thesis using v0 True by (auto simp: is_expander_def split: option.split)
    qed
  qed
next
  case (5 env n v vs c)
  have "good c' (evalElems env n vs c')" if "evalValue env n v c = Ret (Inr v', c')" "ext c c'" for v' c'
    using 5(2) [OF that(1) refl refl 5(3)] fresh_ext [OF _ that(2), of F] 5(3,4) by (simp add: env_ok_def)
  then show ?case using 5(1,3,4) by (auto intro!: good_bind good_map split: sum.split)
next
  case (7 env n t k ei m c)
  have later: "fresh F c' < n" if "ext c c'" for c'
    using fresh_ext [OF _ that, of F] 7(4,5) by (simp add: env_ok_def)
  have more: "good c' (obind (evalObj env n t m c') (\<lambda>(r, c). Ret (case r of Inl e \<Rightarrow> Inl e | Inr m' \<Rightarrow> Inr ((k, v) # m'), c)))"
    if "ext c c'" for c' v
    using 7(1) [OF 7(4) later [OF that]] by (intro good_map)
  show ?case
  proof (cases ei)
    case (JList l)
    have "good c (evalValue env n (JList l) c)" if "l \<noteq> []" using 7(2) [OF refl JList that 7(4,5)] .
    then show ?thesis using JList more by (auto intro!: good_bind split: sum.split simp del: evalValue.simps)
  next
    case (JObj ob)
    have "good c (evalObj env n t ob c)" using 7(3) [OF refl JObj 7(4,5)] .
    then show ?thesis using JObj more by (auto intro!: good_bind split: sum.split)
  qed (use more in auto)
next
  case (9 env n p c)
  let ?body = "\<lambda>c'. case e_file env p of
      Inl err \<Rightarrow> Ret (Inl (ErrText ''Failed to open config or error parsing JSON object''), c')
    | Inr m \<Rightarrow> obind (evalObj env n False m c') (\<lambda>(r, c). Ret (case r of Inl e \<Rightarrow> Inl (ErrText ''error expanding JSON config expressions'') | Inr m \<Rightarrow> Inr m, c))"
  have body: "good c' (?body c')" if "fresh F c' < n" for c'
    using 9(1) [OF _ 9(2) that] by (auto split: sum.split intro: good_map)
  show ?case
  proof (cases "p = []")
    case True
    then show ?thesis using body 9(3) by simp
  next
    case False
    show ?thesis
    proof (cases "\<exists>q. e_abs env p = Some q \<and> q \<notin> set (cp_touchedFiles c)")
      case True
      then obtain q where q: "e_abs env p = Some q" "q \<notin> set (cp_touchedFiles c)" by blast
      let ?c1 = "sv_Push q (c\<lparr>cp_touchedFiles := q # cp_touchedFiles c\<rparr>)"
      have "q \<in> F" "finite F" using q(1) 9(2) by (auto simp: env_ok_def)
      moreover have "F - set (cp_touchedFiles ?c1) = (F - set (cp_touchedFiles c)) - {q}" by (auto simp: sv_Push_def)
      ultimately have "fresh F ?c1 < fresh F c" using q(2) unfolding fresh_def by (simp only:) (intro card_Diff1_less, auto)
      then have "good ?c1 (?body ?c1)" using body 9(3) False by simp
      then have "good c (obind (?body ?c1) (\<lambda>(r, c). obind (sv_Pop c) (\<lambda>c. Ret (r, c))))" by (rule good_pop)
      then show ?thesis using False q by (simp add: Let_def)
    next
      case no: False
      then show ?thesis using False by (cases "e_abs env p") auto
    qed
  qed
qed simp_all


text \<open>An example environment: two files that include each other, and the file system around them.\<close>

definition loop_env :: cenv where
  "loop_env = \<lparr>e_file = (\<lambda>p. if p = ''/a'' then Inr [(''x'', JList [JStr ''_fileobj'', JStr ''/b''])]
                     else if p = ''/b'' then Inr [(''y'', JList [JStr ''_fileobj'', JStr ''/a''])]
                     else if p = ''/d'' then Inr [(''x'', JList [JStr ''_fileobj'', JStr ''/e'']), (''y'', JList [JStr ''_fileobj'', JStr ''/e''])]
                     else if p = ''/e'' then Inr [(''z'', JNil)]
                     else if p = [] then Inr [(''x'', JList [JStr ''_fileobj'', JStr ''/f''])]
                     else Inl ErrNotExist),
     e_stat = (\<lambda>p. p \<in> {''/a'', ''/b'', ''/d'', ''/e'', ''/f''}),
     e_abs = (\<lambda>p. if p \<in> {''/a'', ''/b'', ''/d'', ''/e'', ''/f''} then Some p else None),
     e_join = (\<lambda>a b. a @ ''/'' @ b), e_configDir = ''/config'', e_getenv = (\<lambda>_. []), e_windows = False,
     e_regFunc = (\<lambda>_. None)\<rparr>"


text \<open>
  Corners of the expansion: a file included twice, without any cycle, is refused as an
  include cycle; an empty list inside a list panics; and when the root configuration came
  from the \<open>Open\<close> hook, a failing include panics instead of reporting its error.
\<close>

theorem config_expansion_corners:
  "ReadFile loop_env 7 False ''/d'' \<lparr>cp_touchedFiles = [], cp_includeStack = []\<rparr> =
     Ret (Inl (ErrText ''error expanding JSON config expressions''),
          \<lparr>cp_touchedFiles = [''/e'', ''/d''], cp_includeStack = []\<rparr>) \<and>
   evaluateExpressions loop_env n [(''k'', JList [JList []])] False c = Panic ''index out of range'' \<and>
   ReadFile loop_env 7 True [] \<lparr>cp_touchedFiles = [], cp_includeStack = []\<rparr> = Panic ''index out of range''"
proof (intro conjI)
  show "evaluateExpressions loop_env n [(''k'', JList [JList []])] False c = Panic ''index out of range''"
    by (simp add: evaluateExpressions_def is_expander_def)
qed code_simp+

end
