(* ===== verification/Namespace.thy ===== *)
theory Namespace
  imports MemStorage BlobStore SortedBuffer Strutil JsonConfig
begin

text \<open>
  Package \<open>pkg/blobserver/namespace\<close>: a view of a master storage restricted to the blobs received through
  it, which are recorded with their sizes in a sorted key/value store, the inventory.
\<close>

section \<open>Operations\<close>

record 'w nsto =
  ns_inventory :: "'w KeyValue"
  ns_master :: "'w Storage"

text \<open>\<open>nkv\<close> is \<open>sorted.NewKeyValue\<close>, \<open>ld\<close> is \<open>Loader.GetStorage\<close>.\<close>

definition ns_newFromConfig :: "(Obj \<Rightarrow> goerr + 'w KeyValue) \<Rightarrow> (string \<Rightarrow> goerr + 'w Storage) \<Rightarrow> Obj \<Rightarrow> (goerr + 'w nsto) outcome" where
  "ns_newFromConfig nkv ld config =
     obind (RequiredObject ''inventory'' config) (\<lambda>(invConf, config).
     obind (RequiredString ''storage'' config) (\<lambda>(masterName, config).
     obind (Validate config) (\<lambda>(err, _).
       Ret (case err of
              Some e \<Rightarrow> Inl e
            | None \<Rightarrow>
                (case nkv invConf of
                   Inl e \<Rightarrow> Inl (ErrText ''Invalid 'inventory' configuration'')
                 | Inr kv \<Rightarrow>
                     (case ld masterName of
                        Inl e \<Rightarrow> Inl (ErrText ''Invalid 'storage' configuration'')
                      | Inr sto \<Rightarrow> Inr \<lparr>ns_inventory = kv, ns_master = sto\<rparr>))))))"

text \<open>The enumeration loop; entries that do not parse are skipped and not counted.\<close>

function ns_enum_loop :: "ctx \<Rightarrow> string \<Rightarrow> bool \<Rightarrow> Iterator \<Rightarrow> int \<Rightarrow> nat \<Rightarrow> SizedRef list \<times> goerr option" where
  "ns_enum_loop ctx after first it limit n =
     (if limit > 0 then
        if fst (it_Next it) then
          let it' = snd (it_Next it)
          in if first \<and> after \<noteq> [] \<and> it_Key it' = after then ns_enum_loop ctx after False it' limit n
             else
               let (br, ok) = ParseBytes (bytes_of_string (it_Key it'));
                   (sz, err) = ParseUintBytes (bytes_of_string (it_Value it')) 10 32
               in if \<not> ok \<or> err \<noteq> None then ns_enum_loop ctx after False it' limit n
                  else if ctx = Some n then ([], Some ErrCanceled)
                  else
                    let (sbs, e) = ns_enum_loop ctx after False it' (limit - 1) (n + 1)
                    in (\<lparr>sr_Ref = br, sr_Size = ucast sz\<rparr> # sbs, e)
        else ([], it_Close (snd (it_Next it)))
      else ([], it_Close it))"
  by pat_completeness auto
termination
  by (relation "measure (\<lambda>(ctx, after, first, it, limit, n). length (it_rest it))")
    (auto simp: it_Next_def split: list.splits)

declare ns_enum_loop.simps [simp del]

definition ns_EnumerateBlobs :: "'w nsto \<Rightarrow> ctx \<Rightarrow> string \<Rightarrow> int \<Rightarrow> 'w \<Rightarrow> (SizedRef list \<times> goerr option) outcome" where
  "ns_EnumerateBlobs ns ctx after limit w =
     Ret (ns_enum_loop ctx after True (kv_Find (ns_inventory ns) after [] w) limit 0)"

text \<open>\<open>strconv.ParseUint(s, 10, 32)\<close> agrees with \<open>ParseUintBytes\<close>, which is derived from it.\<close>

definition ns_Fetch :: "'w nsto \<Rightarrow> 'w fetcher" where
  "ns_Fetch ns br w =
     (let (invSizeStr, err) = kv_Get (ns_inventory ns) (ref_String br) w
      in if err = Some ErrNotFound then Ret ((None, 0, Some ErrNotExist), w)
         else if err \<noteq> None then Ret ((None, 0, err), w)
         else
           let (invSize, err) = ParseUintBytes (bytes_of_string invSizeStr) 10 32
           in if err \<noteq> None then Ret ((None, 0, err), w)
              else
                obind (sto_Fetch (ns_master ns) br w) (\<lambda>((rc, sz, err), w).
                  if err \<noteq> None then Ret ((rc, sz, err), w)
                  else if sz \<noteq> ucast invSize then Ret ((None, 0, Some ErrNotExist), w)
                  else Ret ((rc, sz, None), w)))"

definition ns_ReceiveBlob :: "'w nsto \<Rightarrow> Ref \<Rightarrow> reader \<Rightarrow> 'w \<Rightarrow> (recv_ret \<times> 'w) outcome" where
  "ns_ReceiveBlob ns br src w =
     (case rd_err src of
        Some e \<Rightarrow> Ret ((zeroSizedRef, Some e, ReadToEnd), w)
      | None \<Rightarrow>
          let sz = length (rd_data src)
          in if snd (kv_Get (ns_inventory ns) (ref_String br) w) = None
             then Ret ((\<lparr>sr_Ref = br, sr_Size = of_nat sz\<rparr>, None, ReadToEnd), w)
             else
               obind (sto_ReceiveBlob (ns_master ns) br (bytes_reader (rd_data src)) w) (\<lambda>((sb, err, _), w).
                 if err \<noteq> None then Ret ((sb, err, ReadToEnd), w)
                 else
                   let (err, w) = kv_Set (ns_inventory ns) (ref_String br) (itoa sz) w
                   in Ret ((sb, err, ReadToEnd), w)))"

fun ns_remove_loop :: "'w KeyValue \<Rightarrow> Ref list \<Rightarrow> 'w \<Rightarrow> goerr option \<times> 'w" where
  "ns_remove_loop kv [] w = (None, w)"
| "ns_remove_loop kv (br # brs) w =
     (let (err, w) = kv_Delete kv (ref_String br) w
      in if err \<noteq> None then (err, w) else ns_remove_loop kv brs w)"

definition ns_RemoveBlobs :: "'w nsto \<Rightarrow> Ref list \<Rightarrow> 'w \<Rightarrow> (goerr option \<times> 'w) outcome" where
  "ns_RemoveBlobs ns blobs w = Ret (ns_remove_loop (ns_inventory ns) blobs w)"

text \<open>An entry that does not parse is reported with whatever \<open>ParseUint\<close> returned.\<close>

fun ns_stat_loop :: "'w KeyValue \<Rightarrow> Ref list \<Rightarrow> 'w \<Rightarrow> SizedRef list \<times> goerr option" where
  "ns_stat_loop kv [] w = ([], None)"
| "ns_stat_loop kv (br # brs) w =
     (let (invSizeStr, err) = kv_Get kv (ref_String br) w
      in if err = Some ErrNotFound then ns_stat_loop kv brs w
         else if err \<noteq> None then ([], err)
         else
           let (invSize, _) = ParseUintBytes (bytes_of_string invSizeStr) 10 32;
               (sbs, err) = ns_stat_loop kv brs w
           in (\<lparr>sr_Ref = br, sr_Size = ucast invSize\<rparr> # sbs, err))"

definition ns_StatBlobs :: "'w nsto \<Rightarrow> Ref list \<Rightarrow> 'w \<Rightarrow> ((SizedRef list \<times> goerr option) \<times> 'w) outcome" where
  "ns_StatBlobs ns blobs w = Ret (ns_stat_loop (ns_inventory ns) blobs w, w)"

section \<open>A key/value store beside storages\<close>

text \<open>What the operations rely on: the two kinds of store do not disturb each other.\<close>

locale kv_stores =
  kv: sorted_kv kv m I + st: stores sto n C I
  for kv :: "'w KeyValue" and m :: "'w \<Rightarrow> string \<rightharpoonup> string" and I :: "'w \<Rightarrow> bool"
    and sto :: "nat \<Rightarrow> 'w Storage" and n :: nat and C :: "'w \<Rightarrow> nat \<Rightarrow> blobmap" +
  assumes Set_frame: "I w \<Longrightarrow> C (snd (kv_Set kv k v w)) = C w"
    and Delete_frame: "I w \<Longrightarrow> C (snd (kv_Delete kv k w)) = C w"
    and Fetch_frame: "I w \<Longrightarrow> i < n \<Longrightarrow> sto_Fetch (sto i) br w = Ret (r, w') \<Longrightarrow> m w' = m w"
    and Receive_frame: "I w \<Longrightarrow> i < n \<Longrightarrow> sto_ReceiveBlob (sto i) br src w = Ret (r', w') \<Longrightarrow> m w' = m w"
    and Stat_frame: "I w \<Longrightarrow> i < n \<Longrightarrow> sto_StatBlobs (sto i) brs w = Ret (r'', w') \<Longrightarrow> m w' = m w"
    and Remove_frame: "I w \<Longrightarrow> i < n \<Longrightarrow> sto_RemoveBlobs (sto i) brs w = Ret (e, w') \<Longrightarrow> m w' = m w"
    and notify_frame: "I w \<Longrightarrow> i < n \<Longrightarrow> sto_notify (sto i) sb w = Ret (e, w') \<Longrightarrow> m w' = m w"
begin

lemma SetE:
  assumes "I w"
  obtains w' where "kv_Set kv k v w = (None, w')" "I w'" "m w' = (m w)(k \<mapsto> v)" "C w' = C w"
  using kv.Set [OF assms, of k v] Set_frame [OF assms, of k v] by auto

lemma DeleteE:
  assumes "I w"
  obtains w' where "kv_Delete kv k w = (None, w')" "I w'" "m w' = (m w)(k := None)" "C w' = C w"
  using kv.Delete [OF assms, of k] Delete_frame [OF assms, of k] by auto

lemma FetchE:
  assumes "I w" and "i < n"
  obtains w' where "sto_Fetch (sto i) br w = Ret (fetch_spec (C w i) br, w')" "I w'" "m w' = m w" "C w' = C w"
  using st.Fetch [OF assms, of br] Fetch_frame [OF assms] by blast

lemma ReceiveE:
  assumes "I w" and "i < n" and "br = SHA1FromBytes data"
  obtains w' where "sto_ReceiveBlob (sto i) br (bytes_reader data) w = Ret ((sized br data, None, ReadToEnd), w')"
    "I w'" "m w' = m w" "C w' = (C w)(i := put (C w i) br data)"
  using st.ReceiveBlob [OF assms] Receive_frame [OF assms(1,2)] by blast

end

text \<open>A storage in the second component of the world, beside a key/value store in the first.\<close>

definition lift_out :: "('x \<times> 'b) outcome \<Rightarrow> 'a \<Rightarrow> ('x \<times> 'a \<times> 'b) outcome" where
  "lift_out x a = obind x (\<lambda>(r, b). Ret (r, a, b))"

definition lift_sto :: "'b Storage \<Rightarrow> ('a \<times> 'b) Storage" where
  "lift_sto s =
     \<lparr>sto_Fetch = \<lambda>br w. lift_out (sto_Fetch s br (snd w)) (fst w),
      sto_ReceiveBlob = \<lambda>br src w. lift_out (sto_ReceiveBlob s br src (snd w)) (fst w),
      sto_StatBlobs = \<lambda>brs w. lift_out (sto_StatBlobs s brs (snd w)) (fst w),
      sto_EnumerateBlobs = \<lambda>ctx after limit w. sto_EnumerateBlobs s ctx after limit (snd w),
      sto_RemoveBlobs = \<lambda>brs w. lift_out (sto_RemoveBlobs s brs (snd w)) (fst w),
      sto_notify = \<lambda>sb w. lift_out (sto_notify s sb (snd w)) (fst w)\<rparr>"

lemma lift_out_Ret: "lift_out x a = Ret (r, w') \<longleftrightarrow> (\<exists>b. x = Ret (r, b) \<and> w' = (a, b))"
  by (cases x) (auto simp: lift_out_def)

lemma stores_lift:
  assumes "stores sto n C I"
  shows "stores (\<lambda>i. lift_sto (sto i)) n (\<lambda>w. C (snd w)) (\<lambda>w. P (fst w) \<and> I (snd w))"
proof -
  show ?thesis
  proof (intro stores.intro, goal_cases)
    case (1 w i)
    then show ?case using stores.ok [OF assms] by blast
  next
    case (2 w i br)
    then show ?case using stores.Fetch [OF assms, of "snd w" i br] by (auto simp: lift_sto_def lift_out_def)
  next
    case (3 w i br data)
    then show ?case using stores.ReceiveBlob [OF assms, of "snd w" i br data] by (auto simp: lift_sto_def lift_out_def)
  next
    case (4 w i br h src e)
    then show ?case using stores.ReceiveBlob_err [OF assms, of "snd w" i br h src e] by (auto simp: lift_sto_def lift_out_def)
  next
    case (5 w i brs)
    then show ?case using stores.StatBlobs [OF assms, of "snd w" i brs] by (auto simp: lift_sto_def lift_out_def)
  next
    case (6 w i limit after)
    then show ?case using stores.EnumerateBlobs [OF assms, of "snd w" i limit after] by (simp add: lift_sto_def)
  next
    case (7 w i brs)
    then show ?case using stores.RemoveBlobs [OF assms, of "snd w" i brs] by (auto simp: lift_sto_def lift_out_def)
  next
    case (8 w i sb)
    then show ?case using stores.notify [OF assms, of "snd w" i sb] by (auto simp: lift_sto_def lift_out_def)
  qed
qed

interpretation mem_kvs: kv_stores "lift_fst memKeys" "\<lambda>w. map_of (fst w)" "\<lambda>w. mk_inv (fst w) \<and> mem_I (snd w)"
  "\<lambda>i. lift_sto (mem_at i)" n "\<lambda>w. mem_C (snd w)" for n
proof (intro kv_stores.intro kv_stores_axioms.intro)
  show "sorted_kv (lift_fst memKeys) (\<lambda>w. map_of (fst w)) (\<lambda>w. mk_inv (fst w) \<and> mem_I (snd w))"
    by (rule sorted_kv_lift_fst [OF mem.sorted_kv_axioms])
  show "stores (\<lambda>i. lift_sto (mem_at i)) n (\<lambda>w. mem_C (snd w)) (\<lambda>w. mk_inv (fst w) \<and> mem_I (snd w))"
    by (rule stores_lift [OF mems.stores_axioms])
qed (auto simp: lift_fst_def lift_sto_def lift_out_Ret split: prod.splits)

section \<open>The namespace as one storage\<close>

text \<open>The blobs of the master that the inventory lists.\<close>

definition ns_map :: "(string \<rightharpoonup> string) \<Rightarrow> blobmap \<Rightarrow> blobmap" where
  "ns_map mm c br = (if ref_wf br \<and> mm (ref_String br) \<noteq> None then c br else None)"

text \<open>Every entry of the inventory names a blob of the master, with its size.\<close>

definition ns_ok :: "(string \<rightharpoonup> string) \<Rightarrow> blobmap \<Rightarrow> bool" where
  "ns_ok mm c \<longleftrightarrow> blobs_ok c \<and> (\<forall>k v. mm k = Some v \<longrightarrow>
     (\<exists>br b. k = ref_String br \<and> c br = Some b \<and> v = itoa (length b) \<and> length b \<le> MaxBlobSize))"

lemma ns_ok_wf: "ns_ok mm c \<Longrightarrow> c br = Some b \<Longrightarrow> ref_canonical br \<and> ref_wf br"
  using blobs_ok_canonical [of c br] ref_canonical_wf by (auto simp: ns_ok_def)

lemma ns_entry:
  assumes "ns_ok mm c" and "ref_wf br" and "mm (ref_String br) = Some v"
  obtains b where "c br = Some b" "v = itoa (length b)" "length b \<le> MaxBlobSize"
proof -
  obtain br' b where b: "ref_String br = ref_String br'" "c br' = Some b" "v = itoa (length b)" "length b \<le> MaxBlobSize"
    using assms(1,3) unfolding ns_ok_def by blast
  have "br' = br" using ns_ok_wf [OF assms(1) b(2)] assms(2) b(1) by (metis MustParse_String outcome.inject(1))
  then show thesis using that b by blast
qed

lemma ns_ok_add:
  assumes "ns_ok mm c" and "blobs_ok (c(br \<mapsto> data))" and "mm (ref_String br) = None" and "length data \<le> MaxBlobSize"
  shows "ns_ok (mm(ref_String br \<mapsto> itoa (length data))) (c(br \<mapsto> data))"
  unfolding ns_ok_def
proof (intro conjI allI impI)
  fix k v
  assume kv: "(mm(ref_String br \<mapsto> itoa (length data))) k = Some v"
  show "\<exists>br' b. k = ref_String br' \<and> (c(br \<mapsto> data)) br' = Some b \<and> v = itoa (length b) \<and> length b \<le> MaxBlobSize"
  proof (cases "k = ref_String br")
    case True
    then show ?thesis using kv assms(4) by (intro exI [of _ br]) simp
  next
    case False
    then have "mm k = Some v" using kv by simp
    then obtain br' b where b: "k = ref_String br'" "c br' = Some b" "v = itoa (length b)" "length b \<le> MaxBlobSize"
      using assms(1) unfolding ns_ok_def by blast
    then have "br' \<noteq> br" using False by blast
    with b show ?thesis by (intro exI [of _ br']) simp
  qed
qed (rule assms(2))

lemma ns_map_add:
  assumes "ref_wf br" and "mm (ref_String br) = None"
  shows "ns_map (mm(ref_String br \<mapsto> v)) (c(br \<mapsto> data)) = put (ns_map mm c) br data"
proof
  fix x
  have "ref_wf x \<Longrightarrow> ref_String x = ref_String br \<Longrightarrow> x = br" using assms(1) ref_String_inject by blast
  then show "ns_map (mm(ref_String br \<mapsto> v)) (c(br \<mapsto> data)) x = put (ns_map mm c) br data x"
    using assms by (auto simp: ns_map_def put_def)
qed

lemma ns_ok_remove: "ns_ok mm c \<Longrightarrow> ns_ok (mm(k := None)) c"
  unfolding ns_ok_def by simp

lemma ns_map_remove:
  assumes "ref_wf br"
  shows "ns_map (mm(ref_String br := None)) c = ns_map mm c |` (- {br})"
proof
  fix x
  have "ref_wf x \<Longrightarrow> ref_String x = ref_String br \<Longrightarrow> x = br" using assms ref_String_inject by blast
  then show "ns_map (mm(ref_String br := None)) c x = (ns_map mm c |` (- {br})) x"
    by (auto simp: ns_map_def restrict_map_def)
qed

lemma inventory_size:
  assumes "length b \<le> MaxBlobSize"
  shows "ParseUintBytes (bytes_of_string (itoa (length b))) 10 32 = (of_nat (length b), None)"
    and "ucast (of_nat (length b) :: u64) = (of_nat (length b) :: u32)"
proof -
  show "ParseUintBytes (bytes_of_string (itoa (length b))) 10 32 = (of_nat (length b), None)"
    using ParseUint_itoa [of "length b" 32] assms by (simp add: MaxBlobSize_def)
  show "ucast (of_nat (length b) :: u64) = (of_nat (length b) :: u32)"
    using assms by (simp add: unsigned_of_nat take_bit_nat_eq_self MaxBlobSize_def)
qed

text \<open>The entries an enumeration meets, and the sized reference each stands for.\<close>

definition ns_entry_ok :: "blobmap \<Rightarrow> kvpair \<Rightarrow> bool" where
  "ns_entry_ok c e \<longleftrightarrow> (\<exists>br b. fst e = ref_String br \<and> c br = Some b \<and> ref_wf br \<and> snd e = itoa (length b) \<and> length b \<le> MaxBlobSize)"

definition ns_sized :: "blobmap \<Rightarrow> kvpair \<Rightarrow> SizedRef" where
  "ns_sized c e = (let br = fst (Parse (fst e)) in sized br (the (c br)))"

lemma ns_enum_loop_take:
  assumes "it_rest it = es" and "it_closeErr it = None" and "\<forall>e \<in> set es. ns_entry_ok c e"
    and "first \<and> after \<noteq> [] \<longrightarrow> after \<notin> fst ` set es"
  shows "ns_enum_loop None after first it limit k = (map (ns_sized c) (take (nat limit) es), None)"
  using assms
proof (induction es arbitrary: it first limit k)
  case Nil
  then show ?case by (subst ns_enum_loop.simps) (simp add: it_Next_def it_Close_def)
next
  case (Cons e es)
  obtain br b where b: "fst e = ref_String br" "c br = Some b" "ref_wf br" "snd e = itoa (length b)" "length b \<le> MaxBlobSize"
    using Cons.prems(3) by (auto simp: ns_entry_ok_def)
  let ?it = "it\<lparr>it_rest := es, it_cur := Some e\<rparr>"
  have n: "it_Next it = (True, ?it)" "it_Key ?it = ref_String br" "it_Value ?it = itoa (length b)"
    using Cons.prems(1) b by (simp_all add: it_Next_def it_Key_def it_Value_def)
  have sz: "ns_sized c e = \<lparr>sr_Ref = br, sr_Size = of_nat (length b)\<rparr>"
    using b by (simp add: ns_sized_def Parse_String sized_def)
  have IH: "ns_enum_loop None after False ?it (limit - 1) (k + 1) = (map (ns_sized c) (take (nat (limit - 1)) es), None)"
    using Cons.prems by (intro Cons.IH) simp_all
  have skip: "\<not> (first \<and> after \<noteq> [] \<and> ref_String br = after)" using Cons.prems(4) b(1) by auto
  show ?case
  proof (cases "limit > 0")
    case True
    then have "nat limit = Suc (nat (limit - 1))" by simp
    then show ?thesis using True skip IH
      by (subst ns_enum_loop.simps) (auto simp: n ParseBytes_eq_Parse Parse_String b(3) inventory_size [OF b(5)] sz Let_def)
  next
    case False
    then show ?thesis using Cons.prems(2) by (subst ns_enum_loop.simps) (simp add: it_Close_def)
  qed
qed

lemma ns_enum_loop_skip:
  assumes "it_rest it = (after, v) # es" and "after \<noteq> []"
  shows "limit > 0 \<Longrightarrow> ns_enum_loop None after True it limit k =
    ns_enum_loop None after False (it\<lparr>it_rest := es, it_cur := Some (after, v)\<rparr>) limit k"
  using assms by (subst ns_enum_loop.simps) (simp add: it_Next_def it_Key_def)

context kv_stores
begin

lemma Fetch_ns:
  assumes "I w" and "i < n" and "ns_ok (m w) (C w i)" and "ref_wf br"
  shows "\<exists>w'. ns_Fetch \<lparr>ns_inventory = kv, ns_master = sto i\<rparr> br w = Ret (fetch_spec (ns_map (m w) (C w i)) br, w') \<and>
    I w' \<and> m w' = m w \<and> C w' = C w"
proof (cases "m w (ref_String br)")
  case None
  then show ?thesis using kv.Get [OF assms(1)] assms(1) by (simp add: ns_Fetch_def ns_map_def fetch_spec_def)
next
  case (Some v)
  obtain b where b: "C w i br = Some b" "v = itoa (length b)" "length b \<le> MaxBlobSize"
    using ns_entry [OF assms(3,4) Some] .
  obtain w' where w': "sto_Fetch (sto i) br w = Ret (fetch_spec (C w i) br, w')" "I w'" "m w' = m w" "C w' = C w"
    using FetchE [OF assms(1,2)] .
  show ?thesis
    using kv.Get [OF assms(1), of "ref_String br"] Some b w' assms(4)
    by (simp add: ns_Fetch_def ns_map_def fetch_spec_def inventory_size)
qed

lemma ReceiveBlob_ns:
  assumes "I w" and "i < n" and "ns_ok (m w) (C w i)" and "br = SHA1FromBytes data" and "length data \<le> MaxBlobSize"
    and "C w i br = None \<or> C w i br = Some data"
  shows "\<exists>w'. ns_ReceiveBlob \<lparr>ns_inventory = kv, ns_master = sto i\<rparr> br (bytes_reader data) w = Ret ((sized br data, None, ReadToEnd), w') \<and>
    I w' \<and> ns_ok (m w') (C w' i) \<and> ns_map (m w') (C w' i) = put (ns_map (m w) (C w i)) br data \<and>
    C w' = (C w)(i := put (C w i) br data)"
proof -
  have rd: "rd_err (bytes_reader data) = None" "rd_data (bytes_reader data) = data" by (simp_all add: bytes_reader_def)
  have wf: "ref_wf br" by (simp add: assms(4) ref_canonical_wf)
  show ?thesis
  proof (cases "m w (ref_String br)")
    case (Some v)
    then obtain b where "C w i br = Some b" using ns_entry [OF assms(3) wf] by metis
    then have "C w i br = Some data" using assms(6) by simp
    moreover have "put (C w i) br data = C w i" "put (ns_map (m w) (C w i)) br data = ns_map (m w) (C w i)"
      using calculation Some wf by (auto simp: put_def ns_map_def)
    ultimately show ?thesis using Some kv.Get [OF assms(1), of "ref_String br"] assms(1,3)
      by (simp add: ns_ReceiveBlob_def rd sized_def)
  next
    case None
    obtain w1 where w1: "sto_ReceiveBlob (sto i) br (bytes_reader data) w = Ret ((sized br data, None, ReadToEnd), w1)"
      "I w1" "m w1 = m w" "C w1 = (C w)(i := put (C w i) br data)" using ReceiveE [OF assms(1,2,4)] .
    obtain w2 where w2: "kv_Set kv (ref_String br) (itoa (length data)) w1 = (None, w2)" "I w2"
      "m w2 = (m w1)(ref_String br \<mapsto> itoa (length data))" "C w2 = C w1" using SetE [OF w1(2)] .
    have c: "C w2 i = (C w i)(br \<mapsto> data)" using assms(6) by (auto simp: w2(4) w1(4) put_def)
    have "ns_ok (m w2) (C w2 i)"
      unfolding c w2(3) w1(3) using st.ok [OF w2(2) assms(2)] assms(3,5) None by (intro ns_ok_add) (simp_all add: c)
    moreover have "ns_map (m w2) (C w2 i) = put (ns_map (m w) (C w i)) br data"
      unfolding c w2(3) w1(3) using wf None by (intro ns_map_add)
    ultimately show ?thesis using None kv.Get [OF assms(1), of "ref_String br"] w1 w2
      by (simp add: ns_ReceiveBlob_def rd)
  qed
qed

lemma RemoveBlobs_ns:
  assumes "I w" and "i < n" and "ns_ok (m w) (C w i)" and "list_all ref_wf brs"
  shows "\<exists>w'. ns_RemoveBlobs \<lparr>ns_inventory = kv, ns_master = sto i\<rparr> brs w = Ret (None, w') \<and>
    I w' \<and> ns_ok (m w') (C w' i) \<and> ns_map (m w') (C w' i) = ns_map (m w) (C w i) |` (- set brs) \<and> C w' = C w"
proof -
  have "\<exists>w'. ns_remove_loop kv brs w = (None, w') \<and>
      I w' \<and> ns_ok (m w') (C w' i) \<and> ns_map (m w') (C w' i) = ns_map (m w) (C w i) |` (- set brs) \<and> C w' = C w"
    using assms(1,3,4)
  proof (induction brs arbitrary: w)
    case (Cons br brs)
    obtain w1 where w1: "kv_Delete kv (ref_String br) w = (None, w1)" "I w1"
      "m w1 = (m w)(ref_String br := None)" "C w1 = C w" using DeleteE [OF Cons.prems(1)] .
    have "ns_ok (m w1) (C w1 i)" using ns_ok_remove [OF Cons.prems(2)] by (simp add: w1)
    moreover have "ns_map (m w1) (C w1 i) = ns_map (m w) (C w i) |` (- {br})"
      using ns_map_remove Cons.prems(3) by (simp add: w1)
    moreover have "(ns_map (m w) (C w i) |` (- {br})) |` (- set brs) = ns_map (m w) (C w i) |` (- set (br # brs))"
      by (auto simp: restrict_map_def)
    ultimately show ?case using Cons.IH [OF w1(2)] Cons.prems(3) w1(1,4) by simp
  qed (simp add: restrict_map_def)
  then show ?thesis by (simp add: ns_RemoveBlobs_def)
qed

lemma StatBlobs_ns:
  assumes "I w" and "ns_ok (m w) (C w i)" and "list_all ref_wf brs"
  shows "ns_StatBlobs \<lparr>ns_inventory = kv, ns_master = sto i\<rparr> brs w = Ret ((stat_spec (ns_map (m w) (C w i)) brs, None), w)"
proof -
  have "ns_stat_loop kv brs w = (stat_spec (ns_map (m w) (C w i)) brs, None)" using assms(3)
  proof (induction brs)
    case (Cons br brs)
    show ?case
    proof (cases "m w (ref_String br)")
      case None
      then show ?thesis using Cons kv.Get [OF assms(1), of "ref_String br"]
        by (simp add: stat_spec_def ns_map_def)
    next
      case (Some v)
      obtain b where b: "C w i br = Some b" "v = itoa (length b)" "length b \<le> MaxBlobSize"
        using ns_entry [OF assms(2) _ Some] Cons.prems by auto
      then show ?thesis using Cons Some kv.Get [OF assms(1), of "ref_String br"]
        by (simp add: stat_spec_def ns_map_def inventory_size sized_def)
    qed
  qed (simp add: stat_spec_def)
  then show ?thesis by (simp add: ns_StatBlobs_def)
qed

text \<open>The entries of the inventory after a reference, as the iterator delivers them.\<close>

lemma inventory_after:
  fixes after :: string
  assumes "I w" and "ns_ok (m w) (C w i)"
  defines "es \<equiv> it_rest (kv_Find kv after [] w)"
  defines "fs \<equiv> filter (\<lambda>e. after < fst e) es"
  shows "sorted_wrt (\<lambda>a b. fst a < fst b) fs"
    and "e \<in> set fs \<longleftrightarrow> m w (fst e) = Some (snd e) \<and> after < fst e"
    and "\<forall>e \<in> set fs. ns_entry_ok (C w i) e"
    and "es = fs \<or> (\<exists>v. es = (after, v) # fs \<and> after \<noteq> [])"
proof -
  have es: "sorted_wrt (<) (map fst es)" "map_of es = m w |` {k. after \<le> k}"
    using kv.Find_sorted [OF assms(1)] kv.Find_map [OF assms(1), of after "[]"] by (auto simp: es_def in_range_def)
  have dist: "distinct (map fst es)" using es(1) by (simp add: strict_sorted_iff)
  have mem: "e \<in> set es \<longleftrightarrow> m w (fst e) = Some (snd e) \<and> after \<le> fst e" for e
    using map_of_eq_Some_iff [OF dist, of "fst e" "snd e"] by (auto simp: es(2) restrict_map_def split: if_splits)
  have entry: "ns_entry_ok (C w i) e" if "e \<in> set es" for e
    using assms(2) that ns_ok_wf [OF assms(2)] unfolding mem ns_entry_ok_def ns_ok_def by metis
  show "sorted_wrt (\<lambda>a b. fst a < fst b) fs" using es(1) unfolding fs_def sorted_wrt_map by (rule sorted_wrt_filter)
  show "e \<in> set fs \<longleftrightarrow> m w (fst e) = Some (snd e) \<and> after < fst e" by (auto simp: fs_def mem)
  show "\<forall>e \<in> set fs. ns_entry_ok (C w i) e"
  proof
    fix e
    assume "e \<in> set fs"
    then have "e \<in> set es" unfolding fs_def by (rule subsetD [OF filter_is_subset])
    then show "ns_entry_ok (C w i) e" by (rule entry)
  qed
  show "es = fs \<or> (\<exists>v. es = (after, v) # fs \<and> after \<noteq> [])"
  proof (cases es)
    case (Cons e es')
    have "fst e \<noteq> []" using Cons entry [of e] ref_wf_String_nonempty unfolding ns_entry_ok_def by (metis list.set_intros(1))
    moreover have le: "after \<le> fst e" using Cons mem [of e] by simp
    moreover have "\<forall>x \<in> set es'. fst e < fst x" using es(1) Cons by simp
    ultimately have "\<forall>x \<in> set es'. after < fst x" by (meson order.strict_trans1)
    then have "filter (\<lambda>e. after < fst e) es' = es'" by (simp add: filter_id_conv)
    then show ?thesis using Cons le \<open>fst e \<noteq> []\<close> by (cases e) (auto simp: fs_def)
  qed (simp add: fs_def)
qed

lemma enum_loop_ns:
  assumes "I w" and "ns_ok (m w) (C w i)" and "0 < limit"
  shows "ns_enum_loop None after True (kv_Find kv after [] w) limit 0 =
    (map (ns_sized (C w i)) (take (nat limit) (filter (\<lambda>e. after < fst e) (it_rest (kv_Find kv after [] w)))), None)"
proof -
  let ?it = "kv_Find kv after [] w"
  let ?fs = "filter (\<lambda>e. after < fst e) (it_rest ?it)"
  note inv = inventory_after [OF assms(1,2), where after = after]
  have close: "it_closeErr ?it = None" using kv.Find_fresh [OF assms(1)] by simp
  from inv(4) consider "it_rest ?it = ?fs" | v where "it_rest ?it = (after, v) # ?fs" "after \<noteq> []" by blast
  then show ?thesis
  proof cases
    case 1
    moreover have "after \<notin> fst ` set ?fs" by auto
    ultimately show ?thesis using ns_enum_loop_take [of ?it ?fs "C w i" True after limit 0] close inv(3) by simp
  next
    case 2
    have "ns_enum_loop None after False (?it\<lparr>it_rest := ?fs, it_cur := Some (after, v)\<rparr>) limit 0 =
        (map (ns_sized (C w i)) (take (nat limit) ?fs), None)"
      by (rule ns_enum_loop_take) (use close inv(3) in simp_all)
    then show ?thesis using ns_enum_loop_skip [OF 2 assms(3)] by simp
  qed
qed

lemma inventory_blob:
  assumes "I w" and "ns_ok (m w) (C w i)" and "e \<in> set (filter (\<lambda>e. after < fst e) (it_rest (kv_Find kv after [] w)))"
  shows "\<exists>br b. ns_sized (C w i) e = sized br b \<and> ns_map (m w) (C w i) br = Some b \<and> fst e = ref_String br \<and> ref_canonical br"
proof -
  note inv = inventory_after [OF assms(1,2), where after = after]
  have "ns_entry_ok (C w i) e" using inv(3) assms(3) by blast
  then obtain br b where b: "fst e = ref_String br" "C w i br = Some b" "ref_wf br" unfolding ns_entry_ok_def by blast
  have "m w (fst e) \<noteq> None" using assms(3) inv(2) [of e] by simp
  then show ?thesis using b ns_ok_wf [OF assms(2) b(2)]
    by (intro exI [of _ br] exI [of _ b]) (simp add: ns_map_def ns_sized_def Parse_String)
qed

lemma inventory_refs:
  assumes "I w" and "i < n" and "ns_ok (m w) (C w i)"
  shows "map (\<lambda>e. sr_Ref (ns_sized (C w i) e)) (filter (\<lambda>e. after < fst e) (it_rest (kv_Find kv after [] w))) =
    sorted_list_of_set (refs_after (ns_map (m w) (C w i)) after)" (is "map ?f ?fs = sorted_list_of_set ?R")
proof (rule strict_sorted_eqI)
  note inv = inventory_after [OF assms(1,3), where after = after] and blob = inventory_blob [OF assms(1,3), where after = after]
  have "?f x < ?f y" if xy: "x \<in> set ?fs" "y \<in> set ?fs" "fst x < fst y" for x y
  proof -
    obtain a b where a: "?f x = a" "fst x = ref_String a" "ref_canonical a" "?f y = b" "fst y = ref_String b" "ref_canonical b"
      using blob [OF xy(1)] blob [OF xy(2)] by (auto simp: sized_def)
    then show ?thesis using xy(3) ref_less_iff_String [of a b] by simp
  qed
  then show "sorted_wrt (<) (map ?f ?fs)"
    unfolding sorted_wrt_map by (rule sorted_wrt_mono_rel [OF _ inv(1)])
  have "dom (ns_map (m w) (C w i)) \<subseteq> dom (C w i)" by (auto simp: ns_map_def split: if_splits)
  moreover have "finite (dom (C w i))" using st.ok [OF assms(1,2)] by (simp add: blobs_ok_def)
  ultimately have fin: "finite ?R" using refs_after_subset by (meson finite_subset)
  have "br \<in> ?f ` set ?fs \<longleftrightarrow> br \<in> ?R" for br
  proof
    assume "br \<in> ?f ` set ?fs"
    then obtain e where e: "e \<in> set ?fs" "br = ?f e" by blast
    then show "br \<in> ?R" using blob [OF e(1)] by (auto simp: refs_after_def sized_def)
  next
    assume "br \<in> ?R"
    then obtain v where v: "m w (ref_String br) = Some v" "ref_wf br" "after < ref_String br"
      by (auto simp: refs_after_def ns_map_def split: if_splits)
    then have "(ref_String br, v) \<in> set ?fs" using inv(2) [of "(ref_String br, v)"] by simp
    moreover have "?f (ref_String br, v) = br" using v(2) by (simp add: ns_sized_def Parse_String sized_def)
    ultimately show "br \<in> ?f ` set ?fs" by force
  qed
  then show "set (map ?f ?fs) = set (sorted_list_of_set ?R)" using fin by (simp only: set_map set_eq_iff set_sorted_list_of_set) blast
qed simp

lemma EnumerateBlobs_ns:
  assumes "I w" and "i < n" and "ns_ok (m w) (C w i)" and "0 < limit"
  shows "ns_EnumerateBlobs \<lparr>ns_inventory = kv, ns_master = sto i\<rparr> None after limit w =
    Ret (enum_spec (ns_map (m w) (C w i)) after (nat limit), None)"
proof -
  let ?fs = "filter (\<lambda>e. after < fst e) (it_rest (kv_Find kv after [] w))"
  have "map (ns_sized (C w i)) (take (nat limit) ?fs) = enum_spec (ns_map (m w) (C w i)) after (nat limit)"
  proof (rule map_enum_spec)
    show "map sr_Ref (map (ns_sized (C w i)) (take (nat limit) ?fs)) =
        take (nat limit) (sorted_list_of_set (refs_after (ns_map (m w) (C w i)) after))"
      using inventory_refs [OF assms(1-3), of after] by (simp add: take_map [symmetric] comp_def)
    fix x
    assume "x \<in> set (map (ns_sized (C w i)) (take (nat limit) ?fs))"
    then obtain e where e: "e \<in> set ?fs" "x = ns_sized (C w i) e" by (auto dest: in_set_takeD)
    then show "\<exists>b. ns_map (m w) (C w i) (sr_Ref x) = Some b \<and> x = sized (sr_Ref x) b"
      using inventory_blob [OF assms(1,3) e(1)] by (auto simp: sized_def)
  qed
  then show ?thesis using enum_loop_ns [OF assms(1,3,4), of after] by (simp add: ns_EnumerateBlobs_def)
qed

end

section \<open>A namespace over memory stores\<close>

abbreviation mem_ns :: "(memdb \<times> (nat \<Rightarrow> memsto)) nsto" where
  "mem_ns \<equiv> \<lparr>ns_inventory = lift_fst memKeys, ns_master = lift_sto (mem_at 0)\<rparr>"

text \<open>The stored contents are from a set without colliding digests.\<close>

definition mem_ns_J :: "bytes set \<Rightarrow> memdb \<times> (nat \<Rightarrow> memsto) \<Rightarrow> bool" where
  "mem_ns_J D w \<longleftrightarrow> mk_inv (fst w) \<and> mem_I (snd w) \<and> ns_ok (map_of (fst w)) (mem_C (snd w) 0) \<and>
     inj_on SHA1FromBytes D \<and> ran (mem_C (snd w) 0) \<subseteq> D"

lemma no_collision:
  assumes "inj_on SHA1FromBytes D" and "ran c \<subseteq> D" and "blobs_ok c" and "data \<in> D"
  shows "c (SHA1FromBytes data) = None \<or> c (SHA1FromBytes data) = Some data"
proof (cases "c (SHA1FromBytes data)")
  case (Some b)
  then have "SHA1FromBytes data = SHA1FromBytes b" "b \<in> D" using assms(2,3) by (auto simp: blobs_ok_def intro: ranI)
  then show ?thesis using Some assms(1,4) by (auto dest: inj_onD)
qed simp

interpretation mem_namespace: blob_store "ns_Fetch mem_ns" "ns_ReceiveBlob mem_ns" "ns_StatBlobs mem_ns" "ns_RemoveBlobs mem_ns"
  "\<lambda>w. ns_map (map_of (fst w)) (mem_C (snd w) 0)" "mem_ns_J D" ref_wf D for D
proof (unfold_locales, goal_cases)
  case (1 w br)
  then show ?case using mem_kvs.Fetch_ns [of w 0 1 br] by (fastforce simp: mem_ns_J_def)
next
  case (2 w br data)
  then have "mem_C (snd w) 0 br = None \<or> mem_C (snd w) 0 br = Some data"
    using no_collision [of D "mem_C (snd w) 0" data] by (simp add: mem_ns_J_def ns_ok_def)
  moreover have "ran (put (mem_C (snd w) 0) br data) \<subseteq> insert data (ran (mem_C (snd w) 0))"
    by (auto simp: put_def ran_def split: option.splits if_splits)
  ultimately show ?case using 2 mem_kvs.ReceiveBlob_ns [of w 0 1 br data] by (fastforce simp: mem_ns_J_def)
next
  case (3 w brs)
  then show ?case using mem_kvs.StatBlobs_ns [of w 0 brs] by (simp add: mem_ns_J_def)
next
  case (4 w brs)
  then show ?case using mem_kvs.RemoveBlobs_ns [of w 0 1 brs] by (fastforce simp: mem_ns_J_def)
qed

text \<open>
  C15 [namespace].  A namespace is a storage of its own: over a memory master and a memory inventory, for
  contents without colliding digests, any sequence of receptions and removals through it acts
  as on the map of the blobs received through it and not removed since, whatever else the
  master holds; \<open>Fetch\<close>, \<open>StatBlobs\<close> and \<open>EnumerateBlobs\<close> then answer from that map, the last
  one with its first \<open>limit\<close> references in order.
\<close>

theorem namespace_is_one_storage:
  assumes "mem_ns_J D w" and "list_all (op_valid ref_wf D) ops" and "ref_wf br" and "list_all ref_wf brs" and "0 < limit"
  shows "\<exists>w1 w2 w3 out. let M = sto_abs ops (ns_map (map_of (fst w)) (mem_C (snd w) 0)) in
    sto_run (ns_ReceiveBlob mem_ns) (ns_RemoveBlobs mem_ns) ops w = Ret (replicate (length ops) None, w1) \<and>
    ns_Fetch mem_ns br w1 = Ret (fetch_spec M br, w2) \<and>
    ns_StatBlobs mem_ns brs w2 = Ret ((out, None), w3) \<and> set out = set (stat_spec M brs) \<and>
    ns_EnumerateBlobs mem_ns None after limit w3 = Ret (enum_spec M after (nat limit), None)"
proof -
  from mem_namespace.run_then_read [OF assms(1-4)] obtain w1 w2 w3 out where
    r: "sto_run (ns_ReceiveBlob mem_ns) (ns_RemoveBlobs mem_ns) ops w = Ret (replicate (length ops) None, w1)"
    "ns_Fetch mem_ns br w1 = Ret (fetch_spec (sto_abs ops (ns_map (map_of (fst w)) (mem_C (snd w) 0))) br, w2)"
    "ns_StatBlobs mem_ns brs w2 = Ret ((out, None), w3)"
    "set out = set (stat_spec (sto_abs ops (ns_map (map_of (fst w)) (mem_C (snd w) 0))) brs)"
    "mem_ns_J D w3" and M: "ns_map (map_of (fst w3)) (mem_C (snd w3) 0) = sto_abs ops (ns_map (map_of (fst w)) (mem_C (snd w) 0))"
    by blast
  have "ns_EnumerateBlobs mem_ns None after limit w3 = Ret (enum_spec (ns_map (map_of (fst w3)) (mem_C (snd w3) 0)) after (nat limit), None)"
    using mem_kvs.EnumerateBlobs_ns [of w3 0 1 limit after] r(5) assms(5) by (simp add: mem_ns_J_def)
  then show ?thesis using r(1-4) unfolding Let_def M by blast
qed

theorem namespace_is_one_storage_witness:
  "\<exists>w1 w2. sto_run (ns_ReceiveBlob mem_ns) (ns_RemoveBlobs mem_ns) [OpReceive [1]] ([], \<lambda>_. mem_New) = Ret ([None], w1) \<and>
    ns_Fetch mem_ns (SHA1FromBytes [1]) w1 = Ret ((Some (bytes_reader [1]), 1, None), w2)"
proof -
  have "mem_I (\<lambda>_. mem_New)" by (simp add: mem_I_def mem_inv_def mem_New_def blobs_ok_def)
  then have J: "mem_ns_J {[1]} ([], \<lambda>_. mem_New)"
    by (simp add: mem_ns_J_def mk_inv_def ns_ok_def blobs_ok_def mem_C_def mem_New_def)
  have "ref_wf (SHA1FromBytes [1])" by (simp add: ref_canonical_wf)
  moreover have "fetch_spec (sto_abs [OpReceive [1]] (ns_map (map_of []) (mem_C (\<lambda>_. mem_New) 0))) (SHA1FromBytes [1]) =
      (Some (bytes_reader [1]), 1, None)" by (simp add: fetch_spec_def put_def ns_map_def)
  ultimately show ?thesis
    using namespace_is_one_storage [OF J, of "[OpReceive [1]]" "SHA1FromBytes [1]" "[]" 1 "[]"]
    by (simp add: Let_def MaxBlobSize_def) blast
qed

end
