(* ===== verification/ProxyCache.thy ===== *)
theory ProxyCache
  imports Namespace
begin

text \<open>
  Package \<open>pkg/blobserver/proxycache\<close>: a storage in front of an origin, with a second storage as cache and a key/value
  store that records when a blob was last used.
\<close>

section \<open>Operations\<close>

record 'w pcsto =
  pc_origin :: "'w Storage"
  pc_cache :: "'w Storage"
  pc_kv :: "'w KeyValue"
  pc_maxCacheBytes :: int

text \<open>The field \<open>cacheBytes\<close> is the mutable part and is passed beside the world; \<open>int64\<close> does not overflow here.\<close>

type_synonym 'w pcstate = "int \<times> 'w"

definition pc_newFromConfig ::
  "(Obj \<Rightarrow> goerr + 'w KeyValue) \<Rightarrow> (string \<Rightarrow> goerr + 'w Storage) \<Rightarrow> Obj \<Rightarrow> (goerr + 'w pcsto) outcome" where
  "pc_newFromConfig nkv ld config =
     obind (RequiredString ''origin'' config) (\<lambda>(origin, config).
     obind (RequiredString ''cache'' config) (\<lambda>(cache, config).
     obind (RequiredObject ''meta'' config) (\<lambda>(kvConf, config).
     obind (OptionalInt64 ''maxCacheBytes'' (512 * 2 ^ 20) config) (\<lambda>(maxCacheBytes, config).
     obind (Validate config) (\<lambda>(err, _).
       Ret (case err of
              Some e \<Rightarrow> Inl e
            | None \<Rightarrow>
                (case ld cache of
                   Inl e \<Rightarrow> Inl e
                 | Inr cacheSto \<Rightarrow>
                     (case ld origin of
                        Inl e \<Rightarrow> Inl e
                      | Inr originSto \<Rightarrow>
                          (case nkv kvConf of
                             Inl e \<Rightarrow> Inl e
                           | Inr kv \<Rightarrow> Inr \<lparr>pc_origin = originSto, pc_cache = cacheSto, pc_kv = kv,
                                            pc_maxCacheBytes = maxCacheBytes\<rparr>)))))))))"

text \<open>\<open>now\<close> is \<open>time.Now().Unix()\<close>.  Errors of the key/value store are logged only.\<close>

definition pc_touchBlob :: "nat \<Rightarrow> 'w pcsto \<Rightarrow> SizedRef \<Rightarrow> 'w pcstate \<Rightarrow> 'w pcstate" where
  "pc_touchBlob now s sb st =
     (let (cacheBytes, w) = st;
          key = ref_String (sr_Ref sb);
          val = itoa (unat (sr_Size sb)) @ '':'' @ itoa now;
          new = (snd (kv_Get (pc_kv s) key w) \<noteq> None);
          w = snd (kv_Set (pc_kv s) key val w)
      in (if new then cacheBytes + int (unat (sr_Size sb)) else cacheBytes, w))"

text \<open>
  On a miss the code asks the cache a second time.  The goroutine that fills the cache after
  that is modelled as run to its end.
\<close>

definition pc_Fetch :: "nat \<Rightarrow> 'w pcsto \<Rightarrow> Ref \<Rightarrow> 'w pcstate \<Rightarrow> (fetch_ret \<times> 'w pcstate) outcome" where
  "pc_Fetch now s b st =
     obind (sto_Fetch (pc_cache s) b (snd st)) (\<lambda>((rc, sz, err), w).
       if err = None then Ret ((rc, sz, err), pc_touchBlob now s \<lparr>sr_Ref = b, sr_Size = sz\<rparr> (fst st, w))
       else
         obind (sto_Fetch (pc_cache s) b w) (\<lambda>((rc, sz, err), w).
           case (err, rc) of
             (Some e, _) \<Rightarrow> Ret ((rc, sz, err), (fst st, w))
           | (None, None) \<Rightarrow> Panic ''nil pointer dereference''
           | (None, Some rd) \<Rightarrow>
               (case rd_err rd of
                  Some e \<Rightarrow> Ret ((rc, sz, Some e), (fst st, w))
                | None \<Rightarrow>
                    obind (Receive (pc_cache s) b (bytes_reader (rd_data rd)) w) (\<lambda>((_, err), w).
                      Ret ((Some (bytes_reader (rd_data rd)), sz, None),
                           if err \<noteq> None then (fst st, w)
                           else pc_touchBlob now s \<lparr>sr_Ref = b, sr_Size = sz\<rparr> (fst st, w))))))"

definition pc_StatBlobs :: "'w pcsto \<Rightarrow> Ref list \<Rightarrow> 'w pcstate \<Rightarrow> ((SizedRef list \<times> goerr option) \<times> 'w pcstate) outcome" where
  "pc_StatBlobs s blobs st = obind (sto_StatBlobs (pc_origin s) blobs (snd st)) (\<lambda>(r, w). Ret (r, (fst st, w)))"

text \<open>\<open>touchBlob\<close> is called with \<open>sb\<close>, which is still the zero value there.\<close>

definition pc_ReceiveBlob :: "nat \<Rightarrow> 'w pcsto \<Rightarrow> Ref \<Rightarrow> reader \<Rightarrow> 'w pcstate \<Rightarrow> (recv_ret \<times> 'w pcstate) outcome" where
  "pc_ReceiveBlob now s br src st =
     (case rd_err src of
        Some e \<Rightarrow> Ret ((zeroSizedRef, Some e, ReadToEnd), st)
      | None \<Rightarrow>
          obind (sto_ReceiveBlob (pc_cache s) br (bytes_reader (rd_data src)) (snd st)) (\<lambda>((_, err, _), w).
            if err \<noteq> None then Ret ((zeroSizedRef, err, ReadToEnd), (fst st, w))
            else
              let st = pc_touchBlob now s zeroSizedRef (fst st, w)
              in obind (sto_ReceiveBlob (pc_origin s) br (bytes_reader (rd_data src)) (snd st)) (\<lambda>((sb, err, _), w).
                   Ret ((sb, err, ReadToEnd), (fst st, w)))))"

definition pc_RemoveBlobs :: "'w pcsto \<Rightarrow> Ref list \<Rightarrow> 'w pcstate \<Rightarrow> (goerr option \<times> 'w pcstate) outcome" where
  "pc_RemoveBlobs s blobs st =
     obind (sto_RemoveBlobs (pc_cache s) blobs (snd st)) (\<lambda>(_, w).
     obind (sto_RemoveBlobs (pc_origin s) blobs w) (\<lambda>(err, w). Ret (err, (fst st, w))))"

definition pc_EnumerateBlobs :: "'w pcsto \<Rightarrow> ctx \<Rightarrow> string \<Rightarrow> int \<Rightarrow> 'w pcstate \<Rightarrow> (SizedRef list \<times> goerr option) outcome" where
  "pc_EnumerateBlobs s ctx after limit st = sto_EnumerateBlobs (pc_origin s) ctx after limit (snd st)"

section \<open>What the cache hides\<close>

context kv_stores
begin

lemma touchBlob_frame:
  assumes "I w" and "pc_kv s = kv"
  obtains cb w' where "pc_touchBlob now s sb (cb0, w) = (cb, w')" "I w'" "C w' = C w"
proof -
  obtain w' where "kv_Set kv (ref_String (sr_Ref sb)) (itoa (unat (sr_Size sb)) @ '':'' @ itoa now) w = (None, w')" "I w'" "C w' = C w"
    using SetE [OF assms(1)] by blast
  then show thesis using that assms(2) by (simp add: pc_touchBlob_def Let_def)
qed

lemma Fetch_pc_miss:
  assumes "I w" and "0 < n" and "pc_cache s = sto 0" and "C w 0 br = None"
  shows "\<exists>w'. pc_Fetch now s br (cb, w) = Ret ((None, 0, Some ErrNotExist), (cb, w')) \<and> I w' \<and> C w' = C w"
proof -
  have spec: "fetch_spec (C w 0) br = (None, 0, Some ErrNotExist)" using assms(4) by (simp add: fetch_spec_def)
  obtain w1 where w1: "sto_Fetch (sto 0) br w = Ret (fetch_spec (C w 0) br, w1)" "I w1" "m w1 = m w" "C w1 = C w"
    using FetchE [OF assms(1,2)] .
  obtain w2 where "sto_Fetch (sto 0) br w1 = Ret (fetch_spec (C w1 0) br, w2)" "I w2" "m w2 = m w1" "C w2 = C w1"
    using FetchE [OF w1(2) assms(2)] .
  then show ?thesis using w1 spec by (simp add: pc_Fetch_def assms(3))
qed

lemma Fetch_pc_hit:
  assumes "I w" and "0 < n" and "pc_cache s = sto 0" and "pc_kv s = kv" and "C w 0 br = Some b"
  shows "\<exists>st'. pc_Fetch now s br (cb, w) = Ret ((Some (bytes_reader b), of_nat (length b), None), st') \<and> I (snd st') \<and> C (snd st') = C w"
proof -
  have spec: "fetch_spec (C w 0) br = (Some (bytes_reader b), of_nat (length b), None)" using assms(5) by (simp add: fetch_spec_def)
  obtain w1 where w1: "sto_Fetch (sto 0) br w = Ret (fetch_spec (C w 0) br, w1)" "I w1" "m w1 = m w" "C w1 = C w"
    using FetchE [OF assms(1,2)] .
  obtain cb' w2 where "pc_touchBlob now s \<lparr>sr_Ref = br, sr_Size = of_nat (length b)\<rparr> (cb, w1) = (cb', w2)" "I w2" "C w2 = C w1"
    using touchBlob_frame [OF w1(2) assms(4)] .
  then show ?thesis using w1 spec by (simp add: pc_Fetch_def assms(3))
qed

lemma ReceiveBlob_pc:
  assumes "I w" and "1 < n" and "pc_cache s = sto 0" and "pc_origin s = sto 1" and "pc_kv s = kv" and "br = SHA1FromBytes data"
  shows "\<exists>cb' w'. pc_ReceiveBlob now s br (bytes_reader data) (cb, w) = Ret ((sized br data, None, ReadToEnd), (cb', w')) \<and>
    I w' \<and> C w' = (C w)(0 := put (C w 0) br data, 1 := put (C w 1) br data)"
proof -
  have n: "0 < n" using assms(2) by simp
  obtain w1 where w1: "sto_ReceiveBlob (sto 0) br (bytes_reader data) w = Ret ((sized br data, None, ReadToEnd), w1)"
    "I w1" "m w1 = m w" "C w1 = (C w)(0 := put (C w 0) br data)" using ReceiveE [OF assms(1) n assms(6)] .
  obtain cb' w2 where w2: "pc_touchBlob now s zeroSizedRef (cb, w1) = (cb', w2)" "I w2" "C w2 = C w1"
    using touchBlob_frame [OF w1(2) assms(5)] .
  obtain w3 where w3: "sto_ReceiveBlob (sto 1) br (bytes_reader data) w2 = Ret ((sized br data, None, ReadToEnd), w3)"
    "I w3" "m w3 = m w2" "C w3 = (C w2)(1 := put (C w2 1) br data)" using ReceiveE [OF w2(2) assms(2,6)] .
  have rd: "rd_err (bytes_reader data) = None" "rd_data (bytes_reader data) = data" by (simp_all add: bytes_reader_def)
  show ?thesis using w1 w2 w3 by (simp add: pc_ReceiveBlob_def rd assms(3,4))
qed

end

text \<open>
  C39 [proxycache].  The proxy never reads its origin: it answers a \<open>Fetch\<close> from the cache alone.  A blob that is in the cache is
  returned; one that is not is reported as missing though the origin has it and
  \<open>StatBlobs\<close> and \<open>EnumerateBlobs\<close>, which ask the origin, say so.
\<close>

theorem proxycache_ignores_origin:
  assumes "mk_inv (fst w)" and "mem_I (snd w)" and "mem_C (snd w) 1 br = Some b"
    and "pc_cache s = lift_sto (mem_at 0)" and "pc_origin s = lift_sto (mem_at 1)" and "pc_kv s = lift_fst memKeys"
  shows "case mem_C (snd w) 0 br of
      None \<Rightarrow> (\<exists>w' w''. pc_Fetch now s br (cb, w) = Ret ((None, 0, Some ErrNotExist), (cb, w')) \<and>
                 pc_StatBlobs s [br] (cb, w') = Ret (([sized br b], None), (cb, w'')))
    | Some b' \<Rightarrow> (\<exists>st'. pc_Fetch now s br (cb, w) = Ret ((Some (bytes_reader b'), of_nat (length b'), None), st'))"
proof (cases "mem_C (snd w) 0 br")
  case None
  have I: "mk_inv (fst w) \<and> mem_I (snd w)" using assms(1,2) by simp
  obtain w' where w': "pc_Fetch now s br (cb, w) = Ret ((None, 0, Some ErrNotExist), (cb, w'))" "mk_inv (fst w')" "mem_I (snd w')"
    "mem_C (snd w') = mem_C (snd w)"
    using mem_kvs.Fetch_pc_miss [OF I _ assms(4) None, of 1 now cb] by auto
  have "\<exists>w''. sto_StatBlobs (lift_sto (mem_at 1)) [br] w' = Ret ((stat_spec (mem_C (snd w') 1) [br], None), w'')"
    using mem_kvs.st.StatBlobs [of w' 1 2 "[br]"] w' by auto
  then have "\<exists>w''. pc_StatBlobs s [br] (cb, w') = Ret (([sized br b], None), (cb, w''))"
    using assms(3,5) w'(4) by (auto simp: pc_StatBlobs_def stat_spec_def)
  then show ?thesis using w'(1) None by auto
next
  case (Some b')
  then show ?thesis using mem_kvs.Fetch_pc_hit [of w 1 s br b' now cb] assms by auto
qed

definition half_cached :: "nat \<Rightarrow> memsto" where
  "half_cached i = (if i = 1 then mem_New\<lparr>ms_m := [(SHA1FromBytes [1], [1])], ms_size := 1\<rparr> else mem_New)"

theorem proxycache_ignores_origin_witness:
  "\<exists>w'. pc_Fetch 7 \<lparr>pc_origin = lift_sto (mem_at 1), pc_cache = lift_sto (mem_at 0), pc_kv = lift_fst memKeys, pc_maxCacheBytes = 9\<rparr>
      (SHA1FromBytes [1]) (0, ([], half_cached)) = Ret ((None, 0, Some ErrNotExist), (0, w')) \<and>
    mem_C half_cached 1 (SHA1FromBytes [1]) = Some [1]"
proof -
  let ?s = "\<lparr>pc_origin = lift_sto (mem_at 1), pc_cache = lift_sto (mem_at 0), pc_kv = lift_fst memKeys, pc_maxCacheBytes = 9\<rparr>"
  have "mem_I half_cached" by (auto simp: mem_I_def mem_inv_def mem_New_def blobs_ok_def half_cached_def)
  moreover have "mk_inv []" by (simp add: mk_inv_def)
  moreover have "mem_C half_cached 1 (SHA1FromBytes [1]) = Some [1]" "mem_C half_cached 0 (SHA1FromBytes [1]) = None"
    by (simp_all add: mem_C_def half_cached_def mem_New_def)
  ultimately show ?thesis using proxycache_ignores_origin [of "([], half_cached)" "SHA1FromBytes [1]" "[1]" ?s 7 0] by auto
qed

end
