(* ===== verification/Cond.thy ===== *)
theory Cond
  imports MemStorage BlobStore JsonConfig
begin

text \<open>
  Package \<open>pkg/blobserver/cond\<close>: a storage that chooses where to write by looking at the blob, and reads and
  removes elsewhere.
\<close>

section \<open>Operations\<close>

text \<open>A \<open>storageFunc\<close> selects a destination and returns a source equivalent to the one it was given.\<close>

type_synonym 'w storageFunc = "Ref \<Rightarrow> reader \<Rightarrow> 'w Storage \<times> reader \<times> goerr option"

record 'w condStorage =
  cond_storageForReceive :: "'w storageFunc option"
  cond_read :: "'w Storage option"
  cond_remove :: "'w Storage option"

text \<open>
  \<open>sniff\<close> is \<open>schema.BlobFromReader\<close> followed by \<open>Type\<close>: an error, or the camliType, empty if there is none.  What it
  consumed is kept by the \<open>TeeReader\<close> and put in front of the rest of the source, so the new source delivers what
  the old one did.
\<close>

definition isSchemaPicker :: "(Ref \<Rightarrow> reader \<Rightarrow> goerr + string) \<Rightarrow> 'w Storage \<Rightarrow> 'w Storage \<Rightarrow> 'w storageFunc" where
  "isSchemaPicker sniff thenSto elseSto br src =
     (case sniff br src of
        Inl e \<Rightarrow> (elseSto, src, None)
      | Inr t \<Rightarrow> if t = [] then (elseSto, src, None) else (thenSto, src, None))"

definition buildStorageForReceive ::
  "(Ref \<Rightarrow> reader \<Rightarrow> goerr + string) \<Rightarrow> (string \<Rightarrow> goerr + 'w Storage) \<Rightarrow> jval \<Rightarrow> (goerr + 'w storageFunc) outcome" where
  "buildStorageForReceive sniff ld confOrString =
     (case confOrString of
        JStr s \<Rightarrow> Ret (case ld s of Inl e \<Rightarrow> Inl e | Inr sto \<Rightarrow> Inr (\<lambda>br src. (sto, src, None)))
      | JObj conf \<Rightarrow>
          obind (RequiredString ''if'' conf) (\<lambda>(ifStr, conf).
          obind (RequiredString ''then'' conf) (\<lambda>(thenTarget, conf).
          obind (RequiredString ''else'' conf) (\<lambda>(elseTarget, conf).
          obind (Validate conf) (\<lambda>(err, _).
            Ret (case err of
                   Some e \<Rightarrow> Inl e
                 | None \<Rightarrow>
                     (case ld thenTarget of
                        Inl e \<Rightarrow> Inl e
                      | Inr thenSto \<Rightarrow>
                          (case ld elseTarget of
                             Inl e \<Rightarrow> Inl e
                           | Inr elseSto \<Rightarrow>
                               if ifStr = ''isSchema'' then Inr (isSchemaPicker sniff thenSto elseSto)
                               else Inl (ErrText ''cond: unsupported 'if' type'')))))))) 
      | _ \<Rightarrow> Panic ''interface conversion'')"

definition cond_newFromConfig ::
  "(Ref \<Rightarrow> reader \<Rightarrow> goerr + string) \<Rightarrow> (string \<Rightarrow> goerr + 'w Storage) \<Rightarrow> Obj \<Rightarrow> (goerr + 'w condStorage) outcome" where
  "cond_newFromConfig sniff ld conf =
     obind (OptionalStringOrObject ''write'' conf) (\<lambda>(receive, conf).
     obind (RequiredString ''read'' conf) (\<lambda>(read, conf).
     obind (OptionalString ''remove'' [] conf) (\<lambda>(remove, conf).
     obind (Validate conf) (\<lambda>(err, _).
       case err of
         Some e \<Rightarrow> Ret (Inl e)
       | None \<Rightarrow>
           obind (if receive = JNil then Ret (Inr None)
                  else obind (buildStorageForReceive sniff ld receive) (\<lambda>r. Ret (map_sum id Some r))) (\<lambda>f.
             Ret (case f of
                    Inl e \<Rightarrow> Inl e
                  | Inr f \<Rightarrow>
                      (case ld read of
                         Inl e \<Rightarrow> Inl e
                       | Inr rsto \<Rightarrow>
                           if remove = [] then Inr \<lparr>cond_storageForReceive = f, cond_read = Some rsto, cond_remove = None\<rparr>
                           else (case ld remove of
                                   Inl e \<Rightarrow> Inl e
                                 | Inr msto \<Rightarrow> Inr \<lparr>cond_storageForReceive = f, cond_read = Some rsto, cond_remove = Some msto\<rparr>))))))))"

definition cond_ReceiveBlob :: "'w condStorage \<Rightarrow> Ref \<Rightarrow> reader \<Rightarrow> 'w \<Rightarrow> ((SizedRef \<times> goerr option) \<times> 'w) outcome" where
  "cond_ReceiveBlob s br src w =
     (case cond_storageForReceive s of
        None \<Rightarrow> Panic ''nil pointer dereference''
      | Some f \<Rightarrow>
          (let (destSto, src, err) = f br src
           in if err \<noteq> None then Ret ((zeroSizedRef, err), w) else Receive destSto br src w))"

definition cond_RemoveBlobs :: "'w condStorage \<Rightarrow> Ref list \<Rightarrow> 'w \<Rightarrow> (goerr option \<times> 'w) outcome" where
  "cond_RemoveBlobs s blobs w =
     (case cond_remove s of
        Some sto \<Rightarrow> sto_RemoveBlobs sto blobs w
      | None \<Rightarrow> Ret (Some (ErrText ''cond: Remove not configured''), w))"

definition cond_Fetch :: "'w condStorage \<Rightarrow> 'w fetcher" where
  "cond_Fetch s b w =
     (case cond_read s of
        Some sto \<Rightarrow> sto_Fetch sto b w
      | None \<Rightarrow> Ret ((None, 0, Some (ErrText ''cond: Read not configured'')), w))"

definition cond_StatBlobs :: "'w condStorage \<Rightarrow> Ref list \<Rightarrow> 'w \<Rightarrow> ((SizedRef list \<times> goerr option) \<times> 'w) outcome" where
  "cond_StatBlobs s blobs w =
     (case cond_read s of
        Some sto \<Rightarrow> sto_StatBlobs sto blobs w
      | None \<Rightarrow> Ret (([], Some (ErrText ''cond: Read not configured'')), w))"

definition cond_EnumerateBlobs :: "'w condStorage \<Rightarrow> ctx \<Rightarrow> string \<Rightarrow> int \<Rightarrow> 'w \<Rightarrow> (SizedRef list \<times> goerr option) outcome" where
  "cond_EnumerateBlobs s ctx after limit w =
     (case cond_read s of
        Some sto \<Rightarrow> sto_EnumerateBlobs sto ctx after limit w
      | None \<Rightarrow> Ret ([], Some (ErrText ''cond: Read not configured'')))"

section \<open>Where blobs go\<close>

text \<open>A storage built from a configuration with a static or a schema-dependent \<open>write\<close> part.\<close>

lemma cond_ReceiveBlob_picker:
  "cond_ReceiveBlob s br src w = Receive (case sniff br src of Inr (c # t) \<Rightarrow> thenSto | _ \<Rightarrow> elseSto) br src w"
  if "cond_storageForReceive s = Some (isSchemaPicker sniff thenSto elseSto)"
  using that by (auto simp: cond_ReceiveBlob_def isSchemaPicker_def split: sum.split list.split)

context stores
begin

text \<open>
  With the two targets among the storages of a family, a blob is stored in the one its contents select and
  in no other.
\<close>

lemma ReceiveBlob_cond:
  assumes "I w" and "t < n" and "e < n" and "br = SHA1FromBytes data" and "length data \<le> MaxBlobSize"
    and "cond_storageForReceive s = Some (isSchemaPicker sniff (sto t) (sto e))"
  defines "d \<equiv> (case sniff br (bytes_reader data) of Inr (c # _) \<Rightarrow> t | _ \<Rightarrow> e)"
  shows "\<exists>w'. cond_ReceiveBlob s br (bytes_reader data) w = Ret ((sized br data, None), w') \<and> I w' \<and>
    C w' = (C w)(d := put (C w d) br data)"
proof -
  have "d < n" using assms(2,3) by (auto simp: d_def split: sum.split list.split)
  moreover have "(case sniff br (bytes_reader data) of Inr (c # x) \<Rightarrow> sto t | _ \<Rightarrow> sto e) = sto d"
    by (auto simp: d_def split: sum.split list.split)
  ultimately show ?thesis
    using receive_good [OF assms(1) _ assms(4,5), of d True] cond_ReceiveBlob_picker [OF assms(6), of br "bytes_reader data" w]
    by (simp add: Receive_def)
qed

end

end
