(* ===== verification/MultiStream.thy ===== *)
theory MultiStream
  imports BlobServer Strutil
begin

text \<open>
  \<open>pkg/blobserver/multistream.go\<close>: several blob streamers as one, with continuation tokens that name the part.
\<close>

section \<open>Operations\<close>

text \<open>A streamer delivers blobs with the tokens from which it can be resumed, and an error at the end.\<close>

type_synonym 'b streamer = "ctx \<Rightarrow> string \<Rightarrow> ('b \<times> string) list \<times> goerr option"

definition is_digit :: "char \<Rightarrow> bool" where
  "is_digit c \<longleftrightarrow> c \<in> set ''0123456789''"

text \<open>\<open>msTokenPrefixRx.FindString\<close>: the longest run of digits at the start, if a colon follows.\<close>

definition ms_prefix :: "string \<Rightarrow> string" where
  "ms_prefix s =
     (let ds = takeWhile is_digit s
      in if ds \<noteq> [] \<and> drop (length ds) s \<noteq> [] \<and> hd (drop (length ds) s) = CHR '':'' then ds @ '':'' else [])"

text \<open>\<open>strconv.Atoi\<close> of a run of digits; the empty string and values beyond \<open>int64\<close> are errors.\<close>

definition Atoi :: "string \<Rightarrow> int \<times> goerr option" where
  "Atoi s =
     (if s = [] then (0, Some ErrSyntax)
      else let n = digits_value 10 0 (bytes_of_string s)
           in if n < 2 ^ 63 then (int n, None) else (2 ^ 63 - 1, Some ErrRange))"

text \<open>The inner loop over one part: the outer \<open>select\<close> sees the cancellation in place of a send.\<close>

fun ms_forward :: "ctx \<Rightarrow> string \<Rightarrow> ('b \<times> string) list \<Rightarrow> nat \<Rightarrow> ('b \<times> string) list \<times> bool" where
  "ms_forward ctx partStr [] k = ([], False)"
| "ms_forward ctx partStr ((b, t) # bts) k =
     (if ctx = Some k then ([], True)
      else let (out, canceled) = ms_forward ctx partStr bts (k + 1) in ((b, partStr @ '':'' @ t) # out, canceled))"

fun ms_loop :: "ctx \<Rightarrow> 'b streamer list \<Rightarrow> nat \<Rightarrow> string \<Rightarrow> nat \<Rightarrow> ('b \<times> string) list \<times> goerr option" where
  "ms_loop ctx [] part contToken k = ([], None)"
| "ms_loop ctx (bs # srcs) part contToken k =
     (let (bts, err) = bs None contToken;
          (out, canceled) = ms_forward ctx (itoa part) bts k
      in if canceled then (out, Some ErrCanceled)
         else if err \<noteq> None then (out, err)
         else let (rest, err) = ms_loop ctx srcs (part + 1) [] (k + length out) in (out @ rest, err))"

definition ms_StreamBlobs :: "'b streamer list \<Rightarrow> 'b streamer" where
  "ms_StreamBlobs s ctx contToken =
     (if contToken \<noteq> [] then
        let pfx = ms_prefix contToken;
            (part, err) = Atoi (butlast pfx)
        in if pfx = [] \<or> err \<noteq> None \<or> part \<ge> int (length s) then ([], Some (ErrText ''invalid continuation token''))
           else ms_loop ctx (drop (nat part) s) (nat part) (drop (length pfx) contToken) 0
      else ms_loop ctx s 0 [] 0)"

section \<open>Resumption\<close>

text \<open>A streamer is resumable if it delivers \<open>xs\<close>, and from the token of any blob the rest of \<open>xs\<close> from that blob on.\<close>

definition resumes :: "'b streamer \<Rightarrow> ('b \<times> string) list \<Rightarrow> bool" where
  "resumes s xs \<longleftrightarrow> s None [] = (xs, None) \<and> (\<forall>j < length xs. s None (snd (xs ! j)) = (drop j xs, None))"

definition with_part :: "nat \<Rightarrow> ('b \<times> string) list \<Rightarrow> ('b \<times> string) list" where
  "with_part part bts = map (\<lambda>(b, t). (b, itoa part @ '':'' @ t)) bts"

fun parts_from :: "nat \<Rightarrow> ('b \<times> string) list list \<Rightarrow> ('b \<times> string) list" where
  "parts_from part [] = []"
| "parts_from part (xs # xss) = with_part part xs @ parts_from (part + 1) xss"

lemma ms_forward_None: "ms_forward None (itoa part) bts k = (with_part part bts, False)"
  by (induction bts arbitrary: k) (auto simp: with_part_def)

lemma ms_loop_parts:
  assumes "list_all2 resumes srcs xss"
  shows "ms_loop None srcs part [] k = (parts_from part xss, None)"
  using assms
proof (induction srcs xss arbitrary: part k rule: list_all2_induct)
  case (Cons s srcs xs xss)
  have s: "s None [] = (xs, None)" using Cons.hyps(1) by (simp only: resumes_def)
  show ?case using Cons.IH by (simp add: s ms_forward_None)
qed simp

lemma itoa_is_digits: "list_all is_digit (itoa n)"
  unfolding list_all_iff is_digit_def using itoa_chars [of n] by blast

lemma ms_prefix_itoa: "ms_prefix (itoa n @ '':'' @ t) = itoa n @ '':''"
proof -
  have colon: "\<not> is_digit CHR '':''" by code_simp
  have "takeWhile is_digit (itoa n @ '':'' @ t) = itoa n"
    using itoa_is_digits [of n] colon by (simp add: takeWhile_append2 list_all_iff)
  then show ?thesis by (simp add: ms_prefix_def Let_def)
qed

lemma Atoi_itoa: "n < 2 ^ 63 \<Longrightarrow> Atoi (itoa n) = (int n, None)"
  using itoa_digits [of n] by (simp add: Atoi_def)

lemma parts_from_nth:
  assumes "j < length (parts_from part xss)"
  obtains p i where "p < length xss" "i < length (xss ! p)"
    "parts_from part xss ! j = (fst (xss ! p ! i), itoa (part + p) @ '':'' @ snd (xss ! p ! i))"
    "drop j (parts_from part xss) = with_part (part + p) (drop i (xss ! p)) @ parts_from (part + p + 1) (drop (p + 1) xss)"
  using assms
proof (induction xss arbitrary: part j thesis)
  case (Cons xs xss)
  show ?case
  proof (cases "j < length xs")
    case True
    then show ?thesis
      using Cons.prems(1) [of 0 j] by (simp add: with_part_def nth_append drop_map split: prod.split)
  next
    case False
    then have "j - length xs < length (parts_from (part + 1) xss)" using Cons.prems(2) by (simp add: with_part_def)
    from Cons.IH [OF _ this] obtain p i where "p < length xss" "i < length (xss ! p)"
      "parts_from (part + 1) xss ! (j - length xs) = (fst (xss ! p ! i), itoa (part + 1 + p) @ '':'' @ snd (xss ! p ! i))"
      "drop (j - length xs) (parts_from (part + 1) xss) =
        with_part (part + 1 + p) (drop i (xss ! p)) @ parts_from (part + 1 + p + 1) (drop (p + 1) xss)" by blast
    then show ?thesis using Cons.prems(1) [of "p + 1" i] False by (simp add: with_part_def nth_append)
  qed
qed simp

text \<open>
  C30 [multistream].  The concatenation of resumable streamers is resumable: it delivers the parts in order, and from the token of
  any blob it delivers that blob and everything after it, exactly as the uninterrupted stream.
\<close>

theorem multistream_resumes:
  assumes "list_all2 resumes srcs xss" and "length srcs < 2 ^ 63"
  shows "resumes (ms_StreamBlobs srcs) (parts_from 0 xss)"
  unfolding resumes_def
proof (intro conjI allI impI)
  show "ms_StreamBlobs srcs None [] = (parts_from 0 xss, None)" using ms_loop_parts [OF assms(1)] by (simp add: ms_StreamBlobs_def)
  fix j
  assume "j < length (parts_from 0 xss)"
  then obtain p i where p: "p < length xss" "i < length (xss ! p)"
    "parts_from 0 xss ! j = (fst (xss ! p ! i), itoa (0 + p) @ '':'' @ snd (xss ! p ! i))"
    "drop j (parts_from 0 xss) = with_part (0 + p) (drop i (xss ! p)) @ parts_from (0 + p + 1) (drop (p + 1) xss)"
    by (rule parts_from_nth)
  have len: "length srcs = length xss" using assms(1) by (rule list_all2_lengthD)
  have s: "resumes (srcs ! p) (xss ! p)" using assms(1) p(1) by (simp add: list_all2_conv_all_nth)
  have d: "drop p srcs = srcs ! p # drop (p + 1) srcs" using p(1) len by (simp add: Cons_nth_drop_Suc)
  have rest: "list_all2 resumes (drop (p + 1) srcs) (drop (p + 1) xss)" using assms(1) by (simp add: list_all2_dropI)
  have "(srcs ! p) None (snd (xss ! p ! i)) = (drop i (xss ! p), None)" using s p(2) by (simp add: resumes_def)
  moreover have "ms_prefix (itoa p @ '':'' @ snd (xss ! p ! i)) = itoa p @ '':''" by (rule ms_prefix_itoa)
  moreover have "Atoi (itoa p) = (int p, None)" using p(1) len assms(2) by (simp add: Atoi_itoa)
  ultimately show "ms_StreamBlobs srcs None (snd (parts_from 0 xss ! j)) = (drop j (parts_from 0 xss), None)"
    using p len d ms_loop_parts [OF rest, of "p + 1"] by (simp add: ms_StreamBlobs_def ms_forward_None butlast_append)
qed

definition two_blobs :: "string streamer" where
  "two_blobs ctx tok = (if tok = ''b'' then [(''blob-b'', ''b'')] else [(''blob-a'', ''a''), (''blob-b'', ''b'')], None)"

theorem multistream_resumes_witness:
  "resumes (ms_StreamBlobs [two_blobs, two_blobs]) (parts_from 0 [[(''blob-a'', ''a''), (''blob-b'', ''b'')], [(''blob-a'', ''a''), (''blob-b'', ''b'')]])"
proof -
  have "resumes two_blobs [(''blob-a'', ''a''), (''blob-b'', ''b'')]"
    by (auto simp: resumes_def two_blobs_def less_Suc_eq numeral_2_eq_2)
  then show ?thesis by (intro multistream_resumes) simp_all
qed

end
