(* ===== verification/Utf8.thy ===== *)
theory Utf8
  imports Prelude
begin

text \<open>
  What the code uses of \<open>unicode/utf8\<close>: decoding and encoding of runes, and hexadecimal digits.
\<close>

text \<open>\<open>utf8.DecodeRuneInString\<close>: the rune and its width; invalid encodings are \<open>RuneError\<close> of width 1.\<close>

definition RuneError :: int where
  "RuneError = 0xFFFD"

definition is_cont :: "u8 \<Rightarrow> bool" where
  "is_cont c \<longleftrightarrow> 0x80 \<le> c \<and> c < 0xC0"

definition cont_bits :: "u8 \<Rightarrow> int" where
  "cont_bits c = uint c - 0x80"

definition DecodeRune :: "bytes \<Rightarrow> int \<times> nat" where
  "DecodeRune s =
     (case s of
        [] \<Rightarrow> (RuneError, 0)
      | c0 # s1 \<Rightarrow>
          if c0 < 0x80 then (uint c0, 1)
          else if c0 < 0xC0 then (RuneError, 1)
          else (case s1 of
             [] \<Rightarrow> (RuneError, 1)
           | c1 # s2 \<Rightarrow>
               if \<not> is_cont c1 then (RuneError, 1)
               else if c0 < 0xE0 then
                 (let r = (uint c0 - 0xC0) * 0x40 + cont_bits c1
                  in if r \<le> 0x7F then (RuneError, 1) else (r, 2))
               else (case s2 of
                  [] \<Rightarrow> (RuneError, 1)
                | c2 # s3 \<Rightarrow>
                    if \<not> is_cont c2 then (RuneError, 1)
                    else if c0 < 0xF0 then
                      (let r = (uint c0 - 0xE0) * 0x1000 + cont_bits c1 * 0x40 + cont_bits c2
                       in if r \<le> 0x7FF \<or> 0xD800 \<le> r \<and> r \<le> 0xDFFF then (RuneError, 1) else (r, 3))
                    else (case s3 of
                       [] \<Rightarrow> (RuneError, 1)
                     | c3 # s4 \<Rightarrow>
                         if \<not> is_cont c3 then (RuneError, 1)
                         else if c0 < 0xF8 then
                           (let r = (uint c0 - 0xF0) * 0x40000 + cont_bits c1 * 0x1000 + cont_bits c2 * 0x40 + cont_bits c3
                            in if r \<le> 0xFFFF \<or> 0x10FFFF < r then (RuneError, 1) else (r, 4))
                         else (RuneError, 1)))))"

lemma DecodeRune_width: "s \<noteq> [] \<Longrightarrow> 1 \<le> snd (DecodeRune s) \<and> snd (DecodeRune s) \<le> length s"
  by (auto simp: DecodeRune_def Let_def split: list.split)

definition EncodeRune :: "int \<Rightarrow> bytes" where
  "EncodeRune r0 =
     (let r = (if r0 < 0 \<or> 0x10FFFF < r0 \<or> 0xD800 \<le> r0 \<and> r0 \<le> 0xDFFF then RuneError else r0);
          c = (\<lambda>k. word_of_int (0x80 + r div 2 ^ k mod 0x40) :: u8)
      in if r \<le> 0x7F then [word_of_int r]
         else if r \<le> 0x7FF then [word_of_int (0xC0 + r div 2 ^ 6), c 0]
         else if r \<le> 0xFFFF then [word_of_int (0xE0 + r div 2 ^ 12), c 6, c 0]
         else [word_of_int (0xF0 + r div 2 ^ 18), c 12, c 6, c 0])"

definition unhex :: "u8 \<Rightarrow> int option" where
  "unhex b =
     (let c = uint b
      in if 0x30 \<le> c \<and> c \<le> 0x39 then Some (c - 0x30)
         else if 0x61 \<le> c \<and> c \<le> 0x66 then Some (c - 0x61 + 10)
         else if 0x41 \<le> c \<and> c \<le> 0x46 then Some (c - 0x41 + 10)
         else None)"

fun hex_value :: "int \<Rightarrow> bytes \<Rightarrow> int option" where
  "hex_value v [] = Some v"
| "hex_value v (b # bs) = (case unhex b of None \<Rightarrow> None | Some x \<Rightarrow> hex_value (v * 16 + x) bs)"

section \<open>Valid encodings\<close>

text \<open>A valid encoding is what \<open>EncodeRune\<close> makes of its rune, whatever follows it.\<close>

definition good_rune :: "bytes \<Rightarrow> bool" where
  "good_rune s \<longleftrightarrow> s \<noteq> [] \<and> DecodeRune s \<noteq> (RuneError, 1)"

lemma uint_bounds: "0 \<le> uint (c :: u8)" "uint (c :: u8) < 256"
  using uint_range_size [of c] by (simp_all add: word_size)

lemma cont_bounds: "is_cont c \<Longrightarrow> 0 \<le> cont_bits c \<and> cont_bits c < 0x40 \<and> word_of_int (0x80 + cont_bits c) = c"
  by (auto simp: is_cont_def cont_bits_def word_le_def word_less_def)

lemma digits_64:
  fixes x y :: int
  assumes "0 \<le> y" "y < 0x40"
  shows "(x * 0x40 + y) div 0x40 = x" "(x * 0x40 + y) mod 0x40 = y"
  using assms by simp_all

lemma good_rune_1: "c < 0x80 \<Longrightarrow> EncodeRune (uint c) = [c]"
  using uint_bounds [of c] by (auto simp: EncodeRune_def Let_def RuneError_def word_less_def)

lemma good_rune_2:
  assumes "0xC0 \<le> c0" "c0 < 0xE0" "is_cont c1" "(uint c0 - 0xC0) * 0x40 + cont_bits c1 > 0x7F"
  shows "EncodeRune ((uint c0 - 0xC0) * 0x40 + cont_bits c1) = [c0, c1]"
proof -
  define x y where "x = uint c0 - 0xC0" and "y = cont_bits c1"
  have x: "0 \<le> x" "x < 0x20" "word_of_int (0xC0 + x) = c0" using assms(1,2) by (auto simp: x_def word_le_def word_less_def)
  have y: "0 \<le> y" "y < 0x40" "word_of_int (0x80 + y) = c1" using cont_bounds [OF assms(3)] by (auto simp: y_def)
  have "x * 0x40 + y \<le> 0x7FF" using x y by simp
  moreover have "x * 0x40 + y > 0x7F" using assms(4) by (simp add: x_def y_def)
  ultimately show ?thesis using x y digits_64 [OF y(1,2), of x] unfolding x_def [symmetric] y_def [symmetric]
    by (simp add: EncodeRune_def Let_def)
qed

lemma good_rune_3:
  fixes c0 c1 c2 :: u8
  defines "r \<equiv> (uint c0 - 0xE0) * 0x1000 + cont_bits c1 * 0x40 + cont_bits c2"
  assumes "0xE0 \<le> c0" "c0 < 0xF0" "is_cont c1" "is_cont c2" "r > 0x7FF" "\<not> (0xD800 \<le> r \<and> r \<le> 0xDFFF)"
  shows "EncodeRune r = [c0, c1, c2]"
proof -
  define x y z where "x = uint c0 - 0xE0" and "y = cont_bits c1" and "z = cont_bits c2"
  have x: "0 \<le> x" "x < 0x10" "word_of_int (0xE0 + x) = c0" using assms(2,3) by (auto simp: x_def word_le_def word_less_def)
  have y: "0 \<le> y" "y < 0x40" "word_of_int (0x80 + y) = c1" using cont_bounds [OF assms(4)] by (auto simp: y_def)
  have z: "0 \<le> z" "z < 0x40" "word_of_int (0x80 + z) = c2" using cont_bounds [OF assms(5)] by (auto simp: z_def)
  have r: "r = (x * 0x40 + y) * 0x40 + z" by (simp add: r_def x_def y_def z_def)
  have "r div 0x40 = x * 0x40 + y" "r mod 0x40 = z" unfolding r by (rule digits_64 [OF z(1,2)])+
  moreover then have "r div 0x1000 = x" using digits_64 [OF y(1,2), of x] zdiv_zmult2_eq [of "0x40" r "0x40"] by simp
  moreover have "r \<le> 0xFFFF" using x y z by (simp add: r)
  ultimately show ?thesis using x y z assms(6,7) digits_64 [OF y(1,2), of x] by (auto simp: EncodeRune_def Let_def)
qed

lemma good_rune_4:
  fixes c0 c1 c2 c3 :: u8
  defines "r \<equiv> (uint c0 - 0xF0) * 0x40000 + cont_bits c1 * 0x1000 + cont_bits c2 * 0x40 + cont_bits c3"
  assumes "0xF0 \<le> c0" "c0 < 0xF8" "is_cont c1" "is_cont c2" "is_cont c3" "r > 0xFFFF" "r \<le> 0x10FFFF"
  shows "EncodeRune r = [c0, c1, c2, c3]"
proof -
  define x y z w where "x = uint c0 - 0xF0" and "y = cont_bits c1" and "z = cont_bits c2" and "w = cont_bits c3"
  have x: "0 \<le> x" "x < 8" "word_of_int (0xF0 + x) = c0" using assms(2,3) by (auto simp: x_def word_le_def word_less_def)
  have y: "0 \<le> y" "y < 0x40" "word_of_int (0x80 + y) = c1" using cont_bounds [OF assms(4)] by (auto simp: y_def)
  have z: "0 \<le> z" "z < 0x40" "word_of_int (0x80 + z) = c2" using cont_bounds [OF assms(5)] by (auto simp: z_def)
  have w: "0 \<le> w" "w < 0x40" "word_of_int (0x80 + w) = c3" using cont_bounds [OF assms(6)] by (auto simp: w_def)
  have r: "r = ((x * 0x40 + y) * 0x40 + z) * 0x40 + w" by (simp add: r_def x_def y_def z_def w_def)
  have 1: "r div 0x40 = (x * 0x40 + y) * 0x40 + z" "r mod 0x40 = w" unfolding r by (rule digits_64 [OF w(1,2)])+
  then have 2: "r div 0x1000 = x * 0x40 + y" using digits_64 [OF z(1,2)] zdiv_zmult2_eq [of "0x40" r "0x40"] by simp
  then have 3: "r div 0x40000 = x" using digits_64 [OF y(1,2), of x] zdiv_zmult2_eq [of "0x40" r "0x1000"] by simp
  show ?thesis using x y z w 1 2 3 assms(7,8) digits_64 [OF y(1,2), of x] digits_64 [OF z(1,2), of "x * 0x40 + y"]
    by (auto simp: EncodeRune_def Let_def)
qed

lemma good_rune_cases:
  assumes "good_rune s"
  obtains c s1 where "s = c # s1" "c < 0x80" "DecodeRune s = (uint c, 1)"
  | c0 c1 s2 where "s = c0 # c1 # s2" "0xC0 \<le> c0" "c0 < 0xE0" "is_cont c1" "(uint c0 - 0xC0) * 0x40 + cont_bits c1 > 0x7F"
      "DecodeRune s = ((uint c0 - 0xC0) * 0x40 + cont_bits c1, 2)"
  | c0 c1 c2 s3 r where "s = c0 # c1 # c2 # s3" "0xE0 \<le> c0" "c0 < 0xF0" "is_cont c1" "is_cont c2"
      "r = (uint c0 - 0xE0) * 0x1000 + cont_bits c1 * 0x40 + cont_bits c2" "r > 0x7FF" "\<not> (0xD800 \<le> r \<and> r \<le> 0xDFFF)" "DecodeRune s = (r, 3)"
  | c0 c1 c2 c3 s4 r where "s = c0 # c1 # c2 # c3 # s4" "0xF0 \<le> c0" "c0 < 0xF8" "is_cont c1" "is_cont c2" "is_cont c3"
      "r = (uint c0 - 0xF0) * 0x40000 + cont_bits c1 * 0x1000 + cont_bits c2 * 0x40 + cont_bits c3" "r > 0xFFFF" "r \<le> 0x10FFFF" "DecodeRune s = (r, 4)"
proof -
  obtain c0 s1 where s: "s = c0 # s1" using assms by (cases s) (auto simp: good_rune_def)
  have d: "DecodeRune s \<noteq> (RuneError, 1)" using assms by (simp add: good_rune_def)
  show ?thesis
  proof (cases "c0 < 0x80")
    case True
    then show ?thesis using that(1) s by (simp add: DecodeRune_def)
  next
    case False
    then obtain c1 s2 where s1: "s1 = c1 # s2" "is_cont c1" "\<not> c0 < 0xC0"
      using d s by (cases s1) (auto simp: DecodeRune_def split: if_splits)
    show ?thesis
    proof (cases "c0 < 0xE0")
      case True
      then show ?thesis using that(2) [of c0 c1 s2] d s s1 False by (auto simp: DecodeRune_def Let_def not_less not_le split: if_splits)
    next
      case e: False
      then obtain c2 s3 where s2: "s2 = c2 # s3" "is_cont c2"
        using d s s1 False by (cases s2) (auto simp: DecodeRune_def split: if_splits)
      show ?thesis
      proof (cases "c0 < 0xF0")
        case True
        then show ?thesis using that(3) [of c0 c1 c2 s3] d s s1 s2 False e
          by (auto simp: DecodeRune_def Let_def not_less not_le split: if_splits)
      next
        case f: False
        then obtain c3 s4 where "s3 = c3 # s4" "is_cont c3"
          using d s s1 s2 False e by (cases s3) (auto simp: DecodeRune_def split: if_splits)
        then show ?thesis using that(4) [of c0 c1 c2 c3 s4] d s s1 s2 False e f
          by (auto simp: DecodeRune_def Let_def not_less not_le split: if_splits)
      qed
    qed
  qed
qed

lemma not_less_word: "k \<le> (c :: u8) \<Longrightarrow> j \<le> k \<Longrightarrow> \<not> c < j"
  by (simp add: not_less)

lemma good_rune_encode:
  assumes "good_rune s"
  shows "EncodeRune (fst (DecodeRune s)) = take (snd (DecodeRune s)) s"
    and "DecodeRune (take (snd (DecodeRune s)) s @ X) = DecodeRune s"
  using assms
proof (atomize (full), cases rule: good_rune_cases)
  case (1 c s1)
  then show "EncodeRune (fst (DecodeRune s)) = take (snd (DecodeRune s)) s \<and> DecodeRune (take (snd (DecodeRune s)) s @ X) = DecodeRune s"
    by (simp add: good_rune_1) (simp add: DecodeRune_def)
next
  case (2 c0 c1 s2)
  then show "EncodeRune (fst (DecodeRune s)) = take (snd (DecodeRune s)) s \<and> DecodeRune (take (snd (DecodeRune s)) s @ X) = DecodeRune s"
    using good_rune_2 [OF 2(2-5)] not_less_word [OF 2(2)] by (simp add: numeral_2_eq_2) (simp add: DecodeRune_def Let_def)
next
  case (3 c0 c1 c2 s3 r)
  then show "EncodeRune (fst (DecodeRune s)) = take (snd (DecodeRune s)) s \<and> DecodeRune (take (snd (DecodeRune s)) s @ X) = DecodeRune s"
    using good_rune_3 [OF 3(2-5)] not_less_word [OF 3(2)] by (simp add: numeral_3_eq_3) (simp add: DecodeRune_def Let_def)
next
  case (4 c0 c1 c2 c3 s4 r)
  then show "EncodeRune (fst (DecodeRune s)) = take (snd (DecodeRune s)) s \<and> DecodeRune (take (snd (DecodeRune s)) s @ X) = DecodeRune s"
    using good_rune_4 [OF 4(2-6)] not_less_word [OF 4(2)] by (simp add: eval_nat_numeral) (simp add: DecodeRune_def Let_def)
qed

end
