(* ===== verification/Lexer.thy ===== *)
theory Lexer
  imports Utf8
begin

text \<open>
  The lexer of search expressions (\<open>pkg/search/lexer.go\<close>): a state machine over the UTF-8 input that
  sends tokens on a channel.
\<close>

section \<open>Runes\<close>

definition rune :: "char \<Rightarrow> int" where
  "rune c = of_char c"

text \<open>\<open>unicode.IsSpace\<close>: the white space of Latin-1 and the White_Space property above it.\<close>

definition IsSpace :: "int \<Rightarrow> bool" where
  "IsSpace r \<longleftrightarrow> r \<in> {0x09, 0x0A, 0x0B, 0x0C, 0x0D, 0x20, 0x85, 0xA0, 0x1680, 0x2028, 0x2029, 0x202F, 0x205F, 0x3000} \<or>
     0x2000 \<le> r \<and> r \<le> 0x200A"

section \<open>Tokens and the lexer\<close>

datatype tokenType =
    tokenAnd | tokenArg | tokenClose | tokenColon | tokenEOF | tokenError | tokenLiteral | tokenNot | tokenOpen
  | tokenOr | tokenPredicate | tokenQuotedArg | tokenQuotedLiteral

definition l_eof :: int where
  "l_eof = -1"

definition whitespace :: "int set" where
  "whitespace = {0x09, 0x0A, 0x0C, 0x0B, 0x0D, 0x20}"

definition opBound :: "int set" where
  "opBound = insert (rune CHR ''('') whitespace"

definition isSearchWordRune :: "int \<Rightarrow> bool" where
  "isSearchWordRune r = (if r \<in> {rune CHR '':'', rune CHR '')'', rune CHR ''('', l_eof} then False else \<not> IsSpace r)"

record token =
  tok_typ :: tokenType
  tok_val :: string
  tok_start :: int

record lexer =
  lx_input :: bytes
  lx_start :: nat
  lx_pos :: nat
  lx_width :: nat

definition lx_emit :: "tokenType \<Rightarrow> lexer \<Rightarrow> token option \<times> lexer" where
  "lx_emit typ l =
     (Some \<lparr>tok_typ = typ, tok_val = string_of_bytes (take (lx_pos l - lx_start l) (drop (lx_start l) (lx_input l))),
        tok_start = int (lx_start l)\<rparr>,
      l\<lparr>lx_start := lx_pos l\<rparr>)"

definition lx_next :: "lexer \<Rightarrow> int \<times> lexer" where
  "lx_next l =
     (if lx_pos l \<ge> length (lx_input l) then (l_eof, l\<lparr>lx_width := 0\<rparr>)
      else let (r, wd) = DecodeRune (drop (lx_pos l) (lx_input l))
           in (r, l\<lparr>lx_pos := lx_pos l + wd, lx_width := wd\<rparr>))"

definition lx_ignore :: "lexer \<Rightarrow> lexer" where
  "lx_ignore l = l\<lparr>lx_start := lx_pos l\<rparr>"

definition lx_backup :: "lexer \<Rightarrow> lexer" where
  "lx_backup l = l\<lparr>lx_pos := lx_pos l - lx_width l\<rparr>"

definition lx_peek :: "lexer \<Rightarrow> int \<times> lexer" where
  "lx_peek l = (let (r, l) = lx_next l in (r, lx_backup l))"

text \<open>The sets of runes given as strings; the end of the input is in none of them.\<close>

definition lx_accept :: "int set \<Rightarrow> lexer \<Rightarrow> bool \<times> lexer" where
  "lx_accept valid l = (let (r, l) = lx_next l in if r \<in> valid then (True, l) else (False, lx_backup l))"

fun lx_acceptString :: "string \<Rightarrow> lexer \<Rightarrow> bool \<times> lexer" where
  "lx_acceptString [] l = (True, l)"
| "lx_acceptString (c # cs) l =
     (let (r, l) = lx_next l in if r \<noteq> rune c then (False, lx_backup l) else lx_acceptString cs l)"

text \<open>
  The runs end at the end of the input: it is in no set, \<open>isSearchWordRune\<close> excludes it, and \<open>unicode.IsLetter\<close>
  does not hold of -1.
\<close>

function lx_acceptRunFn :: "(int \<Rightarrow> bool) \<Rightarrow> lexer \<Rightarrow> lexer" where
  "lx_acceptRunFn valid l =
     (if lx_pos l < length (lx_input l) \<and> valid (fst (lx_next l)) then lx_acceptRunFn valid (snd (lx_next l))
      else lx_backup (snd (lx_next l)))"
  by pat_completeness auto
termination
proof (relation "measure (\<lambda>(valid, l). length (lx_input l) - lx_pos l)")
  fix valid and l :: lexer
  assume l: "lx_pos l < length (lx_input l) \<and> valid (fst (lx_next l))"
  then have "1 \<le> snd (DecodeRune (drop (lx_pos l) (lx_input l)))" using DecodeRune_width by simp
  with l show "((valid, snd (lx_next l)), valid, l) \<in> measure (\<lambda>(valid, l). length (lx_input l) - lx_pos l)"
    by (auto simp: lx_next_def split: prod.split)
qed simp

declare lx_acceptRunFn.simps [simp del]

definition lx_acceptRun :: "int set \<Rightarrow> lexer \<Rightarrow> lexer" where
  "lx_acceptRun valid l = lx_acceptRunFn (\<lambda>r. r \<in> valid) l"

definition lx_errorf :: "string \<Rightarrow> lexer \<Rightarrow> token option" where
  "lx_errorf mesg l = Some \<lparr>tok_typ = tokenError, tok_val = mesg, tok_start = int (lx_start l)\<rparr>"

section \<open>State functions\<close>

text \<open>
  \<open>stateFn\<close> values are the names of the state functions.  Each sends at most one token and returns the next state,
  \<open>None\<close> for nil.
\<close>

datatype stateFn =
    ReadNeg | ReadClose | ReadOpen | ReadColon | ReadPredicate | ReadLiteral | ReadArg | ReadAND | ReadOR
  | ReadQuotedLiteral | ReadQuotedArg | ReadExp | ReadOperator

type_synonym lstep = "token option \<times> lexer \<times> stateFn option"

definition emit_to :: "tokenType \<Rightarrow> stateFn \<Rightarrow> lexer \<Rightarrow> lstep" where
  "emit_to typ st l = (let (t, l) = lx_emit typ l in (t, l, Some st))"

definition readNeg :: "lexer \<Rightarrow> lstep" where
  "readNeg l = emit_to tokenNot ReadExp (snd (lx_accept {rune CHR ''-''} l))"

definition readClose :: "lexer \<Rightarrow> lstep" where
  "readClose l = emit_to tokenClose ReadOperator (snd (lx_accept {rune CHR '')''} l))"

definition readOpen :: "lexer \<Rightarrow> lstep" where
  "readOpen l = emit_to tokenOpen ReadExp (snd (lx_accept {rune CHR ''(''} l))"

definition readColon :: "lexer \<Rightarrow> lstep" where
  "readColon l = emit_to tokenColon ReadArg (snd (lx_accept {rune CHR '':''} l))"

definition readPredicate :: "(int \<Rightarrow> bool) \<Rightarrow> lexer \<Rightarrow> lstep" where
  "readPredicate letter l =
     (let l = lx_acceptRunFn letter l; (r, l) = lx_peek l
      in if r = rune CHR '':'' then emit_to tokenPredicate ReadColon l else (None, l, Some ReadLiteral))"

definition readLiteral :: "lexer \<Rightarrow> lstep" where
  "readLiteral l = emit_to tokenLiteral ReadOperator (lx_acceptRunFn isSearchWordRune l)"

definition readArg :: "lexer \<Rightarrow> lstep" where
  "readArg l =
     (let (r, l) = lx_peek l
      in if r = rune CHR ''\"'' then (None, l, Some ReadQuotedArg)
         else
           let (t, l) = lx_emit tokenArg (lx_acceptRunFn isSearchWordRune l); (r, l) = lx_peek l
           in (t, l, Some (if r = rune CHR '':'' then ReadColon else ReadOperator)))"

definition read_op :: "string \<Rightarrow> tokenType \<Rightarrow> lexer \<Rightarrow> lstep" where
  "read_op word typ l =
     (let (ok, l) = lx_acceptString word l
      in if ok then
           let (ok, l) = lx_accept opBound l
           in if ok then emit_to typ ReadExp (lx_backup l) else (None, l, Some ReadPredicate)
         else (None, l, Some ReadPredicate))"

definition readAND :: "lexer \<Rightarrow> lstep" where
  "readAND l = read_op ''and'' tokenAnd l"

definition readOR :: "lexer \<Rightarrow> lstep" where
  "readOR l = read_op ''or'' tokenOr l"

text \<open>The loop of \<open>runQuoted\<close>.\<close>

lemma lx_next_pos:
  "lx_pos (snd (lx_next l)) \<le> max (lx_pos l) (length (lx_input l)) \<and> lx_pos l \<le> lx_pos (snd (lx_next l)) \<and>
   lx_input (snd (lx_next l)) = lx_input l \<and> lx_start (snd (lx_next l)) = lx_start l \<and>
   (lx_pos l < length (lx_input l) \<longrightarrow> lx_pos l < lx_pos (snd (lx_next l)))"
  using DecodeRune_width [of "drop (lx_pos l) (lx_input l)"] by (auto simp: lx_next_def split: prod.split)

function quoted_loop :: "lexer \<Rightarrow> bool \<times> lexer" where
  "quoted_loop l =
     (if lx_pos l \<ge> length (lx_input l) then (False, snd (lx_next l))
      else
        let (r, l') = lx_next l
        in if r = rune CHR 0x5C then quoted_loop (snd (lx_next l'))
           else if r = rune CHR ''\"'' then (True, l')
           else quoted_loop l')"
  by pat_completeness auto
termination
proof (relation "measure (\<lambda>l. length (lx_input l) - lx_pos l)", goal_cases)
  case (2 l x r y)
  have "y = snd (lx_next l)" using 2(2,3) by (metis snd_conv)
  then show ?case using 2(1) lx_next_pos [of l] lx_next_pos [of y] by auto
next
  case (3 l x r y)
  have "y = snd (lx_next l)" using 3(2,3) by (metis snd_conv)
  then show ?case using 3(1) lx_next_pos [of l] by auto
qed simp

declare quoted_loop.simps [simp del]

definition runQuoted :: "lexer \<Rightarrow> bool \<times> lexer" where
  "runQuoted l = quoted_loop (snd (lx_accept {rune CHR ''\"''} l))"

definition readQuotedLiteral :: "lexer \<Rightarrow> lstep" where
  "readQuotedLiteral l =
     (let (ok, l) = runQuoted l
      in if \<not> ok then (lx_errorf ''Unclosed quote'' l, l, None) else emit_to tokenQuotedLiteral ReadOperator l)"

definition readQuotedArg :: "lexer \<Rightarrow> lstep" where
  "readQuotedArg l =
     (let (ok, l) = runQuoted l
      in if \<not> ok then (lx_errorf ''Unclosed quote'' l, l, None)
         else
           let (t, l) = lx_emit tokenQuotedArg l; (r, l) = lx_peek l
           in (t, l, Some (if r = rune CHR '':'' then ReadColon else ReadOperator)))"

definition readExp :: "lexer \<Rightarrow> lstep" where
  "readExp l =
     (let l = lx_ignore (lx_acceptRun whitespace l); (r, l) = lx_peek l
      in if r = l_eof then (None, l, None)
         else if r = rune CHR ''('' then (None, l, Some ReadOpen)
         else if r = rune CHR '')'' then (None, l, Some ReadClose)
         else if r = rune CHR ''-'' then (None, l, Some ReadNeg)
         else if r = rune CHR ''\"'' then (None, l, Some ReadQuotedLiteral)
         else (None, l, Some ReadPredicate))"

definition readOperator :: "lexer \<Rightarrow> lstep" where
  "readOperator l =
     (let l = lx_ignore (lx_acceptRun whitespace l); (r, l) = lx_peek l
      in if r = rune CHR ''a'' then (None, l, Some ReadAND)
         else if r = rune CHR ''o'' then (None, l, Some ReadOR)
         else (None, l, Some ReadExp))"

text \<open>\<open>letter\<close> is \<open>unicode.IsLetter\<close>.\<close>

fun lx_step :: "(int \<Rightarrow> bool) \<Rightarrow> stateFn \<Rightarrow> lexer \<Rightarrow> lstep" where
  "lx_step letter ReadNeg l = readNeg l"
| "lx_step letter ReadClose l = readClose l"
| "lx_step letter ReadOpen l = readOpen l"
| "lx_step letter ReadColon l = readColon l"
| "lx_step letter ReadPredicate l = readPredicate letter l"
| "lx_step letter ReadLiteral l = readLiteral l"
| "lx_step letter ReadArg l = readArg l"
| "lx_step letter ReadAND l = readAND l"
| "lx_step letter ReadOR l = readOR l"
| "lx_step letter ReadQuotedLiteral l = readQuotedLiteral l"
| "lx_step letter ReadQuotedArg l = readQuotedArg l"
| "lx_step letter ReadExp l = readExp l"
| "lx_step letter ReadOperator l = readOperator l"

text \<open>
  The loop of \<open>run\<close> for a number of state functions: the tokens sent so far, and whether the channel has been closed.
\<close>

fun lx_run :: "(int \<Rightarrow> bool) \<Rightarrow> nat \<Rightarrow> stateFn option \<Rightarrow> lexer \<Rightarrow> token list \<times> bool" where
  "lx_run letter fuel None l = ([], True)"
| "lx_run letter 0 (Some st) l = ([], False)"
| "lx_run letter (Suc fuel) (Some st) l =
     (let (t, l, st) = lx_step letter st l;
          (ts, closed) = lx_run letter fuel st l
      in (case t of None \<Rightarrow> ts | Some t \<Rightarrow> t # ts, closed))"

definition lex :: "(int \<Rightarrow> bool) \<Rightarrow> nat \<Rightarrow> string \<Rightarrow> token list \<times> bool" where
  "lex letter fuel input =
     lx_run letter fuel (Some ReadExp) \<lparr>lx_input = bytes_of_string input, lx_start = 0, lx_pos = 0, lx_width = 0\<rparr>"

section \<open>Positions\<close>

definition rune_at :: "lexer \<Rightarrow> int" where
  "rune_at l = fst (lx_next l)"

text \<open>The lexer \<open>l'\<close> is \<open>l\<close> with its position moved forward, within the input.\<close>

definition moved :: "lexer \<Rightarrow> lexer \<Rightarrow> bool" where
  "moved l l' \<longleftrightarrow> lx_input l' = lx_input l \<and> lx_start l' = lx_start l \<and> lx_pos l \<le> lx_pos l' \<and>
     lx_pos l' \<le> length (lx_input l)"

definition at_rest :: "lexer \<Rightarrow> bool" where
  "at_rest l \<longleftrightarrow> lx_start l \<le> lx_pos l \<and> lx_pos l \<le> length (lx_input l)"

lemma moved_refl: "lx_pos l \<le> length (lx_input l) \<Longrightarrow> moved l l"
  by (simp add: moved_def)

lemma moved_trans: "moved a b \<Longrightarrow> moved b c \<Longrightarrow> moved a c"
  by (simp add: moved_def)

lemma moved_at_rest: "moved l l' \<Longrightarrow> at_rest l \<Longrightarrow> at_rest l'"
  by (auto simp: moved_def at_rest_def)

lemma moved_next: "lx_pos l \<le> length (lx_input l) \<Longrightarrow> moved l (snd (lx_next l))"
  using lx_next_pos [of l] by (simp add: moved_def)

lemma next_eof: "rune_at l = l_eof \<longleftrightarrow> length (lx_input l) \<le> lx_pos l"
proof -
  have "0 \<le> fst (DecodeRune s)" for s
    by (auto simp: DecodeRune_def RuneError_def Let_def split: list.split)
  then have "fst (DecodeRune s) \<noteq> l_eof" for s by (metis l_eof_def neg_0_le_iff_le not_one_le_zero)
  then show ?thesis by (auto simp: rune_at_def lx_next_def split: prod.split) (metis fst_conv)
qed

text \<open>Backing up after \<open>next\<close> restores the position.\<close>

lemma backup_next: "lx_backup (snd (lx_next l)) = l\<lparr>lx_width := lx_width (snd (lx_next l))\<rparr>"
  by (auto simp: lx_backup_def lx_next_def split: prod.split)

lemma rune_at_width [simp]: "rune_at (l\<lparr>lx_width := wd\<rparr>) = rune_at l"
  by (simp add: rune_at_def lx_next_def split: prod.split)

lemma lx_peek_eq: "lx_peek l = (rune_at l, l\<lparr>lx_width := lx_width (snd (lx_next l))\<rparr>)"
  by (simp add: lx_peek_def rune_at_def backup_next split: prod.split) (metis backup_next snd_conv)

lemma lx_accept_eq:
  "lx_accept valid l =
     (if rune_at l \<in> valid then (True, snd (lx_next l)) else (False, l\<lparr>lx_width := lx_width (snd (lx_next l))\<rparr>))"
  by (auto simp: lx_accept_def rune_at_def split: prod.split) (metis backup_next snd_conv)

lemma moved_width: "moved l (l'\<lparr>lx_width := wd\<rparr>) \<longleftrightarrow> moved l l'"
  by (simp add: moved_def)

lemma moved_accept: "lx_pos l \<le> length (lx_input l) \<Longrightarrow> moved l (snd (lx_accept valid l))"
  by (simp add: lx_accept_eq moved_next moved_width moved_refl)

lemma accept_advances:
  assumes "rune_at l \<in> valid" and "rune_at l \<noteq> l_eof"
  shows "lx_pos l < lx_pos (snd (lx_accept valid l))"
  using assms lx_next_pos [of l] next_eof [of l] by (simp add: lx_accept_eq)

lemma acceptRunFn_spec:
  assumes "lx_pos l \<le> length (lx_input l)"
  shows "moved l (lx_acceptRunFn valid l) \<and>
    (rune_at (lx_acceptRunFn valid l) = l_eof \<or> \<not> valid (rune_at (lx_acceptRunFn valid l))) \<and>
    (valid (rune_at l) \<and> rune_at l \<noteq> l_eof \<longrightarrow> lx_pos l < lx_pos (lx_acceptRunFn valid l))"
  using assms
proof (induction valid l rule: lx_acceptRunFn.induct)
  case (1 valid l)
  show ?case
  proof (cases "lx_pos l < length (lx_input l) \<and> valid (fst (lx_next l))")
    case True
    have mv: "moved l (snd (lx_next l))" "lx_pos l < lx_pos (snd (lx_next l))"
      using True 1(2) lx_next_pos [of l] by (simp_all add: moved_def)
    let ?r = "lx_acceptRunFn valid (snd (lx_next l))"
    have IH: "moved (snd (lx_next l)) ?r" "rune_at ?r = l_eof \<or> \<not> valid (rune_at ?r)"
      using 1(1) [OF True] mv(1) by (simp_all add: moved_def)
    have "lx_acceptRunFn valid l = ?r" using True by (subst lx_acceptRunFn.simps) simp
    then show ?thesis using IH mv moved_trans by (auto simp: moved_def)
  next
    case False
    then have "lx_acceptRunFn valid l = lx_backup (snd (lx_next l))" by (subst lx_acceptRunFn.simps) auto
    then obtain wd where eq: "lx_acceptRunFn valid l = l\<lparr>lx_width := wd\<rparr>" using backup_next by metis
    have "rune_at l = l_eof \<or> \<not> valid (rune_at l)" using False next_eof [of l] by (auto simp: rune_at_def)
    then show ?thesis using 1(2) unfolding eq moved_width rune_at_width by (auto simp: moved_refl)
  qed
qed

lemma acceptString_moved: "lx_pos l \<le> length (lx_input l) \<Longrightarrow> moved l (snd (lx_acceptString cs l))"
proof (induction cs arbitrary: l)
  case (Cons c cs)
  have mv: "moved l (snd (lx_next l))" using Cons.prems by (rule moved_next)
  show ?case
  proof (cases "rune_at l = rune c")
    case True
    then show ?thesis using Cons.IH [of "snd (lx_next l)"] mv moved_trans [OF mv]
      by (auto simp: rune_at_def moved_def split: prod.splits)
  next
    case False
    then show ?thesis using Cons.prems backup_next [of l]
      by (auto simp: rune_at_def moved_def split: prod.splits)
  qed
qed (simp add: moved_refl)

lemma rune_nonneg: "0 \<le> rune c"
  unfolding rune_def by (metis of_nat_of_char of_nat_0_le_iff)

lemma rune_not_eof: "rune c \<noteq> l_eof"
  using rune_nonneg [of c] by (simp add: l_eof_def)

lemma acceptString_advances:
  assumes "rune_at l = rune c" and "lx_pos l \<le> length (lx_input l)"
  shows "lx_pos l < lx_pos (snd (lx_acceptString (c # cs) l))"
proof -
  have "rune_at l \<noteq> l_eof" using assms(1) rune_not_eof by simp
  then have "lx_pos l < lx_pos (snd (lx_next l))" "moved l (snd (lx_next l))"
    using next_eof [of l] lx_next_pos [of l] moved_next [OF assms(2)] by auto
  moreover have "snd (lx_acceptString (c # cs) l) = snd (lx_acceptString cs (snd (lx_next l)))"
    using assms(1) by (simp add: rune_at_def split: prod.split) (metis fst_conv snd_conv)
  ultimately show ?thesis using acceptString_moved [of "snd (lx_next l)" cs] by (auto simp: moved_def)
qed

lemma quoted_moved: "lx_pos l \<le> length (lx_input l) \<Longrightarrow> moved l (snd (quoted_loop l))"
proof (induction l rule: quoted_loop.induct)
  case (1 l)
  obtain r l1 where n: "lx_next l = (r, l1)" by (cases "lx_next l")
  have m1: "moved l l1" using moved_next [OF 1(3)] n by simp
  then have m2: "moved l (snd (lx_next l1))" using moved_next [of l1] moved_trans by (auto simp: moved_def)
  show ?case
  proof (cases "length (lx_input l) \<le> lx_pos l")
    case True
    then show ?thesis using m1 n by (subst quoted_loop.simps) simp
  next
    case False
    have "moved l (snd (quoted_loop (snd (lx_next l1))))" if "r = rune CHR 0x5C"
      using 1(1) [OF False n [symmetric] refl that] m2 moved_trans by (auto simp: moved_def)
    moreover have "moved l (snd (quoted_loop l1))" if "r \<noteq> rune CHR 0x5C" "r \<noteq> rune CHR ''\"''"
      using 1(2) [OF False n [symmetric] refl that] m1 moved_trans by (auto simp: moved_def)
    ultimately show ?thesis using False n m1 by (subst quoted_loop.simps) simp
  qed
qed

section \<open>What a state function does\<close>

definition is_ws :: "u8 \<Rightarrow> bool" where
  "is_ws b \<longleftrightarrow> uint b \<in> whitespace"

text \<open>The runes at which an expression cannot start with a word.\<close>

definition stops :: "int set" where
  "stops = whitespace \<union> {l_eof, rune CHR ''('', rune CHR '')''}"

text \<open>What holds when a state function is entered.\<close>

fun entry_rune :: "stateFn \<Rightarrow> char option" where
  "entry_rune ReadOpen = Some CHR ''(''"
| "entry_rune ReadClose = Some CHR '')''"
| "entry_rune ReadNeg = Some CHR ''-''"
| "entry_rune ReadColon = Some CHR '':''"
| "entry_rune ReadQuotedLiteral = Some CHR ''\"''"
| "entry_rune ReadQuotedArg = Some CHR ''\"''"
| "entry_rune ReadAND = Some CHR ''a''"
| "entry_rune ReadOR = Some CHR ''o''"
| "entry_rune _ = None"

definition linv :: "stateFn \<Rightarrow> lexer \<Rightarrow> bool" where
  "linv st l \<longleftrightarrow> at_rest l \<and>
     (case entry_rune st of Some c \<Rightarrow> rune_at l = rune c | None \<Rightarrow> True) \<and>
     (st \<in> {ReadExp, ReadOperator} \<longrightarrow> lx_start l = lx_pos l) \<and>
     (st = ReadPredicate \<longrightarrow> lx_start l < lx_pos l \<or> rune_at l \<notin> stops) \<and>
     (st = ReadLiteral \<longrightarrow> lx_start l < lx_pos l \<or> rune_at l \<notin> insert (rune CHR '':'') stops)"

text \<open>A token is the input from its start up to the new start; between tokens white space is skipped.\<close>

definition sent :: "token \<Rightarrow> lexer \<Rightarrow> lexer \<Rightarrow> bool" where
  "sent t l l' \<longleftrightarrow> tok_start t = int (lx_start l) \<and> lx_start l' = lx_start l + length (tok_val t) \<and>
     drop (lx_start l) (lx_input l) = bytes_of_string (tok_val t) @ drop (lx_start l') (lx_input l)"

definition skipped :: "lexer \<Rightarrow> lexer \<Rightarrow> bool" where
  "skipped l l' \<longleftrightarrow> (\<exists>gap. list_all is_ws gap \<and> lx_start l' = lx_start l + length gap \<and>
     drop (lx_start l) (lx_input l) = gap @ drop (lx_start l') (lx_input l))"

text \<open>A bound on the state functions still to run.\<close>

fun rank :: "stateFn \<Rightarrow> nat" where
  "rank ReadArg = 6"
| "rank ReadOperator = 5"
| "rank ReadExp = 4"
| "rank ReadAND = 4"
| "rank ReadOR = 4"
| "rank ReadPredicate = 3"
| "rank _ = 2"

definition lx_meas :: "stateFn \<Rightarrow> lexer \<Rightarrow> nat" where
  "lx_meas st l = 8 * (length (lx_input l) - lx_start l) + rank st"

text \<open>No Unicode white space other than the six characters the lexer skips.\<close>

definition plain_spaces :: "bytes \<Rightarrow> bool" where
  "plain_spaces s \<longleftrightarrow> (\<forall>p < length s. IsSpace (fst (DecodeRune (drop p s))) \<longrightarrow> fst (DecodeRune (drop p s)) \<in> whitespace)"

definition step_ok :: "stateFn \<Rightarrow> lexer \<Rightarrow> lstep \<Rightarrow> bool" where
  "step_ok st l r \<longleftrightarrow> (case r of (t, l', st') \<Rightarrow>
     lx_input l' = lx_input l \<and> at_rest l' \<and>
     (case t of None \<Rightarrow> skipped l l' | Some tok \<Rightarrow> tok_typ tok = tokenError \<and> st' = None \<or> tok_typ tok \<noteq> tokenError \<and> sent tok l l') \<and>
     (case st' of
        None \<Rightarrow> (case t of None \<Rightarrow> lx_start l' = length (lx_input l) | Some tok \<Rightarrow> tok_typ tok = tokenError)
      | Some s \<Rightarrow> linv s l' \<and> (plain_spaces (lx_input l) \<longrightarrow> lx_meas s l' < lx_meas st l)))"

lemma skipped_refl [simp]: "skipped l l"
  by (simp add: skipped_def)

lemma at_rest_width [simp]: "at_rest (l\<lparr>lx_width := wd\<rparr>) = at_rest l"
  by (simp add: at_rest_def)

lemma emit_sent:
  assumes "at_rest l" and "moved l l1"
  shows "\<exists>tok. lx_emit typ l1 = (Some tok, l1\<lparr>lx_start := lx_pos l1\<rparr>) \<and> tok_typ tok = typ \<and> sent tok l (l1\<lparr>lx_start := lx_pos l1\<rparr>)"
proof -
  let ?d = "drop (lx_start l) (lx_input l)" and ?k = "lx_pos l1 - lx_start l"
  have p: "lx_start l1 = lx_start l" "lx_input l1 = lx_input l" "lx_start l \<le> lx_pos l1" "lx_pos l1 \<le> length (lx_input l)"
    using assms by (auto simp: at_rest_def moved_def)
  have "?d = take ?k ?d @ drop (lx_pos l1) (lx_input l)"
    using p(3) append_take_drop_id [of ?k ?d] by simp
  moreover have "length (take ?k ?d) = ?k" using p(3,4) by simp
  moreover have "length (string_of_bytes (take ?k ?d)) = length (take ?k ?d)" by (simp add: string_of_bytes_def)
  ultimately show ?thesis using p by (simp add: lx_emit_def sent_def)
qed

lemma rune_at_start [simp]: "rune_at (l\<lparr>lx_start := k\<rparr>) = rune_at l"
  by (simp add: rune_at_def lx_next_def split: prod.split)

text \<open>The pattern of most state functions: move, emit, go on in a state that asks for nothing.\<close>

lemma emit_to_ok:
  assumes "linv st l" and "moved l l1" and "typ \<noteq> tokenError" and "entry_rune s = None" and "s \<notin> {ReadPredicate, ReadLiteral}"
    and "plain_spaces (lx_input l) \<Longrightarrow> lx_start l < lx_pos l1 \<or> rank s < rank st"
  shows "step_ok st l (emit_to typ s l1)"
proof -
  have r: "at_rest l" using assms(1) by (simp add: linv_def)
  obtain tok where tok: "lx_emit typ l1 = (Some tok, l1\<lparr>lx_start := lx_pos l1\<rparr>)" "tok_typ tok = typ"
    "sent tok l (l1\<lparr>lx_start := lx_pos l1\<rparr>)" using emit_sent [OF r assms(2)] by blast
  have p: "lx_start l1 = lx_start l" "lx_input l1 = lx_input l" "lx_start l \<le> lx_pos l1" "lx_pos l1 \<le> length (lx_input l)"
    using assms(2) r by (auto simp: at_rest_def moved_def)
  have "rank s \<le> 6" "2 \<le> rank st" by (cases s; simp) (cases st; simp)
  then have "lx_meas s (l1\<lparr>lx_start := lx_pos l1\<rparr>) < lx_meas st l" if "plain_spaces (lx_input l)"
    using assms(6) [OF that] p by (auto simp: lx_meas_def)
  then show ?thesis using tok p assms(3-5) by (auto simp: step_ok_def emit_to_def linv_def at_rest_def)
qed

lemma accept_one_ok:
  assumes "linv st l" and "entry_rune st = Some c" and "typ \<noteq> tokenError" and "entry_rune s = None" and "s \<notin> {ReadPredicate, ReadLiteral}"
  shows "step_ok st l (emit_to typ s (snd (lx_accept {rune c} l)))"
proof (rule emit_to_ok [OF assms(1) _ assms(3-5)])
  have l: "lx_start l \<le> lx_pos l" "lx_pos l \<le> length (lx_input l)" "rune_at l = rune c"
    using assms(1,2) by (auto simp: linv_def at_rest_def)
  show "moved l (snd (lx_accept {rune c} l))" using l(2) by (rule moved_accept)
  have "lx_pos l < lx_pos (snd (lx_accept {rune c} l))" using l(3) rune_not_eof by (intro accept_advances) auto
  then show "lx_start l < lx_pos (snd (lx_accept {rune c} l)) \<or> rank s < rank st" using l(1) by simp
qed

lemma simple_states_ok:
  "linv ReadNeg l \<Longrightarrow> step_ok ReadNeg l (readNeg l)"
  "linv ReadOpen l \<Longrightarrow> step_ok ReadOpen l (readOpen l)"
  "linv ReadClose l \<Longrightarrow> step_ok ReadClose l (readClose l)"
  "linv ReadColon l \<Longrightarrow> step_ok ReadColon l (readColon l)"
  by (simp_all add: readNeg_def readOpen_def readClose_def readColon_def accept_one_ok)

text \<open>The other pattern: send nothing and go on in a state of lower rank.\<close>

lemma goto_ok:
  assumes "linv s l1" and "rank s < rank st" and "skipped l l1" and "lx_input l1 = lx_input l"
  shows "step_ok st l (None, l1, Some s)"
proof -
  have "lx_start l \<le> lx_start l1" using assms(3) by (auto simp: skipped_def)
  then show ?thesis using assms by (auto simp: step_ok_def lx_meas_def linv_def)
qed

lemma moved_skipped: "moved l l1 \<Longrightarrow> skipped l l1"
  by (simp add: moved_def skipped_def)

lemma linv_width [simp]: "linv st (l\<lparr>lx_width := wd\<rparr>) = linv st l"
  by (simp add: linv_def at_rest_def split: option.split)

lemma skipped_width [simp]: "skipped l (l'\<lparr>lx_width := wd\<rparr>) = skipped l l'"
  by (simp add: skipped_def)

lemma rune_at_cong: "lx_input a = lx_input b \<Longrightarrow> lx_pos a = lx_pos b \<Longrightarrow> rune_at a = rune_at b"
  by (simp add: rune_at_def lx_next_def split: prod.split)

lemma readPredicate_ok:
  assumes "linv ReadPredicate l"
  shows "step_ok ReadPredicate l (readPredicate letter l)"
proof -
  let ?l = "lx_acceptRunFn letter l"
  have r: "at_rest l" and mv: "moved l ?l"
    using assms acceptRunFn_spec [of l letter] by (auto simp: linv_def at_rest_def)
  have pq: "step_ok ReadPredicate l (emit_to tokenPredicate ReadColon (?l\<lparr>lx_width := wd\<rparr>))" if "rune_at ?l = rune CHR '':''" for wd
  proof -
    obtain tok where tok: "lx_emit tokenPredicate (?l\<lparr>lx_width := wd\<rparr>) = (Some tok, ?l\<lparr>lx_width := wd, lx_start := lx_pos ?l\<rparr>)"
      "tok_typ tok = tokenPredicate" "sent tok l (?l\<lparr>lx_width := wd, lx_start := lx_pos ?l\<rparr>)"
      using emit_sent [OF r, of "?l\<lparr>lx_width := wd\<rparr>" tokenPredicate] mv by (auto simp: moved_width)
    have "lx_start l \<le> lx_pos ?l" "lx_pos ?l \<le> length (lx_input l)" "lx_input ?l = lx_input l" using mv r by (auto simp: moved_def at_rest_def)
    then show ?thesis using tok that by (auto simp: step_ok_def emit_to_def linv_def at_rest_def lx_meas_def)
  qed
  have "linv ReadLiteral ?l" if "rune_at ?l \<noteq> rune CHR '':''"
  proof (cases "lx_start ?l < lx_pos ?l")
    case True
    then show ?thesis using moved_at_rest [OF mv r] by (simp add: linv_def)
  next
    case False
    then have "lx_pos ?l = lx_pos l" "\<not> lx_start l < lx_pos l" using mv r by (auto simp: moved_def at_rest_def)
    then have "rune_at ?l = rune_at l" using mv by (intro rune_at_cong) (auto simp: moved_def)
    then show ?thesis using moved_at_rest [OF mv r] that assms \<open>\<not> lx_start l < lx_pos l\<close> by (auto simp: linv_def)
  qed
  then have "step_ok ReadPredicate l (None, ?l\<lparr>lx_width := wd\<rparr>, Some ReadLiteral)" if "rune_at ?l \<noteq> rune CHR '':''" for wd
    using that moved_skipped [OF mv] mv by (intro goto_ok) (auto simp: moved_def)
  then show ?thesis using pq by (simp add: readPredicate_def lx_peek_eq Let_def)
qed

text \<open>A literal that starts at a rune that is not white space is not empty.\<close>

lemma word_advances:
  assumes "plain_spaces (lx_input l)" and "lx_pos l \<le> length (lx_input l)" and "rune_at l \<notin> insert (rune CHR '':'') stops"
  shows "lx_pos l < lx_pos (lx_acceptRunFn isSearchWordRune l)"
proof -
  have e: "lx_pos l < length (lx_input l)" "rune_at l \<noteq> l_eof" using assms(3) next_eof [of l] by (auto simp: stops_def)
  then have "rune_at l = fst (DecodeRune (drop (lx_pos l) (lx_input l)))"
    by (simp add: rune_at_def lx_next_def split: prod.split)
  then have "\<not> IsSpace (rune_at l)" using assms(1,3) e(1) by (auto simp: plain_spaces_def stops_def)
  then have "isSearchWordRune (rune_at l)" using assms(3) by (auto simp: isSearchWordRune_def stops_def)
  then show ?thesis using acceptRunFn_spec [OF assms(2)] e(2) by blast
qed

lemma readLiteral_ok:
  assumes "linv ReadLiteral l"
  shows "step_ok ReadLiteral l (readLiteral l)"
  unfolding readLiteral_def
proof (rule emit_to_ok [OF assms])
  have r: "lx_start l \<le> lx_pos l" "lx_pos l \<le> length (lx_input l)" using assms by (auto simp: linv_def at_rest_def)
  show mv: "moved l (lx_acceptRunFn isSearchWordRune l)" using acceptRunFn_spec r(2) by blast
  show "lx_start l < lx_pos (lx_acceptRunFn isSearchWordRune l) \<or> rank ReadOperator < rank ReadLiteral" if "plain_spaces (lx_input l)"
    using word_advances [OF that r(2)] r mv assms by (auto simp: linv_def moved_def)
qed simp_all

text \<open>Emitting an argument, and then a colon or an operator.\<close>

lemma arg_ok:
  assumes "at_rest l" and "moved l l1" and "typ \<noteq> tokenError" and "lx_start l < lx_pos l1 \<or> rank st = 6"
  shows "step_ok st l (let (t, l) = lx_emit typ l1; (r, l) = lx_peek l
           in (t, l, Some (if r = rune CHR '':'' then ReadColon else ReadOperator)))"
proof -
  obtain tok where tok: "lx_emit typ l1 = (Some tok, l1\<lparr>lx_start := lx_pos l1\<rparr>)" "tok_typ tok = typ"
    "sent tok l (l1\<lparr>lx_start := lx_pos l1\<rparr>)" using emit_sent [OF assms(1,2)] by blast
  have p: "lx_start l1 = lx_start l" "lx_input l1 = lx_input l" "lx_start l \<le> lx_pos l1" "lx_pos l1 \<le> length (lx_input l)"
    using assms(1,2) by (auto simp: at_rest_def moved_def)
  have "2 \<le> rank st" by (cases st) auto
  then have "lx_meas s (l1\<lparr>lx_start := lx_pos l1, lx_width := wd\<rparr>) < lx_meas st l" if "rank s \<le> 5" for s wd
    using p assms(4) that by (auto simp: lx_meas_def)
  then show ?thesis using tok p assms(3)
    by (auto simp: step_ok_def lx_peek_eq linv_def at_rest_def sent_def)
qed

lemma readArg_ok:
  assumes "linv ReadArg l"
  shows "step_ok ReadArg l (readArg l)"
proof -
  have r: "at_rest l" "lx_pos l \<le> length (lx_input l)" using assms by (auto simp: linv_def at_rest_def)
  let ?w = "l\<lparr>lx_width := lx_width (snd (lx_next l))\<rparr>"
  have "moved ?w (lx_acceptRunFn isSearchWordRune ?w)" using acceptRunFn_spec [of ?w] r(2) by simp
  then have "moved l (lx_acceptRunFn isSearchWordRune ?w)" by (simp add: moved_def)
  then have a: "step_ok ReadArg l (let (t, l) = lx_emit tokenArg (lx_acceptRunFn isSearchWordRune ?w); (r, l) = lx_peek l
           in (t, l, Some (if r = rune CHR '':'' then ReadColon else ReadOperator)))" by (intro arg_ok [OF r(1)]) auto
  have "step_ok ReadArg l (None, ?w, Some ReadQuotedArg)" if "rune_at l = rune CHR ''\"''"
    using that r by (intro goto_ok) (auto simp: linv_def)
  then show ?thesis using a by (simp add: readArg_def lx_peek_eq)
qed

lemma read_op_ok:
  assumes "linv st l" and "entry_rune st = Some c" and "rank st = 4" and "typ \<noteq> tokenError"
  shows "step_ok st l (read_op (c # cs) typ l)"
proof -
  let ?l = "snd (lx_acceptString (c # cs) l)"
  have r: "at_rest l" "rune_at l = rune c" "lx_pos l \<le> length (lx_input l)"
    using assms(1,2) by (auto simp: linv_def at_rest_def)
  have mv: "moved l ?l" and adv: "lx_pos l < lx_pos ?l"
    using acceptString_moved [OF r(3)] acceptString_advances [OF r(2,3)] by blast+
  have far: "lx_start ?l < lx_pos ?l" using adv mv r(1) by (auto simp: moved_def at_rest_def)
  have "linv ReadPredicate ?l" using far moved_at_rest [OF mv r(1)] by (simp add: linv_def)
  then have g: "step_ok st l (None, ?l\<lparr>lx_width := wd\<rparr>, Some ReadPredicate)" for wd
    using mv moved_skipped [OF mv] assms(3) by (intro goto_ok) (auto simp: moved_def)
  have "step_ok st l (emit_to typ ReadExp (?l\<lparr>lx_width := wd\<rparr>))" for wd
    using mv far by (intro emit_to_ok [OF assms(1) _ assms(4)]) (auto simp: moved_def)
  then have "step_ok st l (emit_to typ ReadExp (lx_backup (snd (lx_next ?l))))" by (simp add: backup_next)
  moreover have "step_ok st l (None, ?l, Some ReadPredicate)" using g [of "lx_width ?l"] by simp
  ultimately show ?thesis using g by (simp add: read_op_def lx_accept_eq case_prod_beta Let_def)
qed

lemma quote_advances:
  assumes "linv st l" and "entry_rune st = Some CHR ''\"''"
  shows "moved l (snd (runQuoted l)) \<and> lx_pos l < lx_pos (snd (runQuoted l))"
proof -
  let ?l = "snd (lx_accept {rune CHR ''\"''} l)"
  have r: "rune_at l = rune CHR ''\"''" "lx_pos l \<le> length (lx_input l)" using assms by (auto simp: linv_def at_rest_def)
  have mv: "moved l ?l" using r(2) by (rule moved_accept)
  have "lx_pos l < lx_pos ?l" using r(1) rune_not_eof by (intro accept_advances) auto
  moreover have "moved ?l (snd (quoted_loop ?l))" using mv by (intro quoted_moved) (auto simp: moved_def)
  ultimately show ?thesis using mv moved_trans by (auto simp: runQuoted_def moved_def)
qed

lemma unclosed_ok: "at_rest l \<Longrightarrow> moved l l1 \<Longrightarrow> step_ok st l (lx_errorf mesg l1, l1, None)"
  using moved_at_rest by (auto simp: step_ok_def lx_errorf_def moved_def)

lemma readQuotedLiteral_ok:
  assumes "linv ReadQuotedLiteral l"
  shows "step_ok ReadQuotedLiteral l (readQuotedLiteral l)"
proof -
  have q: "moved l (snd (runQuoted l))" "lx_pos l < lx_pos (snd (runQuoted l))" using quote_advances [OF assms] by auto
  have r: "at_rest l" using assms by (simp add: linv_def)
  have "step_ok ReadQuotedLiteral l (emit_to tokenQuotedLiteral ReadOperator (snd (runQuoted l)))"
    using q r by (intro emit_to_ok [OF assms]) (auto simp: at_rest_def)
  then show ?thesis using unclosed_ok [OF r q(1)] by (auto simp: readQuotedLiteral_def split: prod.split)
qed

lemma readQuotedArg_ok:
  assumes "linv ReadQuotedArg l"
  shows "step_ok ReadQuotedArg l (readQuotedArg l)"
proof -
  have q: "moved l (snd (runQuoted l))" "lx_pos l < lx_pos (snd (runQuoted l))" using quote_advances [OF assms] by auto
  have r: "at_rest l" using assms by (simp add: linv_def)
  have "lx_start l < lx_pos (snd (runQuoted l)) \<or> rank ReadQuotedArg = 6" using q(2) r by (simp add: at_rest_def)
  then have "step_ok ReadQuotedArg l (let (t, l) = lx_emit tokenQuotedArg (snd (runQuoted l)); (r, l) = lx_peek l
           in (t, l, Some (if r = rune CHR '':'' then ReadColon else ReadOperator)))"
    by (intro arg_ok [OF r q(1)]) auto
  then show ?thesis using unclosed_ok [OF r q(1)] by (auto simp: readQuotedArg_def Let_def split: prod.split)
qed

text \<open>The runes of \<open>whitespace\<close> are single bytes.\<close>

lemma DecodeRune_ws:
  assumes "fst (DecodeRune s) \<in> whitespace" and "s \<noteq> []"
  shows "snd (DecodeRune s) = 1 \<and> is_ws (hd s)"
proof -
  obtain c s1 where s: "s = c # s1" using assms(2) by (cases s) auto
  have "fst (DecodeRune s) \<le> 0x20" using assms(1) by (auto simp: whitespace_def)
  then have "c < 0x80" using s by (auto simp: DecodeRune_def RuneError_def Let_def split: list.splits if_splits)
  then show ?thesis using assms(1) s by (simp add: DecodeRune_def is_ws_def)
qed

lemma acceptRun_ws:
  assumes "lx_pos l \<le> length (lx_input l)"
  shows "\<exists>gap. list_all is_ws gap \<and> lx_pos (lx_acceptRunFn (\<lambda>r. r \<in> whitespace) l) = lx_pos l + length gap \<and>
    drop (lx_pos l) (lx_input l) = gap @ drop (lx_pos (lx_acceptRunFn (\<lambda>r. r \<in> whitespace) l)) (lx_input l)"
  using assms
proof (induction "\<lambda>r. r \<in> whitespace" l rule: lx_acceptRunFn.induct)
  case (1 l)
  let ?ws = "\<lambda>r. r \<in> whitespace"
  show ?case
  proof (cases "lx_pos l < length (lx_input l) \<and> fst (lx_next l) \<in> whitespace")
    case True
    let ?d = "drop (lx_pos l) (lx_input l)" and ?n = "snd (lx_next l)"
    have "fst (DecodeRune ?d) \<in> whitespace" "?d \<noteq> []" using True by (auto simp: lx_next_def split: prod.splits)
    then have w: "snd (DecodeRune ?d) = 1" "is_ws (hd ?d)" using DecodeRune_ws by blast+
    have n: "lx_pos ?n = Suc (lx_pos l)" "lx_input ?n = lx_input l"
      using True w(1) by (auto simp: lx_next_def split: prod.split)
    obtain gap where gap: "list_all is_ws gap" "lx_pos (lx_acceptRunFn ?ws ?n) = lx_pos ?n + length gap"
      "drop (lx_pos ?n) (lx_input ?n) = gap @ drop (lx_pos (lx_acceptRunFn ?ws ?n)) (lx_input ?n)"
      using 1(1) [OF True] True n by auto
    have "lx_acceptRunFn ?ws l = lx_acceptRunFn ?ws ?n" using True by (subst lx_acceptRunFn.simps) simp
    moreover have "?d = hd ?d # drop (Suc (lx_pos l)) (lx_input l)" using \<open>?d \<noteq> []\<close> by (simp add: Cons_nth_drop_Suc hd_drop_conv_nth)
    ultimately have "?d = (hd ?d # gap) @ drop (lx_pos (lx_acceptRunFn ?ws l)) (lx_input l)"
      "lx_pos (lx_acceptRunFn ?ws l) = lx_pos l + length (hd ?d # gap)" using gap n by simp_all
    moreover have "list_all is_ws (hd ?d # gap)" using gap(1) w(2) by simp
    ultimately show ?thesis by blast
  next
    case False
    then have "lx_acceptRunFn ?ws l = lx_backup (snd (lx_next l))" by (subst lx_acceptRunFn.simps) auto
    then show ?thesis by (simp add: backup_next)
  qed
qed

text \<open>What \<open>readExp\<close> and \<open>readOperator\<close> find after the white space.\<close>

lemma skip_ws:
  assumes "linv st l" and "st \<in> {ReadExp, ReadOperator}"
  defines "l1 \<equiv> lx_ignore (lx_acceptRun whitespace l)"
  shows "at_rest l1 \<and> lx_start l1 = lx_pos l1 \<and> lx_input l1 = lx_input l \<and> skipped l l1 \<and>
    (rune_at l1 = l_eof \<or> rune_at l1 \<notin> whitespace)"
proof -
  let ?r = "lx_acceptRunFn (\<lambda>r. r \<in> whitespace) l"
  have r: "lx_pos l \<le> length (lx_input l)" "lx_start l = lx_pos l" using assms(1,2) by (auto simp: linv_def at_rest_def)
  then show ?thesis using acceptRunFn_spec [of l "\<lambda>r. r \<in> whitespace"] acceptRun_ws [OF r(1)]
    by (auto simp: l1_def lx_ignore_def lx_acceptRun_def skipped_def moved_def at_rest_def)
qed

lemma readExp_ok:
  assumes "linv ReadExp l"
  shows "step_ok ReadExp l (readExp l)"
proof -
  let ?l = "lx_ignore (lx_acceptRun whitespace l)"
  have s: "at_rest ?l" "lx_start ?l = lx_pos ?l" "lx_input ?l = lx_input l" "skipped l ?l"
    "rune_at ?l = l_eof \<or> rune_at ?l \<notin> whitespace" using skip_ws [OF assms] by auto
  have g: "step_ok ReadExp l (None, ?l\<lparr>lx_width := wd\<rparr>, Some st)" if "linv st ?l" "rank st < 4" for st wd
    using that s by (intro goto_ok) auto
  have e: "step_ok ReadExp l (None, ?l\<lparr>lx_width := wd\<rparr>, None)" if "rune_at ?l = l_eof" for wd
    using that s next_eof [of ?l] by (auto simp: step_ok_def at_rest_def)
  have i: "linv ReadOpen ?l \<longleftrightarrow> rune_at ?l = rune CHR ''(''" "linv ReadClose ?l \<longleftrightarrow> rune_at ?l = rune CHR '')''"
    "linv ReadNeg ?l \<longleftrightarrow> rune_at ?l = rune CHR ''-''" "linv ReadQuotedLiteral ?l \<longleftrightarrow> rune_at ?l = rune CHR ''\"''"
    "linv ReadPredicate ?l \<longleftrightarrow> rune_at ?l \<notin> stops" using s(1,2) by (auto simp: linv_def)
  have "step_ok ReadExp l (None, ?l\<lparr>lx_width := wd\<rparr>, Some ReadPredicate)" if "rune_at ?l \<noteq> l_eof" "rune_at ?l \<noteq> rune CHR ''(''" "rune_at ?l \<noteq> rune CHR '')''" for wd
    using that s(5) by (intro g) (simp_all add: i stops_def)
  then show ?thesis using g e i(1-4) by (simp add: readExp_def lx_peek_eq Let_def)
qed

lemma readOperator_ok:
  assumes "linv ReadOperator l"
  shows "step_ok ReadOperator l (readOperator l)"
proof -
  let ?l = "lx_ignore (lx_acceptRun whitespace l)"
  have s: "at_rest ?l" "lx_start ?l = lx_pos ?l" "lx_input ?l = lx_input l" "skipped l ?l"
    using skip_ws [OF assms] by auto
  have g: "step_ok ReadOperator l (None, ?l\<lparr>lx_width := wd\<rparr>, Some st)" if "linv st ?l" "rank st < 5" for st wd
    using that s by (intro goto_ok) auto
  have "linv ReadAND ?l \<longleftrightarrow> rune_at ?l = rune CHR ''a''" "linv ReadOR ?l \<longleftrightarrow> rune_at ?l = rune CHR ''o''" "linv ReadExp ?l"
    using s(1,2) by (auto simp: linv_def)
  then show ?thesis using g by (simp add: readOperator_def lx_peek_eq Let_def)
qed

lemma lx_step_ok: "linv st l \<Longrightarrow> step_ok st l (lx_step letter st l)"
  by (cases st) (simp_all add: simple_states_ok readPredicate_ok readLiteral_ok readArg_ok readExp_ok readOperator_ok
      readQuotedLiteral_ok readQuotedArg_ok readAND_def readOR_def read_op_ok)

section \<open>The tokens and the input\<close>

text \<open>
  The tokens tile the input from position \<open>p\<close>: each is the text at its start, only white space is between two tokens
  and after the last one, and an error token is the last one.  Before the channel is closed the input need not be
  used up.
\<close>

fun tiles :: "bool \<Rightarrow> nat \<Rightarrow> bytes \<Rightarrow> token list \<Rightarrow> bool" where
  "tiles closed p s [] \<longleftrightarrow> (closed \<longrightarrow> list_all is_ws s)"
| "tiles closed p s (t # ts) \<longleftrightarrow>
     (if tok_typ t = tokenError then closed \<and> ts = []
      else
        let k = nat (tok_start t) - p; v = bytes_of_string (tok_val t)
        in int p \<le> tok_start t \<and> k \<le> length s \<and> list_all is_ws (take k s) \<and> take (length v) (drop k s) = v \<and>
           tiles closed (p + k + length v) (drop (length v) (drop k s)) ts)"

lemma tiles_skip:
  assumes "tiles closed (p + length gap) s ts" and "list_all is_ws gap"
  shows "tiles closed p (gap @ s) ts"
proof (cases ts)
  case (Cons t us)
  show ?thesis
  proof (cases "tok_typ t = tokenError")
    case False
    define k where "k = nat (tok_start t) - (p + length gap)"
    have b: "int (p + length gap) \<le> tok_start t" using assms(1) Cons False by (simp add: Let_def)
    then have k: "nat (tok_start t) - p = length gap + k" by (simp add: k_def)
    show ?thesis using assms False b k unfolding Cons by (simp add: Let_def flip: k_def) (simp add: k ac_simps)
  qed (use assms Cons in simp)
qed (use assms in simp)

lemma tiles_sent:
  assumes "tiles closed (lx_start l') (drop (lx_start l') (lx_input l)) ts" and "sent t l l'" and "tok_typ t \<noteq> tokenError"
  shows "tiles closed (lx_start l) (drop (lx_start l) (lx_input l)) (t # ts)"
  using assms by (simp add: sent_def length_bytes_of_string)

lemma run_tiles:
  assumes "linv st l" and "lx_run letter fuel (Some st) l = (ts, closed)"
  shows "tiles closed (lx_start l) (drop (lx_start l) (lx_input l)) ts"
  using assms
proof (induction fuel arbitrary: st l ts)
  case 0
  then show ?case by simp
next
  case (Suc fuel)
  obtain t l' st' where step: "lx_step letter st l = (t, l', st')" by (cases "lx_step letter st l")
  obtain us where us: "lx_run letter fuel st' l' = (us, closed)" "ts = (case t of None \<Rightarrow> us | Some t \<Rightarrow> t # us)"
    using Suc.prems(2) step by (auto split: prod.splits)
  have ok: "step_ok st l (t, l', st')" using lx_step_ok [OF Suc.prems(1)] step by metis
  have inp: "lx_input l' = lx_input l" using ok by (simp add: step_ok_def)
  have rest: "tiles closed (lx_start l') (drop (lx_start l') (lx_input l)) us" if "t = None \<or> st' \<noteq> None"
  proof (cases st')
    case None
    then show ?thesis using ok us that by (auto simp: step_ok_def)
  next
    case (Some s)
    then have "linv s l'" using ok by (simp add: step_ok_def)
    then show ?thesis using Suc.IH [of s l' us] us(1) Some inp by simp
  qed
  show ?case
  proof (cases t)
    case None
    then obtain gap where gap: "list_all is_ws gap" "lx_start l' = lx_start l + length gap"
      "drop (lx_start l) (lx_input l) = gap @ drop (lx_start l') (lx_input l)"
      using ok by (auto simp: step_ok_def skipped_def)
    then show ?thesis using tiles_skip rest us(2) None by simp
  next
    case (Some tok)
    show ?thesis
    proof (cases "tok_typ tok = tokenError")
      case True
      then have "st' = None" using ok Some by (auto simp: step_ok_def)
      then show ?thesis using us Some True by auto
    next
      case False
      then have "st' \<noteq> None" "sent tok l l'" using ok Some by (auto simp: step_ok_def split: option.splits)
      then show ?thesis using tiles_sent rest False us(2) Some by simp
    qed
  qed
qed

lemma run_closes:
  assumes "linv st l" and "plain_spaces (lx_input l)" and "lx_meas st l < fuel"
  shows "snd (lx_run letter fuel (Some st) l)"
  using assms
proof (induction fuel arbitrary: st l)
  case (Suc fuel)
  obtain t l' st' where step: "lx_step letter st l = (t, l', st')" by (cases "lx_step letter st l")
  have ok: "step_ok st l (t, l', st')" using lx_step_ok [OF Suc.prems(1)] step by metis
  have "snd (lx_run letter fuel st' l')"
  proof (cases st')
    case (Some s)
    then have "linv s l'" "lx_input l' = lx_input l" "lx_meas s l' < lx_meas st l" using ok Suc.prems(2) by (auto simp: step_ok_def)
    then show ?thesis using Suc.IH [of s l'] Suc.prems Some by simp
  qed simp
  then show ?case using step by (simp add: case_prod_beta Let_def)
qed simp

text \<open>A closed channel is not changed by more fuel.\<close>

lemma run_more_fuel:
  "lx_run letter fuel st l = (ts, True) \<Longrightarrow> fuel \<le> fuel' \<Longrightarrow> lx_run letter fuel' st l = (ts, True)"
proof (induction letter fuel st l arbitrary: ts fuel' rule: lx_run.induct)
  case (3 letter fuel st l)
  obtain t l' st' where step: "lx_step letter st l = (t, l', st')" by (cases "lx_step letter st l")
  obtain us where us: "lx_run letter fuel st' l' = (us, True)" "ts = (case t of None \<Rightarrow> us | Some t \<Rightarrow> t # us)"
    using 3(2) step by (auto split: prod.splits)
  obtain f where f: "fuel' = Suc f" "fuel \<le> f" using 3(3) by (cases fuel') auto
  show ?case using 3(1) [OF step [symmetric] refl refl us(1) f(2)] step us(2) f(1) by simp
qed simp_all

definition lx_init :: "string \<Rightarrow> lexer" where
  "lx_init input = \<lparr>lx_input = bytes_of_string input, lx_start = 0, lx_pos = 0, lx_width = 0\<rparr>"

lemma linv_init: "linv ReadExp (lx_init input)"
  by (simp add: linv_def at_rest_def lx_init_def)

lemma lex_init: "lex letter fuel input = lx_run letter fuel (Some ReadExp) (lx_init input)"
  by (simp add: lex_def lx_init_def)

text \<open>C25 [lex_tiles].  The tokens the lexer sends, in order, are the text of the input at their starting positions; only white
  space is left out between them, and once the channel is closed without an error token the whole input has been
  used; an error token is the last one before the channel is closed.\<close>

theorem lex_covers_input: "case lex letter fuel input of (ts, closed) \<Rightarrow> tiles closed 0 (bytes_of_string input) ts"
proof -
  obtain ts closed where r: "lex letter fuel input = (ts, closed)" by (cases "lex letter fuel input")
  then show ?thesis using run_tiles [OF linv_init, of letter fuel input ts closed] by (simp add: lex_init lx_init_def)
qed

text \<open>With no other white space, eight state functions for each byte and five more are enough to close the channel.\<close>

lemma lex_closes:
  assumes "plain_spaces (bytes_of_string input)"
  shows "\<exists>ts. \<forall>fuel \<ge> 8 * length input + 5. lex letter fuel input = (ts, True)"
proof -
  let ?f = "8 * length input + 5"
  have "snd (lex letter ?f input)" unfolding lex_init
    using assms by (intro run_closes linv_init) (simp_all add: lx_init_def lx_meas_def length_bytes_of_string)
  then have "lex letter ?f input = (fst (lex letter ?f input), True)" by (simp add: prod_eq_iff)
  then show ?thesis using run_more_fuel unfolding lex_init by blast
qed

lemma plain_spaces_ascii: "list_all (\<lambda>b. b < 0x80) s \<Longrightarrow> plain_spaces s"
proof -
  assume a: "list_all (\<lambda>b. b < 0x80) s"
  have "fst (DecodeRune (drop p s)) \<in> whitespace" if p: "p < length s" and sp: "IsSpace (fst (DecodeRune (drop p s)))" for p
  proof -
    have "s ! p < 0x80" using a p by (simp add: list_all_length)
    moreover have "drop p s = s ! p # drop (Suc p) s" using p by (simp add: Cons_nth_drop_Suc)
    ultimately have "fst (DecodeRune (drop p s)) = uint (s ! p)" "uint (s ! p) < 0x80"
      by (simp_all add: DecodeRune_def word_less_def)
    then show ?thesis using sp by (auto simp: IsSpace_def whitespace_def)
  qed
  then show ?thesis by (simp add: plain_spaces_def)
qed

section \<open>White space the lexer does not skip\<close>

text \<open>The four state functions that follow each other there; only the width of the last rune changes.\<close>

lemma ignore_width: "lx_start l = lx_pos l \<Longrightarrow> lx_ignore (l\<lparr>lx_width := w\<rparr>) = l\<lparr>lx_width := w\<rparr>"
  by (cases l) (simp add: lx_ignore_def)

lemma acceptRunFn_stuck:
  assumes "\<not> valid (rune_at l)"
  shows "lx_acceptRunFn valid (l\<lparr>lx_width := w\<rparr>) = l\<lparr>lx_width := lx_width (snd (lx_next (l\<lparr>lx_width := w\<rparr>)))\<rparr>"
  using assms rune_at_width [of w l] by (subst lx_acceptRunFn.simps) (auto simp: rune_at_def backup_next)

lemma emit_empty:
  "lx_start l = lx_pos l \<Longrightarrow> lx_emit typ (l\<lparr>lx_width := w\<rparr>) =
     (Some \<lparr>tok_typ = typ, tok_val = [], tok_start = int (lx_pos l)\<rparr>, l\<lparr>lx_width := w\<rparr>)"
  by (cases l) (simp add: lx_emit_def string_of_bytes_def)

definition spins :: "(int \<Rightarrow> bool) \<Rightarrow> lexer \<Rightarrow> bool" where
  "spins letter l \<longleftrightarrow> IsSpace (rune_at l) \<and> rune_at l \<notin> whitespace \<and> \<not> letter (rune_at l) \<and> lx_start l = lx_pos l"

lemma spin_rune:
  assumes "spins letter l"
  shows "rune_at l \<noteq> l_eof" "\<not> isSearchWordRune (rune_at l)"
    "c \<in> {CHR ''('', CHR '')'', CHR ''-'', CHR ''\"'', CHR ''a'', CHR ''o'', CHR '':''} \<Longrightarrow> rune_at l \<noteq> rune c"
  using assms by (auto simp: spins_def isSearchWordRune_def IsSpace_def l_eof_def rune_def whitespace_def)

lemma spin_steps:
  assumes "spins letter l"
  shows "\<exists>w'. readExp (l\<lparr>lx_width := w\<rparr>) = (None, l\<lparr>lx_width := w'\<rparr>, Some ReadPredicate)"
    and "\<exists>w'. readPredicate letter (l\<lparr>lx_width := w\<rparr>) = (None, l\<lparr>lx_width := w'\<rparr>, Some ReadLiteral)"
    and "\<exists>w'. readLiteral (l\<lparr>lx_width := w\<rparr>) =
           (Some \<lparr>tok_typ = tokenLiteral, tok_val = [], tok_start = int (lx_pos l)\<rparr>, l\<lparr>lx_width := w'\<rparr>, Some ReadOperator)"
    and "\<exists>w'. readOperator (l\<lparr>lx_width := w\<rparr>) = (None, l\<lparr>lx_width := w'\<rparr>, Some ReadExp)"
proof -
  have s: "\<not> letter (rune_at l)" "rune_at l \<notin> whitespace" "lx_start l = lx_pos l" using assms by (auto simp: spins_def)
  note r = spin_rune [OF assms]
  show "\<exists>w'. readExp (l\<lparr>lx_width := w\<rparr>) = (None, l\<lparr>lx_width := w'\<rparr>, Some ReadPredicate)"
    using s r by (auto simp: readExp_def lx_acceptRun_def acceptRunFn_stuck ignore_width lx_peek_eq Let_def)
  show "\<exists>w'. readPredicate letter (l\<lparr>lx_width := w\<rparr>) = (None, l\<lparr>lx_width := w'\<rparr>, Some ReadLiteral)"
    using s r by (auto simp: readPredicate_def acceptRunFn_stuck lx_peek_eq Let_def)
  show "\<exists>w'. readOperator (l\<lparr>lx_width := w\<rparr>) = (None, l\<lparr>lx_width := w'\<rparr>, Some ReadExp)"
    using s r by (auto simp: readOperator_def lx_acceptRun_def acceptRunFn_stuck ignore_width lx_peek_eq Let_def)
  show "\<exists>w'. readLiteral (l\<lparr>lx_width := w\<rparr>) =
      (Some \<lparr>tok_typ = tokenLiteral, tok_val = [], tok_start = int (lx_pos l)\<rparr>, l\<lparr>lx_width := w'\<rparr>, Some ReadOperator)"
    using s(3) r(2) by (auto simp: readLiteral_def acceptRunFn_stuck emit_to_def emit_empty)
qed

lemma run_step:
  "lx_step letter st l = (t, l', Some st') \<Longrightarrow>
   lx_run letter (Suc n) (Some st) l =
     (case t of None \<Rightarrow> fst (lx_run letter n (Some st') l') | Some t \<Rightarrow> t # fst (lx_run letter n (Some st') l'),
      snd (lx_run letter n (Some st') l'))"
  by (cases "lx_run letter n (Some st') l'") (simp split: option.split)

lemma spin_run:
  assumes "spins letter l"
  shows "lx_run letter (4 * n) (Some ReadExp) (l\<lparr>lx_width := w\<rparr>) =
    (replicate n \<lparr>tok_typ = tokenLiteral, tok_val = [], tok_start = int (lx_pos l)\<rparr>, False)"
proof (induction n arbitrary: w)
  case (Suc n)
  obtain w1 where 1: "readExp (l\<lparr>lx_width := w\<rparr>) = (None, l\<lparr>lx_width := w1\<rparr>, Some ReadPredicate)"
    using spin_steps(1) [OF assms] by blast
  obtain w2 where 2: "readPredicate letter (l\<lparr>lx_width := w1\<rparr>) = (None, l\<lparr>lx_width := w2\<rparr>, Some ReadLiteral)"
    using spin_steps(2) [OF assms] by blast
  obtain w3 where 3: "readLiteral (l\<lparr>lx_width := w2\<rparr>) =
      (Some \<lparr>tok_typ = tokenLiteral, tok_val = [], tok_start = int (lx_pos l)\<rparr>, l\<lparr>lx_width := w3\<rparr>, Some ReadOperator)"
    using spin_steps(3) [OF assms] by blast
  obtain w4 where 4: "readOperator (l\<lparr>lx_width := w3\<rparr>) = (None, l\<lparr>lx_width := w4\<rparr>, Some ReadExp)"
    using spin_steps(4) [OF assms] by blast
  have "4 * Suc n = Suc (Suc (Suc (Suc (4 * n))))" by simp
  then show ?case using Suc [of w4] by (simp only: run_step lx_step.simps 1 2 3 4) simp
qed simp

text \<open>At a rune that \<open>unicode.IsSpace\<close> counts as white space and \<open>whitespace\<close> does not list (a no-break space,
  say), the lexer neither skips it nor reads a word: it sends empty literals for ever and never closes the channel.\<close>

theorem lexer_spins_on_other_spaces:
  assumes "IsSpace (rune_at l)" and "rune_at l \<notin> whitespace" and "\<not> letter (rune_at l)" and "lx_start l = lx_pos l"
  shows "lx_run letter (4 * n) (Some ReadExp) l =
    (replicate n \<lparr>tok_typ = tokenLiteral, tok_val = [], tok_start = int (lx_pos l)\<rparr>, False)"
  using spin_run [of letter l n "lx_width l"] assms by (simp add: spins_def)

text \<open>The concrete input: two letters with a no-break space between them, after the first letter.\<close>

theorem lexer_spins_on_other_spaces_witness:
  "lx_run (\<lambda>r. r = 0x61) (4 * 3) (Some ReadExp) \<lparr>lx_input = [0x61, 0xC2, 0xA0, 0x61], lx_start = 1, lx_pos = 1, lx_width = 1\<rparr> =
    (replicate 3 \<lparr>tok_typ = tokenLiteral, tok_val = [], tok_start = 1\<rparr>, False)"
  using lexer_spins_on_other_spaces [of "\<lparr>lx_input = [0x61, 0xC2, 0xA0, 0x61], lx_start = 1, lx_pos = 1, lx_width = 1\<rparr>" "\<lambda>r. r = 0x61" 3]
  by (simp add: rune_at_def lx_next_def DecodeRune_def is_cont_def cont_bits_def IsSpace_def whitespace_def del: lx_run.simps)

end
