(* ===== verification/SearchExpr.thy ===== *)
theory SearchExpr
  imports Lexer
begin

text \<open>
  Search expressions (\<open>pkg/search/expr.go\<close>): the recursive-descent parser over the tokens of the lexer, and the
  logical part of the constraints it builds (\<open>pkg/search/query.go\<close>).
\<close>

section \<open>Constraints\<close>

text \<open>
  A constraint with its \<open>Logical\<close> field inlined (\<open>c_Op\<close> is \<open>None\<close> if that is nil; \<open>c_A\<close> and \<open>c_B\<close> are pointers) and
  its other non-zero fields, of an arbitrary type, in the order \<open>genMatcher\<close> reads them.
\<close>

datatype 'k Constraint =
  Constraint (c_Op: "string option") (c_A: "'k Constraint option") (c_B: "'k Constraint option") (c_fields: "'k list")

definition andConst :: "'k Constraint option \<Rightarrow> 'k Constraint option \<Rightarrow> 'k Constraint" where
  "andConst a b = Constraint (Some ''and'') a b []"

definition orConst :: "'k Constraint option \<Rightarrow> 'k Constraint option \<Rightarrow> 'k Constraint" where
  "orConst a b = Constraint (Some ''or'') a b []"

definition notConst :: "'k Constraint option \<Rightarrow> 'k Constraint" where
  "notConst a = Constraint (Some ''not'') a None []"

text \<open>\<open>checkValid\<close>, \<open>None\<close> for nil; \<open>claim\<close> are the claim constraints, \<open>ck\<close> checks another field.\<close>

fun first_error :: "string option list \<Rightarrow> string option" where
  "first_error [] = None"
| "first_error (None # es) = first_error es"
| "first_error (Some e # es) = Some e"

fun c_checkValid :: "('k \<Rightarrow> bool) \<Rightarrow> ('k \<Rightarrow> string option) \<Rightarrow> 'k Constraint \<Rightarrow> string option" where
  "c_checkValid claim ck (Constraint lop a b fs) =
     (if list_ex claim fs then Some ''TODO: implement ClaimConstraint''
      else first_error
        ((case lop of
            None \<Rightarrow> None
          | Some lop \<Rightarrow>
              (case a of
                 None \<Rightarrow> Some ''In LogicalConstraint, need to set A''
               | Some a \<Rightarrow>
                   (case c_checkValid claim ck a of
                      Some e \<Rightarrow> Some e
                    | None \<Rightarrow>
                        if lop = ''and'' \<or> lop = ''xor'' \<or> lop = ''or'' then
                          (case b of None \<Rightarrow> Some ''In LogicalConstraint, need both A and B set'' | Some b \<Rightarrow> c_checkValid claim ck b)
                        else if lop = ''not'' then None
                        else Some (''In LogicalConstraint, unknown operation '' @ lop)))) # map ck fs))"

text \<open>
  The matchers, for one blob: \<open>Inl\<close> an error, \<open>None\<close> a panic.  Generating the matchers dereferences \<open>A\<close> and \<open>B\<close>.
\<close>

type_synonym mres = "(string + bool) option"

fun allMustMatch :: "mres list \<Rightarrow> mres" where
  "allMustMatch [] = Some (Inr True)"
| "allMustMatch (m # ms) = (if m = Some (Inr True) then allMustMatch ms else m)"

definition lc_match :: "string \<Rightarrow> mres \<Rightarrow> mres \<Rightarrow> mres" where
  "lc_match lop av bv =
     (case av of
        Some (Inr v) \<Rightarrow>
          if lop = ''not'' then Some (Inr (\<not> v))
          else if lop = ''and'' \<and> \<not> v then Some (Inr False)
          else if lop = ''or'' \<and> v then Some (Inr True)
          else (case bv of
             Some (Inr w) \<Rightarrow> if lop = ''and'' \<or> lop = ''or'' then Some (Inr w) else if lop = ''xor'' then Some (Inr (v \<noteq> w)) else None
           | _ \<Rightarrow> bv)
      | _ \<Rightarrow> av)"

fun gen_ok :: "'k Constraint \<Rightarrow> bool" where
  "gen_ok (Constraint lop a b fs) \<longleftrightarrow>
     (case lop of
        None \<Rightarrow> True
      | Some lop \<Rightarrow> (case a of None \<Rightarrow> False | Some a \<Rightarrow> gen_ok a) \<and> (lop = ''not'' \<or> (case b of None \<Rightarrow> False | Some b \<Rightarrow> gen_ok b)))"

fun run_matcher :: "('k \<Rightarrow> mres) \<Rightarrow> 'k Constraint \<Rightarrow> mres" where
  "run_matcher fm (Constraint lop a b fs) =
     (let conds =
            (case lop of
               None \<Rightarrow> []
             | Some lop \<Rightarrow>
                 [lc_match lop (case a of None \<Rightarrow> None | Some a \<Rightarrow> run_matcher fm a) (case b of None \<Rightarrow> None | Some b \<Rightarrow> run_matcher fm b)])
            @ map fm fs
      in case conds of [] \<Rightarrow> Some (Inr False) | [cond] \<Rightarrow> cond | _ \<Rightarrow> allMustMatch conds)"

definition c_matcher :: "('k \<Rightarrow> mres) \<Rightarrow> 'k Constraint \<Rightarrow> mres" where
  "c_matcher fm c = (if gen_ok c then run_matcher fm c else None)"

section \<open>Unquoting\<close>

text \<open>\<open>strconv.Unquote\<close>.\<close>

definition byte_is :: "u8 \<Rightarrow> char \<Rightarrow> bool" where
  "byte_is b c \<longleftrightarrow> b = byte_of_char c"

text \<open>The result is the rune, whether it is a multi-byte one, and the rest.  A rune has 32 bits.\<close>

definition UnquoteChar :: "bytes \<Rightarrow> u8 \<Rightarrow> (int \<times> bool \<times> bytes) option" where
  "UnquoteChar s quote =
     (case s of
        [] \<Rightarrow> None
      | b # t \<Rightarrow>
          if b = quote \<and> (byte_is quote CHR 0x27 \<or> byte_is quote CHR ''\"'') then None
          else if b \<ge> 0x80 then (let (r, n) = DecodeRune s in Some (r, True, drop n s))
          else if \<not> byte_is b CHR 0x5C then Some (uint b, False, t)
          else (case t of
             [] \<Rightarrow> None
           | c # u \<Rightarrow>
               if byte_is c CHR ''a'' then Some (7, False, u)
               else if byte_is c CHR ''b'' then Some (8, False, u)
               else if byte_is c CHR ''f'' then Some (12, False, u)
               else if byte_is c CHR ''n'' then Some (10, False, u)
               else if byte_is c CHR ''r'' then Some (13, False, u)
               else if byte_is c CHR ''t'' then Some (9, False, u)
               else if byte_is c CHR ''v'' then Some (11, False, u)
               else if byte_is c CHR ''x'' \<or> byte_is c CHR ''u'' \<or> byte_is c CHR ''U'' then
                 (let n = (if byte_is c CHR ''x'' then 2 else if byte_is c CHR ''u'' then 4 else 8)
                  in if length u < n then None
                     else (case hex_value 0 (take n u) of
                        None \<Rightarrow> None
                      | Some v \<Rightarrow>
                          let v = sint (word_of_int v :: 32 word)
                          in if byte_is c CHR ''x'' then Some (v, False, drop n u)
                             else if v > 0x10FFFF then None
                             else Some (v, True, drop n u)))
               else if 0x30 \<le> uint c \<and> uint c \<le> 0x37 then
                 (case u of
                    d # e # w \<Rightarrow>
                      if 0x30 \<le> uint d \<and> uint d \<le> 0x37 \<and> 0x30 \<le> uint e \<and> uint e \<le> 0x37 then
                        (let v = (uint c - 0x30) * 64 + (uint d - 0x30) * 8 + (uint e - 0x30)
                         in if v > 255 then None else Some (v, False, w))
                      else None
                  | _ \<Rightarrow> None)
               else if byte_is c CHR 0x5C then Some (0x5C, False, u)
               else if byte_is c CHR 0x27 \<or> byte_is c CHR ''\"'' then (if c \<noteq> quote then None else Some (uint c, False, u))
               else None))"

text \<open>The loop of \<open>Unquote\<close>; every turn takes at least one byte, so the length bounds the turns.\<close>

fun unquote_loop :: "nat \<Rightarrow> u8 \<Rightarrow> bytes \<Rightarrow> bytes option" where
  "unquote_loop n quote [] = Some []"
| "unquote_loop 0 quote (b # s) = None"
| "unquote_loop (Suc n) quote (b # s) =
     (case UnquoteChar (b # s) quote of
        None \<Rightarrow> None
      | Some (c, multibyte, t) \<Rightarrow>
          if byte_is quote CHR 0x27 \<and> t \<noteq> [] then None
          else map_option ((@) (if c < 0x80 \<or> \<not> multibyte then [word_of_int c] else EncodeRune c)) (unquote_loop n quote t))"

definition Unquote :: "string \<Rightarrow> string option" where
  "Unquote q =
     (let s = bytes_of_string q; quote = hd s; body = butlast (tl s)
      in if length s < 2 \<or> quote \<noteq> List.last s then None
         else if byte_is quote CHR 0x60 then (if quote \<in> set body then None else Some (string_of_bytes body))
         else if \<not> byte_is quote CHR ''\"'' \<and> \<not> byte_is quote CHR 0x27 then None
         else if 0x0A \<in> set body then None
         else if 0x5C \<notin> set body \<and> quote \<notin> set body \<and> (byte_is quote CHR ''\"'' \<or> snd (DecodeRune body) = length body \<and> DecodeRune body \<noteq> (RuneError, 1)) then
           Some (string_of_bytes body)
         else map_option string_of_bytes (unquote_loop (length body) quote body))"

section \<open>The parser\<close>

text \<open>
  The tokens received so far are a list with a flag telling whether the channel is closed after them.  A computation
  returns a value or an error, or has not returned: it waits for a token that does not come, or has used up the number of
  turns its loops were given.
\<close>

definition noMatchingOpening :: string where
  "noMatchingOpening = ''No matching opening parenthesis''"
definition noMatchingClosing :: string where
  "noMatchingClosing = ''No matching closing parenthesis''"
definition noLiteralSupport :: string where
  "noLiteralSupport = ''No support for literals yet''"
definition noQuotedLiteralSupport :: string where
  "noQuotedLiteralSupport = ''No support for quoted literals yet''"
definition expectedAtom :: string where
  "expectedAtom = ''Expected an atom''"
definition predicateError :: string where
  "predicateError = ''Predicates do not start with a colon''"
definition trailingTokens :: string where
  "trailingTokens = ''After parsing finished there is still input left''"

text \<open>The error of \<open>Unquote\<close> is passed on as it is; the message for an unknown predicate quotes it.\<close>

datatype parseExpError = ParseExpError string token | UnknownPredicate token | UnquoteSyntax

datatype 'a pres = POk 'a | PErr parseExpError | PHang

record parser =
  p_tokens :: "token list"
  p_closed :: bool
  p_peeked :: "token option"

type_synonym 'a pm = "parser \<Rightarrow> 'a pres \<times> parser"

definition p_ret :: "'a \<Rightarrow> 'a pm" where
  "p_ret a = (\<lambda>p. (POk a, p))"

definition p_fail :: "parseExpError \<Rightarrow> 'a pm" where
  "p_fail e = (\<lambda>p. (PErr e, p))"

definition p_hang :: "'a pm" where
  "p_hang = (\<lambda>p. (PHang, p))"

definition p_bind :: "'a pm \<Rightarrow> ('a \<Rightarrow> 'b pm) \<Rightarrow> 'b pm" where
  "p_bind m f = (\<lambda>p. case m p of (POk a, q) \<Rightarrow> f a q | (PErr e, q) \<Rightarrow> (PErr e, q) | (PHang, q) \<Rightarrow> (PHang, q))"

definition eof_token :: token where
  "eof_token = \<lparr>tok_typ = tokenEOF, tok_val = [], tok_start = -1\<rparr>"

definition readInternal :: "token pm" where
  "readInternal = (\<lambda>p.
     case p_tokens p of
       t # ts \<Rightarrow> (POk t, p\<lparr>p_tokens := ts\<rparr>)
     | [] \<Rightarrow> (if p_closed p then POk eof_token else PHang, p))"

definition p_next :: "token pm" where
  "p_next = (\<lambda>p. case p_peeked p of Some t \<Rightarrow> (POk t, p\<lparr>p_peeked := None\<rparr>) | None \<Rightarrow> readInternal p)"

definition p_peek :: "token pm" where
  "p_peek = (\<lambda>p.
     case p_peeked p of
       Some t \<Rightarrow> (POk t, p)
     | None \<Rightarrow> (case readInternal p of (POk t, q) \<Rightarrow> (POk t, q\<lparr>p_peeked := Some t\<rparr>) | r \<Rightarrow> r))"

fun stripNot :: "nat \<Rightarrow> bool \<Rightarrow> bool pm" where
  "stripNot 0 negated = p_hang"
| "stripNot (Suc n) negated =
     p_bind p_peek (\<lambda>t. if tok_typ t = tokenNot then p_bind p_next (\<lambda>_. stripNot n (\<not> negated)) else p_ret negated)"

record atom =
  predicate :: string
  args :: "string list"

definition atom_String :: "atom \<Rightarrow> string" where
  "atom_String a = predicate a @ concat (map ((#) CHR '':'') (args a))"

text \<open>The words of an atom after its predicate.\<close>

fun atom_args :: "nat \<Rightarrow> atom \<Rightarrow> atom pm" where
  "atom_args 0 a = p_hang"
| "atom_args (Suc n) a =
     p_bind p_peek (\<lambda>t.
       if tok_typ t = tokenColon then p_bind p_next (\<lambda>_. atom_args n a)
       else if tok_typ t = tokenArg then p_bind p_next (\<lambda>i. atom_args n (a\<lparr>args := args a @ [tok_val i]\<rparr>))
       else if tok_typ t = tokenQuotedArg then
         p_bind p_next (\<lambda>i. case Unquote (tok_val i) of
            None \<Rightarrow> p_fail UnquoteSyntax
          | Some uq \<Rightarrow> atom_args n (a\<lparr>args := args a @ [uq]\<rparr>))
       else p_ret a)"

definition atomWords :: "nat \<Rightarrow> (atom \<times> int) pm" where
  "atomWords n =
     p_bind p_peek (\<lambda>i.
       if tok_typ i = tokenLiteral then p_fail (ParseExpError noLiteralSupport i)
       else if tok_typ i = tokenQuotedLiteral then p_fail (ParseExpError noQuotedLiteralSupport i)
       else if tok_typ i = tokenColon then p_fail (ParseExpError predicateError i)
       else
         p_bind
           (if tok_typ i = tokenPredicate then p_bind p_next (\<lambda>i. atom_args n \<lparr>predicate = tok_val i, args = []\<rparr>)
            else atom_args n \<lparr>predicate = [], args = []\<rparr>)
           (\<lambda>a. p_ret (a, tok_start i)))"

text \<open>A registered keyword: \<open>Match\<close> gives whether it matched and its error, \<open>Predicate\<close> the constraint or an error.\<close>

record 'k keyword =
  Match :: "atom \<Rightarrow> bool \<times> string option"
  Predicate :: "string list \<Rightarrow> string + 'k Constraint"

text \<open>The two ways of matching that the keywords of \<open>predicate.go\<close> mix in; the counts in the message are left out.\<close>

definition matchEqual_Match :: "string \<Rightarrow> atom \<Rightarrow> bool \<times> string option" where
  "matchEqual_Match me a = (me = atom_String a, None)"

definition matchPrefix_Match :: "string \<Rightarrow> nat \<Rightarrow> atom \<Rightarrow> bool \<times> string option" where
  "matchPrefix_Match pre count a =
     (if pre = predicate a then
        (if length (args a) \<noteq> count then (True, Some (''Wrong number of arguments for '' @ pre)) else (True, None))
      else (False, None))"

fun try_keywords :: "'k keyword list \<Rightarrow> atom \<Rightarrow> token \<Rightarrow> 'k Constraint pm" where
  "try_keywords [] a fault = p_fail (UnknownPredicate fault)"
| "try_keywords (k # ks) a fault =
     (case Match k a of
        (_, Some e) \<Rightarrow> p_fail (ParseExpError e fault)
      | (True, None) \<Rightarrow> (case Predicate k (args a) of Inl e \<Rightarrow> p_fail (ParseExpError e fault) | Inr c \<Rightarrow> p_ret c)
      | (False, None) \<Rightarrow> try_keywords ks a fault)"

definition parseAtom :: "nat \<Rightarrow> 'k keyword list \<Rightarrow> 'k Constraint option pm" where
  "parseAtom n keywords =
     p_bind (atomWords n) (\<lambda>(a, start).
       p_bind (try_keywords keywords a \<lparr>tok_typ = tokenError, tok_val = atom_String a, tok_start = start\<rparr>) (\<lambda>c. p_ret (Some c)))"

text \<open>\<open>pe\<close> is the recursive call of \<open>parseExp\<close>.\<close>

definition parseGroup :: "'k Constraint option pm \<Rightarrow> 'k Constraint option pm" where
  "parseGroup pe =
     p_bind p_next (\<lambda>i.
       if tok_typ i = tokenOpen then
         p_bind pe (\<lambda>c. p_bind p_peek (\<lambda>t.
           if tok_typ t = tokenClose then p_bind p_next (\<lambda>_. p_ret c) else p_fail (ParseExpError noMatchingClosing i)))
       else p_fail (ParseExpError (''internal: do not call parseGroup when not on a '' @ [CHR 0x27, CHR ''('', CHR 0x27]) i))"

definition parseOperand :: "nat \<Rightarrow> 'k keyword list \<Rightarrow> 'k Constraint option pm \<Rightarrow> 'k Constraint option pm" where
  "parseOperand n keywords pe =
     p_bind (stripNot n False) (\<lambda>negated. p_bind p_peek (\<lambda>i.
       if tok_typ i = tokenError then p_fail (ParseExpError (tok_val i) i)
       else if tok_typ i = tokenEOF then p_fail (ParseExpError expectedAtom i)
       else if tok_typ i = tokenClose then p_fail (ParseExpError noMatchingOpening i)
       else
         p_bind
           (if tok_typ i \<in> {tokenLiteral, tokenQuotedLiteral, tokenPredicate, tokenColon, tokenArg} then parseAtom n keywords
            else if tok_typ i = tokenOpen then parseGroup pe
            else p_ret None)
           (\<lambda>c. p_ret (if negated then Some (notConst c) else c))))"

fun parseAndRHS :: "nat \<Rightarrow> 'k keyword list \<Rightarrow> 'k Constraint option pm \<Rightarrow> 'k Constraint option \<Rightarrow> 'k Constraint option pm" where
  "parseAndRHS 0 keywords pe c = p_hang"
| "parseAndRHS (Suc n) keywords pe c =
     p_bind (parseOperand n keywords pe) (\<lambda>rhs. p_bind p_peek (\<lambda>t.
       if tok_typ t = tokenAnd then p_bind p_next (\<lambda>_. parseAndRHS n keywords pe (Some (andConst c rhs)))
       else p_ret (Some (andConst c rhs))))"

definition parseAnd :: "nat \<Rightarrow> 'k keyword list \<Rightarrow> 'k Constraint option pm \<Rightarrow> 'k Constraint option pm" where
  "parseAnd n keywords pe =
     p_bind (parseOperand n keywords pe) (\<lambda>c. p_bind p_peek (\<lambda>t.
       if tok_typ t = tokenAnd then p_bind p_next (\<lambda>_. parseAndRHS n keywords pe c)
       else if tok_typ t \<in> {tokenOr, tokenClose, tokenEOF} then p_ret c
       else parseAndRHS n keywords pe c))"

fun parseOrRHS :: "nat \<Rightarrow> 'k keyword list \<Rightarrow> 'k Constraint option pm \<Rightarrow> 'k Constraint option \<Rightarrow> 'k Constraint option pm" where
  "parseOrRHS 0 keywords pe c = p_hang"
| "parseOrRHS (Suc n) keywords pe c =
     p_bind (parseAnd n keywords pe) (\<lambda>rhs. p_bind p_peek (\<lambda>t.
       if tok_typ t = tokenOr then p_bind p_next (\<lambda>_. parseOrRHS n keywords pe (Some (orConst c rhs)))
       else if tok_typ t \<in> {tokenAnd, tokenClose, tokenEOF} then p_ret (Some (orConst c rhs))
       else parseOrRHS n keywords pe (Some (orConst c rhs))))"

fun parseExp_loop :: "nat \<Rightarrow> 'k keyword list \<Rightarrow> 'k Constraint option pm \<Rightarrow> 'k Constraint option \<Rightarrow> 'k Constraint option pm" where
  "parseExp_loop 0 keywords pe c = p_hang"
| "parseExp_loop (Suc n) keywords pe c =
     p_bind p_peek (\<lambda>t.
       if tok_typ t = tokenAnd then p_bind p_next (\<lambda>_. p_bind (parseAndRHS n keywords pe c) (parseExp_loop n keywords pe))
       else if tok_typ t = tokenOr then p_bind p_next (\<lambda>_. parseOrRHS n keywords pe c)
       else if tok_typ t \<in> {tokenClose, tokenEOF} then p_ret c
       else p_bind (parseAndRHS n keywords pe c) (parseExp_loop n keywords pe))"

fun parseExp :: "nat \<Rightarrow> 'k keyword list \<Rightarrow> 'k Constraint option pm" where
  "parseExp 0 keywords = p_hang"
| "parseExp (Suc n) keywords =
     p_bind p_peek (\<lambda>t.
       if tok_typ t = tokenEOF then p_ret None
       else p_bind (parseOperand n keywords (parseExp n keywords)) (parseExp_loop n keywords (parseExp n keywords)))"

text \<open>\<open>strings.TrimSpace\<close>: runes are dropped from the front, then from the back.\<close>

function trim_left :: "bytes \<Rightarrow> bytes" where
  "trim_left s = (if s \<noteq> [] \<and> IsSpace (fst (DecodeRune s)) then trim_left (drop (snd (DecodeRune s)) s) else s)"
  by pat_completeness auto
termination
proof (relation "measure length")
  fix s :: bytes
  assume "s \<noteq> [] \<and> IsSpace (fst (DecodeRune s))"
  then show "(drop (snd (DecodeRune s)) s, s) \<in> measure length" using DecodeRune_width [of s] by auto
qed simp

declare trim_left.simps [simp del]

text \<open>\<open>utf8.DecodeLastRuneInString\<close>: the start of the last rune is looked for in the last four bytes.\<close>

definition last_start :: "bytes \<Rightarrow> nat" where
  "last_start s =
     (let n = length s; starts = filter (\<lambda>k. k \<le> n \<and> \<not> is_cont (s ! (n - k))) [2, 3, 4]
      in case starts of k # _ \<Rightarrow> n - k | [] \<Rightarrow> (if n < 5 then 0 else n - 5))"

definition DecodeLastRune :: "bytes \<Rightarrow> int \<times> nat" where
  "DecodeLastRune s =
     (if s = [] then (RuneError, 0)
      else if List.last s < 0x80 then (uint (List.last s), 1)
      else let st = last_start s; (r, n) = DecodeRune (drop st s)
           in if st + n \<noteq> length s then (RuneError, 1) else (r, n))"

lemma last_start_less: "s \<noteq> [] \<Longrightarrow> last_start s < length s"
  by (auto simp: last_start_def Let_def split: list.split)

lemma DecodeLastRune_width: "s \<noteq> [] \<Longrightarrow> 1 \<le> snd (DecodeLastRune s)"
  using last_start_less [of s] by (auto simp: DecodeLastRune_def Let_def split: prod.split)

function trim_right :: "bytes \<Rightarrow> bytes" where
  "trim_right s =
     (if s \<noteq> [] \<and> IsSpace (fst (DecodeLastRune s)) then trim_right (take (length s - snd (DecodeLastRune s)) s) else s)"
  by pat_completeness auto
termination
proof (relation "measure length")
  fix s :: bytes
  assume "s \<noteq> [] \<and> IsSpace (fst (DecodeLastRune s))"
  then show "(take (length s - snd (DecodeLastRune s)) s, s) \<in> measure length"
    using DecodeLastRune_width [of s] by (cases s) auto
qed simp

declare trim_right.simps [simp del]

definition TrimSpace :: "string \<Rightarrow> string" where
  "TrimSpace s = string_of_bytes (trim_right (trim_left (bytes_of_string s)))"

text \<open>
  \<open>newParser\<close> and \<open>parseExpression\<close>: \<open>base\<close> is the constraint on permanodes that are not hidden; the constraint is the only
  field of the query that is set.
\<close>

definition newParser :: "(int \<Rightarrow> bool) \<Rightarrow> nat \<Rightarrow> string \<Rightarrow> parser" where
  "newParser letter fuel exp = (let (ts, closed) = lex letter fuel exp in \<lparr>p_tokens = ts, p_closed = closed, p_peeked = None\<rparr>)"

definition parse_query :: "nat \<Rightarrow> 'k keyword list \<Rightarrow> 'k Constraint \<Rightarrow> 'k Constraint pm" where
  "parse_query n keywords base =
     p_bind (parseExp n keywords) (\<lambda>c. p_bind p_next (\<lambda>t.
       if tok_typ t \<noteq> tokenEOF then
         (if tok_typ t = tokenClose then p_fail (ParseExpError noMatchingOpening t) else p_fail (ParseExpError trailingTokens t))
       else p_ret (case c of None \<Rightarrow> base | Some c \<Rightarrow> andConst (Some base) (Some c))))"

definition parseExpression :: "(int \<Rightarrow> bool) \<Rightarrow> nat \<Rightarrow> 'k keyword list \<Rightarrow> 'k \<Rightarrow> string \<Rightarrow> 'k Constraint pres" where
  "parseExpression letter fuel keywords k exp =
     (let base = Constraint None None None [k]; exp = TrimSpace exp
      in if exp = [] then POk base else fst (parse_query fuel keywords base (newParser letter fuel exp)))"

section \<open>More turns do not change a result\<close>

definition extends :: "'a pm \<Rightarrow> 'a pm \<Rightarrow> bool" where
  "extends m m' \<longleftrightarrow> (\<forall>p. fst (m p) \<noteq> PHang \<longrightarrow> m' p = m p)"

lemma extends_refl: "extends m m"
  by (simp add: extends_def)

lemma extends_hang: "extends p_hang m"
  by (simp add: extends_def p_hang_def)

lemma extends_bind:
  assumes "extends m m'" and "\<And>a. extends (f a) (f' a)"
  shows "extends (p_bind m f) (p_bind m' f')"
  unfolding extends_def
proof (intro allI impI)
  fix p assume h: "fst (p_bind m f p) \<noteq> PHang"
  obtain r q where r: "m p = (r, q)" by (cases "m p")
  have "r \<noteq> PHang" using h r by (auto simp: p_bind_def)
  then have "m' p = m p" using assms(1) r by (simp add: extends_def)
  then show "p_bind m' f' p = p_bind m f p"
    using h r assms(2) by (cases r) (auto simp: p_bind_def extends_def)
qed

lemma extends_if: "(b \<Longrightarrow> extends m m') \<Longrightarrow> (\<not> b \<Longrightarrow> extends k k') \<Longrightarrow> extends (if b then m else k) (if b then m' else k')"
  by simp

lemma extends_option: "extends m m' \<Longrightarrow> (\<And>a. extends (f a) (f' a)) \<Longrightarrow> extends (case x of None \<Rightarrow> m | Some a \<Rightarrow> f a) (case x of None \<Rightarrow> m' | Some a \<Rightarrow> f' a)"
  by (simp split: option.split)

lemmas extends_intros = extends_bind extends_if extends_option

lemma stripNot_extends: "n \<le> n' \<Longrightarrow> extends (stripNot n b) (stripNot n' b)"
proof (induction n arbitrary: n' b)
  case (Suc n)
  then show ?case by (cases n') (auto intro!: extends_intros extends_refl)
qed (simp add: extends_hang)

lemma atom_args_extends: "n \<le> n' \<Longrightarrow> extends (atom_args n a) (atom_args n' a)"
proof (induction n arbitrary: n' a)
  case (Suc n)
  then show ?case by (cases n') (auto intro!: extends_intros extends_refl)
qed (simp add: extends_hang)

lemma parseAtom_extends: "n \<le> n' \<Longrightarrow> extends (parseAtom n keywords) (parseAtom n' keywords)"
  unfolding parseAtom_def atomWords_def
  by (intro extends_intros extends_refl atom_args_extends) (simp_all add: extends_refl)

lemma parseOperand_extends:
  assumes "n \<le> n'" and "extends pe pe'"
  shows "extends (parseOperand n keywords pe) (parseOperand n' keywords pe')"
  unfolding parseOperand_def parseGroup_def
  by (intro extends_intros extends_refl stripNot_extends parseAtom_extends assms)

lemma parseAndRHS_extends:
  "n \<le> n' \<Longrightarrow> extends pe pe' \<Longrightarrow> extends (parseAndRHS n keywords pe c) (parseAndRHS n' keywords pe' c)"
proof (induction n arbitrary: n' c)
  case (Suc n)
  then show ?case by (cases n') (auto intro!: extends_intros extends_refl parseOperand_extends)
qed (simp add: extends_hang)

lemma parseAnd_extends:
  "n \<le> n' \<Longrightarrow> extends pe pe' \<Longrightarrow> extends (parseAnd n keywords pe) (parseAnd n' keywords pe')"
  unfolding parseAnd_def by (intro extends_intros extends_refl parseOperand_extends parseAndRHS_extends)

lemma parseOrRHS_extends:
  "n \<le> n' \<Longrightarrow> extends pe pe' \<Longrightarrow> extends (parseOrRHS n keywords pe c) (parseOrRHS n' keywords pe' c)"
proof (induction n arbitrary: n' c)
  case (Suc n)
  then show ?case by (cases n') (auto intro!: extends_intros extends_refl parseAnd_extends)
qed (simp add: extends_hang)

lemma parseExp_loop_extends:
  "n \<le> n' \<Longrightarrow> extends pe pe' \<Longrightarrow> extends (parseExp_loop n keywords pe c) (parseExp_loop n' keywords pe' c)"
proof (induction n arbitrary: n' c)
  case (Suc n)
  then show ?case
    by (cases n') (auto intro!: extends_intros extends_refl parseAndRHS_extends parseOrRHS_extends)
qed (simp add: extends_hang)

lemma parseExp_extends: "n \<le> n' \<Longrightarrow> extends (parseExp n keywords) (parseExp n' keywords)"
proof (induction n arbitrary: n')
  case (Suc n)
  then show ?case by (cases n') (auto intro!: extends_intros extends_refl parseOperand_extends parseExp_loop_extends)
qed (simp add: extends_hang)

lemma parse_query_extends: "n \<le> n' \<Longrightarrow> extends (parse_query n keywords base) (parse_query n' keywords base)"
  unfolding parse_query_def by (intro extends_bind extends_refl parseExp_extends)

section \<open>Reading tokens\<close>

text \<open>The tokens still to come when the channel is closed after them.\<close>

definition view :: "parser \<Rightarrow> token list" where
  "view p = (case p_peeked p of None \<Rightarrow> p_tokens p | Some t \<Rightarrow> if tok_typ t = tokenEOF then [] else t # p_tokens p)"

definition pinv :: "parser \<Rightarrow> bool" where
  "pinv p \<longleftrightarrow> p_closed p \<and> (\<forall>t \<in> set (p_tokens p). tok_typ t \<noteq> tokenEOF) \<and>
     (\<forall>t. p_peeked p = Some t \<and> tok_typ t = tokenEOF \<longrightarrow> p_tokens p = [])"

definition look :: "token list \<Rightarrow> tokenType" where
  "look ts = (case ts of [] \<Rightarrow> tokenEOF | t # _ \<Rightarrow> tok_typ t)"

lemma view_not_eof: "pinv p \<Longrightarrow> view p = t # ts \<Longrightarrow> tok_typ t \<noteq> tokenEOF"
  by (auto simp: pinv_def view_def split: option.splits if_splits)

text \<open>
  The computation returns, and a value it returns satisfies \<open>Q\<close> with the parser's state; \<open>E\<close> tells whether it may also return
  an error.
\<close>

definition wp :: "bool \<Rightarrow> 'a pm \<Rightarrow> ('a \<Rightarrow> parser \<Rightarrow> bool) \<Rightarrow> parser \<Rightarrow> bool" where
  "wp E m Q p \<longleftrightarrow> (case m p of (POk a, q) \<Rightarrow> Q a q | (PErr e, q) \<Rightarrow> E | (PHang, q) \<Rightarrow> False)"

lemma wp_bind: "wp E m (\<lambda>a. wp E (f a) Q) p \<Longrightarrow> wp E (p_bind m f) Q p"
  by (auto simp: wp_def p_bind_def split: prod.splits pres.splits)

lemma wp_ret [simp]: "wp E (p_ret a) Q p = Q a p"
  by (simp add: wp_def p_ret_def)

lemma wp_fail [simp]: "wp True (p_fail e) Q p"
  by (simp add: wp_def p_fail_def)

lemma wp_mono: "wp E m Q p \<Longrightarrow> (\<And>a q. Q a q \<Longrightarrow> R a q) \<Longrightarrow> wp E m R p"
  by (auto simp: wp_def split: prod.splits pres.splits)

lemma then_do: "wp E m R p \<Longrightarrow> (\<And>a q. R a q \<Longrightarrow> wp E (f a) Q q) \<Longrightarrow> wp E (p_bind m f) Q p"
  by (rule wp_bind, erule wp_mono)

lemma wp_peek:
  assumes "pinv p" and "\<And>t q. pinv q \<Longrightarrow> view q = view p \<Longrightarrow> tok_typ t = look (view p) \<Longrightarrow> (\<And>u us. view p = u # us \<Longrightarrow> t = u) \<Longrightarrow> Q t q"
  shows "wp E p_peek Q p"
proof (cases "p_peeked p")
  case None
  show ?thesis
  proof (cases "p_tokens p")
    case Nil
    then show ?thesis using None assms(1)
      by (auto simp: wp_def p_peek_def readInternal_def pinv_def intro!: assms(2)) (auto simp: view_def look_def pinv_def eof_token_def)
  next
    case (Cons t ts)
    then show ?thesis using None assms(1)
      by (auto simp: wp_def p_peek_def readInternal_def intro!: assms(2)) (auto simp: view_def look_def pinv_def)
  qed
next
  case (Some t)
  then show ?thesis using assms(1)
    by (auto simp: wp_def p_peek_def intro!: assms(2)) (auto simp: view_def look_def split: if_splits)
qed

lemma wp_next:
  assumes "pinv p" and "\<And>t q. pinv q \<Longrightarrow> view q = tl (view p) \<Longrightarrow> tok_typ t = look (view p) \<Longrightarrow> (\<And>u us. view p = u # us \<Longrightarrow> t = u) \<Longrightarrow> Q t q"
  shows "wp E p_next Q p"
proof (cases "p_peeked p")
  case None
  show ?thesis
  proof (cases "p_tokens p")
    case Nil
    then show ?thesis using None assms(1)
      by (auto simp: wp_def p_next_def readInternal_def pinv_def intro!: assms(2)) (auto simp: view_def look_def pinv_def eof_token_def)
  next
    case (Cons t ts)
    then show ?thesis using None assms(1)
      by (auto simp: wp_def p_next_def readInternal_def intro!: assms(2)) (auto simp: view_def look_def pinv_def)
  qed
next
  case (Some t)
  then show ?thesis using assms(1)
    by (auto simp: wp_def p_next_def intro!: assms(2)) (auto simp: view_def look_def pinv_def split: if_splits)
qed

section \<open>The parser returns\<close>

text \<open>Where an operand may start, and what is seen after one.\<close>

definition ready :: "token list \<Rightarrow> bool" where
  "ready ts \<longleftrightarrow> look ts \<notin> {tokenAnd, tokenOr, tokenQuotedArg}"

definition settled :: "token list \<Rightarrow> bool" where
  "settled ts \<longleftrightarrow> look ts \<noteq> tokenQuotedArg"

text \<open>Quoted arguments follow colons; the operators do not follow operators, parentheses that open, or negations.\<close>

fun adj :: "token list \<Rightarrow> bool" where
  "adj (t # u # ts) \<longleftrightarrow>
     (tok_typ u = tokenQuotedArg \<longrightarrow> tok_typ t = tokenColon) \<and>
     (tok_typ u \<in> {tokenAnd, tokenOr} \<longrightarrow> tok_typ t \<notin> {tokenAnd, tokenOr, tokenNot, tokenOpen}) \<and> adj (u # ts)"
| "adj _ \<longleftrightarrow> True"

lemma adj_tl: "adj ts \<Longrightarrow> adj (tl ts)"
  by (cases ts rule: adj.cases) auto

lemma look_settled_tl:
  assumes "adj ts" and "look ts \<noteq> tokenColon"
  shows "settled (tl ts)"
  using assms by (cases ts rule: adj.cases) (auto simp: settled_def look_def)

lemma look_ready_tl:
  assumes "adj ts" and "look ts \<in> {tokenAnd, tokenOr, tokenNot, tokenOpen}"
  shows "ready (tl ts)"
  using assms by (cases ts rule: adj.cases) (auto simp: ready_def look_def)

lemma look_tl: "look ts \<noteq> tokenEOF \<Longrightarrow> length (tl ts) < length ts"
  by (cases ts) (auto simp: look_def)

definition good :: "parser \<Rightarrow> bool" where
  "good p \<longleftrightarrow> pinv p \<and> adj (view p)"

lemma good_peek:
  assumes "good p" and "\<And>t q. good q \<Longrightarrow> view q = view p \<Longrightarrow> tok_typ t = look (view p) \<Longrightarrow> Q t q"
  shows "wp True p_peek Q p"
  using assms(1) by (intro wp_peek assms(2)) (auto simp: good_def)

lemma good_next:
  assumes "good p" and "\<And>t q. good q \<Longrightarrow> view q = tl (view p) \<Longrightarrow> tok_typ t = look (view p) \<Longrightarrow> Q t q"
  shows "wp True p_next Q p"
  using assms(1) by (intro wp_next assms(2)) (auto simp: good_def adj_tl)

text \<open>\<open>then_peek\<close> and \<open>then_next\<close>: the same as the first step of a computation.\<close>

lemma then_peek:
  assumes "good p" and "\<And>t q. good q \<Longrightarrow> view q = view p \<Longrightarrow> tok_typ t = look (view p) \<Longrightarrow> wp True (f t) Q q"
  shows "wp True (p_bind p_peek f) Q p"
  using assms by (intro wp_bind good_peek)

lemma then_next:
  assumes "good p" and "\<And>t q. good q \<Longrightarrow> view q = tl (view p) \<Longrightarrow> tok_typ t = look (view p) \<Longrightarrow> wp True (f t) Q q"
  shows "wp True (p_bind p_next f) Q p"
  using assms by (intro wp_bind good_next)

text \<open>What the parsing functions establish: the tokens are used up to the end of an expression, all or at least one.\<close>

definition parsed :: "nat \<Rightarrow> parser \<Rightarrow> bool" where
  "parsed n q \<longleftrightarrow> good q \<and> settled (view q) \<and> length (view q) \<le> n"

lemma stripNot_ok:
  "good p \<Longrightarrow> ready (view p) \<Longrightarrow> length (view p) < n \<Longrightarrow>
   wp True (stripNot n b) (\<lambda>_ q. good q \<and> ready (view q) \<and> look (view q) \<noteq> tokenNot \<and> length (view q) \<le> length (view p)) p"
proof (induction n arbitrary: b p)
  case (Suc n)
  show ?case unfolding stripNot.simps
  proof (rule then_peek [OF Suc.prems(1)])
    fix t q assume q: "good q" "view q = view p" "tok_typ t = look (view p)"
    have "wp True (p_bind p_next (\<lambda>_. stripNot n (\<not> b))) (\<lambda>_ q. good q \<and> ready (view q) \<and> look (view q) \<noteq> tokenNot \<and> length (view q) \<le> length (view p)) q"
      if "tok_typ t = tokenNot"
    proof (rule then_next [OF q(1)])
      fix u q' assume q': "good q'" "view q' = tl (view q)" "tok_typ u = look (view q)"
      have "ready (view q')" "length (view q') < length (view p)"
        using q q' that look_ready_tl [of "view p"] look_tl [of "view p"] by (auto simp: good_def)
      then show "wp True (stripNot n (\<not> b)) (\<lambda>_ q. good q \<and> ready (view q) \<and> look (view q) \<noteq> tokenNot \<and> length (view q) \<le> length (view p)) q'"
        using Suc.IH [OF q'(1), of "\<not> b"] Suc.prems(3) by (auto elim: wp_mono)
    qed
    then show "wp True (if tok_typ t = tokenNot then p_bind p_next (\<lambda>_. stripNot n (\<not> b)) else p_ret b)
        (\<lambda>_ q. good q \<and> ready (view q) \<and> look (view q) \<noteq> tokenNot \<and> length (view q) \<le> length (view p)) q"
      using q Suc.prems by simp
  qed
qed simp

lemma atom_args_ok:
  "good p \<Longrightarrow> length (view p) < n \<Longrightarrow> wp True (atom_args n a) (\<lambda>_ q. parsed (length (view p)) q) p \<and>
   (look (view p) = tokenArg \<longrightarrow> wp True (atom_args n a) (\<lambda>_ q. parsed (length (view p) - 1) q) p)"
proof (induction n arbitrary: a p)
  case (Suc n)
  have w: "wp True (p_bind p_next f) (\<lambda>_ q. parsed (length (view p) - 1) q) q"
    if q: "good q" "view q = view p" "look (view p) \<noteq> tokenEOF" and f: "\<And>t. f t = p_fail (e t) \<or> f t \<in> range (atom_args n)" for q e f
  proof (rule then_next [OF q(1)])
    fix t q' assume q': "good q'" "view q' = tl (view q)"
    have l: "length (view q') = length (view p) - 1" "length (view q') < n"
      using q q' look_tl [of "view p"] Suc.prems(2) by auto
    show "wp True (f t) (\<lambda>_ q. parsed (length (view p) - 1) q) q'"
      using f [of t] Suc.IH [OF q'(1) l(2)] l(1) by (auto simp: l(1))
  qed
  define R where "R = (\<lambda>(_ :: atom) q. parsed (if look (view p) = tokenArg then length (view p) - 1 else length (view p)) q)"
  have up: "wp True m R q" if "wp True m (\<lambda>_ q. parsed (length (view p) - 1) q) q" for m q
    using that by (rule wp_mono) (auto simp: R_def parsed_def)
  have "wp True (atom_args (Suc n) a) R p"
    unfolding atom_args.simps
  proof (rule then_peek [OF Suc.prems(1)])
    fix t q assume q: "good q" "view q = view p" "tok_typ t = look (view p)"
    have "R a q" if "look (view p) \<notin> {tokenColon, tokenArg, tokenQuotedArg}"
      using that q by (auto simp: R_def parsed_def settled_def)
    then show "wp True (if tok_typ t = tokenColon then p_bind p_next (\<lambda>_. atom_args n a)
       else if tok_typ t = tokenArg then p_bind p_next (\<lambda>i. atom_args n (a\<lparr>args := args a @ [tok_val i]\<rparr>))
       else if tok_typ t = tokenQuotedArg then
         p_bind p_next (\<lambda>i. case Unquote (tok_val i) of
            None \<Rightarrow> p_fail UnquoteSyntax
          | Some uq \<Rightarrow> atom_args n (a\<lparr>args := args a @ [uq]\<rparr>))
       else p_ret a) R q"
      using q by (auto intro!: up w [where e="\<lambda>_. UnquoteSyntax"] split: option.split)
  qed
  then have "wp True (atom_args (Suc n) a) (\<lambda>_ q. parsed (length (view p)) q) p"
    "look (view p) = tokenArg \<Longrightarrow> wp True (atom_args (Suc n) a) (\<lambda>_ q. parsed (length (view p) - 1) q) p"
    by (auto elim!: wp_mono simp: R_def parsed_def split: if_splits)
  then show ?case by blast
qed simp

text \<open>
  A property of constraints that the connectives preserve, and keywords whose constraints have it: every constraint the parser
  builds has it.
\<close>

locale connectives =
  fixes V :: "'k Constraint \<Rightarrow> bool"
  assumes V_and: "V a \<Longrightarrow> V b \<Longrightarrow> V (andConst (Some a) (Some b))"
    and V_or: "V a \<Longrightarrow> V b \<Longrightarrow> V (orConst (Some a) (Some b))"
    and V_not: "V a \<Longrightarrow> V (notConst (Some a))"
begin

definition kws_ok :: "'k keyword list \<Rightarrow> bool" where
  "kws_ok keywords \<longleftrightarrow> (\<forall>k \<in> set keywords. \<forall>as c. Predicate k as = Inr c \<longrightarrow> V c)"

definition Vo :: "'k Constraint option \<Rightarrow> bool" where
  "Vo c \<longleftrightarrow> (\<exists>d. c = Some d \<and> V d)"

lemma Vo_connectives:
  "Vo c \<Longrightarrow> Vo d \<Longrightarrow> Vo (Some (andConst c d))" "Vo c \<Longrightarrow> Vo d \<Longrightarrow> Vo (Some (orConst c d))" "Vo c \<Longrightarrow> Vo (Some (notConst c))"
  by (auto simp: Vo_def V_and V_or V_not)

lemma try_keywords_ok: "kws_ok ks \<Longrightarrow> wp True (try_keywords ks a fault) (\<lambda>c q. V c \<and> q = p) p"
  by (induction ks) (auto simp: kws_ok_def split: prod.split option.split bool.split sum.split)

lemma parseAtom_ok:
  assumes "kws_ok keywords" and "good p" and "length (view p) < n"
    and "look (view p) \<in> {tokenLiteral, tokenQuotedLiteral, tokenPredicate, tokenColon, tokenArg}"
  shows "wp True (parseAtom n keywords) (\<lambda>c q. parsed (length (view p) - 1) q \<and> Vo c) p"
proof -
  let ?U = "\<lambda>_ q. parsed (length (view p) - 1) q"
  have pred: "wp True (p_bind p_next (\<lambda>i. atom_args n \<lparr>predicate = tok_val i, args = []\<rparr>)) ?U q"
    if q: "good q" "view q = view p" and k: "look (view p) = tokenPredicate" for q
  proof (rule then_next [OF q(1)])
    fix t q' assume q': "good q'" "view q' = tl (view q)" "tok_typ t = look (view q)"
    have "length (view q') = length (view p) - 1" "length (view q') < n" using q q' assms(3) by auto
    then show "wp True (atom_args n \<lparr>predicate = tok_val t, args = []\<rparr>) ?U q'" using atom_args_ok [OF q'(1)] by auto
  qed
  have words: "wp True (atomWords n) ?U p"
    unfolding atomWords_def
  proof (rule then_peek [OF assms(2)], goal_cases)
    case (1 i q)
    note q = this
    have "wp True (atom_args n \<lparr>predicate = [], args = []\<rparr>) ?U q" if "look (view p) = tokenArg"
      using atom_args_ok [OF q(1)] q(2) that assms(3) by auto
    moreover have "wp True (p_bind m (\<lambda>a. p_ret (a, tok_start i))) ?U q" if "wp True m ?U q" for m :: "atom pm"
      using that by (rule then_do) simp
    ultimately show ?case using assms(4) q pred [OF q(1,2)] by auto
  qed
  show ?thesis unfolding parseAtom_def
  proof (intro wp_bind wp_mono [OF words], clarify)
    fix a :: atom and start q assume u: "parsed (length (view p) - 1) q"
    show "wp True (p_bind (try_keywords keywords a \<lparr>tok_typ = tokenError, tok_val = atom_String a, tok_start = start\<rparr>) (\<lambda>c. p_ret (Some c)))
       (\<lambda>c q. parsed (length (view p) - 1) q \<and> Vo c) q"
      by (intro wp_bind wp_mono [OF try_keywords_ok [OF assms(1)]]) (use u in \<open>auto simp: Vo_def\<close>)
  qed
qed

text \<open>What the recursive call is relied on for, on fewer than \<open>k\<close> tokens.\<close>

definition pe_ok :: "nat \<Rightarrow> 'k Constraint option pm \<Rightarrow> bool" where
  "pe_ok k pe \<longleftrightarrow> (\<forall>p. good p \<and> ready (view p) \<and> length (view p) < k \<longrightarrow>
     wp True pe (\<lambda>c q. parsed (length (view p)) q \<and> (Vo c \<or> c = None \<and> view q = [])) p)"

lemma pe_ok_less: "pe_ok k pe \<Longrightarrow> j \<le> k \<Longrightarrow> pe_ok j pe"
  by (auto simp: pe_ok_def)

lemma parseGroup_ok:
  assumes "pe_ok (length (view p)) pe" and "good p" and "look (view p) = tokenOpen"
  shows "wp True (parseGroup pe) (\<lambda>c q. parsed (length (view p) - 1) q \<and> Vo c) p"
  unfolding parseGroup_def
proof (rule then_next [OF assms(2)], goal_cases)
  case (1 i q)
  have r: "ready (view q)" "length (view q) < length (view p)"
    using look_ready_tl [of "view p"] look_tl [of "view p"] 1 assms by (auto simp: good_def)
  have pe: "wp True pe (\<lambda>c q'. parsed (length (view q)) q' \<and> (Vo c \<or> c = None \<and> view q' = [])) q"
    using assms(1) 1(1) r by (simp add: pe_ok_def)
  have "wp True (p_bind p_peek (\<lambda>t. if tok_typ t = tokenClose then p_bind p_next (\<lambda>_. p_ret c) else p_fail (e t)))
       (\<lambda>c q. parsed (length (view p) - 1) q \<and> Vo c) q1"
    if q1: "parsed (length (view q)) q1 \<and> (Vo c \<or> c = None \<and> view q1 = [])" for c q1 e
  proof (rule then_peek, goal_cases)
    case (2 t q2)
    have "wp True (p_bind p_next (\<lambda>_. p_ret c)) (\<lambda>c q. parsed (length (view p) - 1) q \<and> Vo c) q2" if t: "tok_typ t = tokenClose"
    proof (rule then_next [OF 2(1)], goal_cases)
      case (1 u q3)
      have "settled (view q3)" using look_settled_tl [of "view q2"] 2 1 t by (auto simp: good_def)
      then show ?case using \<open>view q = tl (view p)\<close> q1 2 1 t by (auto simp: parsed_def look_def)
    qed
    then show ?case by simp
  qed (use q1 in \<open>simp add: parsed_def\<close>)
  then have "wp True (p_bind pe (\<lambda>c. p_bind p_peek (\<lambda>t. if tok_typ t = tokenClose then p_bind p_next (\<lambda>_. p_ret c) else p_fail (e t))))
     (\<lambda>c q. parsed (length (view p) - 1) q \<and> Vo c) q" for e by (rule then_do [OF pe])
  then show ?case using 1(3) assms(3) by simp
qed

lemma parseOperand_ok:
  assumes "kws_ok ks" and "pe_ok (length (view p)) pe" and "good p" and "ready (view p)" and "length (view p) < n"
  shows "wp True (parseOperand n ks pe) (\<lambda>c q. parsed (length (view p) - 1) q \<and> Vo c) p"
  unfolding parseOperand_def
proof (rule then_do [OF stripNot_ok [OF assms(3-5)]], rule then_peek, goal_cases)
  case (2 negated q i q')
  let ?len = "length (view q')"
  let ?Q = "\<lambda>c q. parsed (?len - 1) q \<and> Vo c"
  have le: "?len \<le> length (view p)" and rdy: "ready (view q')" and look: "tok_typ i = look (view q')" and good: "good q'"
    using 2 by auto
  have "wp True (parseAtom n ks) ?Q q'" if "look (view q') \<in> {tokenLiteral, tokenQuotedLiteral, tokenPredicate, tokenColon, tokenArg}"
    using parseAtom_ok [OF assms(1) good _ that] le assms(5) by simp
  moreover have "wp True (parseGroup pe) ?Q q'" if "look (view q') = tokenOpen"
    using parseGroup_ok [OF pe_ok_less [OF assms(2) le] good that] .
  moreover have "wp True (p_bind m (\<lambda>c. p_ret (if negated then Some (notConst c) else c))) (\<lambda>c q. parsed (length (view p) - 1) q \<and> Vo c) q'"
    if "wp True m ?Q q'" for m
    using that by (rule then_do) (use le in \<open>auto simp: parsed_def Vo_connectives\<close>)
  ultimately show ?case using look rdy 2 by (cases "look (view q')") (auto simp: ready_def)
qed simp

lemma parseAndRHS_ok:
  assumes "kws_ok ks"
  shows "pe_ok (length (view p)) pe \<Longrightarrow> good p \<Longrightarrow> ready (view p) \<Longrightarrow> Suc (length (view p)) < n \<Longrightarrow> Vo c \<Longrightarrow>
    wp True (parseAndRHS n ks pe c) (\<lambda>c q. parsed (length (view p) - 1) q \<and> Vo c) p"
proof (induction n arbitrary: p c)
  case (Suc n)
  let ?Q = "\<lambda>c q. parsed (length (view p) - 1) q \<and> Vo c"
  have opd: "wp True (parseOperand n ks pe) ?Q p" using parseOperand_ok [OF assms] Suc.prems by simp
  show ?case unfolding parseAndRHS.simps
  proof (rule then_do [OF opd], rule then_peek, goal_cases)
    case (2 rhs q t q')
    have "wp True (p_bind p_next (\<lambda>_. parseAndRHS n ks pe (Some (andConst c rhs)))) ?Q q'" if t: "tok_typ t = tokenAnd"
    proof (rule then_next [OF 2(2)], goal_cases)
      case (1 u q2)
      have r: "ready (view q2)" "length (view q2) < length (view p)"
        using look_ready_tl [of "view q"] look_tl [of "view q"] 1 2 t by (auto simp: good_def parsed_def)
      have "wp True (parseAndRHS n ks pe (Some (andConst c rhs))) (\<lambda>c q. parsed (length (view q2) - 1) q \<and> Vo c) q2"
        using r 1 2 Suc.prems by (intro Suc.IH) (auto simp: Vo_connectives intro: pe_ok_less)
      then show ?case by (rule wp_mono) (use r in \<open>auto simp: parsed_def\<close>)
    qed
    then show ?case using 2 Suc.prems by (auto simp: parsed_def Vo_connectives)
  qed (simp add: parsed_def)
qed simp

lemma parseAnd_ok:
  assumes "kws_ok ks" and "pe_ok (length (view p)) pe" and "good p" and "ready (view p)" and "length (view p) < n"
  shows "wp True (parseAnd n ks pe) (\<lambda>c q. parsed (length (view p) - 1) q \<and> Vo c) p"
  unfolding parseAnd_def
proof (rule then_do [OF parseOperand_ok [OF assms]], rule then_peek, goal_cases)
  case (2 c q t q')
  let ?Q = "\<lambda>c q. parsed (length (view p) - 1) q \<and> Vo c"
  have rhs: "wp True (parseAndRHS n ks pe c) ?Q q2" if q2: "good q2" "ready (view q2)" "length (view q2) \<le> length (view q)" "view q \<noteq> []" for q2
  proof -
    have "Suc (length (view q2)) < n" using q2(3,4) 2 assms(5) by (cases "view q") (auto simp: parsed_def)
    then have "wp True (parseAndRHS n ks pe c) (\<lambda>c q. parsed (length (view q2) - 1) q \<and> Vo c) q2"
      using q2 2 assms by (intro parseAndRHS_ok) (auto simp: parsed_def intro: pe_ok_less)
    then show ?thesis by (rule wp_mono) (use q2 2 in \<open>auto simp: parsed_def\<close>)
  qed
  have "wp True (p_bind p_next (\<lambda>_. parseAndRHS n ks pe c)) ?Q q'" if t: "tok_typ t = tokenAnd"
  proof (rule then_next [OF 2(2)], goal_cases)
    case (1 u q2)
    have "ready (view q2)" "length (view q2) < length (view q)"
      using look_ready_tl [of "view q"] look_tl [of "view q"] 1 2 t by (auto simp: good_def)
    then show ?case using 1 by (intro rhs) auto
  qed
  moreover have "wp True (parseAndRHS n ks pe c) ?Q q'" if "tok_typ t \<notin> {tokenAnd, tokenOr, tokenClose, tokenEOF}"
    using that 2 by (intro rhs) (auto simp: parsed_def ready_def settled_def look_def)
  ultimately show ?case using 2 by (auto simp: parsed_def)
qed (simp add: parsed_def)

lemma parseOrRHS_ok:
  assumes "kws_ok ks"
  shows "pe_ok (length (view p)) pe \<Longrightarrow> good p \<Longrightarrow> ready (view p) \<Longrightarrow> Suc (length (view p)) < n \<Longrightarrow> Vo c \<Longrightarrow>
    wp True (parseOrRHS n ks pe c) (\<lambda>c q. parsed (length (view p) - 1) q \<and> Vo c) p"
proof (induction n arbitrary: p c)
  case (Suc n)
  let ?Q = "\<lambda>c q. parsed (length (view p) - 1) q \<and> Vo c"
  have opd: "wp True (parseAnd n ks pe) ?Q p" using parseAnd_ok [OF assms] Suc.prems by simp
  show ?case unfolding parseOrRHS.simps
  proof (rule then_do [OF opd], rule then_peek, goal_cases)
    case (2 rhs q t q')
    have rec: "wp True (parseOrRHS n ks pe (Some (orConst c rhs))) ?Q q2"
      if r: "good q2" "ready (view q2)" "length (view q2) < length (view p)" for q2
    proof -
      have "wp True (parseOrRHS n ks pe (Some (orConst c rhs))) (\<lambda>c q. parsed (length (view q2) - 1) q \<and> Vo c) q2"
        using r 2 Suc.prems by (intro Suc.IH) (auto simp: Vo_connectives intro: pe_ok_less)
      then show ?thesis by (rule wp_mono) (use r in \<open>auto simp: parsed_def\<close>)
    qed
    have "wp True (p_bind p_next (\<lambda>_. parseOrRHS n ks pe (Some (orConst c rhs)))) ?Q q'" if t: "tok_typ t = tokenOr"
    proof (rule then_next [OF 2(2)], goal_cases)
      case (1 u q2)
      have "ready (view q2)" "length (view q2) < length (view p)"
        using look_ready_tl [of "view q"] look_tl [of "view q"] 1 2 t by (auto simp: good_def parsed_def)
      then show ?case using 1 by (intro rec)
    qed
    moreover have "wp True (parseOrRHS n ks pe (Some (orConst c rhs))) ?Q q'" if "tok_typ t \<notin> {tokenAnd, tokenOr, tokenClose, tokenEOF}"
      using that 2 Suc.prems by (intro rec) (auto simp: parsed_def ready_def settled_def look_def split: list.splits)
    ultimately show ?case using 2 Suc.prems by (auto simp: parsed_def Vo_connectives)
  qed (simp add: parsed_def)
qed simp

lemma parseExp_loop_ok:
  assumes "kws_ok ks"
  shows "pe_ok (length (view p)) pe \<Longrightarrow> good p \<Longrightarrow> settled (view p) \<Longrightarrow> length (view p) + 2 < n \<Longrightarrow> Vo c \<Longrightarrow>
    wp True (parseExp_loop n ks pe c) (\<lambda>c q. parsed (length (view p)) q \<and> Vo c) p"
proof (induction n arbitrary: p c)
  case (Suc n)
  let ?Q = "\<lambda>c q. parsed (length (view p)) q \<and> Vo c"
  have rhs: "wp True (p_bind (parseAndRHS n ks pe c) (parseExp_loop n ks pe)) ?Q q"
    if q: "good q" "ready (view q)" "length (view q) \<le> length (view p)" "view p \<noteq> []" for q
  proof (rule then_do)
    show "wp True (parseAndRHS n ks pe c) (\<lambda>c q1. parsed (length (view q) - 1) q1 \<and> Vo c) q"
      using q Suc.prems by (intro parseAndRHS_ok [OF assms]) (auto intro: pe_ok_less)
    fix d q1 assume q1: "parsed (length (view q) - 1) q1 \<and> Vo d"
    have "length (view q1) + 2 < n" using q(3,4) q1 Suc.prems(4) by (cases "view q"; cases "view p") (auto simp: parsed_def)
    then have "wp True (parseExp_loop n ks pe d) (\<lambda>c q. parsed (length (view q1)) q \<and> Vo c) q1"
      using q q1 Suc.prems by (intro Suc.IH) (auto simp: parsed_def intro: pe_ok_less)
    then show "wp True (parseExp_loop n ks pe d) ?Q q1" by (rule wp_mono) (use q q1 in \<open>auto simp: parsed_def\<close>)
  qed
  have orr: "wp True (parseOrRHS n ks pe c) ?Q q" if q: "good q" "ready (view q)" "length (view q) < length (view p)" for q
  proof -
    have "wp True (parseOrRHS n ks pe c) (\<lambda>c q1. parsed (length (view q) - 1) q1 \<and> Vo c) q"
      using q Suc.prems by (intro parseOrRHS_ok [OF assms]) (auto intro: pe_ok_less)
    then show ?thesis by (rule wp_mono) (use q in \<open>auto simp: parsed_def\<close>)
  qed
  show ?case unfolding parseExp_loop.simps
  proof (rule then_peek [OF Suc.prems(2)], goal_cases)
    case (1 t q)
    have step: "wp True (p_bind p_next (\<lambda>_. m)) ?Q q"
      if t: "tok_typ t \<in> {tokenAnd, tokenOr}" and m: "\<And>q. good q \<Longrightarrow> ready (view q) \<Longrightarrow> length (view q) < length (view p) \<Longrightarrow> wp True m ?Q q" for m
    proof (rule then_next [OF 1(1)], rule m)
      fix q2 assume "good q2" "view q2 = tl (view q)"
      then show "ready (view q2)" "length (view q2) < length (view p)"
        using look_ready_tl [of "view q"] look_tl [of "view q"] 1 t by (auto simp: good_def)
    qed
    have "ready (view q)" if "tok_typ t \<notin> {tokenAnd, tokenOr}" using that 1 Suc.prems(3) by (auto simp: ready_def settled_def)
    moreover have "tok_typ t = tokenEOF" if "view p = []" using that 1 by (simp add: look_def)
    moreover have "?Q c q" using 1 Suc.prems by (simp add: parsed_def)
    ultimately show ?case using 1 by (auto intro!: step orr rhs)
  qed
qed simp

lemma parseExp_ok:
  assumes "kws_ok ks"
  shows "good p \<Longrightarrow> ready (view p) \<Longrightarrow> length (view p) + 2 < n \<Longrightarrow>
    wp True (parseExp n ks) (\<lambda>c q. parsed (length (view p)) q \<and> (Vo c \<or> c = None \<and> view q = [])) p"
proof (induction n arbitrary: p)
  case (Suc n)
  have pe: "pe_ok (length (view p)) (parseExp n ks)" using Suc.IH Suc.prems(3) by (simp add: pe_ok_def)
  show ?case unfolding parseExp.simps
  proof (rule then_peek [OF Suc.prems(1)], goal_cases)
    case (1 t q)
    have "wp True (p_bind (parseOperand n ks (parseExp n ks)) (parseExp_loop n ks (parseExp n ks)))
      (\<lambda>c q. parsed (length (view p)) q \<and> (Vo c \<or> c = None \<and> view q = [])) q" if "tok_typ t \<noteq> tokenEOF"
    proof (rule then_do)
      show "wp True (parseOperand n ks (parseExp n ks)) (\<lambda>c q1. parsed (length (view q) - 1) q1 \<and> Vo c) q"
        using 1 pe Suc.prems by (intro parseOperand_ok [OF assms]) auto
      fix c q1 assume q1: "parsed (length (view q) - 1) q1 \<and> Vo c"
      have "length (view q1) + 2 < n" using that 1 q1 Suc.prems(3) by (auto simp: parsed_def look_def split: list.splits)
      then have "wp True (parseExp_loop n ks (parseExp n ks) c) (\<lambda>c q. parsed (length (view q1)) q \<and> Vo c) q1"
        using 1 pe q1 Suc.prems by (intro parseExp_loop_ok [OF assms]) (auto simp: parsed_def intro: pe_ok_less)
      then show "wp True (parseExp_loop n ks (parseExp n ks) c) (\<lambda>c q. parsed (length (view p)) q \<and> (Vo c \<or> c = None \<and> view q = [])) q1"
        by (rule wp_mono) (use 1 q1 in \<open>auto simp: parsed_def\<close>)
    qed
    moreover have "parsed (length (view p)) q" "tok_typ t = tokenEOF \<Longrightarrow> view q = []"
      using 1 Suc.prems view_not_eof [of q] by (auto simp: parsed_def ready_def settled_def look_def good_def split: list.splits)
    ultimately show ?case by simp
  qed
qed simp

lemma parse_query_ok:
  assumes "kws_ok ks" and "V base" and "good p" and "ready (view p)" and "length (view p) + 2 < n"
  shows "wp True (parse_query n ks base) (\<lambda>c q. V c) p"
  unfolding parse_query_def
proof (rule then_do [OF parseExp_ok [OF assms(1,3-5)]], rule then_next, goal_cases)
  case (2 c q t q')
  then show ?case using assms(2) by (auto simp: Vo_def V_and split: option.split)
qed (simp add: parsed_def)

end

section \<open>The tokens of the lexer\<close>

text \<open>The types of the first token sent from a state, and of the token that can follow one of a type.\<close>

fun firsts :: "stateFn \<Rightarrow> tokenType set" where
  "firsts ReadNeg = {tokenNot}"
| "firsts ReadClose = {tokenClose}"
| "firsts ReadOpen = {tokenOpen}"
| "firsts ReadColon = {tokenColon}"
| "firsts ReadPredicate = {tokenPredicate, tokenLiteral}"
| "firsts ReadLiteral = {tokenLiteral}"
| "firsts ReadArg = {tokenArg, tokenQuotedArg, tokenError}"
| "firsts ReadAND = {tokenAnd, tokenPredicate, tokenLiteral}"
| "firsts ReadOR = {tokenOr, tokenPredicate, tokenLiteral}"
| "firsts ReadQuotedLiteral = {tokenQuotedLiteral, tokenError}"
| "firsts ReadQuotedArg = {tokenQuotedArg, tokenError}"
| "firsts ReadExp = {tokenOpen, tokenClose, tokenNot, tokenQuotedLiteral, tokenPredicate, tokenLiteral, tokenError}"
| "firsts ReadOperator =
     {tokenAnd, tokenOr, tokenOpen, tokenClose, tokenNot, tokenQuotedLiteral, tokenPredicate, tokenLiteral, tokenError}"

fun follow :: "tokenType \<Rightarrow> tokenType set" where
  "follow tokenPredicate = firsts ReadColon"
| "follow tokenColon = firsts ReadArg"
| "follow tokenArg = firsts ReadColon \<union> firsts ReadOperator"
| "follow tokenQuotedArg = firsts ReadColon \<union> firsts ReadOperator"
| "follow tokenClose = firsts ReadOperator"
| "follow tokenLiteral = firsts ReadOperator"
| "follow tokenQuotedLiteral = firsts ReadOperator"
| "follow tokenError = {}"
| "follow _ = firsts ReadExp"

fun shaped :: "tokenType set \<Rightarrow> token list \<Rightarrow> bool" where
  "shaped A [] \<longleftrightarrow> True"
| "shaped A (t # ts) \<longleftrightarrow> tok_typ t \<in> A \<and> shaped (follow (tok_typ t)) ts"

lemma shaped_mono: "shaped A ts \<Longrightarrow> A \<subseteq> B \<Longrightarrow> shaped B ts"
  by (cases ts) auto

lemma emit_to_shape: "emit_to typ st l = (t, l', st') \<Longrightarrow> \<exists>tok. t = Some tok \<and> tok_typ tok = typ \<and> st' = Some st"
  by (auto simp: emit_to_def lx_emit_def)

lemma lx_step_shape:
  assumes "lx_step letter st l = (t, l', st')"
  shows "case t of
      None \<Rightarrow> (case st' of None \<Rightarrow> True | Some s \<Rightarrow> firsts s \<subseteq> firsts st)
    | Some tok \<Rightarrow> tok_typ tok \<in> firsts st \<and> (case st' of None \<Rightarrow> True | Some s \<Rightarrow> firsts s \<subseteq> follow (tok_typ tok))"
  using assms
  by (cases st)
    (auto simp: readNeg_def readClose_def readOpen_def readColon_def readPredicate_def readLiteral_def readArg_def readAND_def readOR_def
      read_op_def readQuotedLiteral_def readQuotedArg_def readExp_def readOperator_def lx_errorf_def lx_emit_def Let_def
      split: prod.splits if_splits dest!: emit_to_shape)

lemma run_shape: "shaped (firsts st) (fst (lx_run letter fuel (Some st) l))"
proof (induction fuel arbitrary: st l)
  case (Suc fuel)
  obtain t l' st' where step: "lx_step letter st l = (t, l', st')" by (cases "lx_step letter st l")
  obtain ts where ts: "ts = fst (lx_run letter fuel st' l')" by simp
  have "shaped A ts" if "case st' of None \<Rightarrow> True | Some s \<Rightarrow> firsts s \<subseteq> A" for A
    using that Suc [of _ l'] ts by (cases st') (auto intro: shaped_mono)
  then show ?case using lx_step_shape [OF step] step ts by (auto simp: split: option.splits prod.splits)
qed simp

lemma run_length: "length (fst (lx_run letter fuel st l)) \<le> fuel"
proof (induction letter fuel st l rule: lx_run.induct)
  case (3 letter fuel st l)
  then show ?case by (auto split: prod.splits option.splits) fastforce
qed simp_all

lemma shaped_adj: "shaped A ts \<Longrightarrow> adj ts"
proof (induction A ts rule: shaped.induct)
  case (2 A t ts)
  show ?case
  proof (cases ts)
    case (Cons u us)
    then show ?thesis using 2 by (cases "tok_typ t") auto
  qed simp
qed simp

lemma shaped_no_eof: "shaped A ts \<Longrightarrow> tokenEOF \<notin> A \<Longrightarrow> \<forall>t \<in> set ts. tok_typ t \<noteq> tokenEOF"
proof (induction A ts rule: shaped.induct)
  case (2 A t ts)
  moreover have "tokenEOF \<notin> follow (tok_typ t)" by (cases "tok_typ t") auto
  ultimately show ?case by auto
qed simp

section \<open>Search expressions return valid constraints\<close>

lemma checkValid_connectives:
  "c_checkValid claim ck a = None \<Longrightarrow> c_checkValid claim ck b = None \<Longrightarrow> c_checkValid claim ck (andConst (Some a) (Some b)) = None"
  "c_checkValid claim ck a = None \<Longrightarrow> c_checkValid claim ck b = None \<Longrightarrow> c_checkValid claim ck (orConst (Some a) (Some b)) = None"
  "c_checkValid claim ck a = None \<Longrightarrow> c_checkValid claim ck (notConst (Some a)) = None"
  by (simp_all add: andConst_def orConst_def notConst_def)

interpretation vc: connectives "\<lambda>c. c_checkValid claim ck c = None" for claim ck
  by unfold_locales (simp_all add: checkValid_connectives)

lemma newParser_good:
  assumes "lex letter fuel exp = (ts, True)"
  shows "good (newParser letter fuel exp)" and "ready (view (newParser letter fuel exp))" and "view (newParser letter fuel exp) = ts"
proof -
  have s: "shaped (firsts ReadExp) ts"
    using assms run_shape [of ReadExp letter fuel] by (metis fst_conv lex_def)
  show v: "view (newParser letter fuel exp) = ts" using assms by (simp add: newParser_def view_def)
  show "good (newParser letter fuel exp)"
    using shaped_adj [OF s] shaped_no_eof [OF s] v assms by (simp add: good_def pinv_def newParser_def)
  show "ready (view (newParser letter fuel exp))" using s v by (cases ts) (auto simp: ready_def look_def)
qed

text \<open>The loops need a turn more than there are tokens; the lexer sends at most one token in each of its steps.\<close>

lemma parseExpression_returns:
  assumes "plain_spaces (bytes_of_string (TrimSpace exp))" and "vc.kws_ok claim ck ks" and "\<not> claim k" and "ck k = None"
  shows "\<exists>r. r \<noteq> PHang \<and> (\<forall>c. r = POk c \<longrightarrow> c_checkValid claim ck c = None) \<and>
    (\<forall>fuel \<ge> 8 * length (TrimSpace exp) + 8. parseExpression letter fuel ks k exp = r)"
proof (cases "TrimSpace exp = []")
  case True
  then show ?thesis using assms(3,4) by (intro exI [of _ "POk (Constraint None None None [k])"]) (simp add: parseExpression_def)
next
  case False
  let ?s = "TrimSpace exp" and ?b = "Constraint None None None [k]"
  let ?n = "8 * length ?s + 5"
  obtain ts where ts: "lex letter fuel ?s = (ts, True)" if "?n \<le> fuel" for fuel
    using lex_closes [OF assms(1)] by blast
  have "length ts \<le> ?n" using run_length [of letter ?n] ts [of ?n] by (metis fst_conv lex_def order_refl)
  define np where "np = newParser letter ?n ?s"
  have np: "newParser letter fuel ?s = np" if "?n \<le> fuel" for fuel
    using ts [OF that] ts [of ?n] by (simp add: np_def newParser_def)
  have g: "good np" "ready (view np)" "view np = ts" using newParser_good [OF ts [of ?n]] by (simp_all add: np_def)
  define r where "r = fst (parse_query (?n + 3) ks ?b np)"
  have w: "wp True (parse_query (?n + 3) ks ?b) (\<lambda>c q. c_checkValid claim ck c = None) np"
    using assms(2-4) g \<open>length ts \<le> ?n\<close> by (intro vc.parse_query_ok) auto
  have "parseExpression letter fuel ks k exp = r" if f: "?n + 3 \<le> fuel" for fuel
  proof -
    have "extends (parse_query (?n + 3) ks ?b) (parse_query fuel ks ?b)" using f by (rule parse_query_extends)
    then have "parse_query fuel ks ?b np = parse_query (?n + 3) ks ?b np"
      using w by (auto simp: extends_def wp_def split: prod.splits pres.splits)
    then show ?thesis using False f np [of fuel] by (simp add: parseExpression_def r_def Let_def)
  qed
  then show ?thesis using w by (intro exI [of _ r]) (auto simp: wp_def r_def split: prod.splits pres.splits)
qed

section \<open>What an expression means\<close>

text \<open>Expressions with their grouping: a group is an alternative of conjunctions, both written with the operators.\<close>

datatype expr = EAtom string "string list" | ENot expr | EGroup "expr list list"

type_synonym ptok = "tokenType \<times> string"

fun join :: "'a list \<Rightarrow> 'a list list \<Rightarrow> 'a list" where
  "join s [] = []"
| "join s [x] = x"
| "join s (x # y # xs) = x @ s @ join s (y # xs)"

definition and_tok :: ptok where "and_tok = (tokenAnd, ''and'')"
definition or_tok :: ptok where "or_tok = (tokenOr, ''or'')"

fun print :: "expr \<Rightarrow> ptok list" where
  "print (EAtom p as) = (tokenPredicate, p) # concat (map (\<lambda>a. [(tokenColon, '':''), (tokenArg, a)]) as)"
| "print (ENot e) = (tokenNot, ''-'') # print e"
| "print (EGroup gs) = (tokenOpen, ''('') # join [or_tok] (map (\<lambda>g. join [and_tok] (map print g)) gs) @ [(tokenClose, '')'')]"

definition print_and :: "expr list \<Rightarrow> ptok list" where
  "print_and g = join [and_tok] (map print g)"

definition print_or :: "expr list list \<Rightarrow> ptok list" where
  "print_or gs = join [or_tok] (map print_and gs)"

fun sem :: "(string \<Rightarrow> string list \<Rightarrow> bool) \<Rightarrow> expr \<Rightarrow> bool" where
  "sem val (EAtom p as) = val p as"
| "sem val (ENot e) = (\<not> sem val e)"
| "sem val (EGroup gs) = (\<exists>g \<in> set gs. \<forall>e \<in> set g. sem val e)"

definition sem_and :: "(string \<Rightarrow> string list \<Rightarrow> bool) \<Rightarrow> expr list \<Rightarrow> bool" where
  "sem_and val g \<longleftrightarrow> (\<forall>e \<in> set g. sem val e)"

definition sem_or :: "(string \<Rightarrow> string list \<Rightarrow> bool) \<Rightarrow> expr list list \<Rightarrow> bool" where
  "sem_or val gs \<longleftrightarrow> (\<exists>g \<in> set gs. sem_and val g)"

text \<open>The constraint can be turned into a matcher that answers \<open>b\<close> for the blob at hand.\<close>

definition denotes :: "('k \<Rightarrow> mres) \<Rightarrow> 'k Constraint \<Rightarrow> bool \<Rightarrow> bool" where
  "denotes fm c b \<longleftrightarrow> gen_ok c \<and> run_matcher fm c = Some (Inr b)"

lemma denotes_connectives:
  "denotes fm c x \<Longrightarrow> denotes fm d y \<Longrightarrow> denotes fm (andConst (Some c) (Some d)) (x \<and> y)"
  "denotes fm c x \<Longrightarrow> denotes fm d y \<Longrightarrow> denotes fm (orConst (Some c) (Some d)) (x \<or> y)"
  "denotes fm c x \<Longrightarrow> denotes fm (notConst (Some c)) (\<not> x)"
  by (auto simp: denotes_def andConst_def orConst_def notConst_def lc_match_def)

text \<open>The keywords understand the atoms of an expression, and no group is empty.\<close>

definition atom_means :: "'k keyword list \<Rightarrow> ('k \<Rightarrow> mres) \<Rightarrow> string \<Rightarrow> string list \<Rightarrow> bool \<Rightarrow> bool" where
  "atom_means ks fm p as b \<longleftrightarrow>
     (\<forall>fault q. \<exists>c. try_keywords ks \<lparr>predicate = p, args = as\<rparr> fault q = (POk c, q) \<and> denotes fm c b)"

fun understood :: "'k keyword list \<Rightarrow> ('k \<Rightarrow> mres) \<Rightarrow> (string \<Rightarrow> string list \<Rightarrow> bool) \<Rightarrow> expr \<Rightarrow> bool" where
  "understood ks fm val (EAtom p as) = atom_means ks fm p as (val p as)"
| "understood ks fm val (ENot e) = understood ks fm val e"
| "understood ks fm val (EGroup gs) \<longleftrightarrow> gs \<noteq> [] \<and> (\<forall>g \<in> set gs. g \<noteq> [] \<and> (\<forall>e \<in> set g. understood ks fm val e))"

subsection \<open>Reading printed tokens\<close>

definition S :: "parser \<Rightarrow> ptok list" where
  "S p = map (\<lambda>t. (tok_typ t, tok_val t)) (view p)"

definition fst_typ :: "ptok list \<Rightarrow> tokenType" where
  "fst_typ r = (case r of [] \<Rightarrow> tokenEOF | x # _ \<Rightarrow> fst x)"

lemma look_S: "look (view p) = fst_typ (S p)"
  by (cases "view p") (auto simp: look_def fst_typ_def S_def)

lemma s_peek:
  assumes "pinv p" and "\<And>t q. pinv q \<Longrightarrow> S q = S p \<Longrightarrow> tok_typ t = fst_typ (S p) \<Longrightarrow> wp False (f t) Q q"
  shows "wp False (p_bind p_peek f) Q p"
  using assms by (intro wp_bind wp_peek) (auto simp: S_def look_S [unfolded S_def])

lemma s_next:
  assumes "pinv p" and "S p = x # r" and "\<And>t q. pinv q \<Longrightarrow> S q = r \<Longrightarrow> tok_typ t = fst x \<Longrightarrow> tok_val t = snd x \<Longrightarrow> wp False (f t) Q q"
  shows "wp False (p_bind p_next f) Q p"
proof (intro wp_bind wp_next [OF assms(1)])
  fix t q assume q: "pinv q" "view q = tl (view p)" "\<And>u us. view p = u # us \<Longrightarrow> t = u"
  obtain u us where u: "view p = u # us" "x = (tok_typ u, tok_val u)" "S q = r"
    using assms(2) q(2) by (cases "view p") (auto simp: S_def)
  show "wp False (f t) Q q" using q(3) [OF u(1)] u by (intro assms(3) q(1)) auto
qed

lemma fst_typ_simps [simp]: "fst_typ [] = tokenEOF" "fst_typ (x # r) = fst x"
  by (simp_all add: fst_typ_def)

text \<open>A parse of one construct: the tokens after it are left, and the constraint means the construct.\<close>

definition reads :: "('k \<Rightarrow> mres) \<Rightarrow> bool \<Rightarrow> ptok list \<Rightarrow> 'k Constraint option \<Rightarrow> parser \<Rightarrow> bool" where
  "reads fm b r c q \<longleftrightarrow> pinv q \<and> S q = r \<and> (\<exists>d. c = Some d \<and> denotes fm d b)"

lemma reads_connectives:
  "reads fm x r c q \<Longrightarrow> denotes fm d y \<Longrightarrow> reads fm (y \<and> x) r (Some (andConst (Some d) c)) q"
  "reads fm x r c q \<Longrightarrow> denotes fm d y \<Longrightarrow> reads fm (y \<or> x) r (Some (orConst (Some d) c)) q"
  "reads fm x r c q \<Longrightarrow> reads fm (\<not> x) r (Some (notConst c)) q"
  by (auto simp: reads_def denotes_connectives)

lemma atom_args_reads:
  "pinv p \<Longrightarrow> S p = concat (map (\<lambda>a. [(tokenColon, '':''), (tokenArg, a)]) as) @ r \<Longrightarrow>
   fst_typ r \<notin> {tokenColon, tokenArg, tokenQuotedArg} \<Longrightarrow> 2 * length as < n \<Longrightarrow>
   wp False (atom_args n a) (\<lambda>b q. pinv q \<and> S q = r \<and> b = a\<lparr>args := args a @ as\<rparr>) p"
proof (induction as arbitrary: n a p)
  case Nil
  then obtain m where "n = Suc m" by (cases n) auto
  then show ?case using Nil by (auto intro!: s_peek)
next
  case (Cons x as)
  then obtain m where n: "n = Suc (Suc m)" by (cases n rule: nat.exhaust) (auto, metis Suc_lessE)
  have rest: "wp False (atom_args m (a\<lparr>args := args a @ [x]\<rparr>)) (\<lambda>b q. pinv q \<and> S q = r \<and> b = a\<lparr>args := args a @ x # as\<rparr>) q"
    if "pinv q" "S q = concat (map (\<lambda>a. [(tokenColon, '':''), (tokenArg, a)]) as) @ r" for q
    using Cons.IH [OF that Cons.prems(3), of m "a\<lparr>args := args a @ [x]\<rparr>"] Cons.prems(4) n by simp
  have arg: "wp False (atom_args (Suc m) a) (\<lambda>b q. pinv q \<and> S q = r \<and> b = a\<lparr>args := args a @ x # as\<rparr>) q"
    if q: "pinv q" "S q = (tokenArg, x) # concat (map (\<lambda>a. [(tokenColon, '':''), (tokenArg, a)]) as) @ r" for q
    using q rest by (auto intro!: s_peek [OF q(1)] s_next simp: q(2))
  show ?case unfolding n using Cons.prems arg by (auto intro!: s_peek [OF Cons.prems(1)] s_next)
qed

lemma parseAtom_reads:
  assumes "pinv p" and "S p = print (EAtom pr as) @ r" and "fst_typ r \<notin> {tokenColon, tokenArg, tokenQuotedArg}"
    and "length (print (EAtom pr as)) \<le> n" and "atom_means ks fm pr as b"
  shows "wp False (parseAtom n ks) (reads fm b r) p"
proof -
  have len: "length (concat (map (\<lambda>a. [(tokenColon, '':''), (tokenArg, a)]) as)) = 2 * length as" by (induction as) auto
  have args: "wp False (atom_args n \<lparr>predicate = pr, args = []\<rparr>) (\<lambda>b q. pinv q \<and> S q = r \<and> b = \<lparr>predicate = pr, args = as\<rparr>) q"
    if "pinv q" "S q = concat (map (\<lambda>a. [(tokenColon, '':''), (tokenArg, a)]) as) @ r" for q
    using atom_args_reads [OF that assms(3), of n "\<lparr>predicate = pr, args = []\<rparr>"] assms(4) len by simp
  have words: "wp False (atomWords n) (\<lambda>b q. pinv q \<and> S q = r \<and> fst b = \<lparr>predicate = pr, args = as\<rparr>) p"
    unfolding atomWords_def
  proof (rule s_peek [OF assms(1)], goal_cases)
    case (1 t q)
    have "wp False (p_bind p_next (\<lambda>i. atom_args n \<lparr>predicate = tok_val i, args = []\<rparr>))
        (\<lambda>b q. pinv q \<and> S q = r \<and> b = \<lparr>predicate = pr, args = as\<rparr>) q"
      by (rule s_next [OF 1(1)]) (use 1 assms(2) args in auto)
    then have "wp False (p_bind (p_bind p_next (\<lambda>i. atom_args n \<lparr>predicate = tok_val i, args = []\<rparr>)) (\<lambda>a. p_ret (a, tok_start t)))
        (\<lambda>b q. pinv q \<and> S q = r \<and> fst b = \<lparr>predicate = pr, args = as\<rparr>) q" by (rule then_do) simp
    then show ?case using 1 assms(2) by simp
  qed
  have kw: "wp False (p_bind (try_keywords ks \<lparr>predicate = pr, args = as\<rparr> f) (\<lambda>c. p_ret (Some c))) (reads fm b r) q"
    if "pinv q" "S q = r" for q f
  proof -
    obtain c where "try_keywords ks \<lparr>predicate = pr, args = as\<rparr> f q = (POk c, q)" "denotes fm c b"
      using assms(5) by (auto simp: atom_means_def)
    then show ?thesis using that by (simp add: wp_def p_bind_def p_ret_def reads_def)
  qed
  show ?thesis unfolding parseAtom_def by (rule then_do [OF words]) (use kw in auto)
qed

text \<open>The negations before an operand.\<close>

fun negs :: "expr \<Rightarrow> bool \<times> expr" where
  "negs (ENot e) = (\<not> fst (negs e), snd (negs e))"
| "negs e = (False, e)"

lemma negs_props:
  "sem val e = (fst (negs e) \<noteq> sem val (snd (negs e)))" "understood ks fm val (snd (negs e)) = understood ks fm val e"
  "length (print (snd (negs e))) \<le> length (print e)" "snd (negs e) \<noteq> ENot d"
  by (induction e rule: negs.induct) auto

lemma stripNot_reads:
  "pinv p \<Longrightarrow> S p = print e @ r \<Longrightarrow> length (print e) < n \<Longrightarrow>
   wp False (stripNot n b) (\<lambda>b' q. pinv q \<and> S q = print (snd (negs e)) @ r \<and> b' = (b \<noteq> fst (negs e))) p"
proof (induction e arbitrary: n b p)
  case (ENot e)
  then obtain m where n: "n = Suc m" by (cases n) auto
  have "wp False (stripNot m (\<not> b)) (\<lambda>b' q. pinv q \<and> S q = print (snd (negs e)) @ r \<and> b' = (b = fst (negs e))) q"
    if "pinv q" "S q = print e @ r" for q using ENot.IH [OF that, of m "\<not> b"] ENot.prems(3) n by simp
  then show ?case unfolding n using ENot.prems by (auto intro!: s_peek [OF ENot.prems(1)] s_next)
next
  case (EAtom pr as)
  then obtain m where "n = Suc m" by (cases n) auto
  then show ?case using EAtom by (auto intro!: s_peek)
next
  case (EGroup gs)
  then obtain m where "n = Suc m" by (cases n) auto
  then show ?case using EGroup by (auto intro!: s_peek)
qed

text \<open>The recursive call reads a group of fewer than \<open>k\<close> tokens up to its closing parenthesis.\<close>

definition pe_reads :: "'k keyword list \<Rightarrow> ('k \<Rightarrow> mres) \<Rightarrow> (string \<Rightarrow> string list \<Rightarrow> bool) \<Rightarrow> nat \<Rightarrow> 'k Constraint option pm \<Rightarrow> bool" where
  "pe_reads ks fm val k pe \<longleftrightarrow> (\<forall>gs p r. understood ks fm val (EGroup gs) \<and> pinv p \<and> S p = print_or gs @ r \<and> fst_typ r = tokenClose \<and>
     length (print_or gs) < k \<longrightarrow> wp False pe (reads fm (sem_or val gs) r) p)"

lemma print_group: "print (EGroup gs) = (tokenOpen, ''('') # print_or gs @ [(tokenClose, '')'')]"
  by (simp add: print_or_def print_and_def [abs_def])

lemma parseGroup_reads:
  assumes "pinv p" and "S p = print (EGroup gs) @ r" and "pe_reads ks fm val (length (print (EGroup gs))) pe" and "understood ks fm val (EGroup gs)"
  shows "wp False (parseGroup pe) (reads fm (sem val (EGroup gs)) r) p"
  unfolding parseGroup_def
proof (rule s_next [OF assms(1), of "(tokenOpen, ''('')" "print_or gs @ (tokenClose, '')'') # r"], goal_cases)
  case 1
  show ?case using assms(2) print_group by simp
next
  case (2 i q)
  have pe: "wp False pe (reads fm (sem val (EGroup gs)) ((tokenClose, '')'') # r)) q"
    using assms(3,4) 2(1,2) print_group [of gs] unfolding pe_reads_def
    by (auto simp: sem_or_def sem_and_def)
  have "wp False (p_bind pe (\<lambda>c. p_bind p_peek (\<lambda>t. if tok_typ t = tokenClose then p_bind p_next (\<lambda>_. p_ret c) else p_fail (e t))))
    (reads fm (sem val (EGroup gs)) r) q" for e
  proof (rule then_do [OF pe], rule s_peek, goal_cases)
    case (2 c q1 t q2)
    then show ?case by (auto simp: reads_def intro!: s_next)
  qed (simp add: reads_def)
  then show ?case using 2(3) by simp
qed

lemma parseOperand_reads:
  assumes "pinv p" and "S p = print e @ r" and "fst_typ r \<notin> {tokenColon, tokenArg, tokenQuotedArg}" and "length (print e) < n"
    and "pe_reads ks fm val (length (print e)) pe" and "understood ks fm val e"
  shows "wp False (parseOperand n ks pe) (reads fm (sem val e) r) p"
  unfolding parseOperand_def
proof (rule then_do [OF stripNot_reads [OF assms(1,2,4)]], rule s_peek, goal_cases)
  case (2 negated q i q')
  let ?e = "snd (negs e)"
  have q': "pinv q'" "S q' = print ?e @ r" "tok_typ i = fst_typ (print ?e @ r)" using 2 by auto
  note np = negs_props [where e = e]
  have pe: "pe_reads ks fm val (length (print ?e)) pe" using assms(5) np(3) by (auto simp: pe_reads_def)
  have m: "wp False (p_bind m (\<lambda>c. p_ret (if negated then Some (notConst c) else c))) (reads fm (sem val e) r) q'"
    if "wp False m (reads fm (sem val ?e) r) q'" for m
    using that by (rule then_do) (use 2 np(1) in \<open>auto dest: reads_connectives(3)\<close>)
  show ?case
  proof (cases ?e)
    case (EAtom pr as)
    then have "wp False (parseAtom n ks) (reads fm (sem val ?e) r) q'"
      using parseAtom_reads [of q' pr as r n ks fm "val pr as"] q' assms(3,4,6) np(2,3) by auto
    then show ?thesis using m EAtom q'(3) by simp
  next
    case (ENot d)
    then show ?thesis using np(4) by blast
  next
    case (EGroup gs)
    then have "understood ks fm val (EGroup gs)" using np(2) [of ks fm val] assms(6) by metis
    then have "wp False (parseGroup pe) (reads fm (sem val ?e) r) q'"
      using parseGroup_reads [OF q'(1)] q'(2) pe unfolding EGroup by blast
    then show ?thesis using m EGroup q'(3) by simp
  qed
qed simp

text \<open>Conjunctions, alternatives, and the loop of \<open>parseExp\<close>.\<close>

lemma print_and_simps [simp]:
  "print_and [e] = print e" "print_and (e # d # g) = print e @ and_tok # print_and (d # g)"
  by (simp_all add: print_and_def)

lemma print_or_simps [simp]:
  "print_or [g] = print_and g" "print_or (g # h # gs) = print_and g @ or_tok # print_or (h # gs)"
  by (simp_all add: print_or_def)

lemma sem_simps [simp]:
  "sem_and val [] = True" "sem_and val (e # g) = (sem val e \<and> sem_and val g)" "sem_or val [] = False" "sem_or val (g # gs) = (sem_and val g \<or> sem_or val gs)"
  by (auto simp: sem_and_def sem_or_def)

lemma pe_reads_less: "pe_reads ks fm val k pe \<Longrightarrow> j \<le> k \<Longrightarrow> pe_reads ks fm val j pe"
  by (auto simp: pe_reads_def)

lemma tok_typs [simp]: "fst and_tok = tokenAnd" "fst or_tok = tokenOr"
  by (simp_all add: and_tok_def or_tok_def)

lemma parseAndRHS_reads:
  "pinv p \<Longrightarrow> S p = print_and (e # g) @ r \<Longrightarrow> fst_typ r \<in> {tokenOr, tokenClose, tokenEOF} \<Longrightarrow> Suc (length (print_and (e # g))) < n \<Longrightarrow>
   pe_reads ks fm val (length (print_and (e # g))) pe \<Longrightarrow> \<forall>e \<in> set (e # g). understood ks fm val e \<Longrightarrow> denotes fm c b \<Longrightarrow>
   wp False (parseAndRHS n ks pe (Some c)) (reads fm (b \<and> sem_and val (e # g)) r) p"
proof (induction g arbitrary: n p e c b)
  case Nil
  then obtain m where n: "n = Suc m" by (cases n) auto
  have opd: "wp False (parseOperand m ks pe) (reads fm (sem val e) r) p"
    using Nil n by (intro parseOperand_reads) auto
  show ?case unfolding n parseAndRHS.simps
  proof (rule then_do [OF opd], rule s_peek, goal_cases)
    case (2 rhs q t q')
    have "reads fm (sem val e) r rhs q'" using 2 by (simp add: reads_def)
    then show ?case using reads_connectives(1) [OF _ Nil(7)] 2 Nil(3) by (auto simp: reads_def)
  qed (simp add: reads_def)
next
  case (Cons d g)
  then obtain m where n: "n = Suc m" by (cases n) auto
  have opd: "wp False (parseOperand m ks pe) (reads fm (sem val e) (and_tok # print_and (d # g) @ r)) p"
    using Cons.prems n by (intro parseOperand_reads) (auto elim: pe_reads_less)
  have pe2: "pe_reads ks fm val (length (print_and (d # g))) pe" using Cons.prems(5) by (auto elim: pe_reads_less)
  show ?case unfolding n parseAndRHS.simps
  proof (rule then_do [OF opd], rule s_peek, goal_cases)
    case (2 rhs q t q')
    obtain dr where dr: "rhs = Some dr" "denotes fm dr (sem val e)" using 2(1) by (auto simp: reads_def)
    have den: "denotes fm (andConst (Some c) rhs) (b \<and> sem val e)" using Cons.prems(7) dr denotes_connectives(1) by metis
    have "wp False (parseAndRHS m ks pe (Some (andConst (Some c) rhs))) (reads fm (b \<and> sem_and val (e # d # g)) r) q2"
      if "pinv q2" "S q2 = print_and (d # g) @ r" for q2
      using Cons.IH [OF that Cons.prems(3) _ pe2 _ den, of m] Cons.prems(4,6) n by simp
    moreover have "pinv q'" "S q' = S q" "tok_typ t = fst_typ (S q)" using 2 by auto
    moreover have "reads fm x r' d q \<Longrightarrow> S q = r'" for x r' d by (simp add: reads_def)
    ultimately show ?case using 2(1) by (auto intro!: s_next)
  qed (simp add: reads_def)
qed

lemma parseAnd_reads:
  assumes "pinv p" and "S p = print_and (e # g) @ r" and "fst_typ r \<in> {tokenOr, tokenClose, tokenEOF}" and "length (print_and (e # g)) < n"
    and "pe_reads ks fm val (length (print_and (e # g))) pe" and "\<forall>e \<in> set (e # g). understood ks fm val e"
  shows "wp False (parseAnd n ks pe) (reads fm (sem_and val (e # g)) r) p"
proof (cases g)
  case Nil
  have opd: "wp False (parseOperand n ks pe) (reads fm (sem val e) r) p" using assms Nil by (intro parseOperand_reads) auto
  show ?thesis unfolding parseAnd_def
    by (rule then_do [OF opd], rule s_peek) (use assms(3) Nil in \<open>auto simp: reads_def\<close>)
next
  case (Cons d h)
  have opd: "wp False (parseOperand n ks pe) (reads fm (sem val e) (and_tok # print_and (d # h) @ r)) p"
    using assms Cons by (intro parseOperand_reads) (auto elim: pe_reads_less)
  have pe2: "pe_reads ks fm val (length (print_and (d # h))) pe" using assms(5) Cons by (auto elim: pe_reads_less)
  show ?thesis unfolding parseAnd_def
  proof (rule then_do [OF opd], rule s_peek, goal_cases)
    case (2 c q t q')
    obtain dr where dr: "c = Some dr" "denotes fm dr (sem val e)" using 2(1) by (auto simp: reads_def)
    have "wp False (parseAndRHS n ks pe c) (reads fm (sem_and val (e # g)) r) q2" if "pinv q2" "S q2 = print_and (d # h) @ r" for q2
      using parseAndRHS_reads [OF that assms(3), of n ks fm val pe dr "sem val e"] assms(4,6) pe2 dr Cons by simp
    moreover have "pinv q'" "S q' = S q" "tok_typ t = fst_typ (S q)" using 2 by auto
    moreover have "reads fm x r' d q \<Longrightarrow> S q = r'" for x r' d by (simp add: reads_def)
    ultimately show ?case using 2(1) by (auto intro!: s_next)
  qed (simp add: reads_def)
qed

lemma parseOrRHS_reads:
  "pinv p \<Longrightarrow> S p = print_or (g # gs) @ r \<Longrightarrow> fst_typ r \<in> {tokenClose, tokenEOF} \<Longrightarrow> Suc (length (print_or (g # gs))) < n \<Longrightarrow>
   pe_reads ks fm val (length (print_or (g # gs))) pe \<Longrightarrow> understood ks fm val (EGroup (g # gs)) \<Longrightarrow> denotes fm c b \<Longrightarrow>
   wp False (parseOrRHS n ks pe (Some c)) (reads fm (b \<or> sem_or val (g # gs)) r) p"
proof (induction gs arbitrary: n p g c b)
  case Nil
  then obtain m e g' where n: "n = Suc m" "g = e # g'" by (cases n; cases g) auto
  have conj: "wp False (parseAnd m ks pe) (reads fm (sem_and val g) r) p"
    using parseAnd_reads [OF Nil(1), of e g' r m ks fm val pe] Nil n by auto
  show ?case unfolding n(1) parseOrRHS.simps
  proof (rule then_do [OF conj], rule s_peek, goal_cases)
    case (2 rhs q t q')
    have "reads fm (sem_and val g) r rhs q'" using 2 by (simp add: reads_def)
    then show ?case using reads_connectives(2) [OF _ Nil(7)] 2 Nil(3) by (auto simp: reads_def)
  qed (simp add: reads_def)
next
  case (Cons h gs)
  then obtain m e g' where n: "n = Suc m" "g = e # g'" by (cases n; cases g) auto
  have pe1: "pe_reads ks fm val (length (print_and (e # g'))) pe" using Cons.prems(5) n by (auto elim: pe_reads_less)
  have conj: "wp False (parseAnd m ks pe) (reads fm (sem_and val g) (or_tok # print_or (h # gs) @ r)) p"
    using parseAnd_reads [OF Cons.prems(1), of e g' "or_tok # print_or (h # gs) @ r" m ks fm val pe] Cons.prems(2,4,6) n pe1
    by simp
  have pe2: "pe_reads ks fm val (length (print_or (h # gs))) pe" using Cons.prems(5) by (auto elim: pe_reads_less)
  show ?case unfolding n(1) parseOrRHS.simps
  proof (rule then_do [OF conj], rule s_peek, goal_cases)
    case (2 rhs q t q')
    obtain dr where dr: "rhs = Some dr" "denotes fm dr (sem_and val g)" using 2(1) by (auto simp: reads_def)
    have den: "denotes fm (orConst (Some c) rhs) (b \<or> sem_and val g)" using Cons.prems(7) dr denotes_connectives(2) by metis
    have "wp False (parseOrRHS m ks pe (Some (orConst (Some c) rhs))) (reads fm (b \<or> sem_or val (g # h # gs)) r) q2"
      if "pinv q2" "S q2 = print_or (h # gs) @ r" for q2
      using Cons.IH [OF that Cons.prems(3) _ pe2 _ den, of m] Cons.prems(4,6) n by simp
    moreover have "pinv q'" "S q' = S q" "tok_typ t = fst_typ (S q)" using 2 by auto
    moreover have "reads fm x r' d q \<Longrightarrow> S q = r'" for x r' d by (simp add: reads_def)
    ultimately show ?case using 2(1) by (auto intro!: s_next)
  qed (simp add: reads_def)
qed

lemma parseExp_loop_reads:
  assumes "pinv p" and "S p = (if gs = [] then [] else or_tok # print_or gs) @ r" and "fst_typ r \<in> {tokenClose, tokenEOF}"
    and "length (print_or gs) + 2 < n" and "pe_reads ks fm val (length (print_or gs)) pe"
    and "gs \<noteq> [] \<longrightarrow> understood ks fm val (EGroup gs)" and "denotes fm c b"
  shows "wp False (parseExp_loop n ks pe (Some c)) (reads fm (b \<or> sem_or val gs) r) p"
proof -
  obtain m where n: "n = Suc m" using assms(4) by (cases n) auto
  show ?thesis
  proof (cases gs)
    case Nil
    then show ?thesis unfolding n parseExp_loop.simps
      by (intro s_peek [OF assms(1)]) (use assms(2,3,7) in \<open>auto simp: reads_def\<close>)
  next
    case (Cons g hs)
    have "wp False (parseOrRHS m ks pe (Some c)) (reads fm (b \<or> sem_or val gs) r) q" if "pinv q" "S q = print_or gs @ r" for q
      using parseOrRHS_reads [OF that(1), of g hs r m ks fm val pe c b] that assms(3-7) n Cons by auto
    then show ?thesis unfolding n parseExp_loop.simps using assms(2) Cons by (auto intro!: s_peek [OF assms(1)] s_next)
  qed
qed

lemma print_nonempty [simp]: "print e \<noteq> []"
  by (cases e) auto

lemma print_not_eof: "fst_typ (print e @ r) \<noteq> tokenEOF"
  by (cases e) auto

lemma parseExp_loop_and_reads:
  assumes "pinv p" and "S p = (if g = [] then [] else and_tok # print_and g) @ (if gs = [] then [] else or_tok # print_or gs) @ r"
    and "fst_typ r \<in> {tokenClose, tokenEOF}" and "length (print_and g) + length (print_or gs) + 2 < n"
    and "pe_reads ks fm val (length (print_and g) + length (print_or gs)) pe"
    and "\<forall>e \<in> set g. understood ks fm val e" and "gs \<noteq> [] \<longrightarrow> understood ks fm val (EGroup gs)" and "denotes fm c b"
  shows "wp False (parseExp_loop n ks pe (Some c)) (reads fm (b \<and> sem_and val g \<or> sem_or val gs) r) p"
proof (cases g)
  case Nil
  then show ?thesis using parseExp_loop_reads [of p gs r n ks fm val pe c b] assms by (auto elim: pe_reads_less simp: print_and_def)
next
  case (Cons e es)
  obtain m where n: "n = Suc m" using assms(4) by (cases n) auto
  let ?r = "(if gs = [] then [] else or_tok # print_or gs) @ r"
  have "print_and g \<noteq> []" using Cons print_nonempty by (cases es) auto
  then have l: "length (print_or gs) + 3 < n" using assms(4) by (cases "print_and g") auto
  have pe1: "pe_reads ks fm val (length (print_and (e # es))) pe" and pe2: "pe_reads ks fm val (length (print_or gs)) pe"
    using assms(5) Cons by (auto elim: pe_reads_less)
  have "wp False (p_bind (parseAndRHS m ks pe (Some c)) (parseExp_loop m ks pe)) (reads fm (b \<and> sem_and val g \<or> sem_or val gs) r) q"
    if q: "pinv q" "S q = print_and g @ ?r" for q
  proof (rule then_do)
    show "wp False (parseAndRHS m ks pe (Some c)) (reads fm (b \<and> sem_and val g) ?r) q"
      using parseAndRHS_reads [OF q(1), of e es ?r m ks fm val pe c b] q(2) pe1 assms(3,4,6,8) l n Cons by auto
    fix d q1 assume "reads fm (b \<and> sem_and val g) ?r d q1"
    then obtain d' where d: "d = Some d'" "denotes fm d' (b \<and> sem_and val g)" "pinv q1" "S q1 = ?r" by (auto simp: reads_def)
    show "wp False (parseExp_loop m ks pe d) (reads fm (b \<and> sem_and val g \<or> sem_or val gs) r) q1"
      unfolding d(1) by (rule parseExp_loop_reads [OF d(3,4) assms(3) _ pe2 assms(7) d(2)]) (use assms(4) l n in auto)
  qed
  then show ?thesis unfolding n parseExp_loop.simps using assms(2) Cons by (auto intro!: s_peek [OF assms(1)] s_next)
qed

lemma print_or_Cons: "print_or ((e # g) # gs) = print e @ (if g = [] then [] else and_tok # print_and g) @ (if gs = [] then [] else or_tok # print_or gs)"
  by (cases g; cases gs) simp_all

lemma parseExp_reads:
  "pinv p \<Longrightarrow> S p = print_or gs @ r \<Longrightarrow> fst_typ r \<in> {tokenClose, tokenEOF} \<Longrightarrow> length (print_or gs) + 3 < n \<Longrightarrow>
   understood ks fm val (EGroup gs) \<Longrightarrow> wp False (parseExp n ks) (reads fm (sem_or val gs) r) p"
proof (induction n arbitrary: p gs r)
  case (Suc n)
  obtain e g hs where gs: "gs = (e # g) # hs" using Suc.prems(5) by (cases gs) (auto simp: neq_Nil_conv)
  let ?t = "(if g = [] then [] else and_tok # print_and g) @ (if hs = [] then [] else or_tok # print_or hs) @ r"
  have sp: "S p = print e @ ?t" using Suc.prems(2) unfolding gs print_or_Cons by simp
  have len: "length (print_or gs) = length (print e) + (if g = [] then 0 else Suc (length (print_and g))) + (if hs = [] then 0 else Suc (length (print_or hs)))"
    unfolding gs print_or_Cons by simp
  have z: "g = [] \<Longrightarrow> length (print_and g) = 0" "hs = [] \<Longrightarrow> length (print_or hs) = 0" by (simp_all add: print_and_def print_or_def)
  have pe: "pe_reads ks fm val k (parseExp n ks)" if "k + 3 \<le> n" for k
    using Suc.IH that by (auto simp: pe_reads_def)
  have opd: "wp False (parseOperand n ks (parseExp n ks)) (reads fm (sem val e) ?t) q" if q: "pinv q" "S q = S p" for q
  proof -
    have "pe_reads ks fm val (length (print e)) (parseExp n ks)" using pe Suc.prems(4) len by simp
    then show ?thesis using parseOperand_reads [OF q(1) q(2) [unfolded sp], of n ks fm val "parseExp n ks"] Suc.prems(3,4,5) len gs by auto
  qed
  have "wp False (p_bind (parseOperand n ks (parseExp n ks)) (parseExp_loop n ks (parseExp n ks))) (reads fm (sem_or val gs) r) q"
    if "wp False (parseOperand n ks (parseExp n ks)) (reads fm (sem val e) ?t) q" for q
  proof (rule then_do [OF that])
    fix c q1 assume "reads fm (sem val e) ?t c q1"
    then obtain d where d: "c = Some d" "denotes fm d (sem val e)" "pinv q1" "S q1 = ?t" by (auto simp: reads_def)
    have l: "length (print_and g) + length (print_or hs) + 2 < n" using Suc.prems(4) len z by (auto split: if_splits)
    have "wp False (parseExp_loop n ks (parseExp n ks) c) (reads fm (sem val e \<and> sem_and val g \<or> sem_or val hs) r) q1"
      unfolding d(1) using Suc.prems(5) gs pe l by (intro parseExp_loop_and_reads [OF d(3,4) Suc.prems(3) l _ _ _ d(2)]) auto
    then show "wp False (parseExp_loop n ks (parseExp n ks) c) (reads fm (sem_or val gs) r) q1" by (simp add: gs)
  qed
  then show ?case using opd print_not_eof [of e ?t] by (auto intro!: s_peek [OF Suc.prems(1)] simp: sp)
qed simp

lemma query_from_exp:
  assumes "wp False (parseExp n ks) (reads fm v []) p" and "denotes fm base b"
  shows "wp False (parse_query n ks base) (\<lambda>c q. denotes fm c (b \<and> v)) p"
  unfolding parse_query_def
proof (rule then_do [OF assms(1)], rule wp_bind, rule wp_next, goal_cases)
  case (2 c q t q')
  have "tok_typ t = tokenEOF" using 2 look_S [of q] by (simp add: reads_def)
  moreover obtain d where "c = Some d" "denotes fm d v" using 2(1) by (auto simp: reads_def)
  ultimately show ?case using denotes_connectives(1) [OF assms(2)] by auto
qed (simp add: reads_def)

lemma lex_no_eof: "lex letter fuel exp = (ts, closed) \<Longrightarrow> \<forall>t \<in> set ts. tok_typ t \<noteq> tokenEOF"
  using shaped_no_eof [OF run_shape, of ReadExp letter fuel "lx_init exp"] by (simp add: lex_init)

lemma lex_nil: "lex letter fuel [] = (ts, True) \<Longrightarrow> ts = []"
  by (cases fuel)
    (auto simp: lex_def readExp_def lx_acceptRun_def lx_acceptRunFn.simps lx_next_def lx_ignore_def lx_peek_def lx_backup_def bytes_of_string_def)

lemma expression_from_query:
  assumes "lex letter m (TrimSpace exp) = (ts, True)"
    and "wp False (parse_query n ks (Constraint None None None [k])) (\<lambda>c q. Q c) \<lparr>p_tokens = ts, p_closed = True, p_peeked = None\<rparr>"
    and "ts \<noteq> []"
  shows "\<exists>c. (\<forall>fuel \<ge> max m n. parseExpression letter fuel ks k exp = POk c) \<and> Q c"
proof -
  let ?s = "TrimSpace exp" and ?b = "Constraint None None None [k]" and ?p = "\<lparr>p_tokens = ts, p_closed = True, p_peeked = None\<rparr>"
  obtain c q where c: "parse_query n ks ?b ?p = (POk c, q)" "Q c"
    using assms(2) by (auto simp: wp_def split: prod.splits pres.splits)
  have "parseExpression letter fuel ks k exp = POk c" if f: "max m n \<le> fuel" for fuel
  proof -
    have "extends (parse_query n ks ?b) (parse_query fuel ks ?b)" using f by (intro parse_query_extends) simp
    then have "parse_query fuel ks ?b ?p = (POk c, q)" using c(1) unfolding extends_def by (metis fst_conv pres.distinct(3))
    moreover have "newParser letter fuel ?s = ?p"
      using run_more_fuel [OF assms(1) [unfolded lex_init], of fuel] f by (simp add: newParser_def lex_init)
    moreover have "?s \<noteq> []" using lex_nil assms(1,3) by metis
    ultimately show ?thesis by (simp add: parseExpression_def Let_def)
  qed
  then show ?thesis using c(2) by blast
qed

text \<open>C23 [search_meaning].  If the tokens of an expression are those of an alternative of conjunctions of possibly negated
  atoms and groups, written with \<open>and\<close> and \<open>or\<close>, and the keywords understand its atoms, then the query is accepted and its
  matcher answers, for every blob, whether the base constraint and the alternative hold, with \<open>and\<close> binding more than \<open>or\<close> and
  parentheses first.\<close>

theorem search_expression_means:
  assumes "lex letter m (TrimSpace exp) = (ts, True)" and "map (\<lambda>t. (tok_typ t, tok_val t)) ts = print_or gs"
    and "understood ks fm val (EGroup gs)" and "fm k = Some (Inr b)"
  shows "\<exists>c. (\<forall>fuel \<ge> max m (length ts + 4). parseExpression letter fuel ks k exp = POk c) \<and>
    c_matcher fm c = Some (Inr (b \<and> (\<exists>g \<in> set gs. \<forall>e \<in> set g. sem val e)))"
proof -
  let ?p = "\<lparr>p_tokens = ts, p_closed = True, p_peeked = None\<rparr>"
  have len: "length (print_or gs) = length ts" using assms(2) length_map by metis
  have "print_or gs \<noteq> []" using assms(3) by (cases gs; cases "hd gs") (auto simp: print_or_Cons)
  then have ne: "ts \<noteq> []" using assms(2) by auto
  have "pinv ?p" using lex_no_eof [OF assms(1)] by (simp add: pinv_def)
  then have "wp False (parseExp (length ts + 4) ks) (reads fm (sem_or val gs) []) ?p"
    using assms(2,3) len by (intro parseExp_reads) (auto simp: S_def view_def)
  then have "wp False (parse_query (length ts + 4) ks (Constraint None None None [k])) (\<lambda>c q. denotes fm c (b \<and> sem_or val gs)) ?p"
    by (rule query_from_exp) (use assms(4) in \<open>simp add: denotes_def\<close>)
  then show ?thesis using expression_from_query [OF assms(1) _ ne] unfolding denotes_def c_matcher_def sem_or_def sem_and_def by fastforce
qed

text \<open>A keyword for tags, over fields that are the tags asked for.\<close>

definition tag_keyword :: "string keyword" where
  "tag_keyword = \<lparr>Match = matchPrefix_Match ''tag'' 1, Predicate = (\<lambda>as. Inr (Constraint None None None [hd as]))\<rparr>"

lemma tag_means:
  assumes "fm a = Some (Inr b)"
  shows "atom_means [tag_keyword] fm ''tag'' [a] b"
  using assms by (simp add: atom_means_def tag_keyword_def matchPrefix_Match_def denotes_def p_ret_def)

theorem search_expression_means_witness:
  "\<exists>c. (\<forall>fuel \<ge> max 60 (length (fst (lex (\<lambda>r. 0x61 \<le> r) 60 ''tag:a or -tag:b'')) + 4).
       parseExpression (\<lambda>r. 0x61 \<le> r) fuel [tag_keyword] ''base'' '' tag:a or -tag:b '' = POk c) \<and>
     c_matcher (\<lambda>f. Some (Inr (f \<noteq> ''a''))) c =
       Some (Inr (True \<and> (\<exists>g \<in> set [[EAtom ''tag'' [''a'']], [ENot (EAtom ''tag'' [''b''])]]. \<forall>e \<in> set g. sem (\<lambda>p as. as \<noteq> [''a'']) e)))"
proof (rule search_expression_means)
  have t: "TrimSpace '' tag:a or -tag:b '' = ''tag:a or -tag:b''" by code_simp
  show "lex (\<lambda>r. 0x61 \<le> r) 60 (TrimSpace '' tag:a or -tag:b '') = (fst (lex (\<lambda>r. 0x61 \<le> r) 60 ''tag:a or -tag:b''), True)"
    unfolding t by code_simp
  show "map (\<lambda>t. (tok_typ t, tok_val t)) (fst (lex (\<lambda>r. 0x61 \<le> r) 60 ''tag:a or -tag:b'')) = print_or [[EAtom ''tag'' [''a'']], [ENot (EAtom ''tag'' [''b''])]]"
    by code_simp
  show "understood [tag_keyword] (\<lambda>f. Some (Inr (f \<noteq> ''a''))) (\<lambda>p as. as \<noteq> [''a'']) (EGroup [[EAtom ''tag'' [''a'']], [ENot (EAtom ''tag'' [''b''])]])"
    by (simp add: tag_means)
qed simp

section \<open>Spaces for and, after or\<close>

lemma parseExp_pe_reads: "k + 3 \<le> n \<Longrightarrow> pe_reads ks fm val k (parseExp n ks)"
  by (auto simp: pe_reads_def intro!: parseExp_reads)

text \<open>Three atoms after an \<open>or\<close>, with spaces between them: the first two make a conjunction, the third an alternative.\<close>

lemma parse_three_after_or:
  fixes p1 p2 p3 :: string and a1 a2 a3 :: "string list"
  defines "A1 \<equiv> EAtom p1 a1" and "A2 \<equiv> EAtom p2 a2" and "A3 \<equiv> EAtom p3 a3"
  assumes "pinv p" and "S p = print A1 @ print A2 @ print A3" and "length (S p) + 3 < n" and "pe_reads ks fm val (length (S p)) pe"
    and "understood ks fm val A1" and "understood ks fm val A2" and "understood ks fm val A3" and "denotes fm c b"
  shows "wp False (parseOrRHS n ks pe (Some c)) (reads fm ((b \<or> sem val A1 \<and> sem val A2) \<or> sem val A3) []) p"
proof -
  obtain n1 n2 where n: "n = Suc n1" "n1 = Suc n2" using assms(6) by (cases n; cases "n - 1") auto
  have ft [simp]: "fst_typ (print A2 @ r) = tokenPredicate" "fst_typ (print A3 @ r) = tokenPredicate" "fst_typ (print A3) = tokenPredicate" for r
    by (simp_all add: A2_def A3_def)
  have pe: "pe_reads ks fm val (length (print A)) pe" if "A \<in> {A1, A2, A3}" for A
    using pe_reads_less [OF assms(7)] assms(5) that by auto
  have len: "length (print A) + 3 < n" if "A \<in> {A1, A2, A3}" for A using assms(5,6) that by auto
  have opd2: "wp False (parseAndRHS n1 ks pe (Some d)) (reads fm (x \<and> sem val A2) (print A3)) q"
    if q: "pinv q" "S q = print A2 @ print A3" and d: "denotes fm d x" for q d x
  proof -
    have opd: "wp False (parseOperand n2 ks pe) (reads fm (sem val A2) (print A3)) q"
      using q pe [of A2] len [of A2] n assms(9) by (intro parseOperand_reads) auto
    show ?thesis unfolding n(2) parseAndRHS.simps
    proof (rule then_do [OF opd], rule s_peek, goal_cases)
      case (2 rhs q1 t q2)
      then have "reads fm (sem val A2) (print A3) rhs q2" "tok_typ t = tokenPredicate" by (auto simp: reads_def)
      then show ?case using reads_connectives(1) d by auto
    qed (simp add: reads_def)
  qed
  have opd1: "wp False (parseOperand n1 ks pe) (reads fm (sem val A1) (print A2 @ print A3)) p"
    using assms(4,5,8) pe [of A1] len [of A1] n by (intro parseOperand_reads) auto
  have conj: "wp False (parseAnd n1 ks pe) (reads fm (sem val A1 \<and> sem val A2) (print A3)) p"
    unfolding parseAnd_def
  proof (rule then_do [OF opd1], rule s_peek, goal_cases)
    case (2 d q t q')
    then show ?case using opd2 by (auto simp: reads_def [of _ _ "print A2 @ print A3"])
  qed (simp add: reads_def)
  show ?thesis unfolding n(1) parseOrRHS.simps
  proof (rule then_do [OF conj], rule s_peek, goal_cases)
    case (2 rhs q t q')
    then obtain d where d: "rhs = Some d" "denotes fm d (sem val A1 \<and> sem val A2)" "pinv q'" "S q' = print A3" "tok_typ t = tokenPredicate"
      by (auto simp: reads_def)
    have "wp False (parseOrRHS n1 ks pe (Some (orConst (Some c) rhs))) (reads fm ((b \<or> sem val A1 \<and> sem val A2) \<or> sem_or val [[A3]]) []) q'"
      using d pe [of A3] len [of A3] n assms(10) denotes_connectives(2) [OF assms(11) d(2)] by (intro parseOrRHS_reads) auto
    then show ?case using d(5) by simp
  qed (simp add: reads_def)
qed

lemma parse_or_three:
  fixes p0 p1 p2 p3 :: string and a0 a1 a2 a3 :: "string list"
  defines "A0 \<equiv> EAtom p0 a0" and "A1 \<equiv> EAtom p1 a1" and "A2 \<equiv> EAtom p2 a2" and "A3 \<equiv> EAtom p3 a3"
  assumes "pinv p" and "S p = print A0 @ or_tok # print A1 @ print A2 @ print A3" and "length (S p) + 5 < n"
    and "\<forall>e \<in> {A0, A1, A2, A3}. understood ks fm val e" and "denotes fm base b"
  shows "wp False (parse_query n ks base) (\<lambda>c q. denotes fm c (b \<and> ((sem val A0 \<or> sem val A1 \<and> sem val A2) \<or> sem val A3))) p"
proof -
  obtain n1 n2 where n: "n = Suc n1" "n1 = Suc n2" using assms(7) by (cases n; cases "n - 1") auto
  let ?r = "or_tok # print A1 @ print A2 @ print A3" and ?v = "(sem val A0 \<or> sem val A1 \<and> sem val A2) \<or> sem val A3"
  have pe: "pe_reads ks fm val k (parseExp n1 ks)" if "k \<le> length (S p)" for k
    using that n assms(7) by (intro parseExp_pe_reads) auto
  have opd: "wp False (parseOperand n1 ks (parseExp n1 ks)) (reads fm (sem val A0) ?r) q" if "pinv q" "S q = S p" for q
    using that assms(6-8) pe [of "length (print A0)"] n by (intro parseOperand_reads) auto
  have loop: "wp False (parseExp_loop n1 ks (parseExp n1 ks) (Some c)) (reads fm ?v []) q"
    if q: "pinv q" "S q = ?r" and c: "denotes fm c (sem val A0)" for q c
  proof -
    have "wp False (parseOrRHS n2 ks (parseExp n1 ks) (Some c)) (reads fm ?v []) q1"
      if "pinv q1" "S q1 = print A1 @ print A2 @ print A3" for q1
      using that assms(6-8) pe n c unfolding A1_def A2_def A3_def by (intro parse_three_after_or) auto
    then show ?thesis unfolding n(2) parseExp_loop.simps using q by (auto intro!: s_peek [OF q(1)] s_next)
  qed
  have "wp False (p_bind (parseOperand n1 ks (parseExp n1 ks)) (parseExp_loop n1 ks (parseExp n1 ks))) (reads fm ?v []) q"
    if "pinv q" "S q = S p" for q
    by (rule then_do [OF opd [OF that]]) (use loop in \<open>auto simp: reads_def [of _ _ ?r]\<close>)
  then have "wp False (parseExp n ks) (reads fm ?v []) p"
    unfolding n(1) parseExp.simps using assms(5,6) print_not_eof [of A0 ?r] by (auto intro!: s_peek [OF assms(5)])
  then show ?thesis using query_from_exp assms(9) by blast
qed

text \<open>C40 [search_spaces].  The documentation gives spaces the meaning of \<open>and\<close>, which binds more than \<open>or\<close>; but of three or more
  atoms written with spaces after an \<open>or\<close> only the first two make a conjunction: \<open>a or b c d\<close> means
  \<open>a or (b and c) or d\<close>, and blobs with \<open>d\<close> alone are found.\<close>

theorem spaces_after_or:
  assumes "lex letter m (TrimSpace exp) = (ts, True)"
    and "map (\<lambda>t. (tok_typ t, tok_val t)) ts =
      print (EAtom p0 a0) @ or_tok # print (EAtom p1 a1) @ print (EAtom p2 a2) @ print (EAtom p3 a3)"
    and "\<forall>(p, as) \<in> {(p0, a0), (p1, a1), (p2, a2), (p3, a3)}. atom_means ks fm p as (val p as)" and "fm k = Some (Inr b)"
  shows "\<exists>c. (\<forall>fuel \<ge> max m (length ts + 6). parseExpression letter fuel ks k exp = POk c) \<and>
    c_matcher fm c = Some (Inr (b \<and> (val p0 a0 \<or> val p1 a1 \<and> val p2 a2 \<or> val p3 a3)))"
proof -
  let ?p = "\<lparr>p_tokens = ts, p_closed = True, p_peeked = None\<rparr>"
  have pi: "pinv ?p" using lex_no_eof [OF assms(1)] by (simp add: pinv_def)
  have s: "S ?p = print (EAtom p0 a0) @ or_tok # print (EAtom p1 a1) @ print (EAtom p2 a2) @ print (EAtom p3 a3)"
    using assms(2) by (simp add: S_def view_def)
  have l: "length (S ?p) + 5 < length ts + 6" by (simp add: S_def view_def)
  have ne: "ts \<noteq> []" using assms(2) by auto
  have w: "wp False (parse_query (length ts + 6) ks (Constraint None None None [k]))
      (\<lambda>c q. denotes fm c (b \<and> ((sem val (EAtom p0 a0) \<or> sem val (EAtom p1 a1) \<and> sem val (EAtom p2 a2)) \<or> sem val (EAtom p3 a3)))) ?p"
    by (rule parse_or_three [OF pi s l]) (use assms(3,4) in \<open>auto simp: denotes_def\<close>)
  show ?thesis using expression_from_query [OF assms(1) w ne] by (auto simp: denotes_def c_matcher_def)
qed

theorem spaces_after_or_witness:
  "\<exists>c. (\<forall>fuel \<ge> max 80 (length (fst (lex (\<lambda>r. 0x61 \<le> r) 80 ''tag:a or tag:b tag:c tag:d'')) + 6).
       parseExpression (\<lambda>r. 0x61 \<le> r) fuel [tag_keyword] ''base'' ''tag:a or tag:b tag:c tag:d'' = POk c) \<and>
     c_matcher (\<lambda>f. Some (Inr (f \<in> {''base'', ''d''}))) c =
       Some (Inr (True \<and> ([''a''] = [''d''] \<or> [''b''] = [''d''] \<and> [''c''] = [''d''] \<or> [''d''] = [''d''])))"
proof (rule spaces_after_or [where val = "\<lambda>p as. as = [''d'']" and ?p0.0 = "''tag''" and ?p1.0 = "''tag''" and ?p2.0 = "''tag''" and ?p3.0 = "''tag''"
      and ?a0.0 = "[''a'']" and ?a1.0 = "[''b'']" and ?a2.0 = "[''c'']" and ?a3.0 = "[''d'']"])
  have t: "TrimSpace ''tag:a or tag:b tag:c tag:d'' = ''tag:a or tag:b tag:c tag:d''" by code_simp
  show "lex (\<lambda>r. 0x61 \<le> r) 80 (TrimSpace ''tag:a or tag:b tag:c tag:d'') = (fst (lex (\<lambda>r. 0x61 \<le> r) 80 ''tag:a or tag:b tag:c tag:d''), True)"
    unfolding t by code_simp
  show "map (\<lambda>t. (tok_typ t, tok_val t)) (fst (lex (\<lambda>r. 0x61 \<le> r) 80 ''tag:a or tag:b tag:c tag:d'')) =
    print (EAtom ''tag'' [''a'']) @ or_tok # print (EAtom ''tag'' [''b'']) @ print (EAtom ''tag'' [''c'']) @ print (EAtom ''tag'' [''d''])"
    by code_simp
qed (auto simp: tag_means)

section \<open>Every expression is answered\<close>

text \<open>C24 [search_returns].  \<open>parseExpression\<close> returns on every expression without unusual white space, with an error or with
  a constraint that \<open>checkValid\<close> accepts, if the constraints of the keywords and the base constraint are valid: no operand of a
  logical constraint is nil.\<close>

theorem search_expression_returns:
  assumes "plain_spaces (bytes_of_string (TrimSpace exp))"
    and "\<forall>kw \<in> set ks. \<forall>as c. Predicate kw as = Inr c \<longrightarrow> c_checkValid claim ck c = None" and "\<not> claim k" and "ck k = None"
  shows "\<exists>r. r \<noteq> PHang \<and> (\<forall>c. r = POk c \<longrightarrow> c_checkValid claim ck c = None) \<and>
    (\<forall>fuel \<ge> 8 * length (TrimSpace exp) + 8. parseExpression letter fuel ks k exp = r)"
  using assms by (intro parseExpression_returns) (simp_all add: vc.kws_ok_def)

theorem search_expression_returns_witness:
  "\<exists>r. r \<noteq> PHang \<and> (\<forall>c. r = POk c \<longrightarrow> c_checkValid (\<lambda>_. False) (\<lambda>_. None) c = None) \<and>
    (\<forall>fuel \<ge> 8 * length (TrimSpace ''(tag:a) or -'') + 8. parseExpression (\<lambda>r. 0x61 \<le> r) fuel [tag_keyword] ''base'' ''(tag:a) or -'' = r)"
proof (rule search_expression_returns)
  have t: "TrimSpace ''(tag:a) or -'' = ''(tag:a) or -''" by code_simp
  show "plain_spaces (bytes_of_string (TrimSpace ''(tag:a) or -''))"
    unfolding t by (rule plain_spaces_ascii) (simp add: bytes_of_string_def byte_of_char_def)
qed (simp_all add: tag_keyword_def)

end
