(* ===== verification/Json.thy ===== *)
theory Json
  imports Utf8 Strutil
begin

text \<open>
  What the code uses of \<open>encoding/json\<close>: values, the indented text that \<open>MarshalIndent\<close> makes of maps, and the decoder's
  reading of a value from bytes.  The text of a value is read back as that value.
\<close>

section \<open>Values and their text\<close>

text \<open>
  Numbers and strings are kept as they are written, a string without its quotes: a type with a decoder of its own is given
  these bytes.  Objects are their members in the order of the text.
\<close>

datatype json = JNull | JBool bool | JNum string | JStr bytes | JArr "json list" | JObj "(string \<times> json) list"

definition hex_digit :: "nat \<Rightarrow> u8" where
  "hex_digit n = (if n < 10 then of_nat (0x30 + n) else of_nat (0x57 + n))"

text \<open>The escapes of the encoder: control characters, quotes, and the characters that are unsafe in HTML.\<close>

definition enc_ascii :: "u8 \<Rightarrow> bytes" where
  "enc_ascii b =
     (if b = 0x5C \<or> b = 0x22 then [0x5C, b]
      else if b = 0x0A then [0x5C, 0x6E]
      else if b = 0x0D then [0x5C, 0x72]
      else if b < 0x20 \<or> b = 0x3C \<or> b = 0x3E \<or> b = 0x26 then
        [0x5C, 0x75, 0x30, 0x30, hex_digit (unat b div 16), hex_digit (unat b mod 16)]
      else [b])"

function enc_str :: "bytes \<Rightarrow> bytes" where
  "enc_str [] = []"
| "enc_str (b # s) =
     (if b < 0x80 then enc_ascii b @ enc_str s
      else
        let n = snd (DecodeRune (b # s)); r = fst (DecodeRune (b # s))
        in (if r = RuneError \<and> n = 1 then [0x5C, 0x75, 0x66, 0x66, 0x66, 0x64]
            else if r = 0x2028 then [0x5C, 0x75, 0x32, 0x30, 0x32, 0x38]
            else if r = 0x2029 then [0x5C, 0x75, 0x32, 0x30, 0x32, 0x39]
            else take n (b # s)) @ enc_str (drop n (b # s)))"
  by pat_completeness auto
termination
proof (relation "measure length", goal_cases)
  case (3 b s n r)
  then show ?case using DecodeRune_width [of "b # s"] by simp
qed simp_all

definition nl :: "nat \<Rightarrow> bytes" where
  "nl i = 0x0A # replicate (2 * i) 0x20"

definition quoted :: "string \<Rightarrow> bytes" where
  "quoted s = 0x22 # enc_str (bytes_of_string s) @ [0x22]"

fun comma_sep :: "bytes list \<Rightarrow> bytes" where
  "comma_sep [] = []"
| "comma_sep [x] = x"
| "comma_sep (x # y # xs) = x @ 0x2C # comma_sep (y # xs)"

text \<open>\<open>i\<close> is the depth of indentation, two spaces each.\<close>

fun pr_json :: "nat \<Rightarrow> json \<Rightarrow> bytes" where
  "pr_json i JNull = bytes_of_string ''null''"
| "pr_json i (JBool b) = bytes_of_string (if b then ''true'' else ''false'')"
| "pr_json i (JNum l) = bytes_of_string l"
| "pr_json i (JStr raw) = 0x22 # raw @ [0x22]"
| "pr_json i (JArr vs) =
     (if vs = [] then [0x5B, 0x5D]
      else 0x5B # comma_sep (map (\<lambda>v. nl (Suc i) @ pr_json (Suc i) v) vs) @ nl i @ [0x5D])"
| "pr_json i (JObj ms) =
     (if ms = [] then [0x7B, 0x7D]
      else 0x7B # comma_sep (map (\<lambda>(k, v). nl (Suc i) @ quoted k @ [0x3A, 0x20] @ pr_json (Suc i) v) ms) @ nl i @ [0x7D])"

definition MarshalIndent :: "json \<Rightarrow> bytes" where
  "MarshalIndent v = pr_json 0 v"

section \<open>Reading a value\<close>

definition json_ws :: "u8 \<Rightarrow> bool" where
  "json_ws b \<longleftrightarrow> b = 0x20 \<or> b = 0x09 \<or> b = 0x0A \<or> b = 0x0D"

definition skip_ws :: "bytes \<Rightarrow> bytes" where
  "skip_ws = dropWhile json_ws"

definition num_byte :: "u8 \<Rightarrow> bool" where
  "num_byte b \<longleftrightarrow> 0x30 \<le> b \<and> b \<le> 0x39 \<or> b = 0x2D \<or> b = 0x2B \<or> b = 0x2E \<or> b = 0x65 \<or> b = 0x45"

definition digit_byte :: "u8 \<Rightarrow> bool" where
  "digit_byte b \<longleftrightarrow> 0x30 \<le> b \<and> b \<le> 0x39"

text \<open>A number literal: an optional sign, digits without a leading zero, an optional fraction and an optional exponent.\<close>

definition exp_ok :: "bytes \<Rightarrow> bool" where
  "exp_ok s \<longleftrightarrow>
     (case s of
        [] \<Rightarrow> True
      | e # t \<Rightarrow>
          (e = 0x65 \<or> e = 0x45) \<and>
          (let t = (case t of c # u \<Rightarrow> if c = 0x2B \<or> c = 0x2D then u else t | [] \<Rightarrow> [])
           in t \<noteq> [] \<and> list_all digit_byte t))"

definition frac_ok :: "bytes \<Rightarrow> bool" where
  "frac_ok s \<longleftrightarrow>
     (case s of
        c # t \<Rightarrow> if c = 0x2E then takeWhile digit_byte t \<noteq> [] \<and> exp_ok (dropWhile digit_byte t) else exp_ok s
      | [] \<Rightarrow> True)"

definition is_number :: "bytes \<Rightarrow> bool" where
  "is_number s \<longleftrightarrow>
     (let s = (case s of c # t \<Rightarrow> if c = 0x2D then t else s | [] \<Rightarrow> []);
          ds = takeWhile digit_byte s
      in ds \<noteq> [] \<and> (hd ds = 0x30 \<longrightarrow> length ds = 1) \<and> frac_ok (dropWhile digit_byte s))"

text \<open>The rune of an escape \<open>\\u\<close>; a surrogate is combined with the one that follows.\<close>

definition is_surrogate :: "int \<Rightarrow> bool" where
  "is_surrogate r \<longleftrightarrow> 0xD800 \<le> r \<and> r \<le> 0xDFFF"

definition hex4 :: "bytes \<Rightarrow> (int \<times> bytes) option" where
  "hex4 s = (if length s < 4 then None else map_option (\<lambda>v. (v, drop 4 s)) (hex_value 0 (take 4 s)))"

definition surrogate_pair :: "int \<Rightarrow> bytes \<Rightarrow> int \<times> bytes" where
  "surrogate_pair r s =
     (if \<not> is_surrogate r then (r, s)
      else (case s of
         b # c # t \<Rightarrow>
           if b = 0x5C \<and> c = 0x75 then
             (case hex4 t of
                Some (r2, u) \<Rightarrow>
                  if r < 0xDC00 \<and> 0xDC00 \<le> r2 \<and> r2 \<le> 0xDFFF then ((r - 0xD800) * 0x400 + (r2 - 0xDC00) + 0x10000, u) else (RuneError, s)
              | None \<Rightarrow> (RuneError, s))
           else (RuneError, s)
       | _ \<Rightarrow> (RuneError, s)))"

lemma surrogate_pair_length: "length (snd (surrogate_pair r s)) \<le> length s"
  by (auto simp: surrogate_pair_def hex4_def split: list.split option.split)

definition simple_escape :: "u8 \<Rightarrow> u8 option" where
  "simple_escape c =
     (if c = 0x22 \<or> c = 0x5C \<or> c = 0x2F then Some c
      else if c = 0x62 then Some 8
      else if c = 0x66 then Some 12
      else if c = 0x6E then Some 10
      else if c = 0x72 then Some 13
      else if c = 0x74 then Some 9
      else None)"

text \<open>The contents of a string up to its closing quote.\<close>

definition prepend :: "bytes \<Rightarrow> (bytes \<times> bytes) option \<Rightarrow> (bytes \<times> bytes) option" where
  "prepend x = map_option (\<lambda>(s, r). (x @ s, r))"

function rd_str :: "bytes \<Rightarrow> (bytes \<times> bytes) option" where
  "rd_str [] = None"
| "rd_str (b # s) =
     (if b = 0x22 then Some ([], s)
      else if b = 0x5C then
        (case s of
           [] \<Rightarrow> None
         | c # t \<Rightarrow>
             if c = 0x75 then
               (case hex4 t of
                  None \<Rightarrow> None
                | Some (v, u) \<Rightarrow> prepend (EncodeRune (fst (surrogate_pair v u))) (rd_str (snd (surrogate_pair v u))))
             else (case simple_escape c of None \<Rightarrow> None | Some e \<Rightarrow> prepend [e] (rd_str t)))
      else if b < 0x20 then None
      else if b < 0x80 then prepend [b] (rd_str s)
      else prepend (EncodeRune (fst (DecodeRune (b # s)))) (rd_str (drop (snd (DecodeRune (b # s))) (b # s))))"
  by pat_completeness auto
termination
proof (relation "measure length", goal_cases)
  case (2 b s c t x v u)
  then have "length u \<le> length t" by (auto simp: hex4_def split: if_splits)
  then show ?case using surrogate_pair_length [of v u] 2 by simp
next
  case (5 b s)
  then show ?case using DecodeRune_width [of "b # s"] by simp
qed simp_all

declare rd_str.simps [simp del] enc_str.simps [simp del]

definition rd_quoted :: "bytes \<Rightarrow> (string \<times> bytes) option" where
  "rd_quoted s = map_option (\<lambda>(x, r). (string_of_bytes x, r)) (rd_str s)"

text \<open>The bytes of a string as they are written, and the string they stand for.\<close>

definition rd_raw :: "bytes \<Rightarrow> (bytes \<times> bytes) option" where
  "rd_raw s = map_option (\<lambda>(x, r). (take (length s - length r - 1) s, r)) (rd_str s)"

definition unquote :: "bytes \<Rightarrow> bytes" where
  "unquote raw = (case rd_str (raw @ [0x22]) of Some (x, _) \<Rightarrow> x | None \<Rightarrow> [])"

definition rd_word :: "string \<Rightarrow> json \<Rightarrow> bytes \<Rightarrow> (json \<times> bytes) option" where
  "rd_word w v s = (if take (length w) s = bytes_of_string w then Some (v, drop (length w) s) else None)"

definition rd_num :: "bytes \<Rightarrow> (json \<times> bytes) option" where
  "rd_num s =
     (let l = takeWhile num_byte s
      in if is_number l then Some (JNum (string_of_bytes l), dropWhile num_byte s) else None)"

text \<open>Every nested call is given one turn less; as each takes at least a byte, twice the length of the text is enough.\<close>

fun rd_val :: "nat \<Rightarrow> bytes \<Rightarrow> (json \<times> bytes) option"
  and rd_arr :: "nat \<Rightarrow> bytes \<Rightarrow> (json list \<times> bytes) option"
  and rd_obj :: "nat \<Rightarrow> bytes \<Rightarrow> ((string \<times> json) list \<times> bytes) option" where
  "rd_val 0 s = None"
| "rd_val (Suc n) s =
     (case skip_ws s of
        [] \<Rightarrow> None
      | c # t \<Rightarrow>
          if c = 0x22 then map_option (\<lambda>(x, r). (JStr x, r)) (rd_raw t)
          else if c = 0x5B then
            (case skip_ws t of
               d # r \<Rightarrow> if d = 0x5D then Some (JArr [], r) else map_option (\<lambda>(vs, r). (JArr vs, r)) (rd_arr n t)
             | [] \<Rightarrow> None)
          else if c = 0x7B then
            (case skip_ws t of
               d # r \<Rightarrow> if d = 0x7D then Some (JObj [], r) else map_option (\<lambda>(ms, r). (JObj ms, r)) (rd_obj n t)
             | [] \<Rightarrow> None)
          else if c = 0x6E then rd_word ''null'' JNull (c # t)
          else if c = 0x74 then rd_word ''true'' (JBool True) (c # t)
          else if c = 0x66 then rd_word ''false'' (JBool False) (c # t)
          else rd_num (c # t))"
| "rd_arr 0 s = None"
| "rd_arr (Suc n) s =
     (case rd_val n s of
        None \<Rightarrow> None
      | Some (v, r) \<Rightarrow>
          (case skip_ws r of
             d # t \<Rightarrow>
               if d = 0x2C then map_option (\<lambda>(vs, r). (v # vs, r)) (rd_arr n t)
               else if d = 0x5D then Some ([v], t) else None
           | [] \<Rightarrow> None))"
| "rd_obj 0 s = None"
| "rd_obj (Suc n) s =
     (case skip_ws s of
        q # s1 \<Rightarrow>
          if q \<noteq> 0x22 then None
          else (case rd_quoted s1 of
             None \<Rightarrow> None
           | Some (k, s2) \<Rightarrow>
               (case skip_ws s2 of
                  col # s3 \<Rightarrow>
                    if col \<noteq> 0x3A then None
                    else (case rd_val n s3 of
                       None \<Rightarrow> None
                     | Some (v, r) \<Rightarrow>
                         (case skip_ws r of
                            d # t \<Rightarrow>
                              if d = 0x2C then map_option (\<lambda>(ms, r). ((k, v) # ms, r)) (rd_obj n t)
                              else if d = 0x7D then Some ([(k, v)], t) else None
                          | [] \<Rightarrow> None))
                | [] \<Rightarrow> None))
      | [] \<Rightarrow> None)"

text \<open>The first value of a text, as \<open>Decoder.Decode\<close> reads it.\<close>

definition rd_json :: "bytes \<Rightarrow> json option" where
  "rd_json s = map_option fst (rd_val (2 * length s) s)"

section \<open>Strings are read back\<close>

text \<open>\<open>utf8.ValidString\<close>.\<close>

function valid_utf8 :: "bytes \<Rightarrow> bool" where
  "valid_utf8 [] \<longleftrightarrow> True"
| "valid_utf8 (b # s) \<longleftrightarrow> good_rune (b # s) \<and> valid_utf8 (drop (snd (DecodeRune (b # s))) (b # s))"
  by pat_completeness auto
termination
proof (relation "measure length", goal_cases)
  case (2 b s)
  then show ?case using DecodeRune_width [of "b # s"] by simp
qed simp

declare valid_utf8.simps [simp del]

lemma valid_ascii: "list_all (\<lambda>b. b < 0x80) s \<Longrightarrow> valid_utf8 s"
proof (induction s)
  case (Cons b s)
  then have "DecodeRune (b # s) = (uint b, 1)" by (simp add: DecodeRune_def)
  moreover have "uint b < 0x80" using Cons.prems by (simp add: word_less_def)
  ultimately show ?case using Cons by (simp add: valid_utf8.simps good_rune_def RuneError_def)
qed (simp add: valid_utf8.simps)

lemma unhex_hex_digit: "n < 16 \<Longrightarrow> unhex (hex_digit n) = Some (int n)"
proof -
  assume n: "n < 16"
  have "uint (of_nat (0x30 + n) :: u8) = 0x30 + int n" "uint (of_nat (0x57 + n) :: u8) = 0x57 + int n"
    using n by (simp_all add: uint_nat unat_of_nat del: of_nat_add)
  then show ?thesis using n by (simp add: hex_digit_def unhex_def Let_def del: of_nat_add)
qed

lemma hex4_Cons: "hex4 (a # b # c # d # s) = map_option (\<lambda>v. (v, s)) (hex_value 0 [a, b, c, d])"
  by (simp add: hex4_def)

lemma unhex_literals: "unhex 0x30 = Some 0" "unhex 0x32 = Some 2" "unhex 0x38 = Some 8" "unhex 0x39 = Some 9"
  by (simp_all add: unhex_def)

lemma hex4_byte: "hex4 (0x30 # 0x30 # hex_digit (unat b div 16) # hex_digit (unat b mod 16) # s) = Some (uint b, s)" for b :: u8
proof -
  have "unat b < 256" using unsigned_less [of b] by simp
  then have "unat b div 16 < 16" "unat b mod 16 < 16" by auto
  then have h: "unhex (hex_digit (unat b div 16)) = Some (int (unat b div 16))" "unhex (hex_digit (unat b mod 16)) = Some (int (unat b mod 16))"
    by (simp_all only: unhex_hex_digit)
  have "int (unat b div 16) * 16 + int (unat b mod 16) = int (unat b)" by presburger
  then have "int (unat b div 16) * 16 + int (unat b mod 16) = uint b" by (simp only: uint_nat)
  then show ?thesis unfolding hex4_Cons hex_value.simps h unhex_literals by simp
qed

lemma prepend_Some [simp]: "prepend x (Some (s, r)) = Some (x @ s, r)"
  by (simp add: prepend_def)

lemma ascii_less: "b < 0x80 \<Longrightarrow> EncodeRune (uint b) = [b]"
  by (rule good_rune_1)

lemma rd_enc_ascii:
  assumes "b < 0x80" and "rd_str X = Some (s, r)"
  shows "rd_str (enc_ascii b @ X) = Some (b # s, r)"
proof -
  have u: "rd_str (0x5C # 0x75 # 0x30 # 0x30 # hex_digit (unat b div 16) # hex_digit (unat b mod 16) # X) = Some (b # s, r)"
    using assms by (simp add: rd_str.simps(2) [of "0x5C"] hex4_byte surrogate_pair_def is_surrogate_def good_rune_1 word_less_def)
  show ?thesis using assms u
    by (auto simp: enc_ascii_def rd_str.simps(2) [of "0x5C"] rd_str.simps(2) [of b] simple_escape_def)
qed

lemma rd_enc_rune:
  assumes "good_rune (b # s)" and "\<not> b < 0x80" and "rd_str X = Some (t, r)"
  shows "rd_str (take (snd (DecodeRune (b # s))) (b # s) @ X) = Some (take (snd (DecodeRune (b # s))) (b # s) @ t, r)"
proof -
  let ?n = "snd (DecodeRune (b # s))"
  obtain m where m: "?n = Suc m" using DecodeRune_width [of "b # s"] by (cases ?n) auto
  have e: "take ?n (b # s) @ X = b # (take m s @ X)" using m by simp
  have d: "DecodeRune (b # (take m s @ X)) = DecodeRune (b # s)" using good_rune_encode(2) [OF assms(1), of X] e by simp
  have l: "?n \<le> length (b # s)" using DecodeRune_width [of "b # s"] by simp
  then have "drop ?n (b # (take m s @ X)) = X" using m by simp
  moreover have "\<not> b = 0x22" "\<not> b = 0x5C" "\<not> b < 0x20" using assms(2) by (auto simp: word_less_def)
  ultimately show ?thesis using assms(2,3) good_rune_encode(1) [OF assms(1)] unfolding e
    by (subst rd_str.simps) (simp add: d)
qed

lemma rd_enc_sep:
  assumes "good_rune (b # s)" and "fst (DecodeRune (b # s)) \<in> {0x2028, 0x2029}" and "rd_str X = Some (t, r)"
  shows "rd_str ([0x5C, 0x75, 0x32, 0x30, 0x32, if fst (DecodeRune (b # s)) = 0x2028 then 0x38 else 0x39] @ X) =
    Some (take (snd (DecodeRune (b # s))) (b # s) @ t, r)"
proof -
  have "hex4 (0x32 # 0x30 # 0x32 # (if fst (DecodeRune (b # s)) = 0x2028 then 0x38 else 0x39) # X) = Some (fst (DecodeRune (b # s)), X)"
    using assms(2) by (auto simp: hex4_Cons unhex_literals)
  moreover have "\<not> is_surrogate (fst (DecodeRune (b # s)))" using assms(2) by (auto simp: is_surrogate_def)
  ultimately show ?thesis using good_rune_encode(1) [OF assms(1)] assms(3)
    by (simp add: rd_str.simps(2) [of "0x5C"] surrogate_pair_def)
qed

lemma rd_enc_str: "valid_utf8 s \<Longrightarrow> rd_str (enc_str s @ 0x22 # r) = Some (s, r)"
proof (induction s rule: enc_str.induct)
  case 1
  show ?case by (simp add: rd_str.simps enc_str.simps)
next
  case (2 b s)
  have g: "good_rune (b # s)" and v: "valid_utf8 (drop (snd (DecodeRune (b # s))) (b # s))"
    using "2.prems" by (simp_all add: valid_utf8.simps)
  show ?case
  proof (cases "b < 0x80")
    case True
    then have "DecodeRune (b # s) = (uint b, 1)" by (simp add: DecodeRune_def)
    then have "rd_str (enc_str s @ 0x22 # r) = Some (s, r)" using 2 True v by simp
    then show ?thesis using True rd_enc_ascii by (simp add: enc_str.simps)
  next
    case False
    let ?n = "snd (DecodeRune (b # s))"
    have IH: "rd_str (enc_str (drop ?n (b # s)) @ 0x22 # r) = Some (drop ?n (b # s), r)" using 2 False v by simp
    have "DecodeRune (b # s) \<noteq> (RuneError, 1)" using g by (simp add: good_rune_def)
    then have ne: "\<not> (fst (DecodeRune (b # s)) = RuneError \<and> ?n = 1)" by (simp add: prod_eq_iff)
    consider (sep) "fst (DecodeRune (b # s)) \<in> {0x2028, 0x2029}" | (other) "fst (DecodeRune (b # s)) \<notin> {0x2028, 0x2029}" by blast
    then show ?thesis
    proof cases
      case sep
      then have "enc_str (b # s) = [0x5C, 0x75, 0x32, 0x30, 0x32, if fst (DecodeRune (b # s)) = 0x2028 then 0x38 else 0x39] @ enc_str (drop ?n (b # s))"
        using False ne by (auto simp: enc_str.simps(2) [of b] Let_def)
      then show ?thesis using rd_enc_sep [OF g sep IH] by (simp add: append_assoc del: take_Cons')
    next
      case other
      then have "enc_str (b # s) = take ?n (b # s) @ enc_str (drop ?n (b # s))"
        using False ne by (auto simp: enc_str.simps(2) [of b] Let_def)
      then show ?thesis using rd_enc_rune [OF g False IH] by simp
    qed
  qed
qed

section \<open>Values are read back\<close>

text \<open>Strings are valid UTF-8 and number literals are numbers.\<close>

fun json_ok :: "json \<Rightarrow> bool" where
  "json_ok (JNum l) \<longleftrightarrow> is_number (bytes_of_string l) \<and> list_all num_byte (bytes_of_string l)"
| "json_ok (JStr raw) \<longleftrightarrow> valid_utf8 (unquote raw) \<and> raw = enc_str (unquote raw)"
| "json_ok (JArr vs) \<longleftrightarrow> (\<forall>v \<in> set vs. json_ok v)"
| "json_ok (JObj ms) \<longleftrightarrow> (\<forall>(k, v) \<in> set ms. valid_utf8 (bytes_of_string k) \<and> json_ok v)"
| "json_ok _ \<longleftrightarrow> True"

text \<open>The turns a value needs.\<close>

fun turns :: "json \<Rightarrow> nat" where
  "turns (JArr vs) = Suc (sum_list (map (\<lambda>v. Suc (turns v)) vs))"
| "turns (JObj ms) = Suc (sum_list (map (\<lambda>(k, v). Suc (turns v)) ms))"
| "turns _ = 1"

definition stops_num :: "bytes \<Rightarrow> bool" where
  "stops_num r \<longleftrightarrow> r = [] \<or> \<not> num_byte (hd r)"

lemma skip_ws_nl [simp]: "skip_ws (nl i @ s) = skip_ws s"
  unfolding skip_ws_def by (rule dropWhile_append2) (auto simp: nl_def json_ws_def)

lemma skip_ws_Cons [simp]: "\<not> json_ws b \<Longrightarrow> skip_ws (b # s) = b # s"
  by (simp add: skip_ws_def)

lemma skip_ws_space [simp]: "skip_ws (0x20 # s) = skip_ws s"
  by (simp add: skip_ws_def json_ws_def)

lemma rd_quoted_text:
  assumes "valid_utf8 (bytes_of_string s)"
  shows "rd_quoted (enc_str (bytes_of_string s) @ 0x22 # r) = Some (s, r)"
  using rd_enc_str [OF assms, of r] by (simp add: rd_quoted_def)

lemma unquote_enc_str [simp]: "valid_utf8 s \<Longrightarrow> unquote (enc_str s) = s"
  using rd_enc_str [of s "[]"] by (simp add: unquote_def)

lemma rd_raw_text:
  assumes "valid_utf8 (unquote raw)" and "raw = enc_str (unquote raw)"
  shows "rd_raw (raw @ 0x22 # r) = Some (raw, r)"
proof -
  have "rd_str (raw @ 0x22 # r) = Some (unquote raw, r)" using rd_enc_str [OF assms(1), of r] assms(2) by simp
  then show ?thesis by (simp add: rd_raw_def)
qed

lemma takeWhile_num: "list_all P l \<Longrightarrow> r = [] \<or> \<not> P (hd r) \<Longrightarrow> takeWhile P (l @ r) = l \<and> dropWhile P (l @ r) = r"
  by (cases r; induction l) auto

lemma number_not_empty: "is_number l \<Longrightarrow> l \<noteq> []"
  by (auto simp: is_number_def)

lemma num_byte_cases:
  assumes "num_byte c"
  shows "c \<noteq> 0x22" "c \<noteq> 0x5B" "c \<noteq> 0x7B" "c \<noteq> 0x6E" "c \<noteq> 0x74" "c \<noteq> 0x66" "\<not> json_ws c" "c \<noteq> 0x5D"
  using assms by (auto simp: num_byte_def json_ws_def word_le_def)

lemma rd_val_num:
  assumes "is_number l" and "list_all num_byte l" and "stops_num r"
  shows "rd_val (Suc n) (l @ r) = Some (JNum (string_of_bytes l), r)"
proof -
  obtain c t where l: "l = c # t" using number_not_empty [OF assms(1)] by (cases l) auto
  have c: "num_byte c" using assms(2) l by simp
  have "takeWhile num_byte (l @ r) = l \<and> dropWhile num_byte (l @ r) = r"
    using takeWhile_num [OF assms(2)] assms(3) by (auto simp: stops_num_def)
  then have "rd_num (l @ r) = Some (JNum (string_of_bytes l), r)" using assms(1) by (simp add: rd_num_def)
  then show ?thesis using num_byte_cases [OF c] l by simp
qed

lemma pr_head:
  assumes "json_ok v"
  obtains c t where "pr_json i v = c # t" "\<not> json_ws c" "c \<noteq> 0x5D"
proof (cases v)
  case (JNum l)
  then obtain c t where "bytes_of_string l = c # t" "num_byte c" using assms number_not_empty by (cases "bytes_of_string l") auto
  then show ?thesis using that JNum num_byte_cases by simp
next
  case (JBool b)
  then show ?thesis using that by (cases b) (simp_all add: json_ws_def byte_of_char_def)
next
  case (JArr vs)
  then show ?thesis using that by (cases "vs = []") (simp_all add: json_ws_def)
next
  case (JObj ms)
  then show ?thesis using that by (cases "ms = []") (simp_all add: json_ws_def)
qed (use that in \<open>simp_all add: quoted_def json_ws_def byte_of_char_def\<close>)

lemma rd_val_nl [simp]: "rd_val n (nl i @ s) = rd_val n s"
  by (cases n) simp_all

lemma stops_num_simps [simp]: "stops_num (nl i @ s)" "stops_num (0x2C # s)" "stops_num []" "stops_num (0x5D # s)" "stops_num (0x7D # s)"
  by (simp_all add: stops_num_def nl_def num_byte_def word_le_def)

definition reads_back :: "json \<Rightarrow> bool" where
  "reads_back v \<longleftrightarrow> (\<forall>i n r. turns v \<le> n \<longrightarrow> stops_num r \<longrightarrow> rd_val n (pr_json i v @ r) = Some (v, r))"

lemma rd_arr_text:
  assumes "vs \<noteq> []" and "\<forall>v \<in> set vs. reads_back v" and "sum_list (map (\<lambda>v. Suc (turns v)) vs) \<le> n"
  shows "rd_arr n (comma_sep (map (\<lambda>v. nl i @ pr_json i v) vs) @ nl j @ 0x5D # r) = Some (vs, r)"
  using assms
proof (induction vs arbitrary: n)
  case (Cons v vs)
  then obtain m where n: "n = Suc m" "turns v \<le> m" by (cases n) auto
  have v: "rd_val m (pr_json i v @ X) = Some (v, X)" if "stops_num X" for X
    using Cons.prems(2) n(2) that by (auto simp: reads_back_def)
  show ?case
  proof (cases vs)
    case Nil
    have "skip_ws (nl j @ 0x5D # r) = 0x5D # r" by (simp add: json_ws_def)
    then show ?thesis using n(1) Nil v by simp
  next
    case (Cons w ws)
    have "\<not> json_ws 0x2C" by (simp add: json_ws_def)
    then show ?thesis using n Cons.IH [of m] Cons.prems Cons v by simp
  qed
qed simp

lemma rd_obj_text:
  assumes "ms \<noteq> []" and "\<forall>(k, v) \<in> set ms. valid_utf8 (bytes_of_string k) \<and> reads_back v"
    and "sum_list (map (\<lambda>(k, v). Suc (turns v)) ms) \<le> n"
  shows "rd_obj n (comma_sep (map (\<lambda>(k, v). nl i @ quoted k @ [0x3A, 0x20] @ pr_json i v) ms) @ nl j @ 0x7D # r) = Some (ms, r)"
  using assms
proof (induction ms arbitrary: n)
  case (Cons kv ms)
  obtain k v where kv: "kv = (k, v)" by (cases kv)
  obtain m where n: "n = Suc m" "turns v \<le> m" using Cons.prems(3) kv by (cases n) auto
  have v: "rd_val m (0x20 # pr_json i v @ X) = Some (v, X)" if "stops_num X" for X
  proof -
    have "rd_val m (0x20 # s) = rd_val m s" for s by (cases m) simp_all
    then show ?thesis using Cons.prems(2) n(2) that kv by (auto simp: reads_back_def)
  qed
  have k: "rd_quoted (enc_str (bytes_of_string k) @ 0x22 # X) = Some (k, X)" for X
    using Cons.prems(2) kv by (simp add: rd_quoted_text)
  have ws: "\<not> json_ws 0x22" "\<not> json_ws 0x3A" "\<not> json_ws 0x2C" "\<not> json_ws 0x7D" by (simp_all add: json_ws_def)
  show ?case
  proof (cases ms)
    case Nil
    have "skip_ws (nl j @ 0x7D # r) = 0x7D # r" using ws by simp
    then show ?thesis using n(1) Nil v k ws kv by (simp add: quoted_def)
  next
    case (Cons w ws')
    then show ?thesis using n Cons.IH [of m] Cons.prems Cons v k ws kv by (simp add: quoted_def)
  qed
qed simp

lemma reads_back_json: "json_ok v \<Longrightarrow> reads_back v"
proof (induction v)
  case (JArr vs)
  have all: "\<forall>v \<in> set vs. reads_back v" using JArr by simp
  show ?case unfolding reads_back_def
  proof (intro allI impI)
    fix i n r assume n: "turns (JArr vs) \<le> n"
    then obtain m where m: "n = Suc m" "sum_list (map (\<lambda>v. Suc (turns v)) vs) \<le> m" by (cases n) auto
    have ws: "\<not> json_ws 0x5B" "\<not> json_ws 0x5D" by (simp_all add: json_ws_def)
    show "rd_val n (pr_json i (JArr vs) @ r) = Some (JArr vs, r)"
    proof (cases vs)
      case Nil
      then show ?thesis using m ws by simp
    next
      case (Cons v us)
      obtain c t where c: "pr_json (Suc i) v = c # t" "\<not> json_ws c" "c \<noteq> 0x5D" using pr_head [of v "Suc i"] JArr.prems Cons by auto
      have "\<exists>t'. skip_ws (comma_sep (map (\<lambda>v. nl (Suc i) @ pr_json (Suc i) v) vs) @ nl i @ 0x5D # r) = c # t'"
        using c Cons by (cases us) simp_all
      then show ?thesis using rd_arr_text [OF _ all m(2), of "Suc i" i r] m ws c Cons by auto
    qed
  qed
next
  case (JObj ms)
  have all: "\<forall>(k, v) \<in> set ms. valid_utf8 (bytes_of_string k) \<and> reads_back v" using JObj by fastforce
  show ?case unfolding reads_back_def
  proof (intro allI impI)
    fix i n r assume n: "turns (JObj ms) \<le> n"
    then obtain m where m: "n = Suc m" "sum_list (map (\<lambda>(k, v). Suc (turns v)) ms) \<le> m" by (cases n) auto
    have ws: "\<not> json_ws 0x7B" "\<not> json_ws 0x7D" "\<not> json_ws 0x22" by (simp_all add: json_ws_def)
    show "rd_val n (pr_json i (JObj ms) @ r) = Some (JObj ms, r)"
    proof (cases ms)
      case Nil
      then show ?thesis using m ws by simp
    next
      case (Cons kv us)
      have "\<exists>t'. skip_ws (comma_sep (map (\<lambda>(k, v). nl (Suc i) @ quoted k @ [0x3A, 0x20] @ pr_json (Suc i) v) ms) @ nl i @ 0x7D # r) = 0x22 # t'"
        using Cons ws by (cases us; cases kv) (simp_all add: quoted_def)
      then show ?thesis using rd_obj_text [OF _ all m(2), of "Suc i" i r] m ws Cons by auto
    qed
  qed
next
  case (JNum l)
  then show ?case unfolding reads_back_def using rd_val_num [of "bytes_of_string l"] by (auto simp: Suc_le_eq gr0_conv_Suc)
next
  case (JStr s)
  have "\<not> json_ws 0x22" by (simp add: json_ws_def)
  then show ?case unfolding reads_back_def using rd_raw_text [of s] JStr by (auto simp: Suc_le_eq gr0_conv_Suc)
next
  case (JBool b)
  then show ?case unfolding reads_back_def
    by (auto simp: Suc_le_eq gr0_conv_Suc byte_of_char_def json_ws_def rd_word_def split: if_splits)
next
  case JNull
  then show ?case unfolding reads_back_def
    by (auto simp: Suc_le_eq gr0_conv_Suc byte_of_char_def json_ws_def rd_word_def)
qed

text \<open>A text is at least as long as the turns that reading it takes.\<close>

lemma comma_sep_length:
  "\<forall>x \<in> set xs. f x \<le> length (g x) \<Longrightarrow> sum_list (map f xs) \<le> length (comma_sep (map g xs))"
proof (induction xs)
  case (Cons x xs)
  then show ?case by (cases xs) fastforce+
qed simp

lemma turns_le: "json_ok v \<Longrightarrow> turns v \<le> length (pr_json i v)"
proof (induction v arbitrary: i)
  case (JArr vs)
  have "sum_list (map (\<lambda>v. Suc (turns v)) vs) \<le> length (comma_sep (map (\<lambda>v. nl (Suc i) @ pr_json (Suc i) v) vs))"
  proof (rule comma_sep_length, rule ballI)
    fix v assume "v \<in> set vs"
    then show "Suc (turns v) \<le> length (nl (Suc i) @ pr_json (Suc i) v)" using JArr.IH [of v "Suc i"] JArr.prems by (auto simp: nl_def)
  qed
  then show ?case by simp
next
  case (JObj ms)
  have "Suc (turns v) \<le> length (nl (Suc i) @ quoted k @ [0x3A, 0x20] @ pr_json (Suc i) v)" if "(k, v) \<in> set ms" for k v
    using JObj.IH [OF that, of v "Suc i"] JObj.prems that by (auto simp: nl_def)
  then have "sum_list (map (\<lambda>(k, v). Suc (turns v)) ms) \<le>
      length (comma_sep (map (\<lambda>(k, v). nl (Suc i) @ quoted k @ [0x3A, 0x20] @ pr_json (Suc i) v) ms))"
    by (intro comma_sep_length) auto
  then show ?case by simp
next
  case (JNum l)
  then show ?case using number_not_empty by (cases l) auto
qed simp_all

lemma rd_json_text:
  assumes "json_ok v"
  shows "rd_json (pr_json i v) = Some v"
proof -
  have "turns v \<le> 2 * length (pr_json i v)" using turns_le [OF assms, of i] by simp
  then show ?thesis using reads_back_json [OF assms] unfolding reads_back_def rd_json_def
    by (metis append_Nil2 fst_conv option.map(2) stops_num_simps(3))
qed

text \<open>Decimal numbers are number literals.\<close>

lemma itoa_head: "0 < n \<Longrightarrow> \<exists>c t. bytes_of_string (itoa n) = c # t \<and> c \<noteq> 0x30"
proof (induction n rule: itoa.induct)
  case (1 n)
  show ?case
  proof (cases "n < 10")
    case True
    then have "n \<in> {1, 2, 3, 4, 5, 6, 7, 8, 9}" using "1.prems" less_10_cases [of n] by auto
    then show ?thesis by (auto simp: itoa.simps [of n] digit_char_def byte_of_char_def)
  next
    case False
    then have "0 < n div 10" by simp
    then obtain c t where "bytes_of_string (itoa (n div 10)) = c # t" "c \<noteq> 0x30" using "1.IH" False by blast
    then show ?thesis using False by (simp add: itoa.simps [of n])
  qed
qed

lemma itoa_digit_bytes: "list_all digit_byte (bytes_of_string (itoa n))"
proof -
  have "digit_byte (byte_of_char c)" if "c \<in> set ''0123456789''" for c
    using that by (auto simp: digit_byte_def byte_of_char_def)
  then have "\<forall>b \<in> set (bytes_of_string (itoa n)). digit_byte b" using itoa_chars [of n] by (auto simp: bytes_of_string_def)
  then show ?thesis by (simp add: list_all_iff)
qed

lemma is_number_itoa: "is_number (bytes_of_string (itoa n))"
proof -
  let ?s = "bytes_of_string (itoa n)"
  have ds: "takeWhile digit_byte ?s = ?s" "dropWhile digit_byte ?s = []"
    using itoa_digit_bytes [of n] by (simp_all add: takeWhile_eq_all_conv dropWhile_eq_Nil_conv list_all_iff)
  have ne: "?s \<noteq> []" by (metis itoa_nonempty length_bytes_of_string length_0_conv)
  then obtain c t where ct: "?s = c # t" by (cases ?s) auto
  have "c \<noteq> 0x2D" using itoa_digit_bytes [of n] ct by (auto simp: digit_byte_def word_le_def)
  then have m: "(case ?s of c # t \<Rightarrow> if c = 0x2D then t else ?s | [] \<Rightarrow> []) = ?s" using ct by simp
  have "hd ?s = 0x30 \<longrightarrow> length ?s = 1"
  proof
    assume "hd ?s = 0x30"
    then have "n = 0" by (metis gr0I itoa_head list.sel(1))
    then show "length ?s = 1" by (simp add: itoa.simps [of 0])
  qed
  then show ?thesis unfolding is_number_def m Let_def ds using ne by (simp add: frac_ok_def)
qed

lemma json_ok_itoa [simp]: "json_ok (JNum (itoa n))"
proof -
  have "list_all num_byte (bytes_of_string (itoa n))"
    using itoa_digit_bytes [of n] by (auto simp: list_all_iff num_byte_def digit_byte_def)
  then show ?thesis using is_number_itoa by simp
qed

end
