(* ===== verification/GoTime.thy ===== *)
theory GoTime
  imports Strutil "HOL-Library.Monad_Syntax"
begin

text \<open>
  What the code uses of package \<open>time\<close>: instants, their calendar dates, and the format RFC 3339 in which claims carry their
  dates.  \<open>pkg/types\<close> wraps it as \<open>Time3339\<close>, and \<open>schema.RFC3339FromTime\<close> prints it.
\<close>

section \<open>Instants\<close>

text \<open>Seconds and nanoseconds since 1970 and the offset of the zone in seconds.\<close>

record Time =
  tm_unix :: int
  tm_nsec :: int
  tm_off :: int

definition zeroTime :: Time where
  "zeroTime = \<lparr>tm_unix = - 62135596800, tm_nsec = 0, tm_off = 0\<rparr>"

definition time_IsZero :: "Time \<Rightarrow> bool" where
  "time_IsZero t \<longleftrightarrow> tm_unix t = - 62135596800 \<and> tm_nsec t = 0"

definition time_After :: "Time \<Rightarrow> Time \<Rightarrow> bool" where
  "time_After t u \<longleftrightarrow> tm_unix t > tm_unix u \<or> tm_unix t = tm_unix u \<and> tm_nsec t > tm_nsec u"

definition time_Before :: "Time \<Rightarrow> Time \<Rightarrow> bool" where
  "time_Before t u \<longleftrightarrow> time_After u t"

definition time_UTC :: "Time \<Rightarrow> Time" where
  "time_UTC t = t\<lparr>tm_off := 0\<rparr>"

section \<open>The calendar\<close>

definition is_leap :: "int \<Rightarrow> bool" where
  "is_leap y \<longleftrightarrow> y mod 4 = 0 \<and> (y mod 100 \<noteq> 0 \<or> y mod 400 = 0)"

definition daysIn :: "int \<Rightarrow> int \<Rightarrow> int" where
  "daysIn y m = (if m = 2 then (if is_leap y then 29 else 28) else if m \<in> {4, 6, 9, 11} then 30 else 31)"

text \<open>The days from the first of January of the year 1 to that of the year \<open>y\<close>, and to the first of a month within its year.\<close>

definition days_before_year :: "int \<Rightarrow> int" where
  "days_before_year y = 365 * (y - 1) + (y - 1) div 4 - (y - 1) div 100 + (y - 1) div 400"

fun days_before_month :: "int \<Rightarrow> nat \<Rightarrow> int" where
  "days_before_month y 0 = 0"
| "days_before_month y (Suc m) = days_before_month y m + (if m = 0 then 0 else daysIn y (int m))"

definition days_of_date :: "int \<Rightarrow> int \<Rightarrow> int \<Rightarrow> int" where
  "days_of_date y m d = days_before_year y + days_before_month y (nat m) + d - 1"

text \<open>1970 is 719162 days after the year 1.\<close>

definition unix_of :: "int \<Rightarrow> int \<Rightarrow> int \<Rightarrow> int \<Rightarrow> int \<Rightarrow> int \<Rightarrow> int \<Rightarrow> int" where
  "unix_of y mo d h mi s off = (days_of_date y mo d - 719162) * 86400 + h * 3600 + mi * 60 + s - off"

text \<open>
  The year of a day, by cycles of 400, 100, 4 and 1 years; the last day of a cycle of 400 or of 4 years belongs to its last year.
\<close>

definition year_of_days :: "int \<Rightarrow> int" where
  "year_of_days d =
     (let n400 = d div 146097; d = d mod 146097;
          n100 = min 3 (d div 36524); d = d - n100 * 36524;
          n4 = d div 1461; d = d mod 1461;
          n1 = min 3 (d div 365)
      in 400 * n400 + 100 * n100 + 4 * n4 + n1 + 1)"

fun month_of_yday :: "nat \<Rightarrow> int \<Rightarrow> int \<Rightarrow> int \<Rightarrow> int \<times> int" where
  "month_of_yday 0 y m d = (m, d + 1)"
| "month_of_yday (Suc n) y m d = (if d < daysIn y m then (m, d + 1) else month_of_yday n y (m + 1) (d - daysIn y m))"

definition date_of_days :: "int \<Rightarrow> int \<times> int \<times> int" where
  "date_of_days d = (let y = year_of_days d in (y, month_of_yday 11 y 1 (d - days_before_year y)))"

section \<open>RFC 3339\<close>

text \<open>The last \<open>w\<close> digits of a number.\<close>

fun pad :: "nat \<Rightarrow> int \<Rightarrow> string" where
  "pad 0 n = []"
| "pad (Suc w) n = pad w (n div 10) @ [digit_char (nat (n mod 10))]"

definition pad_year :: "int \<Rightarrow> string" where
  "pad_year y =
     (if y < 0 then CHR ''-'' # (if - y < 10000 then pad 4 (- y) else itoa (nat (- y)))
      else if y < 10000 then pad 4 y else itoa (nat y))"

definition drop_zeros :: "string \<Rightarrow> string" where
  "drop_zeros s = rev (dropWhile (\<lambda>c. c = CHR ''0'') (rev s))"

definition frac :: "int \<Rightarrow> string" where
  "frac ns = (if ns = 0 then '''' else CHR ''.'' # drop_zeros (pad 9 ns))"

definition zone :: "int \<Rightarrow> string" where
  "zone off =
     (if off = 0 then ''Z''
      else let m = \<bar>off\<bar> div 60 in (if off < 0 then ''-'' else ''+'') @ pad 2 (m div 60) @ '':'' @ pad 2 (m mod 60))"

text \<open>\<open>Format(time.RFC3339Nano)\<close>; without nanoseconds it is \<open>Format(time.RFC3339)\<close>.\<close>

definition format3339 :: "Time \<Rightarrow> string" where
  "format3339 t =
     (let l = tm_unix t + tm_off t;
          (y, mo, d) = date_of_days (l div 86400 + 719162);
          s = l mod 86400
      in pad_year y @ ''-'' @ pad 2 mo @ ''-'' @ pad 2 d @ ''T'' @
         pad 2 (s div 3600) @ '':'' @ pad 2 (s div 60 mod 60) @ '':'' @ pad 2 (s mod 60) @ frac (tm_nsec t) @ zone (tm_off t))"

definition is_dig :: "char \<Rightarrow> bool" where
  "is_dig c \<longleftrightarrow> CHR ''0'' \<le> c \<and> c \<le> CHR ''9''"

definition dec :: "string \<Rightarrow> int" where
  "dec s = foldl (\<lambda>n c. 10 * n + (of_char c - 48)) 0 s"

text \<open>A number of exactly \<open>w\<close> digits, and a given character.\<close>

definition rd_digits :: "nat \<Rightarrow> string \<Rightarrow> (int \<times> string) option" where
  "rd_digits w s =
     (if length s < w \<or> \<not> list_all is_dig (take w s) then None
      else Some (dec (take w s), drop w s))"

definition rd_char :: "char \<Rightarrow> string \<Rightarrow> string option" where
  "rd_char c s = (case s of [] \<Rightarrow> None | d # t \<Rightarrow> if d = c then Some t else None)"

text \<open>The hour may have one digit.\<close>

definition rd_hour :: "string \<Rightarrow> (int \<times> string) option" where
  "rd_hour s = (case rd_digits 2 s of Some r \<Rightarrow> Some r | None \<Rightarrow> rd_digits 1 s)"

text \<open>At most nine digits of a second.\<close>

definition rd_frac :: "string \<Rightarrow> int \<times> string" where
  "rd_frac s =
     (case s of
        c # t \<Rightarrow>
          (let ds = takeWhile is_dig (take 9 t)
           in if c = CHR ''.'' \<and> ds \<noteq> [] then
                (dec (ds @ replicate (9 - length ds) CHR ''0''), drop (length ds) t)
              else (0, s))
      | [] \<Rightarrow> (0, s))"

definition rd_zone :: "string \<Rightarrow> int option" where
  "rd_zone s =
     (if s = ''Z'' then Some 0
      else case s of
        c # t \<Rightarrow>
          if c \<noteq> CHR ''+'' \<and> c \<noteq> CHR ''-'' then None
          else do {
            (h, t) \<leftarrow> rd_digits 2 t;
            t \<leftarrow> rd_char CHR '':'' t;
            (m, t) \<leftarrow> rd_digits 2 t;
            if t \<noteq> [] \<or> h > 24 \<or> m > 60 then None
            else Some ((if c = CHR ''-'' then - 1 else 1) * (h * 3600 + m * 60))
          }
      | [] \<Rightarrow> None)"

text \<open>\<open>time.Parse(time.RFC3339Nano, s)\<close>, and also \<open>time.Parse(time.RFC3339, s)\<close>, which accepts a fraction all the same.\<close>

definition parse3339 :: "string \<Rightarrow> Time option" where
  "parse3339 s = do {
     (y, s) \<leftarrow> rd_digits 4 s; s \<leftarrow> rd_char CHR ''-'' s;
     (mo, s) \<leftarrow> rd_digits 2 s; s \<leftarrow> rd_char CHR ''-'' s;
     (d, s) \<leftarrow> rd_digits 2 s; s \<leftarrow> rd_char CHR ''T'' s;
     (h, s) \<leftarrow> rd_hour s; s \<leftarrow> rd_char CHR '':'' s;
     (mi, s) \<leftarrow> rd_digits 2 s; s \<leftarrow> rd_char CHR '':'' s;
     (sec, s) \<leftarrow> rd_digits 2 s;
     (let (ns, s) = rd_frac s in do {
        off \<leftarrow> rd_zone s;
        if mo < 1 \<or> mo > 12 \<or> d < 1 \<or> d > daysIn y mo \<or> h > 23 \<or> mi > 59 \<or> sec > 59 then None
        else Some \<lparr>tm_unix = unix_of y mo d h mi sec off, tm_nsec = ns, tm_off = off\<rparr>
      })
   }"

section \<open>Times in schema blobs\<close>

text \<open>\<open>types.Time3339\<close>: the zero value stands for no time.\<close>

definition time_String :: "Time \<Rightarrow> string" where
  "time_String t = format3339 (time_UTC t)"

definition time_MarshalJSON :: "Time \<Rightarrow> bytes" where
  "time_MarshalJSON t =
     (if time_IsZero t then bytes_of_string ''null'' else 0x22 # bytes_of_string (time_String t) @ [0x22])"

definition time_UnmarshalJSON :: "bytes \<Rightarrow> goerr + Time" where
  "time_UnmarshalJSON b =
     (if b = bytes_of_string ''null'' then Inr zeroTime
      else if length b < 2 \<or> hd b \<noteq> 0x22 \<or> last b \<noteq> 0x22
      then Inl (ErrText ''types: failed to unmarshal non-string value as an RFC 3339 time'')
      else let s = string_of_bytes (butlast (tl b))
        in if s = [] then Inr zeroTime
           else case parse3339 s of
               Some tm \<Rightarrow> Inr tm
             | None \<Rightarrow>
                 if take 19 s = ''0000-00-00T00:00:00'' then Inr zeroTime else Inl (ErrText ''parsing time''))"

definition ParseTime3339OrZero :: "string \<Rightarrow> Time" where
  "ParseTime3339OrZero v = (case parse3339 v of None \<Rightarrow> zeroTime | Some t \<Rightarrow> t)"

definition ParseTime3339OrNil :: "string \<Rightarrow> Time option" where
  "ParseTime3339OrNil v = parse3339 v"

definition time3339_IsZero :: "Time option \<Rightarrow> bool" where
  "time3339_IsZero t = (case t of None \<Rightarrow> True | Some t \<Rightarrow> time_IsZero t \<or> tm_unix t = 0)"

text \<open>A zone one minute west of UTC stands for an unknown zone; the location itself is not kept apart from its offset.\<close>

definition IsZoneKnown :: "Time \<Rightarrow> bool" where
  "IsZoneKnown t \<longleftrightarrow> tm_off t \<noteq> - 60"

definition RFC3339FromTime :: "Time \<Rightarrow> string" where
  "RFC3339FromTime t = format3339 (if IsZoneKnown t then time_UTC t else t)"

section \<open>The calendar is right\<close>

lemma days_before_year_parts:
  assumes "0 \<le> b" "b \<le> 3" "0 \<le> c" "c \<le> 24" "0 \<le> e" "e \<le> 3"
  shows "days_before_year (400 * a + 100 * b + 4 * c + e + 1) = 146097 * a + 36524 * b + 1461 * c + 365 * e"
proof -
  have "(400 * a + 100 * b + 4 * c + e) div 4 = 100 * a + 25 * b + c" using assms by linarith
  moreover have "(400 * a + 100 * b + 4 * c + e) div 100 = 4 * a + b" using assms by linarith
  moreover have "(400 * a + 100 * b + 4 * c + e) div 400 = a" using assms by linarith
  ultimately show ?thesis by (simp add: days_before_year_def)
qed

lemma year_of_days:
  shows "days_before_year (year_of_days d) \<le> d"
    and "d < days_before_year (year_of_days d) + (if is_leap (year_of_days d) then 366 else 365)"
proof -
  define a r where "a = d div 146097" and "r = d mod 146097"
  have d: "d = 146097 * a + r" "0 \<le> r" "r < 146097" by (simp_all add: a_def r_def)
  define b r2 where "b = min 3 (r div 36524)" and "r2 = r - b * 36524"
  have b: "0 \<le> b" "b \<le> 3" "0 \<le> r2" "r2 \<le> 36524" "b < 3 \<Longrightarrow> r2 < 36524" using d unfolding b_def r2_def by linarith+
  define c r3 where "c = r2 div 1461" and "r3 = r2 mod 1461"
  have c: "r2 = 1461 * c + r3" "0 \<le> r3" "r3 < 1461" "0 \<le> c" "c \<le> 24" using b by (simp_all add: c_def r3_def)
  define e where "e = min 3 (r3 div 365)"
  have e: "0 \<le> e" "e \<le> 3" "0 \<le> r3 - 365 * e" "r3 - 365 * e \<le> 365" "e < 3 \<Longrightarrow> r3 - 365 * e < 365" using c unfolding e_def by linarith+
  have y: "year_of_days d = 400 * a + 100 * b + 4 * c + e + 1"
    by (simp add: year_of_days_def Let_def a_def b_def c_def e_def r_def r2_def r3_def)
  have n: "days_before_year (year_of_days d) = d - (r3 - 365 * e)"
    using d c unfolding y days_before_year_parts [OF b(1,2) c(4,5) e(1,2)] r2_def by linarith
  show "days_before_year (year_of_days d) \<le> d" using n e by linarith
  have "is_leap (year_of_days d)" if "r3 - 365 * e = 365"
  proof -
    have e3: "e = 3" "r3 = 1460" using that e by linarith+
    have "(400 * a + 100 * b + 4 * c + 4) mod 4 = 0" by presburger
    moreover have "(400 * a + 100 * b + 4 * c + 4) mod 100 \<noteq> 0 \<or> (400 * a + 100 * b + 4 * c + 4) mod 400 = 0"
    proof (cases "c = 24")
      case True
      then have "b = 3" using b c e3 by linarith
      then show ?thesis using True by presburger
    next
      case False
      then have "(4 * c + 4 + 100 * (4 * a + b)) mod 100 = 4 * c + 4" using c unfolding mod_mult_self2 by simp
      moreover have "400 * a + 100 * b + 4 * c + 4 = 4 * c + 4 + 100 * (4 * a + b)" by simp
      ultimately have "(400 * a + 100 * b + 4 * c + 4) mod 100 = 4 * c + 4" by (simp only:)
      then show ?thesis using c(4) by linarith
    qed
    moreover have "year_of_days d = 400 * a + 100 * b + 4 * c + 4" using e3 y by simp
    ultimately show ?thesis by (simp only: is_leap_def)
  qed
  then show "d < days_before_year (year_of_days d) + (if is_leap (year_of_days d) then 366 else 365)"
    using n e by (smt (verit))
qed

lemma days_before_month_Suc: "1 \<le> m \<Longrightarrow> days_before_month y (nat (m + 1)) = days_before_month y (nat m) + daysIn y m"
  by (simp add: nat_add_distrib)

lemma month_of_yday:
  assumes "0 \<le> d" and "1 \<le> m" and "days_before_month y (nat m) + d < days_before_month y (nat (m + int n + 1))"
  shows "\<exists>m' d'. month_of_yday n y m d = (m', d') \<and> m \<le> m' \<and> m' \<le> m + int n \<and> 1 \<le> d' \<and> d' \<le> daysIn y m' \<and>
    days_before_month y (nat m') + d' - 1 = days_before_month y (nat m) + d"
  using assms
proof (induction n arbitrary: m d)
  case 0
  then show ?case using days_before_month_Suc [of m y] by simp
next
  case (Suc n)
  show ?case
  proof (cases "d < daysIn y m")
    case True
    then show ?thesis using Suc.prems by simp
  next
    case False
    then have "month_of_yday (Suc n) y m d = month_of_yday n y (m + 1) (d - daysIn y m)" by simp
    moreover have "\<exists>m' d'. month_of_yday n y (m + 1) (d - daysIn y m) = (m', d') \<and> m + 1 \<le> m' \<and> m' \<le> m + 1 + int n \<and> 1 \<le> d' \<and>
        d' \<le> daysIn y m' \<and> days_before_month y (nat m') + d' - 1 = days_before_month y (nat (m + 1)) + (d - daysIn y m)"
      using Suc.prems False days_before_month_Suc [of m y] by (intro Suc.IH) (simp_all add: algebra_simps)
    ultimately show ?thesis using days_before_month_Suc [of m y] Suc.prems by fastforce
  qed
qed

lemma days_before_month_13: "days_before_month y 13 = (if is_leap y then 366 else 365)"
  by (simp add: eval_nat_numeral daysIn_def)

lemma date_of_days:
  assumes "date_of_days d = (y, m, dd)"
  shows "1 \<le> m" "m \<le> 12" "1 \<le> dd" "dd \<le> daysIn y m" "days_of_date y m dd = d" "y = year_of_days d"
proof -
  let ?y = "year_of_days d"
  have b: "0 \<le> d - days_before_year ?y" "d - days_before_year ?y < days_before_month ?y 13"
    using year_of_days [of d] by (simp_all add: days_before_month_13 del: days_before_month.simps split: if_splits)
  obtain m' d' where md: "month_of_yday 11 ?y 1 (d - days_before_year ?y) = (m', d')" "1 \<le> m'" "m' \<le> 12" "1 \<le> d'" "d' \<le> daysIn ?y m'"
    "days_before_month ?y (nat m') + d' - 1 = days_before_month ?y 1 + (d - days_before_year ?y)"
    using month_of_yday [of "d - days_before_year ?y" 1 ?y 11] b by auto
  then show "1 \<le> m" "m \<le> 12" "1 \<le> dd" "dd \<le> daysIn y m" "days_of_date y m dd = d" "y = ?y"
    using assms by (auto simp: date_of_days_def Let_def days_of_date_def)
qed

section \<open>The text is read back\<close>

lemma is_dig_digit_char [simp]: "d < 10 \<Longrightarrow> is_dig (digit_char d)"
  unfolding less_10_cases by (elim insertE emptyE) (simp_all add: digit_char_def is_dig_def)

lemma of_char_digit_char: "d < 10 \<Longrightarrow> of_char (digit_char d) - 48 = (of_nat d :: int)"
  unfolding less_10_cases by (elim insertE emptyE) (simp_all add: digit_char_def)

lemma dec_snoc: "dec (s @ [c]) = 10 * dec s + (of_char c - 48)"
  by (simp add: dec_def)

lemma pad_props:
  "length (pad w n) = w" "list_all is_dig (pad w n)" "0 \<le> n \<Longrightarrow> n < 10 ^ w \<Longrightarrow> dec (pad w n) = n"
proof (induction w arbitrary: n)
  case (Suc w)
  { case 1
    show ?case using Suc(1) by simp
  next
    case 2
    show ?case using Suc(2) by simp
  next
    case 3
    then have "n div 10 < 10 ^ w" by simp
    then have "dec (pad w (n div 10)) = n div 10" using 3 Suc(3) [of "n div 10"] by simp
    then show ?case by (simp add: dec_snoc of_char_digit_char)
  }
qed (simp_all add: dec_def)

lemma rd_digits_pad: "0 \<le> n \<Longrightarrow> n < 10 ^ w \<Longrightarrow> rd_digits w (pad w n @ r) = Some (n, r)"
  using pad_props by (simp add: rd_digits_def)

lemma rd_char_Cons [simp]: "rd_char c (c # s) = Some s"
  by (simp add: rd_char_def)

lemma drop_zeros_split: "\<exists>k. s = drop_zeros s @ replicate k CHR ''0''"
proof -
  let ?z = "\<lambda>c. c = CHR ''0''"
  have "takeWhile ?z (rev s) = replicate (length (takeWhile ?z (rev s))) CHR ''0''"
    by (rule replicate_eqI) (auto dest: set_takeWhileD)
  moreover have "rev s = takeWhile ?z (rev s) @ dropWhile ?z (rev s)" by simp
  ultimately have "rev s = replicate (length (takeWhile ?z (rev s))) CHR ''0'' @ dropWhile ?z (rev s)" by simp
  then have "s = rev (replicate (length (takeWhile ?z (rev s))) CHR ''0'' @ dropWhile ?z (rev s))" by (simp add: rev_swap)
  then show ?thesis unfolding drop_zeros_def rev_append rev_replicate by blast
qed

lemma dec_zeros: "dec (replicate k CHR ''0'') = 0"
  unfolding dec_def by (induction k) simp_all

text \<open>Hours, minutes and seconds.\<close>

lemma hms: "s div 3600 * 3600 + s div 60 mod 60 * 60 + s mod 60 = (s :: int)"
proof -
  have "s div 3600 = s div 60 div 60" using zdiv_zmult2_eq [of 60 s 60] by simp
  then show ?thesis using div_mult_mod_eq [of s 60] div_mult_mod_eq [of "s div 60" 60] by linarith
qed

lemma rd_frac_frac:
  assumes "0 \<le> ns" and "ns < 10 ^ 9" and "\<And>c t. z = c # t \<Longrightarrow> \<not> is_dig c \<and> c \<noteq> CHR ''.''"
  shows "rd_frac (frac ns @ z) = (ns, z)"
proof (cases "ns = 0")
  case True
  then show ?thesis using assms(3) by (auto simp: frac_def rd_frac_def split: list.split)
next
  case False
  let ?p = "pad 9 ns" let ?ds = "drop_zeros ?p"
  obtain k where k: "?p = ?ds @ replicate k CHR ''0''" using drop_zeros_split by blast
  have len: "length ?ds + k = 9" using pad_props(1) [of 9 ns] k by (metis length_append length_replicate)
  have digs: "list_all is_dig ?ds" using pad_props(2) [of 9 ns] k by (metis list_all_append)
  have tw: "takeWhile is_dig (take 9 (?ds @ z)) = ?ds"
  proof -
    have "takeWhile is_dig (?ds @ take (9 - length ?ds) z) = ?ds"
    proof (cases "take (9 - length ?ds) z")
      case (Cons c t)
      then have "\<not> is_dig c" using assms(3) by (cases z; cases "9 - length ?ds") auto
      then show ?thesis using digs Cons by (simp add: takeWhile_append list_all_iff)
    qed (use digs in \<open>simp add: list_all_iff takeWhile_append del: take_eq_Nil\<close>)
    then show ?thesis using len by simp
  qed
  have "?ds \<noteq> []"
  proof
    assume "?ds = []"
    then have "?p = replicate k CHR ''0''" using k by simp
    then have "dec ?p = 0" by (simp only: dec_zeros)
    then show False using pad_props(3) [OF assms(1,2)] False by simp
  qed
  moreover have "dec (?ds @ replicate (9 - length ?ds) CHR ''0'') = ns"
    using k len pad_props(3) [OF assms(1,2)] by (metis add_diff_cancel_left')
  ultimately show ?thesis using False tw by (simp add: frac_def rd_frac_def Let_def)
qed

lemma rd_zone_zone:
  assumes "off mod 60 = 0" and "\<bar>off\<bar> < 90000"
  shows "rd_zone (zone off) = Some off"
proof (cases "off = 0")
  case False
  define h m where "h = \<bar>off\<bar> div 60 div 60" and "m = \<bar>off\<bar> div 60 mod 60"
  have r: "0 \<le> h" "h \<le> 24" "0 \<le> m" "m < 60" using assms(2) unfolding h_def m_def by auto
  have "\<bar>off\<bar> mod 60 = 0" using assms(1) by presburger
  then have hm: "h * 3600 + m * 60 = \<bar>off\<bar>"
    using div_mult_mod_eq [of "\<bar>off\<bar>" 60] div_mult_mod_eq [of "\<bar>off\<bar> div 60" 60] unfolding h_def m_def by linarith
  have z: "zone off = (if off < 0 then CHR ''-'' else CHR ''+'') # pad 2 h @ CHR '':'' # pad 2 m"
    using False by (simp add: zone_def Let_def h_def m_def del: pad.simps)
  have "rd_digits 2 (pad 2 h @ x) = Some (h, x)" "rd_digits 2 (pad 2 m) = Some (m, [])" for x
    using r rd_digits_pad [of h 2] rd_digits_pad [of m 2 "[]"] by (simp_all del: pad.simps)
  then show ?thesis using r hm by (simp add: z rd_zone_def del: pad.simps)
qed (simp add: zone_def rd_zone_def)

text \<open>A time that the format can express: four digits of a year, nanoseconds within a second, a zone of whole minutes.\<close>

definition time_ok :: "Time \<Rightarrow> bool" where
  "time_ok t \<longleftrightarrow> 0 \<le> tm_nsec t \<and> tm_nsec t < 10 ^ 9 \<and> tm_off t mod 60 = 0 \<and> \<bar>tm_off t\<bar> < 90000 \<and>
     (let y = year_of_days ((tm_unix t + tm_off t) div 86400 + 719162) in 0 \<le> y \<and> y < 10000)"

lemma zone_head: "zone off = c # t \<Longrightarrow> \<not> is_dig c \<and> c \<noteq> CHR ''.''"
proof -
  assume z: "zone off = c # t"
  have "\<exists>X. zone off = (if off = 0 then ''Z'' else (if off < 0 then ''-'' else ''+'') @ X)" unfolding zone_def Let_def by blast
  then have "c \<in> {CHR ''Z'', CHR ''-'', CHR ''+''}" using z by (elim exE) (simp split: if_splits)
  then show ?thesis by (elim insertE) (simp_all add: is_dig_def)
qed

lemma parse_format3339:
  assumes "time_ok t"
  shows "parse3339 (format3339 t) = Some t"
proof -
  let ?l = "tm_unix t + tm_off t"
  obtain y m d where date: "date_of_days (?l div 86400 + 719162) = (y, m, d)" by (cases "date_of_days (?l div 86400 + 719162)") auto
  note D = date_of_days [OF date]
  have y: "0 \<le> y" "y < 10 ^ 4" using assms D(6) by (simp_all add: time_ok_def Let_def)
  have dd: "d \<le> 31" using D(4) by (simp add: daysIn_def split: if_splits)
  define sod where "sod = ?l mod 86400"
  define h mi sec where "h = sod div 3600" and "mi = sod div 60 mod 60" and "sec = sod mod 60"
  have sod: "0 \<le> sod" "sod < 86400" by (simp_all add: sod_def)
  have s: "0 \<le> h" "h \<le> 23" "0 \<le> mi" "mi \<le> 59" "0 \<le> sec" "sec \<le> 59" using sod unfolding h_def mi_def sec_def by simp_all
  have "h * 3600 + mi * 60 + sec = sod" using hms [of sod] by (simp only: h_def mi_def sec_def)
  then have u: "unix_of y m d h mi sec (tm_off t) = tm_unix t"
  proof -
    assume hs: "h * 3600 + mi * 60 + sec = sod"
    define q where "q = ?l div 86400"
    have "q * 86400 + sod = ?l" unfolding q_def sod_def by (rule div_mult_mod_eq)
    moreover have "days_of_date y m d - 719162 = q" using D(5) by (simp add: q_def)
    ultimately show ?thesis using hs by (simp add: unix_of_def)
  qed
  have two: "rd_digits 2 (pad 2 n @ r) = Some (n, r)" if "0 \<le> n" "n \<le> 59" for n r using that by (intro rd_digits_pad) simp_all
  have nums: "rd_digits 4 (pad 4 y @ r) = Some (y, r)" "rd_digits 2 (pad 2 m @ r) = Some (m, r)" "rd_digits 2 (pad 2 d @ r) = Some (d, r)"
    "rd_digits 2 (pad 2 mi @ r) = Some (mi, r)" "rd_digits 2 (pad 2 sec @ r) = Some (sec, r)" "rd_hour (pad 2 h @ r) = Some (h, r)" for r
    using rd_digits_pad [OF y] D(1-3) dd s by (simp_all add: two rd_hour_def del: pad.simps)
  have f: "rd_frac (frac (tm_nsec t) @ zone (tm_off t)) = (tm_nsec t, zone (tm_off t))"
    using assms zone_head by (intro rd_frac_frac) (simp_all add: time_ok_def)
  have z: "rd_zone (zone (tm_off t)) = Some (tm_off t)" using assms by (intro rd_zone_zone) (simp_all add: time_ok_def)
  have py: "pad_year y = pad 4 y" using y by (simp add: pad_year_def)
  have fmt: "format3339 t = pad 4 y @ ''-'' @ pad 2 m @ ''-'' @ pad 2 d @ ''T'' @ pad 2 h @ '':'' @ pad 2 mi @ '':'' @ pad 2 sec @
      frac (tm_nsec t) @ zone (tm_off t)"
    unfolding format3339_def Let_def date prod.case py h_def mi_def sec_def sod_def ..
  show ?thesis unfolding fmt parse3339_def using D(1-4) s by (simp add: nums f z u del: pad.simps)
qed

end
