(* ===== verification/Schema.thy ===== *)
theory Schema
  imports Json GoTime Blob "HOL-Library.AList"
begin

text \<open>
  Package \<open>pkg/schema\<close>: schema blobs as the JSON text of a map (\<open>mapJSON\<close>, \<open>Builder\<close>), as the struct that is decoded from it
  (\<open>superset\<close>), and the operations on both (\<open>schema.go\<close>, \<open>blob.go\<close>).
\<close>

section \<open>Values of a builder's map\<close>

record BytesPart =
  bp_Size :: u64
  bp_BlobRef :: Ref
  bp_BytesRef :: Ref
  bp_Offset :: u64

text \<open>
  The dynamic types that the code stores in a \<open>map[string]interface{}\<close>; \<open>VOther\<close> is a value of any other type, with the JSON that
  it marshals to (a search query).
\<close>

datatype gval =
    VNil
  | VStr string
  | VInt int
  | VByte u8
  | VUint u64
  | VBool bool
  | VNumber string
  | VAny "gval list"
  | VStrs "string list"
  | VMap "(string \<times> gval) list"
  | VMaps "(string \<times> gval) list list"
  | VParts "BytesPart list"
  | VOther json

type_synonym gmap = "(string \<times> gval) list"

definition jstr :: "string \<Rightarrow> json" where
  "jstr s = JStr (enc_str (bytes_of_string s))"

definition itoa_int :: "int \<Rightarrow> string" where
  "itoa_int n = (if n < 0 then CHR ''-'' # itoa (nat (- n)) else itoa (nat n))"

text \<open>Fields with the option \<open>omitempty\<close> are left out when they are zero, but a struct, as a reference is, never is.\<close>

definition part_struct :: "BytesPart \<Rightarrow> json" where
  "part_struct p =
     JObj ([(''size'', JNum (itoa (unat (bp_Size p))))] @
       map (\<lambda>(k, r). (k, if ref_Valid r then jstr (ref_String r) else JNull)) [(''blobRef'', bp_BlobRef p), (''bytesRef'', bp_BytesRef p)] @
       (if bp_Offset p \<noteq> 0 then [(''offset'', JNum (itoa (unat (bp_Offset p))))] else []))"

text \<open>What \<open>Marshal\<close> makes of a value; the members of a map are written in the order of their keys.\<close>

fun to_json :: "gval \<Rightarrow> json" where
  "to_json VNil = JNull"
| "to_json (VStr s) = jstr s"
| "to_json (VInt n) = JNum (itoa_int n)"
| "to_json (VByte b) = JNum (itoa (unat b))"
| "to_json (VUint w) = JNum (itoa (unat w))"
| "to_json (VBool b) = JBool b"
| "to_json (VNumber l) = JNum l"
| "to_json (VAny vs) = JArr (map to_json vs)"
| "to_json (VStrs ss) = JArr (map jstr ss)"
| "to_json (VMap m) = JObj (sort_key fst (map (\<lambda>(k, v). (k, to_json v)) m))"
| "to_json (VMaps ms) = JArr (map (\<lambda>m. JObj (sort_key fst (map (\<lambda>(k, v). (k, to_json v)) m))) ms)"
| "to_json (VParts ps) = JArr (map part_struct ps)"
| "to_json (VOther j) = j"

text \<open>\<open>fmt\<close>'s verb \<open>%v\<close>.\<close>

fun spaced :: "string list \<Rightarrow> string" where
  "spaced [] = []"
| "spaced [s] = s"
| "spaced (s # t # ss) = s @ '' '' @ spaced (t # ss)"

fun fmt_v :: "gval \<Rightarrow> string" where
  "fmt_v VNil = ''<nil>''"
| "fmt_v (VStr s) = s"
| "fmt_v (VInt n) = itoa_int n"
| "fmt_v (VByte b) = itoa (unat b)"
| "fmt_v (VUint w) = itoa (unat w)"
| "fmt_v (VBool b) = (if b then ''true'' else ''false'')"
| "fmt_v (VNumber l) = l"
| "fmt_v (VAny vs) = ''['' @ spaced (map fmt_v vs) @ '']''"
| "fmt_v (VStrs ss) = ''['' @ spaced ss @ '']''"
| "fmt_v (VMap m) = ''map['' @ spaced (map (\<lambda>(k, v). k @ '':'' @ fmt_v v) m) @ '']''"
| "fmt_v (VMaps ms) = ''['' @ spaced (map (\<lambda>m. ''map['' @ spaced (map (\<lambda>(k, v). k @ '':'' @ fmt_v v) m) @ '']'') ms) @ '']''"
| "fmt_v (VParts ps) = ''[]''"
| "fmt_v (VOther j) = ''&{}''"

section \<open>The superset of the schema's fields\<close>

text \<open>A nil pointer among the parts is \<open>None\<close>; values decoded into an \<open>interface{}\<close> stay JSON, nil being no value.\<close>

record superset =
  ss_BlobRef :: Ref
  ss_Version :: int
  ss_Type :: string
  ss_Signer :: Ref
  ss_Sig :: string
  ss_ClaimType :: string
  ss_ClaimDate :: Time
  ss_Permanode :: Ref
  ss_Attribute :: string
  ss_Value :: string
  ss_FileName :: string
  ss_FileNameBytes :: "json list"
  ss_SymlinkTarget :: string
  ss_SymlinkTargetBytes :: "json list"
  ss_UnixPermission :: string
  ss_UnixOwnerId :: int
  ss_UnixOwner :: string
  ss_UnixGroupId :: int
  ss_UnixGroup :: string
  ss_UnixMtime :: string
  ss_UnixCtime :: string
  ss_UnixAtime :: string
  ss_Parts :: "BytesPart option list"
  ss_Entries :: Ref
  ss_Members :: "Ref list"
  ss_Search :: "json option"
  ss_Target :: Ref
  ss_Transitive :: bool
  ss_AuthType :: string
  ss_Expires :: Time

definition zeroPart :: BytesPart where
  "zeroPart = \<lparr>bp_Size = 0, bp_BlobRef = zeroRef, bp_BytesRef = zeroRef, bp_Offset = 0\<rparr>"

definition zeroSuperset :: superset where
  "zeroSuperset =
     \<lparr>ss_BlobRef = zeroRef, ss_Version = 0, ss_Type = [], ss_Signer = zeroRef, ss_Sig = [], ss_ClaimType = [],
      ss_ClaimDate = zeroTime, ss_Permanode = zeroRef, ss_Attribute = [], ss_Value = [], ss_FileName = [], ss_FileNameBytes = [],
      ss_SymlinkTarget = [], ss_SymlinkTargetBytes = [], ss_UnixPermission = [], ss_UnixOwnerId = 0, ss_UnixOwner = [],
      ss_UnixGroupId = 0, ss_UnixGroup = [], ss_UnixMtime = [], ss_UnixCtime = [], ss_UnixAtime = [], ss_Parts = [],
      ss_Entries = zeroRef, ss_Members = [], ss_Search = None, ss_Target = zeroRef, ss_Transitive = False, ss_AuthType = [],
      ss_Expires = zeroTime\<rparr>"

subsection \<open>Decoding a value into a field of a given type\<close>

text \<open>The field keeps its value on \<open>null\<close>; a value of another type is an error.\<close>

definition dec_string :: "string \<Rightarrow> json \<Rightarrow> string option" where
  "dec_string cur v = (case v of JNull \<Rightarrow> Some cur | JStr raw \<Rightarrow> Some (string_of_bytes (unquote raw)) | _ \<Rightarrow> None)"

definition dec_bool :: "bool \<Rightarrow> json \<Rightarrow> bool option" where
  "dec_bool cur v = (case v of JNull \<Rightarrow> Some cur | JBool b \<Rightarrow> Some b | _ \<Rightarrow> None)"

definition dec_u64 :: "u64 \<Rightarrow> json \<Rightarrow> u64 option" where
  "dec_u64 cur v =
     (case v of
        JNull \<Rightarrow> Some cur
      | JNum l \<Rightarrow> (case ParseUintBytes (bytes_of_string l) 10 64 of (n, None) \<Rightarrow> Some n | _ \<Rightarrow> None)
      | _ \<Rightarrow> None)"

text \<open>\<open>strconv.ParseInt(s, 10, 64)\<close>.\<close>

definition parse_int :: "string \<Rightarrow> int option" where
  "parse_int l =
     (case l of
        [] \<Rightarrow> None
      | c # t \<Rightarrow>
          (let neg = (c = CHR ''-''); s = (if neg \<or> c = CHR ''+'' then t else l)
           in case ParseUintBytes (bytes_of_string s) 10 64 of
                (n, None) \<Rightarrow>
                  if neg then (if uint n \<le> 2 ^ 63 then Some (- uint n) else None)
                  else if uint n < 2 ^ 63 then Some (uint n) else None
              | _ \<Rightarrow> None))"

definition dec_int :: "int \<Rightarrow> json \<Rightarrow> int option" where
  "dec_int cur v = (case v of JNull \<Rightarrow> Some cur | JNum l \<Rightarrow> parse_int l | _ \<Rightarrow> None)"

text \<open>References and times have decoders of their own, which are given the text of the value.\<close>

definition dec_ref :: "Ref \<Rightarrow> json \<Rightarrow> Ref option" where
  "dec_ref cur v = (case UnmarshalJSON cur (pr_json 0 v) of (None, r) \<Rightarrow> Some r | _ \<Rightarrow> None)"

definition dec_time :: "json \<Rightarrow> Time option" where
  "dec_time v = (case time_UnmarshalJSON (pr_json 0 v) of Inr t \<Rightarrow> Some t | _ \<Rightarrow> None)"

definition dec_any :: "json \<Rightarrow> json option" where
  "dec_any v = (if v = JNull then None else Some v)"

text \<open>A slice: the elements it has are decoded over, further ones start from zero.\<close>

fun dec_elems :: "('a \<Rightarrow> json \<Rightarrow> 'a option) \<Rightarrow> 'a \<Rightarrow> 'a list \<Rightarrow> json list \<Rightarrow> 'a list option" where
  "dec_elems f z cur [] = Some []"
| "dec_elems f z cur (v # vs) =
     (case f (case cur of [] \<Rightarrow> z | x # _ \<Rightarrow> x) v of
        None \<Rightarrow> None
      | Some x \<Rightarrow> map_option (Cons x) (dec_elems f z (tl cur) vs))"

definition dec_slice :: "('a \<Rightarrow> json \<Rightarrow> 'a option) \<Rightarrow> 'a \<Rightarrow> 'a list \<Rightarrow> json \<Rightarrow> 'a list option" where
  "dec_slice f z cur v = (case v of JNull \<Rightarrow> Some [] | JArr vs \<Rightarrow> dec_elems f z cur vs | _ \<Rightarrow> None)"

text \<open>The members of an object, in turn; a name that no field has is skipped.\<close>

fun dec_members :: "(string \<Rightarrow> 'a \<Rightarrow> json \<Rightarrow> 'a option) \<Rightarrow> 'a \<Rightarrow> (string \<times> json) list \<Rightarrow> 'a option" where
  "dec_members f x [] = Some x"
| "dec_members f x ((k, v) # ms) = (case f k x v of None \<Rightarrow> None | Some x \<Rightarrow> dec_members f x ms)"

definition dec_struct :: "(string \<Rightarrow> 'a \<Rightarrow> json \<Rightarrow> 'a option) \<Rightarrow> 'a \<Rightarrow> json \<Rightarrow> 'a option" where
  "dec_struct f x v = (case v of JNull \<Rightarrow> Some x | JObj ms \<Rightarrow> dec_members f x ms | _ \<Rightarrow> None)"

text \<open>
  The field of a member: the one of that very name, or else the first whose name differs only in case.  The long s and the
  Kelvin sign are the two characters outside ASCII that fold to letters of it.
\<close>

fun fold_key :: "bytes \<Rightarrow> bytes" where
  "fold_key (a # b # c # s) =
     (if a = 0xC5 \<and> b = 0xBF then 0x73 # fold_key (c # s)
      else if a = 0xE2 \<and> b = 0x84 \<and> c = 0xAA then 0x6B # fold_key s
      else (if 0x41 \<le> a \<and> a \<le> 0x5A then a + 0x20 else a) # fold_key (b # c # s))"
| "fold_key [a, b] =
     (if a = 0xC5 \<and> b = 0xBF then [0x73]
      else map (\<lambda>a. if 0x41 \<le> a \<and> a \<le> 0x5A then a + 0x20 else a) [a, b])"
| "fold_key [a] = [if 0x41 \<le> a \<and> a \<le> 0x5A then a + 0x20 else a]"
| "fold_key [] = []"

definition field_name :: "string list \<Rightarrow> string \<Rightarrow> string option" where
  "field_name names k =
     (if k \<in> set names then Some k
      else find (\<lambda>n. fold_key (bytes_of_string n) = fold_key (bytes_of_string k)) names)"

subsection \<open>The two structs\<close>

definition part_fields :: "string list" where
  "part_fields = [''size'', ''blobRef'', ''bytesRef'', ''offset'']"

definition dec_part_field :: "string \<Rightarrow> BytesPart \<Rightarrow> json \<Rightarrow> BytesPart option" where
  "dec_part_field k p v =
     (case field_name part_fields k of
        None \<Rightarrow> Some p
      | Some n \<Rightarrow>
          if n = ''size'' then map_option (\<lambda>x. p\<lparr>bp_Size := x\<rparr>) (dec_u64 (bp_Size p) v)
          else if n = ''blobRef'' then map_option (\<lambda>x. p\<lparr>bp_BlobRef := x\<rparr>) (dec_ref (bp_BlobRef p) v)
          else if n = ''bytesRef'' then map_option (\<lambda>x. p\<lparr>bp_BytesRef := x\<rparr>) (dec_ref (bp_BytesRef p) v)
          else map_option (\<lambda>x. p\<lparr>bp_Offset := x\<rparr>) (dec_u64 (bp_Offset p) v))"

definition dec_part :: "BytesPart option \<Rightarrow> json \<Rightarrow> BytesPart option option" where
  "dec_part cur v =
     (if v = JNull then Some None
      else map_option Some (dec_struct dec_part_field (case cur of None \<Rightarrow> zeroPart | Some p \<Rightarrow> p) v))"

text \<open>The decoder of each field, by the name in its tag.\<close>

definition superset_decoders :: "(string \<times> (superset \<Rightarrow> json \<Rightarrow> superset option)) list" where
  "superset_decoders =
     (let str = (\<lambda>get put ss v. map_option (\<lambda>x. put x ss) (dec_string (get ss) v));
          ref = (\<lambda>get put ss v. map_option (\<lambda>x. put x ss) (dec_ref (get ss) v));
          num = (\<lambda>get put ss v. map_option (\<lambda>x. put x ss) (dec_int (get ss) v));
          tm = (\<lambda>put ss v. map_option (\<lambda>x. put x ss) (dec_time v));
          any = (\<lambda>get put ss v. map_option (\<lambda>x. put x ss) (dec_slice (\<lambda>_ v. Some v) JNull (get ss) v))
      in [(''BlobRef'', ref ss_BlobRef (\<lambda>x ss. ss\<lparr>ss_BlobRef := x\<rparr>)),
          (''camliVersion'', num ss_Version (\<lambda>x ss. ss\<lparr>ss_Version := x\<rparr>)),
          (''camliType'', str ss_Type (\<lambda>x ss. ss\<lparr>ss_Type := x\<rparr>)),
          (''camliSigner'', ref ss_Signer (\<lambda>x ss. ss\<lparr>ss_Signer := x\<rparr>)),
          (''camliSig'', str ss_Sig (\<lambda>x ss. ss\<lparr>ss_Sig := x\<rparr>)),
          (''claimType'', str ss_ClaimType (\<lambda>x ss. ss\<lparr>ss_ClaimType := x\<rparr>)),
          (''claimDate'', tm (\<lambda>x ss. ss\<lparr>ss_ClaimDate := x\<rparr>)),
          (''permaNode'', ref ss_Permanode (\<lambda>x ss. ss\<lparr>ss_Permanode := x\<rparr>)),
          (''attribute'', str ss_Attribute (\<lambda>x ss. ss\<lparr>ss_Attribute := x\<rparr>)),
          (''value'', str ss_Value (\<lambda>x ss. ss\<lparr>ss_Value := x\<rparr>)),
          (''fileName'', str ss_FileName (\<lambda>x ss. ss\<lparr>ss_FileName := x\<rparr>)),
          (''fileNameBytes'', any ss_FileNameBytes (\<lambda>x ss. ss\<lparr>ss_FileNameBytes := x\<rparr>)),
          (''symlinkTarget'', str ss_SymlinkTarget (\<lambda>x ss. ss\<lparr>ss_SymlinkTarget := x\<rparr>)),
          (''symlinkTargetBytes'', any ss_SymlinkTargetBytes (\<lambda>x ss. ss\<lparr>ss_SymlinkTargetBytes := x\<rparr>)),
          (''unixPermission'', str ss_UnixPermission (\<lambda>x ss. ss\<lparr>ss_UnixPermission := x\<rparr>)),
          (''unixOwnerId'', num ss_UnixOwnerId (\<lambda>x ss. ss\<lparr>ss_UnixOwnerId := x\<rparr>)),
          (''unixOwner'', str ss_UnixOwner (\<lambda>x ss. ss\<lparr>ss_UnixOwner := x\<rparr>)),
          (''unixGroupId'', num ss_UnixGroupId (\<lambda>x ss. ss\<lparr>ss_UnixGroupId := x\<rparr>)),
          (''unixGroup'', str ss_UnixGroup (\<lambda>x ss. ss\<lparr>ss_UnixGroup := x\<rparr>)),
          (''unixMtime'', str ss_UnixMtime (\<lambda>x ss. ss\<lparr>ss_UnixMtime := x\<rparr>)),
          (''unixCtime'', str ss_UnixCtime (\<lambda>x ss. ss\<lparr>ss_UnixCtime := x\<rparr>)),
          (''unixAtime'', str ss_UnixAtime (\<lambda>x ss. ss\<lparr>ss_UnixAtime := x\<rparr>)),
          (''parts'', \<lambda>ss v. map_option (\<lambda>x. ss\<lparr>ss_Parts := x\<rparr>) (dec_slice dec_part None (ss_Parts ss) v)),
          (''entries'', ref ss_Entries (\<lambda>x ss. ss\<lparr>ss_Entries := x\<rparr>)),
          (''members'', \<lambda>ss v. map_option (\<lambda>x. ss\<lparr>ss_Members := x\<rparr>) (dec_slice dec_ref zeroRef (ss_Members ss) v)),
          (''search'', \<lambda>ss v. Some (ss\<lparr>ss_Search := dec_any v\<rparr>)),
          (''target'', ref ss_Target (\<lambda>x ss. ss\<lparr>ss_Target := x\<rparr>)),
          (''transitive'', \<lambda>ss v. map_option (\<lambda>x. ss\<lparr>ss_Transitive := x\<rparr>) (dec_bool (ss_Transitive ss) v)),
          (''authType'', str ss_AuthType (\<lambda>x ss. ss\<lparr>ss_AuthType := x\<rparr>)),
          (''expires'', tm (\<lambda>x ss. ss\<lparr>ss_Expires := x\<rparr>))])"

definition dec_field :: "string \<Rightarrow> superset \<Rightarrow> json \<Rightarrow> superset option" where
  "dec_field k ss v =
     (case field_name (map fst superset_decoders) k of
        None \<Rightarrow> Some ss
      | Some n \<Rightarrow> (case map_of superset_decoders n of None \<Rightarrow> Some ss | Some d \<Rightarrow> d ss v))"

definition MaxSchemaBlobSize :: nat where
  "MaxSchemaBlobSize = 2 ^ 20"

text \<open>A value that is complete before the source fails is decoded all the same.\<close>

definition parseSuperset :: "reader \<Rightarrow> goerr + superset" where
  "parseSuperset r =
     (case rd_json (rd_data (limit_reader r MaxSchemaBlobSize)) of
        None \<Rightarrow> Inl (case rd_err (limit_reader r MaxSchemaBlobSize) of Some e \<Rightarrow> e | None \<Rightarrow> ErrText ''invalid JSON'')
      | Some v \<Rightarrow>
          (case dec_struct dec_field zeroSuperset v of
             None \<Rightarrow> Inl (ErrText ''json: cannot unmarshal'')
           | Some ss \<Rightarrow> Inr ss))"

definition schema_isASCIIWhite :: "u8 \<Rightarrow> bool" where
  "schema_isASCIIWhite b \<longleftrightarrow> b = 0x20 \<or> b = 0x09 \<or> b = 0x0D \<or> b = 0x0A"

text \<open>A schema blob: its reference, its text and the decoded struct.\<close>

record SBlob =
  sb_br :: Ref
  sb_str :: bytes
  sb_ss :: superset

text \<open>
  The decoder may have read ahead, what follows the value is then not looked at; whatever is left of the source after the
  decoder's buffer must be white space.  \<open>ahead\<close> is how many bytes of the source the decoder took, at least the value itself.  A source that goes on for more than
  \<open>MaxSchemaBlobSize\<close> is always an error, of one kind or another.
\<close>

definition json_end :: "bytes \<Rightarrow> nat" where
  "json_end s = (case rd_val (2 * length s) s of None \<Rightarrow> length s | Some (_, r) \<Rightarrow> length s - length r)"

definition BlobFromReader :: "nat \<Rightarrow> Ref \<Rightarrow> reader \<Rightarrow> goerr + SBlob" where
  "BlobFromReader ahead ref r =
     (if \<not> ref_Valid ref then Inl (ErrText ''schema.BlobFromReader: invalid blobref'')
      else
        case parseSuperset r of
          Inl e \<Rightarrow> Inl e
        | Inr ss \<Rightarrow>
            (let rest = drop (max ahead (json_end (rd_data r))) (rd_data r)
             in if \<not> list_all schema_isASCIIWhite rest then Inl (ErrText ''invalid bytes after JSON schema blob'')
                else case rd_err r of
                    Some e \<Rightarrow> Inl e
                  | None \<Rightarrow>
                      if length (rd_data r) > MaxSchemaBlobSize
                      then Inl (ErrText ''schema: metadata blob is over expected limit'')
                      else Inr \<lparr>sb_br = ref, sb_str = rd_data r, sb_ss = ss\<rparr>))"

section \<open>Operations on the struct\<close>

text \<open>Dereferencing a nil part is a run-time panic.\<close>

fun sum_parts :: "BytesPart option list \<Rightarrow> u64 \<Rightarrow> u64 outcome" where
  "sum_parts [] n = Ret n"
| "sum_parts (None # ps) n = Panic ''nil pointer dereference''"
| "sum_parts (Some p # ps) n = sum_parts ps (n + bp_Size p)"

definition SumPartsSize :: "superset \<Rightarrow> u64 outcome" where
  "SumPartsSize ss = sum_parts (ss_Parts ss) 0"

text \<open>\<open>Blob.PartsSize\<close> adds the same numbers as \<open>int64\<close>.\<close>

definition PartsSize :: "SBlob \<Rightarrow> int outcome" where
  "PartsSize b = obind (sum_parts (ss_Parts (sb_ss b)) 0) (\<lambda>n. Ret (sint n))"

fun byte_parts :: "BytesPart option list \<Rightarrow> BytesPart list outcome" where
  "byte_parts [] = Ret []"
| "byte_parts (None # ps) = Panic ''nil pointer dereference''"
| "byte_parts (Some p # ps) = obind (byte_parts ps) (\<lambda>bs. Ret (p # bs))"

definition ByteParts :: "SBlob \<Rightarrow> BytesPart list outcome" where
  "ByteParts b = byte_parts (ss_Parts (sb_ss b))"

subsection \<open>Names that are not UTF-8\<close>

text \<open>
  The value of a number literal, truncated to an integer and that to a byte: the integer part shifted by the exponent.
\<close>

definition num_byte_value :: "string \<Rightarrow> u8" where
  "num_byte_value l =
     (let s = bytes_of_string l; neg = (s \<noteq> [] \<and> hd s = 0x2D); s = (if neg then tl s else s);
          ip = takeWhile digit_byte s; r = dropWhile digit_byte s;
          fp = (case r of c # t \<Rightarrow> if c = 0x2E then takeWhile digit_byte t else [] | [] \<Rightarrow> []);
          r = (if fp = [] then r else drop (Suc (length fp)) r);
          e = (case r of _ # t \<Rightarrow> (case parse_int (string_of_bytes t) of Some e \<Rightarrow> e | None \<Rightarrow> 0) | [] \<Rightarrow> 0);
          m = int (digits_value 10 0 (ip @ fp)); sh = e - int (length fp);
          n = (if 0 \<le> sh then m * 10 ^ nat sh else m div 10 ^ nat (- sh))
      in if n < 2 ^ 63 then word_of_int (if neg then - n else n) else 0)"

definition stringFromMixedArray :: "json list \<Rightarrow> string" where
  "stringFromMixedArray parts =
     concat (map (\<lambda>p. case p of JStr raw \<Rightarrow> string_of_bytes (unquote raw)
                          | JNum l \<Rightarrow> [char_of_byte (num_byte_value l)] | _ \<Rightarrow> []) parts)"

text \<open>
  The inner \<open>for\<close> is left only by returning: on a replacement character that is encoded properly it decodes the same rune for ever.
\<close>

function utf8StrLen_from :: "nat \<Rightarrow> bytes \<Rightarrow> nat outcome" where
  "utf8StrLen_from i [] = Ret i"
| "utf8StrLen_from i (b # s) =
     (let r = fst (DecodeRune (b # s)); n = snd (DecodeRune (b # s))
      in if r = RuneError then (if n = 1 then Ret i else Hang)
         else utf8StrLen_from (i + n) (drop n (b # s)))"
  by pat_completeness auto
termination
proof (relation "measure (\<lambda>(i, s). length s)", goal_cases)
  case (2 i b s r n)
  then show ?case using DecodeRune_width [of "b # s"] by simp
qed simp

definition utf8StrLen :: "bytes \<Rightarrow> nat outcome" where
  "utf8StrLen s = utf8StrLen_from 0 s"

function mixedArrayFromString :: "bytes \<Rightarrow> gval list outcome" where
  "mixedArrayFromString [] = Ret []"
| "mixedArrayFromString (b # s) =
     (case utf8StrLen (b # s) of
        Ret n \<Rightarrow>
          if n > 0 then obind (mixedArrayFromString (drop n (b # s))) (\<lambda>ps. Ret (VStr (string_of_bytes (take n (b # s))) # ps))
          else obind (mixedArrayFromString s) (\<lambda>ps. Ret (VByte b # ps))
      | Panic m \<Rightarrow> Panic m
      | Hang \<Rightarrow> Hang)"
  by pat_completeness auto
termination by (relation "measure length") auto

definition SymlinkTargetString :: "superset \<Rightarrow> string" where
  "SymlinkTargetString ss =
     (if ss_SymlinkTarget ss \<noteq> [] then ss_SymlinkTarget ss else stringFromMixedArray (ss_SymlinkTargetBytes ss))"

definition FileNameString :: "superset \<Rightarrow> string" where
  "FileNameString ss =
     (let v = (if ss_FileName ss = [] then stringFromMixedArray (ss_FileNameBytes ss) else ss_FileName ss)
      in if CHR ''/'' \<in> set v \<or> CHR 0x5C \<in> set v then [] else v)"

definition HasFilename :: "superset \<Rightarrow> string \<Rightarrow> bool" where
  "HasFilename ss name \<longleftrightarrow> FileNameString ss = name"

subsection \<open>Modes and owners\<close>

definition ModeDir :: u32 where "ModeDir = 0x80000000"
definition ModeSymlink :: u32 where "ModeSymlink = 0x08000000"
definition ModeNamedPipe :: u32 where "ModeNamedPipe = 0x02000000"
definition ModeSocket :: u32 where "ModeSocket = 0x01000000"

definition FileMode :: "superset \<Rightarrow> u32" where
  "FileMode ss =
     (let hasPerm = (ss_UnixPermission ss \<noteq> []);
          mode = (if hasPerm then
                    (case ParseUintBytes (bytes_of_string (ss_UnixPermission ss)) 8 64 of (m, None) \<Rightarrow> ucast m | _ \<Rightarrow> 0)
                  else 0);
          t = ss_Type ss;
          mode = mode OR (if t = ''directory'' then ModeDir
                          else if t = ''symlink'' then ModeSymlink
                          else if t = ''fifo'' then ModeNamedPipe
                          else if t = ''socket'' then ModeSocket else 0)
      in if hasPerm then mode else mode OR (if t = ''directory'' then 0x1ED else 0x1A4))"

text \<open>The lookups of names in the machine's user database are arguments.\<close>

definition MapUid :: "(string \<Rightarrow> int option) \<Rightarrow> superset \<Rightarrow> int" where
  "MapUid getUidFromName ss =
     (if ss_UnixOwner ss \<noteq> [] then (case getUidFromName (ss_UnixOwner ss) of Some uid \<Rightarrow> uid | None \<Rightarrow> ss_UnixOwnerId ss)
      else ss_UnixOwnerId ss)"

definition MapGid :: "(string \<Rightarrow> int option) \<Rightarrow> superset \<Rightarrow> int" where
  "MapGid getGidFromName ss =
     (if ss_UnixGroup ss \<noteq> [] then (case getGidFromName (ss_UnixGroup ss) of Some gid \<Rightarrow> gid | None \<Rightarrow> ss_UnixGroupId ss)
      else ss_UnixGroupId ss)"

definition ss_ModTime :: "superset \<Rightarrow> Time" where
  "ss_ModTime ss = (case parse3339 (ss_UnixMtime ss) of None \<Rightarrow> zeroTime | Some t \<Rightarrow> t)"

section \<open>Blobs\<close>

definition sb_Type :: "SBlob \<Rightarrow> string" where
  "sb_Type b = ss_Type (sb_ss b)"

definition sb_ClaimDate :: "SBlob \<Rightarrow> goerr + Time" where
  "sb_ClaimDate b =
     (if time3339_IsZero (Some (ss_ClaimDate (sb_ss b))) then Inl (ErrText ''schema: missing field claimDate'')
      else Inr (ss_ClaimDate (sb_ss b)))"

definition ShareClaim :: string where "ShareClaim = ''share''"
definition SetAttributeClaim :: string where "SetAttributeClaim = ''set-attribute''"
definition AddAttributeClaim :: string where "AddAttributeClaim = ''add-attribute''"
definition DelAttributeClaim :: string where "DelAttributeClaim = ''del-attribute''"
definition DeleteClaim :: string where "DeleteClaim = ''delete''"
definition ShareHaveRef :: string where "ShareHaveRef = ''haveref''"

lemmas claim_types = ShareClaim_def SetAttributeClaim_def AddAttributeClaim_def DelAttributeClaim_def DeleteClaim_def

definition AsClaim :: "SBlob \<Rightarrow> SBlob option" where
  "AsClaim b =
     (if ref_Valid (ss_Signer (sb_ss b)) \<and> ss_Sig (sb_ss b) \<noteq> [] \<and> ss_ClaimType (sb_ss b) \<noteq> [] \<and>
         \<not> time3339_IsZero (Some (ss_ClaimDate (sb_ss b))) then Some b else None)"

definition AsShare :: "SBlob \<Rightarrow> SBlob option" where
  "AsShare b =
     (case AsClaim b of
        None \<Rightarrow> None
      | Some c \<Rightarrow>
          if ss_ClaimType (sb_ss b) = ShareClaim \<and> ss_AuthType (sb_ss b) = ShareHaveRef \<and>
             (ref_Valid (ss_Target (sb_ss b)) \<or> ss_Search (sb_ss b) \<noteq> None) then Some c else None)"

definition IsExpired :: "Time \<Rightarrow> SBlob \<Rightarrow> bool" where
  "IsExpired now s \<longleftrightarrow> \<not> time_IsZero (ss_Expires (sb_ss s)) \<and> time_After now (ss_Expires (sb_ss s))"

definition DirectoryEntries :: "SBlob \<Rightarrow> Ref option" where
  "DirectoryEntries b = (if sb_Type b \<noteq> ''directory'' then None else Some (ss_Entries (sb_ss b)))"

definition StaticSetMembers :: "SBlob \<Rightarrow> Ref list" where
  "StaticSetMembers b = (if sb_Type b \<noteq> ''static-set'' then [] else filter ref_Valid (ss_Members (sb_ss b)))"

definition ShareAuthType :: "SBlob \<Rightarrow> string" where
  "ShareAuthType b = (case AsShare b of None \<Rightarrow> [] | Some s \<Rightarrow> ss_AuthType (sb_ss s))"

definition ShareTarget :: "SBlob \<Rightarrow> Ref" where
  "ShareTarget b = (case AsShare b of None \<Rightarrow> zeroRef | Some s \<Rightarrow> ss_Target (sb_ss s))"

definition AsStaticFile :: "SBlob \<Rightarrow> SBlob option" where
  "AsStaticFile b = (if sb_Type b \<in> {''file'', ''symlink'', ''fifo'', ''socket''} then Some b else None)"

definition AsStatic :: "string \<Rightarrow> SBlob \<Rightarrow> SBlob option" where
  "AsStatic t sf = (if sb_Type sf = t then Some sf else None)"

definition LikelySchemaBlob :: "bytes \<Rightarrow> bool" where
  "LikelySchemaBlob buf \<longleftrightarrow>
     buf \<noteq> [] \<and> hd buf = 0x7B \<and> (\<exists>i \<in> {..length buf}. take 12 (drop i buf) = bytes_of_string ''camliVersion'')"

section \<open>Builders\<close>

text \<open>A builder is its map; an operation that panics returns an \<open>outcome\<close>.\<close>

definition mapJSON :: "gmap \<Rightarrow> goerr + bytes" where
  "mapJSON m =
     (case map_of m ''camliVersion'' of
        None \<Rightarrow> Inl (ErrText ''schema: no camliVersion key in map'')
      | Some version \<Rightarrow>
          Inr (bytes_of_string ([CHR ''{'', CHR 0x22] @ ''camliVersion'' @ [CHR 0x22] @ '': '' @ fmt_v version @ '','' @ [CHR 0x0A]) @
               drop 2 (MarshalIndent (to_json (VMap (AList.delete ''camliVersion'' m))))))"

definition Builder_Blob :: "gmap \<Rightarrow> SBlob outcome" where
  "Builder_Blob m =
     (case mapJSON m of
        Inl e \<Rightarrow> Panic ''schema: no camliVersion key in map''
      | Inr json \<Rightarrow>
          (case parseSuperset (bytes_reader json) of
             Inl e \<Rightarrow> Panic ''invalid JSON''
           | Inr ss \<Rightarrow> Ret \<lparr>sb_br = SHA1FromBytes json, sb_str = json, sb_ss = ss\<rparr>))"

definition base :: "int \<Rightarrow> string \<Rightarrow> gmap" where
  "base version ctype = [(''camliVersion'', VInt version), (''camliType'', VStr ctype)]"

definition NewBuilder :: gmap where
  "NewBuilder = [(''camliVersion'', VStr ''1'')]"

definition SetType :: "string \<Rightarrow> gmap \<Rightarrow> gmap" where
  "SetType t m = AList.update ''camliType'' (VStr t) m"

definition str_of :: "gval option \<Rightarrow> string" where
  "str_of v = (case v of Some (VStr s) \<Rightarrow> s | _ \<Rightarrow> [])"

definition b_Type :: "gmap \<Rightarrow> string" where
  "b_Type m = str_of (map_of m ''camliType'')"

definition b_ClaimType :: "gmap \<Rightarrow> string" where
  "b_ClaimType m = str_of (map_of m ''claimType'')"

definition SetRawStringField :: "string \<Rightarrow> string \<Rightarrow> gmap \<Rightarrow> gmap" where
  "SetRawStringField key val m = AList.update key (VStr val) m"

definition SetSigner :: "Ref \<Rightarrow> gmap \<Rightarrow> gmap" where
  "SetSigner signer m = AList.update ''camliSigner'' (VStr (ref_String signer)) m"

text \<open>\<open>Sign\<close>: the signer's function on the text is an argument.\<close>

definition SignAt :: "(bytes \<Rightarrow> Time \<Rightarrow> goerr + string) \<Rightarrow> Ref \<Rightarrow> Time \<Rightarrow> gmap \<Rightarrow> (goerr + string) outcome" where
  "SignAt signJSON pubref sigTime m =
     (if b_Type m \<noteq> ''permanode'' \<and> b_Type m \<noteq> ''claim'' then Ret (Inl (ErrText ''can't sign camliType''))
      else obind (Builder_Blob (SetSigner pubref m)) (\<lambda>b. Ret (signJSON (sb_str b) sigTime)))"

text \<open>\<open>filepath.Base\<close>: without trailing slashes, what follows the last slash.\<close>

definition path_Base :: "string \<Rightarrow> string" where
  "path_Base path =
     (if path = [] then ''.''
      else let p = rev (dropWhile (\<lambda>c. c = CHR ''/'') (rev path));
               b = rev (takeWhile (\<lambda>c. c \<noteq> CHR ''/'') (rev p))
        in if b = [] then ''/'' else b)"

definition set_name :: "string \<Rightarrow> string \<Rightarrow> string \<Rightarrow> gmap \<Rightarrow> gmap outcome" where
  "set_name key bkey name m =
     (if valid_utf8 (bytes_of_string name) then Ret (AList.update key (VStr name) m)
      else obind (mixedArrayFromString (bytes_of_string name)) (\<lambda>ps. Ret (AList.update bkey (VAny ps) m)))"

definition SetFileName :: "string \<Rightarrow> gmap \<Rightarrow> gmap outcome" where
  "SetFileName name m = set_name ''fileName'' ''fileNameBytes'' (path_Base name) m"

definition SetSymlinkTarget :: "string \<Rightarrow> gmap \<Rightarrow> gmap outcome" where
  "SetSymlinkTarget tgt m = set_name ''symlinkTarget'' ''symlinkTargetBytes'' tgt (SetType ''symlink'' m)"

definition IsClaimType :: "gmap \<Rightarrow> bool" where
  "IsClaimType m \<longleftrightarrow> b_Type m = ''claim'' \<or> b_Type m = ''permanode''"

definition SetClaimDate :: "Time \<Rightarrow> gmap \<Rightarrow> gmap outcome" where
  "SetClaimDate t m =
     (if \<not> IsClaimType m then Panic ''SetClaimDate called on non-claim *Builder''
      else Ret (AList.update ''claimDate'' (VStr (RFC3339FromTime t)) m))"

definition SetModTime :: "Time \<Rightarrow> gmap \<Rightarrow> gmap" where
  "SetModTime t m = AList.update ''unixMtime'' (VStr (RFC3339FromTime t)) m"

text \<open>The two dates are compared as strings.\<close>

definition CapCreationTime :: "gmap \<Rightarrow> gmap" where
  "CapCreationTime m =
     (case (map_of m ''unixCtime'', map_of m ''unixMtime'') of
        (Some (VStr ctime), Some (VStr mtime)) \<Rightarrow>
          if ord_class.less mtime ctime then AList.update ''unixCtime'' (VStr mtime) m else m
      | _ \<Rightarrow> m)"

definition b_ModTime :: "gmap \<Rightarrow> Time option" where
  "b_ModTime m = (case map_of m ''unixMtime'' of Some (VStr s) \<Rightarrow> parse3339 s | _ \<Rightarrow> None)"

definition PopulateDirectoryMap :: "Ref \<Rightarrow> gmap \<Rightarrow> gmap" where
  "PopulateDirectoryMap r m = AList.update ''entries'' (VStr (ref_String r)) (AList.update ''camliType'' (VStr ''directory'') m)"

definition b_PartsSize :: "gmap \<Rightarrow> int" where
  "b_PartsSize m = (case map_of m ''parts'' of Some (VParts ps) \<Rightarrow> sint (sum_list (map bp_Size ps)) | _ \<Rightarrow> 0)"

text \<open>\<open>clone\<close> panics on a value of a type that it does not list.\<close>

fun clone :: "gval \<Rightarrow> gval outcome" and clone_list :: "gval list \<Rightarrow> gval list outcome" and clone_map :: "gmap \<Rightarrow> gmap outcome" where
  "clone (VMap m) = obind (clone_map m) (\<lambda>m2. Ret (VMap m2))"
| "clone (VStr s) = Ret (VStr s)"
| "clone (VInt n) = Ret (VInt n)"
| "clone (VNumber l) = Ret (VNumber l)"
| "clone (VAny vs) = obind (clone_list vs) (\<lambda>vs. Ret (VAny vs))"
| "clone _ = Panic ''unsupported clone type''"
| "clone_list [] = Ret []"
| "clone_list (v # vs) = obind (clone v) (\<lambda>v. obind (clone_list vs) (\<lambda>vs. Ret (v # vs)))"
| "clone_map [] = Ret []"
| "clone_map ((k, v) # m) = obind (clone v) (\<lambda>v. obind (clone_map m) (\<lambda>m. Ret ((k, v) # m)))"

definition Builder_Builder :: "gmap \<Rightarrow> gmap outcome" where
  "Builder_Builder m = clone_map m"

text \<open>\<open>Blob.Builder\<close> decodes the text into a map again, numbers staying literals.\<close>

fun of_json :: "json \<Rightarrow> gval" where
  "of_json JNull = VNil"
| "of_json (JBool b) = VBool b"
| "of_json (JNum l) = VNumber l"
| "of_json (JStr raw) = VStr (string_of_bytes (unquote raw))"
| "of_json (JArr vs) = VAny (map of_json vs)"
| "of_json (JObj ms) = VMap (fold (\<lambda>(k, v). AList.update k v) (map (\<lambda>(k, v). (k, of_json v)) ms) [])"

definition Blob_Builder :: "SBlob \<Rightarrow> gmap outcome" where
  "Blob_Builder b =
     (case rd_json (sb_str b) of
        Some (JObj ms) \<Rightarrow> Ret (case of_json (JObj ms) of VMap m \<Rightarrow> m | _ \<Rightarrow> [])
      | Some JNull \<Rightarrow> Ret []
      | _ \<Rightarrow> Panic ''failed to decode previously-thought-valid Blob's JSON'')"

subsection \<open>Files and sets\<close>

definition newCommonFilenameMap :: "string \<Rightarrow> gmap outcome" where
  "newCommonFilenameMap fileName = (if fileName \<noteq> [] then SetFileName fileName (base 1 []) else Ret (base 1 []))"

definition NewFileMap :: "string \<Rightarrow> gmap outcome" where
  "NewFileMap fileName = obind (newCommonFilenameMap fileName) (\<lambda>m. Ret (SetType ''file'' m))"

definition NewDirMap :: "string \<Rightarrow> gmap outcome" where
  "NewDirMap fileName = obind (newCommonFilenameMap fileName) (\<lambda>m. Ret (SetType ''directory'' m))"

definition newBytes :: gmap where
  "newBytes = base 1 ''bytes''"

text \<open>
  What \<open>NewCommonFileMap\<close> uses of a file's status; \<open>pop\<close> is what the functions registered for the operating system add.
\<close>

record FileInfo =
  fi_symlink :: bool
  fi_perm :: nat
  fi_ModTime :: Time

fun octal :: "nat \<Rightarrow> string" where
  "octal n = (if n < 8 then [digit_char n] else octal (n div 8) @ [digit_char (n mod 8)])"

declare octal.simps [simp del]

definition NewCommonFileMap :: "(gmap \<Rightarrow> FileInfo \<Rightarrow> gmap) list \<Rightarrow> string \<Rightarrow> FileInfo \<Rightarrow> gmap outcome" where
  "NewCommonFileMap pop fileName fi =
     obind (newCommonFilenameMap fileName) (\<lambda>m.
       let m = (if fi_symlink fi then m else AList.update ''unixPermission'' (VStr (CHR ''0'' # octal (fi_perm fi))) m);
           m = fold (\<lambda>f m. f m fi) pop m
       in Ret (if time_IsZero (fi_ModTime fi) then m else AList.update ''unixMtime'' (VStr (RFC3339FromTime (fi_ModTime fi))) m))"

text \<open>One part; the sum wraps as an \<open>int64\<close> does.\<close>

definition part_map :: "BytesPart \<Rightarrow> goerr + gmap" where
  "part_map p =
     (let b = ref_Valid (bp_BlobRef p); y = ref_Valid (bp_BytesRef p)
      in if b \<and> y then Inl (ErrText ''schema: part contains both BlobRef and BytesRef'')
         else if \<not> b \<and> \<not> y then Inl (ErrText ''schema: part must contain either a BlobRef or BytesRef'')
         else
           let m = (if b then [(''blobRef'', VStr (ref_String (bp_BlobRef p)))] else [(''bytesRef'', VStr (ref_String (bp_BytesRef p)))]);
               m = AList.update ''size'' (VUint (bp_Size p)) m
           in Inr (if bp_Offset p \<noteq> 0 then AList.update ''offset'' (VUint (bp_Offset p)) m else m))"

fun part_maps :: "BytesPart list \<Rightarrow> goerr + gmap list" where
  "part_maps [] = Inr []"
| "part_maps (p # ps) =
     (case part_map p of
        Inl e \<Rightarrow> Inl e
      | Inr m \<Rightarrow> (case part_maps ps of Inl e \<Rightarrow> Inl e | Inr ms \<Rightarrow> Inr (m # ms)))"

definition populateParts :: "gmap \<Rightarrow> int \<Rightarrow> BytesPart list \<Rightarrow> goerr + gmap" where
  "populateParts m sz parts =
     (case part_maps parts of
        Inl e \<Rightarrow> Inl e
      | Inr mparts \<Rightarrow>
          if sint (sum_list (map bp_Size parts)) \<noteq> sz then Inl (ErrText ''schema: declared size doesn't match sum of parts size'')
          else Inr (AList.update ''parts'' (VMaps mparts) m))"

definition StaticSet_Blob :: "Ref list \<Rightarrow> SBlob outcome" where
  "StaticSet_Blob refs = Builder_Blob (AList.update ''members'' (VStrs (map ref_String refs)) (base 1 ''static-set''))"

subsection \<open>Permanodes and claims\<close>

text \<open>The twenty random bytes, in base 64, are an argument.\<close>

definition NewUnsignedPermanode :: "string \<Rightarrow> gmap" where
  "NewUnsignedPermanode random = AList.update ''random'' (VStr random) (base 1 ''permanode'')"

definition NewPlannedPermanode :: "string \<Rightarrow> gmap" where
  "NewPlannedPermanode key = AList.update ''key'' (VStr key) (base 1 ''permanode'')"

record claimParam =
  cl_claimType :: string
  cl_permanode :: Ref
  cl_attribute :: string
  cl_value :: string
  cl_authType :: string
  cl_transitive :: bool
  cl_target :: Ref

definition zeroClaimParam :: claimParam where
  "zeroClaimParam = \<lparr>cl_claimType = [], cl_permanode = zeroRef, cl_attribute = [], cl_value = [], cl_authType = [], cl_transitive = False,
     cl_target = zeroRef\<rparr>"

definition populateClaimMap :: "claimParam \<Rightarrow> gmap \<Rightarrow> gmap" where
  "populateClaimMap cp m =
     (let m = AList.update ''claimType'' (VStr (cl_claimType cp)) m
      in if cl_claimType cp = ShareClaim then
           AList.update ''transitive'' (VBool (cl_transitive cp)) (AList.update ''authType'' (VStr (cl_authType cp)) m)
         else if cl_claimType cp = DeleteClaim then
           AList.update ''target'' (VStr (ref_String (cl_target cp))) m
         else
           let m = AList.update ''attribute'' (VStr (cl_attribute cp)) (AList.update ''permaNode'' (VStr (ref_String (cl_permanode cp))) m)
           in if cl_claimType cp = DelAttributeClaim \<and> cl_value cp = [] then m
              else AList.update ''value'' (VStr (cl_value cp)) m)"

definition newClaim :: "Time \<Rightarrow> claimParam list \<Rightarrow> gmap outcome" where
  "newClaim now claims =
     obind (SetClaimDate now (base 1 ''claim'')) (\<lambda>bb.
       case claims of
         [cp] \<Rightarrow> Ret (populateClaimMap cp bb)
       | _ \<Rightarrow>
           Ret (AList.update ''claims'' (if claims = [] then VNil else VAny (map (\<lambda>cp. VMap (populateClaimMap cp [])) claims))
                 (AList.update ''claimType'' (VStr ''multi'') bb)))"

definition NewShareRef :: "Time \<Rightarrow> string \<Rightarrow> bool \<Rightarrow> gmap outcome" where
  "NewShareRef now authType transitive =
     newClaim now [zeroClaimParam\<lparr>cl_claimType := ShareClaim, cl_authType := authType, cl_transitive := transitive\<rparr>]"

definition NewSetAttributeClaim :: "Time \<Rightarrow> Ref \<Rightarrow> string \<Rightarrow> string \<Rightarrow> gmap outcome" where
  "NewSetAttributeClaim now permaNode attr val =
     newClaim now [zeroClaimParam\<lparr>cl_permanode := permaNode, cl_claimType := SetAttributeClaim, cl_attribute := attr, cl_value := val\<rparr>]"

definition NewAddAttributeClaim :: "Time \<Rightarrow> Ref \<Rightarrow> string \<Rightarrow> string \<Rightarrow> gmap outcome" where
  "NewAddAttributeClaim now permaNode attr val =
     newClaim now [zeroClaimParam\<lparr>cl_permanode := permaNode, cl_claimType := AddAttributeClaim, cl_attribute := attr, cl_value := val\<rparr>]"

definition NewDelAttributeClaim :: "Time \<Rightarrow> Ref \<Rightarrow> string \<Rightarrow> string \<Rightarrow> gmap outcome" where
  "NewDelAttributeClaim now permaNode attr val =
     newClaim now [zeroClaimParam\<lparr>cl_permanode := permaNode, cl_claimType := DelAttributeClaim, cl_attribute := attr, cl_value := val\<rparr>]"

definition NewDeleteClaim :: "Time \<Rightarrow> Ref \<Rightarrow> gmap outcome" where
  "NewDeleteClaim now tgt = newClaim now [zeroClaimParam\<lparr>cl_target := tgt, cl_claimType := DeleteClaim\<rparr>]"

definition is_share :: "gmap \<Rightarrow> bool" where
  "is_share m \<longleftrightarrow> \<not> (b_Type m \<noteq> ''claim'' \<or> b_ClaimType m \<noteq> ShareClaim)"

definition SetShareTarget :: "Ref \<Rightarrow> gmap \<Rightarrow> gmap outcome" where
  "SetShareTarget t m =
     (if \<not> is_share m then Panic ''called SetShareTarget on non-share'' else Ret (AList.update ''target'' (VStr (ref_String t)) m))"

definition SetShareSearch :: "json \<Rightarrow> gmap \<Rightarrow> gmap outcome" where
  "SetShareSearch q m = (if \<not> is_share m then Panic ''called SetShareSearch on non-share'' else Ret (AList.update ''search'' (VOther q) m))"

definition SetShareExpiration :: "Time \<Rightarrow> gmap \<Rightarrow> gmap outcome" where
  "SetShareExpiration t m =
     (if \<not> is_share m then Panic ''called SetShareExpiration on non-share''
      else if time_IsZero t then Ret (AList.delete ''expires'' m)
      else Ret (AList.update ''expires'' (VStr (RFC3339FromTime t)) m))"

definition SetShareIsTransitive :: "bool \<Rightarrow> gmap \<Rightarrow> gmap outcome" where
  "SetShareIsTransitive b m =
     (if \<not> is_share m then Panic ''called SetShareIsTransitive on non-share''
      else if \<not> b then Ret (AList.delete ''transitive'' m)
      else Ret (AList.update ''transitive'' (VBool True) m))"

end
