(* ===== verification/SchemaText.thy ===== *)
theory SchemaText
  imports Schema
begin

text \<open>
  What a builder prints is what the decoder reads: the text of a map is an object whose first member is the version, and its
  members come back as the fields of the struct.
\<close>

section \<open>Text that needs no escapes\<close>

definition json_safe :: "u8 \<Rightarrow> bool" where
  "json_safe b \<longleftrightarrow> 0x20 \<le> b \<and> b < 0x80 \<and> b \<notin> {0x22, 0x5C, 0x3C, 0x3E, 0x26}"

lemma enc_str_safe: "list_all json_safe s \<Longrightarrow> enc_str s = s"
proof (induction s)
  case (Cons b s)
  then have b: "b < 0x80" "\<not> b < 0x20" "b \<notin> {0x22, 0x5C, 0x3C, 0x3E, 0x26}" by (auto simp: json_safe_def)
  then have "b \<noteq> 0x0A" "b \<noteq> 0x0D" by (auto simp: word_less_def)
  then have "enc_ascii b = [b]" using b by (simp add: enc_ascii_def)
  then show ?case using b Cons by (simp add: enc_str.simps(2) [of b s])
qed (simp add: enc_str.simps)

lemma safe_valid: "list_all json_safe s \<Longrightarrow> valid_utf8 s"
  by (rule valid_ascii) (auto simp: list_all_iff json_safe_def)

definition safe_char :: "char \<Rightarrow> bool" where
  "safe_char c \<longleftrightarrow> (CHR ''a'' \<le> c \<and> c \<le> CHR ''z'') \<or> (CHR ''0'' \<le> c \<and> c \<le> CHR ''9'') \<or> c = CHR ''-''"

lemma json_safe_char: "safe_char c \<Longrightarrow> json_safe (byte_of_char c)"
proof -
  assume "safe_char c"
  then have "(of_char c :: nat) \<in> {0x61..0x7A} \<or> (of_char c :: nat) \<in> {0x30..0x39} \<or> (of_char c :: nat) = 0x2D"
    unfolding safe_char_def less_eq_char_def by auto
  moreover have "unat (byte_of_char c) = of_char c"
    using of_char_of [where 'a = nat] by (simp add: byte_of_char_def unat_of_nat)
  ultimately show ?thesis unfolding json_safe_def word_le_nat_alt word_less_nat_alt by (auto simp: word_unat_eq_iff)
qed

lemma hex_bytes_safe: "list_all safe_char (hex_bytes bs)"
proof -
  have all: "list_all safe_char hexDigit" by (simp add: hexDigit_def safe_char_def)
  have "safe_char (hexDigit ! n)" if "n < 16" for n using all that by (auto simp: list_all_length)
  then have "list_all safe_char (hex_pair b)" for b using nibbles_lt [of b] by (simp add: hex_pair_def)
  then show ?thesis by (induction bs) (simp_all add: hex_bytes_def)
qed

lemma ref_String_safe:
  assumes "ref_wf r"
  shows "list_all json_safe (bytes_of_string (ref_String r))"
proof -
  obtain d where r: "r = Ref (Some d)" and d: "digest_wf d" using assms by (cases r) (auto simp: ref_wf_def split: option.splits)
  have "list_all safe_char (digestName d)"
    using d by (cases d) (auto simp: digest_wf_def validDigestName_def list_all_iff safe_char_def)
  moreover have "list_all safe_char (digest_hex d)" using hex_bytes_safe [of "digest_bytes d"]
    by (auto simp: digest_hex_def list_all_iff dest: in_set_butlastD)
  ultimately have "list_all safe_char (ref_String r)" by (simp add: r ref_String_wf [OF d] safe_char_def)
  then show ?thesis by (auto simp: list_all_iff bytes_of_string_def json_safe_char)
qed

lemma dec_ref_String [simp]:
  assumes "ref_wf r"
  shows "dec_ref zeroRef (jstr (ref_String r)) = Some r"
proof -
  obtain d where r: "r = Ref (Some d)" and d: "digest_wf d" using assms by (cases r) (auto simp: ref_wf_def split: option.splits)
  have "MarshalJSON r = byte_of_char CHR 0x22 # bytes_of_string (ref_String r) @ [byte_of_char CHR 0x22]"
    by (simp add: MarshalJSON_def r ref_String_wf [OF d] appendString_alt [OF d])
  then have "pr_json 0 (jstr (ref_String r)) = MarshalJSON r"
    using enc_str_safe [OF ref_String_safe [OF assms]] by (simp add: jstr_def byte_of_char_def)
  then show ?thesis using JSON_roundtrip [of r] assms by (simp add: dec_ref_def)
qed

section \<open>The text of a map\<close>

lemma json_ok_jstr [simp]: "json_ok (jstr s) \<longleftrightarrow> valid_utf8 (unquote (enc_str (bytes_of_string s))) \<and>
    enc_str (bytes_of_string s) = enc_str (unquote (enc_str (bytes_of_string s)))"
  by (simp add: jstr_def)

lemma jstr_ok: "valid_utf8 (bytes_of_string s) \<Longrightarrow> json_ok (jstr s)"
  by simp

declare json_ok_jstr [simp del]

definition obj_text :: "(string \<times> json) list \<Rightarrow> bytes" where
  "obj_text ms = comma_sep (map (\<lambda>(k, v). nl 1 @ quoted k @ [0x3A, 0x20] @ pr_json 1 v) ms) @ nl 0 @ [0x7D]"

lemma rd_obj_nl: "rd_obj n (nl i @ s) = rd_obj n s"
  by (cases n) simp_all

lemma obj_turns:
  assumes "json_ok (JObj ms)"
  shows "sum_list (map (\<lambda>(k, v). Suc (turns v)) ms) \<le> length (comma_sep (map (\<lambda>(k, v). nl i @ quoted k @ [0x3A, 0x20] @ pr_json i v) ms))"
proof (rule comma_sep_length, rule ballI)
  fix x assume x: "x \<in> set ms"
  obtain k v where kv: "x = (k, v)" by (cases x)
  have "json_ok v" using assms x kv by auto
  then show "(case x of (k, v) \<Rightarrow> Suc (turns v)) \<le> length (case x of (k, v) \<Rightarrow> nl i @ quoted k @ [0x3A, 0x20] @ pr_json i v)"
    using turns_le [of v i] kv by (simp add: nl_def)
qed

text \<open>The version is the first member, on the line of the opening brace.\<close>

definition version_member :: "string \<times> json" where
  "version_member = (''camliVersion'', JNum ''1'')"

lemma version_member_text: "quoted (fst version_member) @ [0x3A, 0x20] @ pr_json i (snd version_member) =
    bytes_of_string ([CHR 0x22] @ ''camliVersion'' @ [CHR 0x22] @ '': 1'')"
proof -
  have "enc_str (bytes_of_string ''camliVersion'') = bytes_of_string ''camliVersion''"
    by (rule enc_str_safe) (simp add: json_safe_def byte_of_char_def)
  then show ?thesis by (simp add: version_member_def quoted_def byte_of_char_def)
qed

lemma version_member_ok: "valid_utf8 (bytes_of_string (fst version_member)) \<and> json_ok (snd version_member)"
proof -
  have "valid_utf8 (bytes_of_string ''camliVersion'')" by (rule safe_valid) (simp add: json_safe_def byte_of_char_def)
  moreover have "itoa 1 = ''1''" by (simp add: itoa.simps digit_char_def)
  ultimately show ?thesis using json_ok_itoa [of 1] by (simp add: version_member_def)
qed

lemma rd_version_object:
  assumes "ms \<noteq> []" and "json_ok (JObj ms)"
  shows "rd_json (0x7B # quoted (fst version_member) @ [0x3A, 0x20] @ pr_json 1 (snd version_member) @ 0x2C # obj_text ms) =
    Some (JObj (version_member # ms))"
proof -
  let ?f = "\<lambda>(k, v). nl 1 @ quoted k @ [0x3A, 0x20] @ pr_json 1 v"
  let ?t = "quoted (fst version_member) @ [0x3A, 0x20] @ pr_json 1 (snd version_member) @ 0x2C # obj_text ms"
  let ?ms = "version_member # ms"
  have t: "nl 1 @ ?t = comma_sep (map ?f ?ms) @ nl 0 @ 0x7D # []"
    using assms(1) by (cases ms) (simp_all add: obj_text_def case_prod_beta)
  have ok: "json_ok (JObj ?ms)" using assms(2) version_member_ok by (simp add: case_prod_beta)
  then have all: "\<forall>(k, v) \<in> set ?ms. valid_utf8 (bytes_of_string k) \<and> reads_back v" using reads_back_json by (simp add: case_prod_beta)
  have len: "sum_list (map (\<lambda>(k, v). Suc (turns v)) ?ms) \<le> length (nl 1 @ ?t)"
    using obj_turns [OF ok, of 1] unfolding t by simp
  define n where "n = 2 * length (0x7B # ?t) - 1"
  have "length (nl 1 @ ?t) \<le> n" unfolding n_def by (simp add: nl_def quoted_def)
  then have "rd_obj n ?t = Some (?ms, [])"
    using rd_obj_text [OF _ all, of n 1 0 "[]"] len t rd_obj_nl [of n 1 ?t] by simp
  moreover have "skip_ws ?t = ?t" "hd ?t = 0x22" by (simp_all add: quoted_def json_ws_def)
  moreover have "\<not> json_ws 0x7B" by (simp add: json_ws_def)
  moreover have "2 * length (0x7B # ?t) = Suc n" by (simp add: n_def)
  ultimately show ?thesis unfolding rd_json_def by (simp add: quoted_def)
qed

definition sorted_members :: "gmap \<Rightarrow> (string \<times> json) list" where
  "sorted_members m = sort_key fst (map (\<lambda>(k, v). (k, to_json v)) (AList.delete ''camliVersion'' m))"

lemma mapJSON_text:
  assumes "map_of m ''camliVersion'' = Some (VInt 1)" and "sorted_members m \<noteq> []"
  shows "mapJSON m = Inr (0x7B # quoted (fst version_member) @ [0x3A, 0x20] @ pr_json 1 (snd version_member) @
    0x2C # obj_text (sorted_members m))"
proof -
  have s: "MarshalIndent (to_json (VMap (AList.delete ''camliVersion'' m))) = pr_json 0 (JObj (sorted_members m))"
    by (simp add: MarshalIndent_def sorted_members_def comp_def case_prod_beta' del: pr_json.simps)
  obtain k v ms where km: "sorted_members m = (k, v) # ms" using assms(2) by (cases "sorted_members m") auto
  have d: "0x0A # drop 2 (pr_json 0 (JObj (sorted_members m))) = obj_text (sorted_members m)"
    unfolding km by (cases ms) (simp_all add: obj_text_def nl_def)
  have v: "fmt_v (VInt 1) = ''1''" by (simp add: itoa_int_def itoa.simps digit_char_def)
  have "mapJSON m = Inr (bytes_of_string [CHR ''{''] @ bytes_of_string ([CHR 0x22] @ ''camliVersion'' @ [CHR 0x22] @ '': 1'') @
      0x2C # 0x0A # drop 2 (pr_json 0 (JObj (sorted_members m))))"
    unfolding mapJSON_def assms(1) option.case s v by (simp add: byte_of_char_def)
  then show ?thesis unfolding d version_member_text [of 1, symmetric] by (simp add: byte_of_char_def)
qed

text \<open>The blob of a builder: its text is read as its members, in the order of their names.\<close>

lemma Builder_Blob_members:
  assumes "map_of m ''camliVersion'' = Some (VInt 1)" and "sorted_members m \<noteq> []" and "json_ok (JObj (sorted_members m))"
    and "mapJSON m = Inr json" and "length json \<le> MaxSchemaBlobSize"
    and "dec_members dec_field zeroSuperset (version_member # sorted_members m) = Some ss"
  shows "Builder_Blob m = Ret \<lparr>sb_br = SHA1FromBytes json, sb_str = json, sb_ss = ss\<rparr>"
    and "parseSuperset (bytes_reader json) = Inr ss"
proof -
  have "rd_json json = Some (JObj (version_member # sorted_members m))"
    using rd_version_object [OF assms(2,3)] mapJSON_text [OF assms(1,2)] assms(4) by simp
  moreover have "rd_data (limit_reader (bytes_reader json) MaxSchemaBlobSize) = json"
    using assms(5) by (simp add: limit_reader_def)
  ultimately show p: "parseSuperset (bytes_reader json) = Inr ss" using assms(6) by (simp add: parseSuperset_def dec_struct_def)
  show "Builder_Blob m = Ret \<lparr>sb_br = SHA1FromBytes json, sb_str = json, sb_ss = ss\<rparr>" using p assms(4) by (simp add: Builder_Blob_def)
qed

section \<open>The fields\<close>

lemma dec_string_jstr: "valid_utf8 (bytes_of_string s) \<Longrightarrow> dec_string cur (jstr s) = Some s"
  by (simp add: dec_string_def jstr_def)

lemma field_name_exact: "k \<in> set names \<Longrightarrow> field_name names k = Some k"
  by (simp add: field_name_def)

lemma dec_field_version: "dec_field ''camliVersion'' ss (JNum ''1'') = Some (ss\<lparr>ss_Version := 1\<rparr>)"
proof -
  have "parse_int ''1'' = Some 1" by code_simp
  then show ?thesis by (simp add: dec_field_def field_name_exact superset_decoders_def dec_int_def)
qed

lemma dec_field_strings:
  assumes "valid_utf8 (bytes_of_string s)"
  shows "dec_field ''camliType'' ss (jstr s) = Some (ss\<lparr>ss_Type := s\<rparr>)"
    and "dec_field ''claimType'' ss (jstr s) = Some (ss\<lparr>ss_ClaimType := s\<rparr>)"
    and "dec_field ''attribute'' ss (jstr s) = Some (ss\<lparr>ss_Attribute := s\<rparr>)"
    and "dec_field ''value'' ss (jstr s) = Some (ss\<lparr>ss_Value := s\<rparr>)"
    and "dec_field ''fileName'' ss (jstr s) = Some (ss\<lparr>ss_FileName := s\<rparr>)"
    and "dec_field ''authType'' ss (jstr s) = Some (ss\<lparr>ss_AuthType := s\<rparr>)"
    and "dec_field ''unixMtime'' ss (jstr s) = Some (ss\<lparr>ss_UnixMtime := s\<rparr>)"
  using dec_string_jstr [OF assms] by (simp_all add: dec_field_def field_name_exact superset_decoders_def)

lemma dec_field_refs:
  assumes "ref_wf r"
  shows "ss_Permanode ss = zeroRef \<Longrightarrow> dec_field ''permaNode'' ss (jstr (ref_String r)) = Some (ss\<lparr>ss_Permanode := r\<rparr>)"
    and "ss_Target ss = zeroRef \<Longrightarrow> dec_field ''target'' ss (jstr (ref_String r)) = Some (ss\<lparr>ss_Target := r\<rparr>)"
    and "ss_Entries ss = zeroRef \<Longrightarrow> dec_field ''entries'' ss (jstr (ref_String r)) = Some (ss\<lparr>ss_Entries := r\<rparr>)"
  using dec_ref_String [OF assms] by (simp_all add: dec_field_def field_name_exact superset_decoders_def)

lemma dec_field_transitive: "dec_field ''transitive'' ss (JBool b) = Some (ss\<lparr>ss_Transitive := b\<rparr>)"
  by (simp add: dec_field_def field_name_exact superset_decoders_def dec_bool_def)

subsection \<open>Parts\<close>

definition part_wf :: "BytesPart \<Rightarrow> bool" where
  "part_wf p \<longleftrightarrow> ref_wf (bp_BlobRef p) \<and> bp_BytesRef p = zeroRef \<or> bp_BlobRef p = zeroRef \<and> ref_wf (bp_BytesRef p)"

lemma ref_Valid_zero [simp]: "\<not> ref_Valid zeroRef"
  by (simp add: ref_Valid_def zeroRef_def)

lemma dec_u64_itoa [simp]: "dec_u64 cur (JNum (itoa (unat w))) = Some w"
proof -
  have "unat w < 2 ^ 64" using unsigned_less [of w] by simp
  then show ?thesis using ParseUint_itoa [of "unat w" 64] by (simp add: dec_u64_def)
qed

definition part_json :: "BytesPart \<Rightarrow> json" where
  "part_json p =
     JObj ((if ref_Valid (bp_BlobRef p) then (''blobRef'', jstr (ref_String (bp_BlobRef p))) else (''bytesRef'', jstr (ref_String (bp_BytesRef p)))) #
       (if bp_Offset p \<noteq> 0 then [(''offset'', JNum (itoa (unat (bp_Offset p))))] else []) @ [(''size'', JNum (itoa (unat (bp_Size p))))])"

lemma part_map_json:
  assumes "part_wf p"
  shows "\<exists>m. part_map p = Inr m \<and> to_json (VMap m) = part_json p"
  using assms ref_wf_Valid by (auto simp: part_wf_def part_map_def part_json_def Let_def)

lemma part_json_ok: "part_wf p \<Longrightarrow> json_ok (part_json p)"
proof -
  assume p: "part_wf p"
  have names: "valid_utf8 (bytes_of_string ''blobRef'')" "valid_utf8 (bytes_of_string ''bytesRef'')" "valid_utf8 (bytes_of_string ''offset'')"
    "valid_utf8 (bytes_of_string ''size'')" by (rule safe_valid, simp add: json_safe_def byte_of_char_def)+
  have "json_ok (jstr (ref_String r))" if "ref_wf r" for r using jstr_ok safe_valid ref_String_safe [OF that] by blast
  then show ?thesis using p names json_ok_itoa ref_wf_Valid by (auto simp: part_json_def part_wf_def simp del: json_ok.simps(1) bytes_of_string_simps)
qed

lemma dec_part_json:
  assumes "part_wf p"
  shows "dec_part None (part_json p) = Some (Some p)"
proof -
  have s: "dec_part_field ''size'' q (JNum (itoa (unat w))) = Some (q\<lparr>bp_Size := w\<rparr>)"
    and o': "dec_part_field ''offset'' q (JNum (itoa (unat w))) = Some (q\<lparr>bp_Offset := w\<rparr>)" for q w
    by (simp_all add: dec_part_field_def field_name_def part_fields_def)
  have b: "dec_part_field ''blobRef'' q (jstr (ref_String r)) = Some (q\<lparr>bp_BlobRef := r\<rparr>)" if "ref_wf r" "bp_BlobRef q = zeroRef" for q r
    using that by (simp add: dec_part_field_def field_name_def part_fields_def)
  have y: "dec_part_field ''bytesRef'' q (jstr (ref_String r)) = Some (q\<lparr>bp_BytesRef := r\<rparr>)" if "ref_wf r" "bp_BytesRef q = zeroRef" for q r
    using that by (simp add: dec_part_field_def field_name_def part_fields_def)
  have z: "bp_BlobRef zeroPart = zeroRef" "bp_BytesRef zeroPart = zeroRef" by (simp_all add: zeroPart_def)
  show ?thesis using assms ref_wf_Valid
    by (cases p) (auto simp: part_wf_def part_json_def dec_part_def dec_struct_def s o' b y z zeroPart_def)
qed

lemma part_maps_json:
  assumes "list_all part_wf ps"
  shows "\<exists>ms. part_maps ps = Inr ms \<and> to_json (VMaps ms) = JArr (map part_json ps)"
  using assms
proof (induction ps)
  case (Cons p ps)
  then obtain ms where "part_maps ps = Inr ms" "to_json (VMaps ms) = JArr (map part_json ps)" by auto
  moreover obtain m where "part_map p = Inr m" "to_json (VMap m) = part_json p"
    using part_map_json Cons.prems by auto
  ultimately show ?case by simp
qed simp

lemma dec_parts:
  assumes "list_all part_wf ps"
  shows "dec_slice dec_part None [] (JArr (map part_json ps)) = Some (map Some ps)"
proof -
  have "dec_elems dec_part None [] (map part_json ps) = Some (map Some ps)"
    using assms by (induction ps) (simp_all add: dec_part_json)
  then show ?thesis by (simp add: dec_slice_def)
qed

lemma dec_field_parts:
  assumes "list_all part_wf ps" and "ss_Parts ss = []"
  shows "dec_field ''parts'' ss (JArr (map part_json ps)) = Some (ss\<lparr>ss_Parts := map Some ps\<rparr>)"
  using dec_parts [OF assms(1)] assms(2) by (simp add: dec_field_def field_name_exact superset_decoders_def)

subsection \<open>Names\<close>

text \<open>The bytes of a properly encoded replacement character, U+FFFD.\<close>

definition fffd :: bytes where
  "fffd = [0xEF, 0xBF, 0xBD]"

definition has_fffd :: "bytes \<Rightarrow> bool" where
  "has_fffd s \<longleftrightarrow> (\<exists>i \<le> length s. take 3 (drop i s) = fffd)"

lemma has_fffd_drop: "has_fffd (drop n s) \<Longrightarrow> has_fffd s"
proof -
  assume "has_fffd (drop n s)"
  then obtain i where i: "i \<le> length s - n" "take 3 (drop (i + n) s) = fffd" by (auto simp: has_fffd_def)
  have "i + n \<le> length s"
  proof (rule ccontr)
    assume "\<not> i + n \<le> length s"
    then have "drop (i + n) s = []" by simp
    then show False using i(2) by (simp add: fffd_def)
  qed
  then show ?thesis using i(2) by (auto simp: has_fffd_def)
qed

lemma decoded_fffd:
  assumes "fst (DecodeRune (b # s)) = RuneError" and "snd (DecodeRune (b # s)) \<noteq> 1"
  shows "has_fffd (b # s)"
proof -
  have g: "good_rune (b # s)" using assms by (auto simp: good_rune_def)
  have "EncodeRune RuneError = fffd" by (simp add: EncodeRune_def RuneError_def fffd_def Let_def)
  then have t: "take (snd (DecodeRune (b # s))) (b # s) = fffd" using good_rune_encode(1) [OF g] assms(1) by simp
  then have "snd (DecodeRune (b # s)) = 3" using DecodeRune_width [of "b # s"]
    by (metis fffd_def length_Cons length_take list.distinct(1) list.size(3) min.absorb2 numeral_3_eq_3)
  then show ?thesis using t unfolding has_fffd_def by (metis drop0 le0)
qed

lemma utf8StrLen_from_props:
  "(\<not> has_fffd s \<longrightarrow> (\<exists>k. utf8StrLen_from i s = Ret k)) \<and> (\<forall>m. utf8StrLen_from i s \<noteq> Panic m) \<and>
   (\<forall>k. utf8StrLen_from i s = Ret k \<longrightarrow> i \<le> k \<and> k - i \<le> length s \<and> valid_utf8 (take (k - i) s))"
proof (induction i s rule: utf8StrLen_from.induct)
  case (1 i)
  then show ?case by (simp add: valid_utf8.simps)
next
  case (2 i b s)
  let ?n = "snd (DecodeRune (b # s))"
  show ?case
  proof (cases "fst (DecodeRune (b # s)) = RuneError")
    case True
    then show ?thesis using decoded_fffd [of b s] by (auto simp: valid_utf8.simps)
  next
    case False
    have IH: "(\<not> has_fffd (drop ?n (b # s)) \<longrightarrow> (\<exists>k. utf8StrLen_from (i + ?n) (drop ?n (b # s)) = Ret k)) \<and>
        (\<forall>m. utf8StrLen_from (i + ?n) (drop ?n (b # s)) \<noteq> Panic m) \<and>
        (\<forall>k. utf8StrLen_from (i + ?n) (drop ?n (b # s)) = Ret k \<longrightarrow> i + ?n \<le> k \<and> k - (i + ?n) \<le> length (drop ?n (b # s)) \<and>
          valid_utf8 (take (k - (i + ?n)) (drop ?n (b # s))))" using 2 False by simp
    have w: "1 \<le> ?n" "?n \<le> length (b # s)" using DecodeRune_width [of "b # s"] by simp_all
    have g: "good_rune (b # s)" using False by (auto simp: good_rune_def)
    have step: "utf8StrLen_from i (b # s) = utf8StrLen_from (i + ?n) (drop ?n (b # s))" using False by (simp add: Let_def)
    have "valid_utf8 (take (k - i) (b # s))" if k: "i + ?n \<le> k" "valid_utf8 (take (k - (i + ?n)) (drop ?n (b # s)))" for k
    proof -
      let ?X = "take (k - (i + ?n)) (drop ?n (b # s))"
      have "k - i = ?n + (k - (i + ?n))" using k(1) by simp
      then have t: "take (k - i) (b # s) = take ?n (b # s) @ ?X" by (simp only: take_add)
      have d: "DecodeRune (take ?n (b # s) @ ?X) = DecodeRune (b # s)" by (rule good_rune_encode(2) [OF g])
      obtain m where m: "?n = Suc m" using w(1) by (cases ?n) auto
      have "take ?n (b # s) @ ?X = b # (take m s @ ?X)" using m by simp
      moreover have "drop ?n (take ?n (b # s) @ ?X) = ?X" using w(2) by simp
      ultimately show ?thesis unfolding t using k(2) d g by (simp add: valid_utf8.simps good_rune_def)
    qed
    then show ?thesis unfolding step using IH w has_fffd_drop [of ?n "b # s"] by (fastforce)
  qed
qed

lemma num_byte_value_itoa: "num_byte_value (itoa (unat b)) = b"
proof -
  let ?s = "bytes_of_string (itoa (unat b))"
  have ds: "takeWhile digit_byte ?s = ?s" "dropWhile digit_byte ?s = []"
    using itoa_digit_bytes [of "unat b"] by (simp_all add: takeWhile_eq_all_conv dropWhile_eq_Nil_conv list_all_iff)
  have "\<not> digit_byte 0x2D" by (simp add: digit_byte_def)
  then have neg: "(?s \<noteq> [] \<and> hd ?s = 0x2D) = False" using itoa_digit_bytes [of "unat b"] by (cases ?s) auto
  have v: "digits_value 10 0 ?s = unat b" using itoa_digits [of "unat b"] by simp
  have "int (unat b) < 2 ^ 63" using uint_bounds(2) [of b] by simp
  then show ?thesis unfolding num_byte_value_def Let_def neg if_False ds by (simp add: v)
qed

definition name_value :: "gval \<Rightarrow> bool" where
  "name_value v \<longleftrightarrow> (case v of VStr s \<Rightarrow> valid_utf8 (bytes_of_string s) | VByte b \<Rightarrow> True | _ \<Rightarrow> False)"

lemma mixedArrayFromString_back:
  "mixedArrayFromString s = Ret ps \<Longrightarrow> stringFromMixedArray (map to_json ps) = string_of_bytes s \<and> list_all name_value ps"
proof (induction s arbitrary: ps rule: mixedArrayFromString.induct)
  case 1
  then show ?case by (simp add: stringFromMixedArray_def string_of_bytes_def)
next
  case (2 b s)
  obtain n where n: "utf8StrLen (b # s) = Ret n" using "2.prems" by (cases "utf8StrLen (b # s)") auto
  show ?case
  proof (cases "n > 0")
    case True
    then obtain qs where qs: "mixedArrayFromString (drop n (b # s)) = Ret qs" "ps = VStr (string_of_bytes (take n (b # s))) # qs"
      using "2.prems" n by (auto simp: obind_eq_Ret)
    have "valid_utf8 (take n (b # s))" using utf8StrLen_from_props [of "b # s" 0] n by (simp add: utf8StrLen_def)
    moreover have "string_of_bytes (take n (b # s)) @ string_of_bytes (drop n (b # s)) = string_of_bytes (b # s)"
      unfolding string_of_bytes_def map_append [symmetric] by simp
    ultimately show ?thesis using "2.IH"(1) [OF n True qs(1)] qs(2)
      by (simp add: stringFromMixedArray_def jstr_def name_value_def del: take_Cons' drop_Cons')
  next
    case False
    then obtain qs where qs: "mixedArrayFromString s = Ret qs" "ps = VByte b # qs" using "2.prems" n by (auto simp: obind_eq_Ret)
    then show ?thesis using "2.IH"(2) [OF n False qs(1)] num_byte_value_itoa [of b]
      by (simp add: stringFromMixedArray_def name_value_def string_of_bytes_def)
  qed
qed

lemma mixedArrayFromString_returns: "\<not> has_fffd s \<Longrightarrow> \<exists>ps. mixedArrayFromString s = Ret ps"
proof (induction s rule: mixedArrayFromString.induct)
  case (2 b s)
  obtain n where n: "utf8StrLen (b # s) = Ret n" using utf8StrLen_from_props [of "b # s" 0] "2.prems" by (auto simp: utf8StrLen_def)
  have "\<not> has_fffd s" using has_fffd_drop [of 1 "b # s"] "2.prems" by auto
  moreover have "\<not> has_fffd (drop n (b # s))" using has_fffd_drop "2.prems" by blast
  ultimately show ?case using 2 n by (cases "n > 0") fastforce+
qed simp

lemma json_ok_name_values: "list_all name_value ps \<Longrightarrow> json_ok (JArr (map to_json ps))"
  by (induction ps) (auto simp: name_value_def jstr_ok simp del: json_ok.simps(1) split: gval.splits)

lemma dec_field_names:
  "dec_field ''fileNameBytes'' ss (JArr vs) = Some (ss\<lparr>ss_FileNameBytes := vs\<rparr>)"
  "dec_field ''symlinkTargetBytes'' ss (JArr vs) = Some (ss\<lparr>ss_SymlinkTargetBytes := vs\<rparr>)"
proof -
  have "dec_elems (\<lambda>_ v. Some v) JNull cur vs = Some vs" for cur by (induction vs arbitrary: cur) simp_all
  then show "dec_field ''fileNameBytes'' ss (JArr vs) = Some (ss\<lparr>ss_FileNameBytes := vs\<rparr>)"
    "dec_field ''symlinkTargetBytes'' ss (JArr vs) = Some (ss\<lparr>ss_SymlinkTargetBytes := vs\<rparr>)"
    by (simp_all add: dec_field_def field_name_exact superset_decoders_def dec_slice_def)
qed

section \<open>Files\<close>

lemma names_valid: "list_all safe_char k \<Longrightarrow> valid_utf8 (bytes_of_string k)"
  by (rule safe_valid) (auto simp: list_all_iff bytes_of_string_def json_safe_char)

text \<open>The members that name a file: none, a string, or a mixed array.\<close>

fun name_members :: "(string + gval list) option \<Rightarrow> gmap" where
  "name_members None = []"
| "name_members (Some (Inl s)) = [(''fileName'', VStr s)]"
| "name_members (Some (Inr ps)) = [(''fileNameBytes'', VAny ps)]"

fun name_ok :: "(string + gval list) option \<Rightarrow> bool" where
  "name_ok (Some (Inl s)) \<longleftrightarrow> valid_utf8 (bytes_of_string s)"
| "name_ok (Some (Inr ps)) \<longleftrightarrow> list_all name_value ps"
| "name_ok None \<longleftrightarrow> True"

fun set_names :: "(string + gval list) option \<Rightarrow> superset \<Rightarrow> superset" where
  "set_names None ss = ss"
| "set_names (Some (Inl s)) ss = ss\<lparr>ss_FileName := s\<rparr>"
| "set_names (Some (Inr ps)) ss = ss\<lparr>ss_FileNameBytes := map to_json ps\<rparr>"

definition byte_map :: "string \<Rightarrow> (string + gval list) option \<Rightarrow> gmap" where
  "byte_map t nm = [(''camliVersion'', VInt 1), (''camliType'', VStr t)] @ name_members nm"

definition byte_superset :: "string \<Rightarrow> (string + gval list) option \<Rightarrow> BytesPart list \<Rightarrow> superset" where
  "byte_superset t nm ps = set_names nm (zeroSuperset\<lparr>ss_Version := 1, ss_Type := t, ss_Parts := map Some ps\<rparr>)"

lemma newBytes_map: "newBytes = byte_map ''bytes'' None"
  by (simp add: newBytes_def base_def byte_map_def)

lemma NewFileMap_map:
  assumes "NewFileMap f = Ret m"
  shows "\<exists>nm. m = byte_map ''file'' nm \<and> name_ok nm \<and>
    (nm = None \<and> f = [] \<or> f \<noteq> [] \<and> nm = Some (Inl (path_Base f)) \<or>
     f \<noteq> [] \<and> (\<exists>ps. nm = Some (Inr ps) \<and> mixedArrayFromString (bytes_of_string (path_Base f)) = Ret ps))"
proof -
  consider (empty) "f = []" | (utf8) "f \<noteq> []" "valid_utf8 (bytes_of_string (path_Base f))"
    | (other) "f \<noteq> []" "\<not> valid_utf8 (bytes_of_string (path_Base f))" by blast
  then show ?thesis
  proof cases
    case empty
    then have "m = byte_map ''file'' None" using assms
      by (simp add: NewFileMap_def newCommonFilenameMap_def base_def SetType_def byte_map_def)
    then show ?thesis using empty by (intro exI [of _ None]) simp
  next
    case utf8
    then have "m = byte_map ''file'' (Some (Inl (path_Base f)))" using assms
      by (simp add: NewFileMap_def newCommonFilenameMap_def base_def SetType_def byte_map_def SetFileName_def set_name_def)
    then show ?thesis using utf8 by (intro exI [of _ "Some (Inl (path_Base f))"]) simp
  next
    case other
    then obtain ps where ps: "mixedArrayFromString (bytes_of_string (path_Base f)) = Ret ps" "m = byte_map ''file'' (Some (Inr ps))" using assms
      by (auto simp: NewFileMap_def newCommonFilenameMap_def base_def SetType_def byte_map_def SetFileName_def set_name_def obind_eq_Ret)
    then show ?thesis using other mixedArrayFromString_back [OF ps(1)] by (intro exI [of _ "Some (Inr ps)"]) simp
  qed
qed

lemma populateParts_map:
  assumes "list_all part_wf ps" and "sint (sum_list (map bp_Size ps)) = sz"
  shows "\<exists>ms. populateParts (byte_map t nm) sz ps = Inr (byte_map t nm @ [(''parts'', VMaps ms)]) \<and>
    to_json (VMaps ms) = JArr (map part_json ps)"
proof -
  obtain ms where ms: "part_maps ps = Inr ms" "to_json (VMaps ms) = JArr (map part_json ps)"
    using part_maps_json [OF assms(1)] by blast
  have "AList.update ''parts'' (VMaps ms) (byte_map t nm) = byte_map t nm @ [(''parts'', VMaps ms)]"
    by (cases nm rule: name_members.cases) (simp_all add: byte_map_def)
  then show ?thesis using ms assms(2) by (simp add: populateParts_def)
qed

fun name_json :: "(string + gval list) option \<Rightarrow> (string \<times> json) list" where
  "name_json None = []"
| "name_json (Some (Inl s)) = [(''fileName'', jstr s)]"
| "name_json (Some (Inr vs)) = [(''fileNameBytes'', JArr (map to_json vs))]"

lemma field_names_valid:
  "valid_utf8 (bytes_of_string ''camliType'')" "valid_utf8 (bytes_of_string ''fileName'')" "valid_utf8 (bytes_of_string ''fileNameBytes'')"
  "valid_utf8 (bytes_of_string ''parts'')" "valid_utf8 (bytes_of_string ''entries'')" "valid_utf8 (bytes_of_string ''members'')"
  by (rule safe_valid, simp add: json_safe_def byte_of_char_def)+

lemma byte_members:
  assumes "populateParts (byte_map t nm) sz ps = Inr m" and "list_all part_wf ps" and "name_ok nm" and "list_all safe_char t"
  shows "map_of m ''camliVersion'' = Some (VInt 1)"
    and "sorted_members m = (''camliType'', jstr t) # name_json nm @ [(''parts'', JArr (map part_json ps))]"
    and "json_ok (JObj (sorted_members m))"
proof -
  have "sint (sum_list (map bp_Size ps)) = sz" using assms(1) by (auto simp: populateParts_def split: sum.splits if_splits)
  from populateParts_map [OF assms(2) this, of t nm] obtain ms where
    m: "m = byte_map t nm @ [(''parts'', VMaps ms)]" and ms: "to_json (VMaps ms) = JArr (map part_json ps)"
    using assms(1) by auto
  show "map_of m ''camliVersion'' = Some (VInt 1)" by (simp add: m byte_map_def)
  show sm: "sorted_members m = (''camliType'', jstr t) # name_json nm @ [(''parts'', JArr (map part_json ps))]"
    using ms unfolding m by (cases nm rule: name_members.cases) (simp_all add: sorted_members_def byte_map_def)
  show "json_ok (JObj (sorted_members m))"
    unfolding sm using field_names_valid names_valid [OF assms(4)] jstr_ok part_json_ok assms(2,3) json_ok_name_values
    by (cases nm rule: name_members.cases) (auto simp: list_all_iff simp del: json_ok.simps(1,2) bytes_of_string_simps)
qed

lemma byte_blob:
  assumes "populateParts (byte_map t nm) sz ps = Inr m" and "list_all part_wf ps" and "name_ok nm" and "list_all safe_char t"
    and "mapJSON m = Inr json" and "length json \<le> MaxSchemaBlobSize"
  shows "Builder_Blob m = Ret \<lparr>sb_br = SHA1FromBytes json, sb_str = json, sb_ss = byte_superset t nm ps\<rparr>"
    and "parseSuperset (bytes_reader json) = Inr (byte_superset t nm ps)"
proof -
  note B = byte_members [OF assms(1-4)]
  have t: "valid_utf8 (bytes_of_string t)" using names_valid [OF assms(4)] .
  have dec: "dec_members dec_field zeroSuperset (version_member # sorted_members m) = Some (byte_superset t nm ps)"
    unfolding B(2) version_member_def using assms(2,3)
    by (cases nm rule: name_members.cases)
      (simp_all add: dec_field_version dec_field_strings t dec_field_parts dec_field_names byte_superset_def zeroSuperset_def)
  have ne: "sorted_members m \<noteq> []" by (simp add: B(2))
  show "Builder_Blob m = Ret \<lparr>sb_br = SHA1FromBytes json, sb_str = json, sb_ss = byte_superset t nm ps\<rparr>"
    and "parseSuperset (bytes_reader json) = Inr (byte_superset t nm ps)"
    using Builder_Blob_members [OF B(1) ne B(3) assms(5,6) dec] by simp_all
qed

lemma path_Base_slash: "path_Base f \<noteq> ''/'' \<Longrightarrow> CHR ''/'' \<notin> set (path_Base f)"
  by (auto simp: path_Base_def Let_def dest: set_takeWhileD split: if_splits)

lemma path_Base_nonempty: "path_Base f \<noteq> []"
  by (simp add: path_Base_def Let_def)

lemma byte_parts_Some: "byte_parts (map Some ps) = Ret ps"
  by (induction ps) simp_all



text \<open>
  A name that is not UTF-8 is stored as a mixed array.  Making it ends unless the name also holds a properly encoded U+FFFD, on which the
  code never comes back.
\<close>

lemma SetFileName_returns: "\<not> has_fffd (bytes_of_string (path_Base f)) \<Longrightarrow> \<exists>m'. SetFileName f m = Ret m'"
  using mixedArrayFromString_returns [of "bytes_of_string (path_Base f)"] by (auto simp: SetFileName_def set_name_def)

lemma utf8StrLen_hangs: "utf8StrLen (fffd @ s) = Hang"
proof -
  have "DecodeRune (fffd @ s) = (RuneError, 3)" by (simp add: DecodeRune_def fffd_def is_cont_def cont_bits_def RuneError_def)
  then show ?thesis by (simp add: utf8StrLen_def fffd_def)
qed

lemma SetFileName_hangs: "SetFileName (string_of_bytes (fffd @ [0xFF])) m = Hang"
proof -
  have b: "path_Base (string_of_bytes (fffd @ [0xFF])) = string_of_bytes (fffd @ [0xFF])" by code_simp
  have "\<not> valid_utf8 (fffd @ [0xFF])" by code_simp
  moreover have "mixedArrayFromString (fffd @ [0xFF]) = Hang" using utf8StrLen_hangs [of "[0xFF]"] by (simp add: fffd_def)
  ultimately show ?thesis by (simp add: SetFileName_def set_name_def b)
qed

text \<open>The parts that a builder was given are not what \<open>Builder.PartsSize\<close> looks for.\<close>

lemma b_PartsSize_populated: "populateParts m sz ps = Inr m' \<Longrightarrow> b_PartsSize m' = 0"
  by (auto simp: populateParts_def b_PartsSize_def update_conv' split: sum.splits if_splits)

text \<open>A builder of a share claim, or of a file with parts, cannot be cloned.\<close>

lemma clone_populated: "Builder_Builder (byte_map t None @ [(''parts'', VMaps ms)]) = Panic ''unsupported clone type''"
  by (simp add: Builder_Builder_def byte_map_def)

lemma clone_share: "\<exists>m. NewShareRef now auth b = Ret m \<and> Builder_Builder m = Panic ''unsupported clone type''"
  by (simp add: NewShareRef_def newClaim_def SetClaimDate_def base_def IsClaimType_def b_Type_def str_of_def populateClaimMap_def
      Builder_Builder_def ShareClaim_def)

text \<open>A null among the parts decodes, and the first use of the parts then dereferences nil.\<close>

lemma null_part_panics:
  "\<exists>ss. parseSuperset (bytes_reader (bytes_of_string ([CHR ''{'', CHR 0x22] @ ''parts'' @ [CHR 0x22] @ '':[null]}''))) = Inr ss \<and>
    SumPartsSize ss = Panic ''nil pointer dereference''"
proof -
  have "rd_json (bytes_of_string ([CHR ''{'', CHR 0x22] @ ''parts'' @ [CHR 0x22] @ '':[null]}'')) = Some (JObj [(''parts'', JArr [JNull])])"
    by code_simp
  then have "parseSuperset (bytes_reader (bytes_of_string ([CHR ''{'', CHR 0x22] @ ''parts'' @ [CHR 0x22] @ '':[null]}''))) =
      Inr (zeroSuperset\<lparr>ss_Parts := [None]\<rparr>)"
    by (simp add: parseSuperset_def limit_reader_def MaxSchemaBlobSize_def dec_struct_def dec_field_def field_name_exact superset_decoders_def
        dec_slice_def dec_part_def)
  then show ?thesis by (simp add: SumPartsSize_def)
qed

text \<open>A map with no other member than the version is printed as a text that is cut off, so that building its blob panics.\<close>

lemma NewBuilder_panics: "Builder_Blob NewBuilder = Panic ''invalid JSON''"
proof -
  have "\<exists>j. mapJSON NewBuilder = Inr j \<and> rd_json j = None \<and> length j = 20"
  proof -
    have "(case mapJSON NewBuilder of Inr j \<Rightarrow> rd_json j = None \<and> length j = 20 | Inl _ \<Rightarrow> False)" by code_simp
    then show ?thesis by (auto split: sum.splits)
  qed
  then show ?thesis by (auto simp: Builder_Blob_def parseSuperset_def limit_reader_def MaxSchemaBlobSize_def)
qed

section \<open>Claims\<close>

text \<open>The date as it comes back: in UTC, unless its zone is the one that stands for an unknown one.\<close>

definition claim_time :: "Time \<Rightarrow> Time" where
  "claim_time t = (if IsZoneKnown t then time_UTC t else t)"

definition time_char :: "char \<Rightarrow> bool" where
  "time_char c \<longleftrightarrow> safe_char c \<or> c \<in> {CHR ''T'', CHR '':'', CHR ''.'', CHR ''Z'', CHR ''+''}"

lemma time_char_safe: "time_char c \<Longrightarrow> json_safe (byte_of_char c)"
  using json_safe_char by (auto simp: time_char_def json_safe_def byte_of_char_def)

lemma pad_time_char: "list_all time_char (pad w n)"
  using pad_props(2) [of w n] by (auto simp: list_all_iff time_char_def safe_char_def is_dig_def)

lemma drop_zeros_subset: "set (drop_zeros s) \<subseteq> set s"
  by (auto simp: drop_zeros_def dest: set_dropWhileD)

lemma format3339_safe:
  assumes "time_ok t"
  shows "list_all json_safe (bytes_of_string (format3339 t))"
proof -
  let ?l = "tm_unix t + tm_off t"
  obtain y m d where date: "date_of_days (?l div 86400 + 719162) = (y, m, d)" by (cases "date_of_days (?l div 86400 + 719162)") auto
  have "0 \<le> y" "y < 10000" using assms date_of_days(6) [OF date] by (simp_all add: time_ok_def Let_def)
  then have py: "pad_year y = pad 4 y" by (simp add: pad_year_def)
  have z: "list_all time_char (zone off)" for off
    unfolding zone_def Let_def using pad_time_char by (simp add: time_char_def safe_char_def del: pad.simps)
  have f: "list_all time_char (frac ns)" for ns
    using pad_time_char [of 9 ns] drop_zeros_subset [of "pad 9 ns"] by (auto simp: frac_def list_all_iff time_char_def simp del: pad.simps)
  have "list_all time_char (format3339 t)"
    unfolding format3339_def Let_def date prod.case py using pad_time_char z f by (simp add: time_char_def safe_char_def del: pad.simps)
  then show ?thesis using time_char_safe by (auto simp: list_all_iff bytes_of_string_def)
qed

lemma dec_time_format:
  assumes "time_ok (claim_time t)"
  shows "dec_time (jstr (RFC3339FromTime t)) = Some (claim_time t)"
proof -
  let ?s = "format3339 (claim_time t)"
  have r: "RFC3339FromTime t = ?s" by (simp add: RFC3339FromTime_def claim_time_def)
  have ne: "?s \<noteq> []" using parse_format3339 [OF assms] by (auto simp: parse3339_def rd_digits_def)
  have "enc_str (bytes_of_string ?s) = bytes_of_string ?s" using enc_str_safe format3339_safe assms by blast
  then have "pr_json 0 (jstr (RFC3339FromTime t)) = 0x22 # bytes_of_string ?s @ [0x22]" by (simp add: jstr_def r)
  moreover have "0x22 # bytes_of_string ?s @ [0x22] \<noteq> bytes_of_string ''null''" by (simp add: byte_of_char_def)
  moreover have "byte_of_char CHR ''n'' \<noteq> 0x22" by (simp add: byte_of_char_def)
  ultimately show ?thesis using parse_format3339 [OF assms] ne by (simp add: dec_time_def time_UnmarshalJSON_def Let_def)
qed

lemma dec_field_date:
  assumes "time_ok (claim_time t)"
  shows "dec_field ''claimDate'' ss (jstr (RFC3339FromTime t)) = Some (ss\<lparr>ss_ClaimDate := claim_time t\<rparr>)"
  using dec_time_format [OF assms] by (simp add: dec_field_def field_name_exact superset_decoders_def)

definition claim_ok :: "claimParam \<Rightarrow> bool" where
  "claim_ok cp \<longleftrightarrow>
     cl_claimType cp = ShareClaim \<and> valid_utf8 (bytes_of_string (cl_authType cp)) \<or>
     cl_claimType cp = DeleteClaim \<and> ref_wf (cl_target cp) \<or>
     cl_claimType cp \<in> {SetAttributeClaim, AddAttributeClaim, DelAttributeClaim} \<and> ref_wf (cl_permanode cp) \<and>
       valid_utf8 (bytes_of_string (cl_attribute cp)) \<and> valid_utf8 (bytes_of_string (cl_value cp))"

definition claim_superset :: "Time \<Rightarrow> claimParam \<Rightarrow> superset" where
  "claim_superset now cp =
     (let ss = zeroSuperset\<lparr>ss_Version := 1, ss_Type := ''claim'', ss_ClaimType := cl_claimType cp, ss_ClaimDate := claim_time now\<rparr>
      in if cl_claimType cp = ShareClaim then ss\<lparr>ss_AuthType := cl_authType cp, ss_Transitive := cl_transitive cp\<rparr>
         else if cl_claimType cp = DeleteClaim then ss\<lparr>ss_Target := cl_target cp\<rparr>
         else ss\<lparr>ss_Permanode := cl_permanode cp, ss_Attribute := cl_attribute cp, ss_Value := cl_value cp\<rparr>)"

lemma newClaim_map:
  "newClaim now [cp] = Ret (populateClaimMap cp [(''camliVersion'', VInt 1), (''camliType'', VStr ''claim''), (''claimDate'', VStr (RFC3339FromTime now))])"
  by (simp add: newClaim_def SetClaimDate_def base_def IsClaimType_def b_Type_def str_of_def)


abbreviation claim_base :: "Time \<Rightarrow> gmap" where
  "claim_base now \<equiv> [(''camliVersion'', VInt 1), (''camliType'', VStr ''claim''), (''claimDate'', VStr (RFC3339FromTime now))]"

lemma claim_keys:
  "k \<in> {''camliType'', ''claimDate'', ''claimType'', ''authType'', ''transitive'', ''target'', ''permaNode'', ''attribute'', ''value'',
     ''claim'', ''share'', ''delete'', ''set-attribute'', ''add-attribute'', ''del-attribute''} \<Longrightarrow> valid_utf8 (bytes_of_string k)"
  by (intro safe_valid) (auto simp: json_safe_def byte_of_char_def)

definition claim_members :: "Time \<Rightarrow> claimParam \<Rightarrow> (string \<times> json) list" where
  "claim_members now cp =
     (let common = [(''camliType'', jstr ''claim''), (''claimDate'', jstr (RFC3339FromTime now)), (''claimType'', jstr (cl_claimType cp))]
      in if cl_claimType cp = ShareClaim then
           (''authType'', jstr (cl_authType cp)) # common @ [(''transitive'', JBool (cl_transitive cp))]
         else if cl_claimType cp = DeleteClaim then common @ [(''target'', jstr (ref_String (cl_target cp)))]
         else (''attribute'', jstr (cl_attribute cp)) # common @ (''permaNode'', jstr (ref_String (cl_permanode cp))) #
           (if cl_claimType cp = DelAttributeClaim \<and> cl_value cp = [] then [] else [(''value'', jstr (cl_value cp))]))"

lemma claim_sorted: "sorted_members (populateClaimMap cp (claim_base now)) = claim_members now cp"
  by (simp add: sorted_members_def populateClaimMap_def claim_members_def Let_def)

lemma claim_json_ok:
  assumes "claim_ok cp" and "time_ok (claim_time now)"
  shows "json_ok (JObj (claim_members now cp))"
proof -
  have date: "json_ok (jstr (RFC3339FromTime now))"
    using safe_valid [OF format3339_safe [OF assms(2)]] by (intro jstr_ok) (simp add: RFC3339FromTime_def claim_time_def)
  have refs: "json_ok (jstr (ref_String r))" if "ref_wf r" for r using jstr_ok safe_valid ref_String_safe [OF that] by blast
  have tyok: "json_ok (jstr (cl_claimType cp))" using assms(1) claim_keys by (intro jstr_ok) (auto simp: claim_ok_def claim_types)
  consider (share) "cl_claimType cp = ShareClaim" "valid_utf8 (bytes_of_string (cl_authType cp))"
    | (delete) "cl_claimType cp = DeleteClaim" "ref_wf (cl_target cp)"
    | (attr) "cl_claimType cp \<noteq> ShareClaim" "cl_claimType cp \<noteq> DeleteClaim" "ref_wf (cl_permanode cp)"
        "valid_utf8 (bytes_of_string (cl_attribute cp))" "valid_utf8 (bytes_of_string (cl_value cp))"
    using assms(1) by (auto simp: claim_ok_def claim_types)
  then show ?thesis
    by cases (simp_all add: claim_members_def Let_def date refs tyok claim_keys jstr_ok [of "cl_authType cp"] jstr_ok [of "cl_attribute cp"]
        jstr_ok [of "cl_value cp"] jstr_ok [of "''claim''"] jstr_ok [of "''share''"] jstr_ok [of "''delete''"] claim_types
        del: bytes_of_string_simps)
qed

lemma claim_decoded:
  assumes "claim_ok cp" and "time_ok (claim_time now)"
  shows "dec_members dec_field zeroSuperset (version_member # claim_members now cp) = Some (claim_superset now cp)"
proof -
  have v: "valid_utf8 (bytes_of_string ''claim'')" "valid_utf8 (bytes_of_string ''share'')" "valid_utf8 (bytes_of_string ''delete'')"
    "valid_utf8 (bytes_of_string ''set-attribute'')" "valid_utf8 (bytes_of_string ''add-attribute'')"
    "valid_utf8 (bytes_of_string ''del-attribute'')"
    by (simp_all add: claim_keys del: bytes_of_string_simps)
  show ?thesis
    using assms(1) unfolding claim_members_def claim_superset_def Let_def version_member_def claim_ok_def
    by (auto simp: dec_field_version dec_field_strings v dec_field_date [OF assms(2)] dec_field_refs dec_field_transitive zeroSuperset_def
        claim_types simp del: bytes_of_string_simps)
qed



end
