(* ===== verification/FileReader.thy ===== *)
theory FileReader
  imports SchemaText BlobServer
begin

text \<open>
  Package \<open>pkg/schema\<close>, file \<open>filereader.go\<close>: reading a file from its schema blob.  A file is a tree: its parts are blobs, runs of zeros
  and further schema blobs.  \<open>ReadAt\<close> is shown to return the bytes of the tree at any offset, with its two caches or without.
\<close>

section \<open>The reader\<close>

text \<open>The caches that all readers of one tree share: the last blob and the decoded schema blobs.\<close>

record frcache =
  fc_lastBlob :: "Blob option"
  fc_ssm :: "(Ref \<times> superset) list"

definition emptyCache :: frcache where
  "emptyCache = \<lparr>fc_lastBlob = None, fc_ssm = []\<rparr>"

record FileReader =
  fr_ss :: superset
  fr_size :: int

definition ErrEOF :: goerr where
  "ErrEOF = ErrText ''EOF''"

definition ss_NewFileReader :: "superset \<Rightarrow> (goerr + FileReader) outcome" where
  "ss_NewFileReader ss =
     (if ss_Type ss \<noteq> ''file'' \<and> ss_Type ss \<noteq> ''bytes'' then Ret (Inl (ErrText ''schema/filereader: Superset not of type file or bytes''))
      else obind (SumPartsSize ss) (\<lambda>sz. Ret (Inr \<lparr>fr_ss = ss, fr_size = sint sz\<rparr>)))"

text \<open>A fetcher that returns neither a reader nor an error makes the caller dereference nil.\<close>

definition NewFileReader :: "'w fetcher \<Rightarrow> Ref \<Rightarrow> 'w \<Rightarrow> ((goerr + FileReader) \<times> 'w) outcome" where
  "NewFileReader fetch br w =
     (if \<not> ref_Valid br then Ret (Inl (ErrText ''schema/filereader: NewFileReader blobref invalid''), w)
      else
        obind (fetch br w) (\<lambda>((rc, _, err), w).
          if err \<noteq> None then Ret (Inl (ErrText ''schema/filereader: fetching file schema blob''), w)
          else case rc of
              None \<Rightarrow> Panic ''nil pointer dereference''
            | Some rc \<Rightarrow>
                (case parseSuperset rc of
                   Inl e \<Rightarrow> Ret (Inl (ErrText ''schema/filereader: decoding file schema blob''), w)
                 | Inr ss \<Rightarrow>
                     let ss = ss\<lparr>ss_BlobRef := br\<rparr>
                     in if ss_Type ss \<noteq> ''file'' \<and> ss_Type ss \<noteq> ''bytes''
                        then Ret (Inl (ErrText ''schema/filereader: expected file or bytes schema blob''), w)
                        else obind (ss_NewFileReader ss) (\<lambda>fr. Ret (fr, w)))))"

definition getBlob :: "'w fetcher \<Rightarrow> Ref \<Rightarrow> frcache \<times> 'w \<Rightarrow> ((goerr + Blob) \<times> frcache \<times> 'w) outcome" where
  "getBlob fetch br s =
     (let (c, w) = s
      in case fc_lastBlob c of
           Some b \<Rightarrow>
             if blob_ref b = br then Ret (Inr b, c, w)
             else obind (FromFetcher fetch br w) (\<lambda>(r, w). Ret (r, (case r of Inl _ \<Rightarrow> c | Inr b \<Rightarrow> c\<lparr>fc_lastBlob := Some b\<rparr>), w))
         | None \<Rightarrow> obind (FromFetcher fetch br w) (\<lambda>(r, w). Ret (r, (case r of Inl _ \<Rightarrow> c | Inr b \<Rightarrow> c\<lparr>fc_lastBlob := Some b\<rparr>), w)))"

definition getSuperset :: "'w fetcher \<Rightarrow> Ref \<Rightarrow> frcache \<times> 'w \<Rightarrow> ((goerr + superset) \<times> frcache \<times> 'w) outcome" where
  "getSuperset fetch br s =
     (let (c, w) = s
      in case map_of (fc_ssm c) br of
           Some ss \<Rightarrow> Ret (Inr ss, c, w)
         | None \<Rightarrow>
             obind (fetch br w) (\<lambda>((rc, _, err), w).
               if err \<noteq> None then Ret (Inl (ErrText ''schema/filereader: fetching file schema blob''), c, w)
               else case rc of
                   None \<Rightarrow> Panic ''nil pointer dereference''
                 | Some rc \<Rightarrow>
                     (case parseSuperset rc of
                        Inl e \<Rightarrow> Ret (Inl e, c, w)
                      | Inr ss \<Rightarrow>
                          let ss = ss\<lparr>ss_BlobRef := br\<rparr>
                          in Ret (Inr ss, c\<lparr>fc_ssm := (br, ss) # fc_ssm c\<rparr>, w))))"

text \<open>
  What \<open>readerForOffset\<close> returns: the bytes that are left of a blob, a number of zeros, or a reader of a sub-tree at a position,
  limited to a number of bytes.
\<close>

datatype chunk_reader =
    ReadBytes bytes
  | ReadZeros int
  | ReadTree FileReader int int

text \<open>The loop over the parts that end at or before the offset.\<close>

fun skip_parts :: "BytesPart option list \<Rightarrow> int \<Rightarrow> (BytesPart option list \<times> int) outcome" where
  "skip_parts [] offRemain = Ret ([], offRemain)"
| "skip_parts (None # ps) offRemain = Panic ''nil pointer dereference''"
| "skip_parts (Some p # ps) offRemain =
     (if uint (bp_Size p) \<le> offRemain then skip_parts ps (offRemain - uint (bp_Size p)) else Ret (Some p # ps, offRemain))"

text \<open>An \<open>int64\<close>: the sum of the offsets wraps; without a positive position there is no seek.\<close>

definition i64 :: "int \<Rightarrow> int" where
  "i64 x = sint (word_of_int x :: u64)"

definition seek_pos :: "BytesPart \<Rightarrow> int \<Rightarrow> int" where
  "seek_pos p offRemain = max 0 (i64 (offRemain + sint (bp_Offset p)))"

definition readerForOffset ::
  "'w fetcher \<Rightarrow> FileReader \<Rightarrow> int \<Rightarrow> frcache \<times> 'w \<Rightarrow> ((goerr + chunk_reader) \<times> frcache \<times> 'w) outcome" where
  "readerForOffset fetch fr off s =
     (if off < 0 then Panic ''negative offset''
      else if off \<ge> fr_size fr then Ret (Inr (ReadBytes []), s)
      else obind (skip_parts (ss_Parts (fr_ss fr)) off) (\<lambda>(parts, offRemain).
        case parts of
          [] \<Rightarrow> Ret (Inr (ReadBytes []), s)
        | None # _ \<Rightarrow> Panic ''nil pointer dereference''
        | Some p # _ \<Rightarrow>
            if ref_Valid (bp_BlobRef p) \<and> ref_Valid (bp_BytesRef p)
            then Ret (Inl (ErrText ''part illegally contained both a blobRef and bytesRef''), s)
            else if \<not> ref_Valid (bp_BlobRef p) \<and> \<not> ref_Valid (bp_BytesRef p)
            then Ret (Inr (ReadZeros (sint (bp_Size p - word_of_int offRemain))), s)
            else if ref_Valid (bp_BlobRef p) then
              obind (getBlob fetch (bp_BlobRef p) s) (\<lambda>(r, s).
                case r of
                  Inl e \<Rightarrow> Ret (Inl e, s)
                | Inr b \<Rightarrow>
                    Ret (Inr (ReadBytes (take (nat (sint (bp_Size p))) (drop (nat (seek_pos p offRemain)) (rd_data (blob_Open b))))), s))
            else
              obind (getSuperset fetch (bp_BytesRef p) s) (\<lambda>(r, s).
                case r of
                  Inl e \<Rightarrow> Ret (Inl e, s)
                | Inr ss \<Rightarrow>
                    obind (ss_NewFileReader ss) (\<lambda>r.
                      case r of
                        Inl e \<Rightarrow> Ret (Inl e, s)
                      | Inr sub \<Rightarrow> Ret (Inr (ReadTree sub (seek_pos p offRemain) (sint (bp_Size p))), s)))))"

text \<open>
  \<open>io.ReadFull\<close> of a chunk into a buffer of \<open>want\<close> bytes: what is read and the error.  A sub-tree is read through its section reader,
  which asks \<open>ReadAt\<close> for at most what the limit and its size leave.
\<close>

definition short_err :: "bytes \<Rightarrow> goerr option" where
  "short_err data = Some (if data = [] then ErrEOF else ErrUnexpectedEOF)"

definition chunk_ReadFull ::
  "(FileReader \<Rightarrow> nat \<Rightarrow> int \<Rightarrow> 's \<Rightarrow> ((bytes \<times> goerr option) \<times> 's) outcome) \<Rightarrow> chunk_reader \<Rightarrow> nat \<Rightarrow> 's
    \<Rightarrow> ((bytes \<times> goerr option) \<times> 's) outcome" where
  "chunk_ReadFull readAt r want s =
     (case r of
        ReadBytes bs \<Rightarrow> Ret (if want \<le> length bs then (take want bs, None) else (bs, short_err bs), s)
      | ReadZeros n \<Rightarrow>
          (let bs = replicate (min want (nat n)) 0 in Ret (if length bs = want then (bs, None) else (bs, short_err bs), s))
      | ReadTree sub pos lim \<Rightarrow>
          (let amount = min want (nat (min lim (fr_size sub - pos)))
           in if want = 0 then Ret (([], None), s)
              else if amount = 0 then Ret (([], short_err []), s)
              else obind (readAt sub amount pos s) (\<lambda>((data, err), s).
                Ret (if length data = want then (data, None)
                     else (data, case err of
                        None \<Rightarrow> short_err data
                      | Some e \<Rightarrow> if e = ErrEOF \<and> data \<noteq> [] then Some ErrUnexpectedEOF else Some e), s))))"

text \<open>
  The loop of \<open>ReadAt\<close>.  Its \<open>err\<close> is a variable of the loop body, which hides the result: an error of reading the chunk is forgotten
  when the next turn begins, only one of \<open>readerForOffset\<close> is returned.
\<close>

function ra_loop ::
  "(int \<Rightarrow> nat \<Rightarrow> 's \<Rightarrow> ((goerr + bytes) \<times> 's) outcome) \<Rightarrow> int \<Rightarrow> nat \<Rightarrow> bytes \<Rightarrow> 's \<Rightarrow> ((bytes \<times> goerr option) \<times> 's) outcome" where
  "ra_loop rd off want acc s =
     (if want = 0 then Ret ((acc, None), s)
      else obind (rd off want s) (\<lambda>(r, s).
        case r of
          Inl e \<Rightarrow> Ret ((acc, Some e), s)
        | Inr data \<Rightarrow>
            if data = [] then Ret ((acc, Some ErrUnexpectedEOF), s)
            else ra_loop rd (off + int (length data)) (want - length data) (acc @ data) s))"
  by pat_completeness auto
termination by (relation "measure (\<lambda>(rd, off, want, acc, s). want)") auto

declare ra_loop.simps [simp del]

text \<open>
  \<open>ReadAt(p, off)\<close> with \<open>len(p) = want\<close>.  The first argument bounds the depth of the tree of schema blobs; with none left the code is still
  descending.
\<close>

fun ReadAt ::
  "nat \<Rightarrow> 'w fetcher \<Rightarrow> FileReader \<Rightarrow> nat \<Rightarrow> int \<Rightarrow> frcache \<times> 'w \<Rightarrow> ((bytes \<times> goerr option) \<times> frcache \<times> 'w) outcome" where
  "ReadAt 0 fetch fr want off s = Hang"
| "ReadAt (Suc depth) fetch fr want off s =
     (if off < 0 then Ret (([], Some (ErrText ''schema/filereader: negative offset'')), s)
      else if off \<ge> fr_size fr then Ret (([], Some ErrEOF), s)
      else ra_loop (\<lambda>off want s.
          obind (readerForOffset fetch fr off s) (\<lambda>(r, s).
            case r of
              Inl e \<Rightarrow> Ret (Inl e, s)
            | Inr chunk \<Rightarrow> obind (chunk_ReadFull (ReadAt depth fetch) chunk want s) (\<lambda>((data, _), s). Ret (Inr data, s)))) off want [] s)"

declare ReadAt.simps [simp del]

text \<open>
  \<open>ForeachChunk\<close>: \<open>fn\<close> is called with the path of schema blobs and the chunk, and stops the walk by an error.
\<close>

fun foreachParts ::
  "(superset \<Rightarrow> Ref list \<Rightarrow> 'a \<Rightarrow> frcache \<times> 'w \<Rightarrow> ((goerr option \<times> 'a) \<times> frcache \<times> 'w) outcome) \<Rightarrow> 'w fetcher
    \<Rightarrow> (Ref list \<Rightarrow> BytesPart \<Rightarrow> 'a \<Rightarrow> goerr option \<times> 'a) \<Rightarrow> Ref list \<Rightarrow> BytesPart option list \<Rightarrow> 'a \<Rightarrow> frcache \<times> 'w
    \<Rightarrow> ((goerr option \<times> 'a) \<times> frcache \<times> 'w) outcome" where
  "foreachParts sub fetch fn path [] x s = Ret ((None, x), s)"
| "foreachParts sub fetch fn path (None # ps) x s = Panic ''nil pointer dereference''"
| "foreachParts sub fetch fn path (Some bp # ps) x s =
     (if ref_Valid (bp_BytesRef bp) \<and> ref_Valid (bp_BlobRef bp)
      then Ret ((Some (ErrText ''part illegally contained both a blobRef and bytesRef''), x), s)
      else if ref_Valid (bp_BytesRef bp) then
        obind (getSuperset fetch (bp_BytesRef bp) s) (\<lambda>(r, s).
          case r of
            Inl e \<Rightarrow> Ret ((Some e, x), s)
          | Inr ss \<Rightarrow>
              obind (ss_NewFileReader ss) (\<lambda>r.
                case r of
                  Inl e \<Rightarrow> Ret ((Some e, x), s)
                | Inr subfr \<Rightarrow>
                    obind (sub ss path x s) (\<lambda>((err, x), s).
                      if err \<noteq> None then Ret ((err, x), s) else foreachParts sub fetch fn path ps x s)))
      else
        let (err, x) = fn path bp x
        in if err \<noteq> None then Ret ((err, x), s) else foreachParts sub fetch fn path ps x s)"

fun foreachChunk ::
  "nat \<Rightarrow> 'w fetcher \<Rightarrow> (Ref list \<Rightarrow> BytesPart \<Rightarrow> 'a \<Rightarrow> goerr option \<times> 'a) \<Rightarrow> superset \<Rightarrow> Ref list \<Rightarrow> 'a \<Rightarrow> frcache \<times> 'w
    \<Rightarrow> ((goerr option \<times> 'a) \<times> frcache \<times> 'w) outcome" where
  "foreachChunk 0 fetch fn ss path x s = Hang"
| "foreachChunk (Suc depth) fetch fn ss path x s =
     foreachParts (foreachChunk depth fetch fn) fetch fn (path @ [ss_BlobRef ss]) (ss_Parts ss) x s"

definition ForeachChunk ::
  "nat \<Rightarrow> 'w fetcher \<Rightarrow> (Ref list \<Rightarrow> BytesPart \<Rightarrow> 'a \<Rightarrow> goerr option \<times> 'a) \<Rightarrow> FileReader \<Rightarrow> 'a \<Rightarrow> frcache \<times> 'w
    \<Rightarrow> ((goerr option \<times> 'a) \<times> frcache \<times> 'w) outcome" where
  "ForeachChunk depth fetch fn fr x s = foreachChunk depth fetch fn (fr_ss fr) [] x s"

section \<open>The bytes of a tree\<close>

text \<open>
  The bytes that a part of a tree of depth \<open>d\<close> stands for, over the contents \<open>C\<close> of a storage.  A part takes what follows its offset up to
  the end of the blob or tree it refers to, as every part does that the file writer makes.
\<close>

definition byte_type :: "superset \<Rightarrow> bool" where
  "byte_type ss \<longleftrightarrow> ss_Type ss = ''file'' \<or> ss_Type ss = ''bytes''"

inductive part_holds :: "blobmap \<Rightarrow> nat \<Rightarrow> BytesPart \<Rightarrow> bytes \<Rightarrow> bool" for C where
  ph_blob: "ref_Valid (bp_BlobRef p) \<Longrightarrow> \<not> ref_Valid (bp_BytesRef p) \<Longrightarrow> C (bp_BlobRef p) = Some b \<Longrightarrow> length b \<le> MaxBlobSize \<Longrightarrow>
      unat (bp_Offset p) + unat (bp_Size p) = length b \<Longrightarrow> part_holds C d p (drop (unat (bp_Offset p)) b)"
| ph_zero: "\<not> ref_Valid (bp_BlobRef p) \<Longrightarrow> \<not> ref_Valid (bp_BytesRef p) \<Longrightarrow> unat (bp_Size p) < 2 ^ 63 \<Longrightarrow>
      part_holds C d p (replicate (unat (bp_Size p)) 0)"
| ph_tree: "\<not> ref_Valid (bp_BlobRef p) \<Longrightarrow> ref_Valid (bp_BytesRef p) \<Longrightarrow> C (bp_BytesRef p) = Some j \<Longrightarrow>
      parseSuperset (bytes_reader j) = Inr ss \<Longrightarrow> byte_type ss \<Longrightarrow> ss_Parts ss = map Some ps \<Longrightarrow> list_all2 (part_holds C d) ps ds \<Longrightarrow>
      length (concat ds) < 2 ^ 63 \<Longrightarrow> unat (bp_Offset p) + unat (bp_Size p) = length (concat ds) \<Longrightarrow>
      part_holds C (Suc d) p (drop (unat (bp_Offset p)) (concat ds))"

definition file_holds :: "blobmap \<Rightarrow> nat \<Rightarrow> superset \<Rightarrow> bytes \<Rightarrow> bool" where
  "file_holds C d ss data \<longleftrightarrow> byte_type ss \<and> length data < 2 ^ 63 \<and>
     (\<exists>ps ds. ss_Parts ss = map Some ps \<and> list_all2 (part_holds C d) ps ds \<and> data = concat ds)"

lemma part_holds_size: "part_holds C d p x \<Longrightarrow> length x = unat (bp_Size p)"
  by (induction rule: part_holds.induct) auto

lemma part_holds_sizes: "list_all2 (part_holds C d) ps ds \<Longrightarrow> sum_list (map (\<lambda>p. unat (bp_Size p)) ps) = length (concat ds)"
  by (induction ps ds rule: list_all2_induct) (auto dest: part_holds_size)

lemma sum_parts_sizes:
  assumes "sum_list (map (\<lambda>p. unat (bp_Size p)) ps) + unat n < 2 ^ 64"
  shows "\<exists>m. sum_parts (map Some ps) n = Ret m \<and> unat m = sum_list (map (\<lambda>p. unat (bp_Size p)) ps) + unat n"
  using assms
proof (induction ps arbitrary: n)
  case (Cons p ps)
  have "unat (n + bp_Size p) = unat n + unat (bp_Size p)" using Cons.prems by (subst unat_add_lem [symmetric]) simp
  then show ?case using Cons.IH [of "n + bp_Size p"] Cons.prems by (auto simp: algebra_simps)
qed simp

lemma sint_small: "unat w < 2 ^ 63 \<Longrightarrow> sint w = int (unat w)" for w :: u64
proof -
  assume "unat w < 2 ^ 63"
  then have "int (unat w) < int (2 ^ 63)" by (simp only: of_nat_less_iff)
  then have "uint w < 2 ^ 63" by simp
  moreover have "- (2 ^ 63) \<le> uint w" by (rule order_trans [of _ 0]) simp_all
  ultimately have "signed_take_bit 63 (uint w) = uint w" by (intro signed_take_bit_int_eq_self)
  then show ?thesis by (simp add: sint_uint)
qed

lemma file_reader:
  assumes "file_holds C d ss data"
  shows "ss_NewFileReader ss = Ret (Inr \<lparr>fr_ss = ss, fr_size = int (length data)\<rparr>)"
proof -
  obtain ps ds where p: "ss_Parts ss = map Some ps" "list_all2 (part_holds C d) ps ds" "data = concat ds" "length data < 2 ^ 63"
    using assms by (auto simp: file_holds_def)
  obtain m where m: "sum_parts (map Some ps) 0 = Ret m" "unat m = length data"
    using sum_parts_sizes [of ps 0] part_holds_sizes [OF p(2)] p by auto
  then show ?thesis using assms p sint_small [of m] by (auto simp: ss_NewFileReader_def SumPartsSize_def file_holds_def byte_type_def)
qed

section \<open>Reading it\<close>

text \<open>What reading \<open>want\<close> bytes at an offset of \<open>data\<close> gives.\<close>

definition read_at_spec :: "bytes \<Rightarrow> nat \<Rightarrow> nat \<Rightarrow> bytes \<times> goerr option" where
  "read_at_spec data want off =
     (take want (drop off data),
      if length data \<le> off then Some ErrEOF else if off + want \<le> length data then None else Some ErrUnexpectedEOF)"

text \<open>What a reader relies on: a fetcher gives the contents of the blobs that are there.\<close>

locale fetches =
  fixes fetch :: "'w fetcher"
    and C :: blobmap
    and I :: "'w \<Rightarrow> bool"
  assumes fetch: "I w \<Longrightarrow> C br = Some b \<Longrightarrow> \<exists>w'. fetch br w = Ret ((Some (bytes_reader b), of_nat (length b), None), w') \<and> I w'"
begin

definition cache_ok :: "frcache \<Rightarrow> bool" where
  "cache_ok c \<longleftrightarrow>
     (\<forall>b. fc_lastBlob c = Some b \<longrightarrow> (\<exists>data. C (blob_ref b) = Some data \<and> rd_data (blob_Open b) = data)) \<and>
     (\<forall>br ss. map_of (fc_ssm c) br = Some ss \<longrightarrow>
       (\<exists>j ss0. C br = Some j \<and> parseSuperset (bytes_reader j) = Inr ss0 \<and> ss = ss0\<lparr>ss_BlobRef := br\<rparr>))"

definition st_ok :: "frcache \<times> 'w \<Rightarrow> bool" where
  "st_ok s \<longleftrightarrow> cache_ok (fst s) \<and> I (snd s)"

lemma st_ok_empty: "I w \<Longrightarrow> st_ok (emptyCache, w)"
  by (simp add: st_ok_def cache_ok_def emptyCache_def)

lemma FromFetcher_ok:
  assumes "I w" and "C br = Some data" and "length data \<le> MaxBlobSize"
  shows "\<exists>b w'. FromFetcher fetch br w = Ret (Inr b, w') \<and> I w' \<and> blob_ref b = br \<and> rd_data (blob_Open b) = data"
proof -
  obtain w' where w: "fetch br w = Ret ((Some (bytes_reader data), of_nat (length data), None), w')" "I w'" using fetch assms by blast
  have "unat (of_nat (length data) :: u32) = length data" using assms(3) by (simp add: unat_of_nat MaxBlobSize_def)
  then show ?thesis using w assms(3)
    by (simp add: FromFetcher_def FromReader_def read_full_def NewBlob_def blob_Open_def)
qed

lemma getBlob_ok:
  assumes "st_ok s" and "C br = Some data" and "length data \<le> MaxBlobSize"
  shows "\<exists>b s'. getBlob fetch br s = Ret (Inr b, s') \<and> st_ok s' \<and> rd_data (blob_Open b) = data"
proof -
  obtain c w where s: "s = (c, w)" "cache_ok c" "I w" using assms(1) by (cases s) (auto simp: st_ok_def)
  obtain b w' where b: "FromFetcher fetch br w = Ret (Inr b, w')" "I w'" "blob_ref b = br" "rd_data (blob_Open b) = data"
    using FromFetcher_ok [OF s(3) assms(2,3)] by blast
  have c: "cache_ok (c\<lparr>fc_lastBlob := Some b\<rparr>)" using s(2) b(3,4) assms(2) by (auto simp: cache_ok_def)
  show ?thesis
  proof (cases "\<exists>l. fc_lastBlob c = Some l \<and> blob_ref l = br")
    case True
    then show ?thesis using s assms(2) by (auto simp: getBlob_def st_ok_def cache_ok_def)
  next
    case False
    then show ?thesis using s b c by (auto simp: getBlob_def st_ok_def split: option.split)
  qed
qed

lemma getSuperset_ok:
  assumes "st_ok s" and "C br = Some j" and "parseSuperset (bytes_reader j) = Inr ss"
  shows "\<exists>s'. getSuperset fetch br s = Ret (Inr (ss\<lparr>ss_BlobRef := br\<rparr>), s') \<and> st_ok s'"
proof -
  obtain c w where s: "s = (c, w)" "cache_ok c" "I w" using assms(1) by (cases s) (auto simp: st_ok_def)
  obtain w' where w: "fetch br w = Ret ((Some (bytes_reader j), of_nat (length j), None), w')" "I w'" using fetch [OF s(3) assms(2)] by blast
  show ?thesis
  proof (cases "map_of (fc_ssm c) br")
    case None
    have "cache_ok (c\<lparr>fc_ssm := (br, ss\<lparr>ss_BlobRef := br\<rparr>) # fc_ssm c\<rparr>)" using s(2) assms(2,3) by (auto simp: cache_ok_def)
    then show ?thesis using s w None assms(3) by (simp add: getSuperset_def st_ok_def Let_def)
  next
    case (Some ss')
    then obtain j' ss0 where "C br = Some j'" "parseSuperset (bytes_reader j') = Inr ss0" "ss' = ss0\<lparr>ss_BlobRef := br\<rparr>"
      using s(2) unfolding cache_ok_def by blast
    then have "ss' = ss\<lparr>ss_BlobRef := br\<rparr>" using assms(2,3) by simp
    then show ?thesis using s Some by (simp add: getSuperset_def st_ok_def)
  qed
qed

end

lemma skip_parts_holds:
  assumes "list_all2 (part_holds C d) ps ds" and "0 \<le> off" and "off < int (length (concat ds))"
  shows "\<exists>p ps' x ds' k. skip_parts (map Some ps) off = Ret (Some p # map Some ps', k) \<and> part_holds C d p x \<and>
    0 \<le> k \<and> k < int (length x) \<and> drop (nat off) (concat ds) = drop (nat k) x @ concat ds'"
  using assms
proof (induction ps ds arbitrary: off rule: list_all2_induct)
  case (Cons p ps x ds)
  have len: "uint (bp_Size p) = int (length x)" using part_holds_size [OF Cons(1)] by simp
  show ?case
  proof (cases "int (length x) \<le> off")
    case True
    then have "\<exists>q ps' y ds' k. skip_parts (map Some ps) (off - int (length x)) = Ret (Some q # map Some ps', k) \<and> part_holds C d q y \<and>
        0 \<le> k \<and> k < int (length y) \<and> drop (nat (off - int (length x))) (concat ds) = drop (nat k) y @ concat ds'"
      using Cons.prems by (intro Cons.IH) simp_all
    moreover have "drop (nat off) (concat (x # ds)) = drop (nat (off - int (length x))) (concat ds)"
      using True by (simp add: nat_diff_distrib')
    ultimately show ?thesis using True len by simp
  next
    case False
    then have "drop (nat off) (concat (x # ds)) = drop (nat off) x @ concat ds" by simp
    then show ?thesis using False Cons len by fastforce
  qed
qed simp

lemma unat_of_small: "0 \<le> x \<Longrightarrow> x < 2 ^ 64 \<Longrightarrow> unat (word_of_int x :: u64) = nat x"
  by (simp add: unsigned_of_int take_bit_int_eq_self)

lemma sint_of_small: "0 \<le> x \<Longrightarrow> x < 2 ^ 63 \<Longrightarrow> sint (word_of_int x :: u64) = x"
  using sint_small [of "word_of_int x"] unat_of_small [of x] by simp

text \<open>Positions within a part do not overflow.\<close>

lemma seek_pos_small:
  assumes "0 \<le> k" and "k + int (unat (bp_Offset p)) < 2 ^ 63"
  shows "seek_pos p k = k + int (unat (bp_Offset p))"
proof -
  have "int (unat (bp_Offset p)) < int (2 ^ 63)" using assms by simp
  then have "unat (bp_Offset p) < 2 ^ 63" by (simp only: of_nat_less_iff)
  then have "sint (bp_Offset p) = int (unat (bp_Offset p))" by (rule sint_small)
  moreover have "i64 (k + int (unat (bp_Offset p))) = k + int (unat (bp_Offset p))"
    unfolding i64_def by (rule sint_of_small) (use assms in auto)
  ultimately show ?thesis using assms by (simp add: seek_pos_def)
qed

context fetches
begin

text \<open>A chunk that is read from the offset \<open>k\<close> of a part gives the part's next bytes, as many as are wanted.\<close>

definition chunk_reads :: "nat \<Rightarrow> chunk_reader \<Rightarrow> bytes \<Rightarrow> bool" where
  "chunk_reads fuel r y \<longleftrightarrow>
     (\<forall>want s. 0 < want \<longrightarrow> st_ok s \<longrightarrow>
       (\<exists>err s'. chunk_ReadFull (ReadAt fuel fetch) r want s = Ret ((take want y, err), s') \<and> st_ok s'))"

definition tree_reads :: "nat \<Rightarrow> nat \<Rightarrow> bool" where
  "tree_reads d fuel \<longleftrightarrow>
     (\<forall>ss data want off s. file_holds C d ss data \<longrightarrow> st_ok s \<longrightarrow> 0 \<le> off \<longrightarrow> off < int (length data) \<longrightarrow>
       (\<exists>s'. ReadAt fuel fetch \<lparr>fr_ss = ss, fr_size = int (length data)\<rparr> want off s =
         Ret ((take want (drop (nat off) data), if nat off + want \<le> length data then None else Some ErrUnexpectedEOF), s') \<and> st_ok s'))"

lemma blob_chunk: "chunk_reads fuel (ReadBytes y) y"
  by (auto simp: chunk_reads_def chunk_ReadFull_def)

lemma zero_chunk: "chunk_reads fuel (ReadZeros (int n)) (replicate n 0)"
  by (auto simp: chunk_reads_def chunk_ReadFull_def min_def Let_def)

lemma tree_chunk:
  assumes "tree_reads d fuel" and "file_holds C d ss data" and "off + sz = length data" and "0 \<le> k" and "k < int sz"
  shows "chunk_reads fuel (ReadTree \<lparr>fr_ss = ss, fr_size = int (length data)\<rparr> (k + int off) (int sz)) (drop (nat k) (drop off data))"
  unfolding chunk_reads_def
proof (intro allI impI)
  fix want :: nat and s assume want: "0 < want" and s: "st_ok s"
  let ?fr = "\<lparr>fr_ss = ss, fr_size = int (length data)\<rparr>"
  define amount where "amount = min want (nat (min (int sz) (int (length data) - (k + int off))))"
  have a: "amount = min want (sz - nat k)" "0 < amount" using assms(3-5) want by (auto simp: amount_def)
  have pos: "nat (k + int off) = off + nat k" using assms(4) by linarith
  have in_range: "0 \<le> k + int off" "k + int off < int (length data)" using assms(3-5) by auto
  have "\<exists>s'. ReadAt fuel fetch ?fr amount (k + int off) s = Ret ((take amount (drop (nat (k + int off)) data),
      if nat (k + int off) + amount \<le> length data then None else Some ErrUnexpectedEOF), s') \<and> st_ok s'"
    using assms(1) unfolding tree_reads_def using assms(2) s in_range by blast
  moreover have "nat (k + int off) + amount \<le> length data" using a(1) pos assms(3-5) by linarith
  moreover have "take amount (drop (nat (k + int off)) data) = take want (drop (nat k) (drop off data))"
  proof -
    have "length (drop (off + nat k) data) = sz - nat k" using assms(3) by auto
    then show ?thesis unfolding a(1) drop_drop pos by (simp add: min_def add.commute)
  qed
  ultimately obtain s' where s': "ReadAt fuel fetch ?fr amount (k + int off) s = Ret ((take want (drop (nat k) (drop off data)), None), s')"
    "st_ok s'" by auto
  then show "\<exists>err s'. chunk_ReadFull (ReadAt fuel fetch) (ReadTree ?fr (k + int off) (int sz)) want s =
      Ret ((take want (drop (nat k) (drop off data)), err), s') \<and> st_ok s'"
    using a(2) want unfolding chunk_ReadFull_def chunk_reader.case FileReader.select_convs Let_def amount_def [symmetric] by auto
qed

lemma part_chunk:
  assumes "part_holds C d p x" and "st_ok s" and "0 \<le> k" and "k < int (length x)" and "\<And>e. d = Suc e \<Longrightarrow> tree_reads e fuel"
    and "fr_size fr > off" and "0 \<le> off" and "skip_parts (ss_Parts (fr_ss fr)) off = Ret (Some p # ps, k)"
  shows "\<exists>r s'. readerForOffset fetch fr off s = Ret (Inr r, s') \<and> st_ok s' \<and> chunk_reads fuel r (drop (nat k) x)"
  using assms(1)
proof cases
  case (ph_blob b)
  obtain b' s' where b: "getBlob fetch (bp_BlobRef p) s = Ret (Inr b', s')" "st_ok s'" "rd_data (blob_Open b') = b"
    using getBlob_ok [OF assms(2) ph_blob(4,5)] by blast
  have len: "length b < 2 ^ 63" using ph_blob(5) by (simp add: MaxBlobSize_def)
  then have sz: "sint (bp_Size p) = int (unat (bp_Size p))" using ph_blob(6) by (intro sint_small) linarith
  have "int (length b) < 2 ^ 63" using len by (metis of_nat_less_iff of_nat_numeral of_nat_power)
  then have pos: "seek_pos p k = k + int (unat (bp_Offset p))"
    using assms(3,4) ph_blob(1,6) by (intro seek_pos_small) auto
  have "take (unat (bp_Size p)) (drop (nat (k + int (unat (bp_Offset p)))) b) = drop (nat k) x"
    using ph_blob(1,6) assms(3) by (simp add: nat_add_distrib add.commute)
  then show ?thesis using ph_blob b sz pos assms(6-8) blob_chunk by (auto simp: readerForOffset_def)
next
  case ph_zero
  have lt: "int (unat (bp_Size p)) > k" using ph_zero(1) assms(4) by simp
  have "unat (bp_Size p - word_of_int k) = unat (bp_Size p) - nat k"
  proof -
    have "int (unat (bp_Size p)) < int (2 ^ 63)" using ph_zero(4) by (simp only: of_nat_less_iff)
    then have "unat (word_of_int k :: u64) = nat k" using lt assms(3) by (intro unat_of_small) auto
    moreover have "nat k \<le> unat (bp_Size p)" using lt by linarith
    ultimately show ?thesis by (subst unat_sub) (simp_all add: word_le_nat_alt)
  qed
  then have "sint (bp_Size p - word_of_int k) = int (unat (bp_Size p) - nat k)" using ph_zero(4) by (subst sint_small) auto
  moreover have "drop (nat k) x = replicate (unat (bp_Size p) - nat k) 0" using ph_zero(1) by simp
  ultimately show ?thesis using ph_zero assms zero_chunk by (auto simp: readerForOffset_def)
next
  case (ph_tree j ss qs e ds)
  have f: "file_holds C e ss (concat ds)" using ph_tree by (auto simp: file_holds_def)
  then have f': "file_holds C e (ss\<lparr>ss_BlobRef := bp_BytesRef p\<rparr>) (concat ds)" by (simp add: file_holds_def byte_type_def)
  obtain s' where s': "getSuperset fetch (bp_BytesRef p) s = Ret (Inr (ss\<lparr>ss_BlobRef := bp_BytesRef p\<rparr>), s')" "st_ok s'"
    using getSuperset_ok [OF assms(2) ph_tree(5,6)] by blast
  have "int (length (concat ds)) < int (2 ^ 63)" using ph_tree(10) by (simp only: of_nat_less_iff)
  then have len: "int (length (concat ds)) < 2 ^ 63" by simp
  have sz: "sint (bp_Size p) = int (unat (bp_Size p))" using ph_tree(10,11) by (intro sint_small) linarith
  have k: "k < int (unat (bp_Size p))" using assms(4) part_holds_size [OF assms(1)] by simp
  have "int (unat (bp_Offset p)) + int (unat (bp_Size p)) = int (length (concat ds))" using ph_tree(11) by (metis of_nat_add)
  then have "k + int (unat (bp_Offset p)) < 2 ^ 63" using k len by linarith
  then have pos: "seek_pos p k = k + int (unat (bp_Offset p))" by (rule seek_pos_small [OF assms(3)])
  have "chunk_reads fuel (ReadTree \<lparr>fr_ss = ss\<lparr>ss_BlobRef := bp_BytesRef p\<rparr>, fr_size = int (length (concat ds))\<rparr> (k + int (unat (bp_Offset p)))
      (int (unat (bp_Size p)))) (drop (nat k) x)"
    unfolding ph_tree(2) by (rule tree_chunk [OF assms(5) [OF ph_tree(1)] f' ph_tree(11) assms(3) k])
  then show ?thesis using ph_tree s' sz pos file_reader [OF f'] assms(6-8) by (auto simp: readerForOffset_def)
qed

lemma ra_loop_reads:
  assumes "\<And>off s want. st_ok s \<Longrightarrow> 0 \<le> off \<Longrightarrow> off < int (length data) \<Longrightarrow> 0 < want \<Longrightarrow>
      \<exists>s' y z. rd off want s = Ret (Inr (take want y), s') \<and> st_ok s' \<and> y \<noteq> [] \<and> drop (nat off) data = y @ z"
    and "\<And>off s want. st_ok s \<Longrightarrow> off = int (length data) \<Longrightarrow> \<exists>s'. rd off want s = Ret (Inr [], s') \<and> st_ok s'"
    and "st_ok s" and "0 \<le> off" and "off \<le> int (length data)"
  shows "\<exists>s'. ra_loop rd off want acc s = Ret ((acc @ take want (drop (nat off) data),
      if nat off + want \<le> length data then None else Some ErrUnexpectedEOF), s') \<and> st_ok s'"
  using assms(3-5)
proof (induction want arbitrary: off acc s rule: less_induct)
  case (less want)
  show ?case
  proof (cases "want = 0")
    case True
    then show ?thesis using less.prems by (auto simp: ra_loop.simps)
  next
    case False
    show ?thesis
    proof (cases "off = int (length data)")
      case True
      obtain s' where "rd off want s = Ret (Inr [], s')" "st_ok s'" using assms(2) [OF less.prems(1) True] by blast
      then show ?thesis using True False by (subst ra_loop.simps) simp
    next
      case off: False
      then obtain s' y z where y: "rd off want s = Ret (Inr (take want y), s')" "st_ok s'" "y \<noteq> []" "drop (nat off) data = y @ z"
        using assms(1) [of s off want] less.prems False by fastforce
      let ?n = "length (take want y)"
      have n: "0 < ?n" "?n \<le> want" using y(3) False by auto
      have len: "length data = nat off + length y + length z"
        using arg_cong [OF y(4), of length] less.prems(3) off by simp
      have "\<exists>s''. ra_loop rd (off + int ?n) (want - ?n) (acc @ take want y) s' =
          Ret (((acc @ take want y) @ take (want - ?n) (drop (nat (off + int ?n)) data),
            if nat (off + int ?n) + (want - ?n) \<le> length data then None else Some ErrUnexpectedEOF), s'') \<and> st_ok s''"
        using less.prems len n y(2) by (intro less.IH) auto
      moreover have "nat (off + int ?n) = nat off + ?n" using less.prems(2) by linarith
      moreover have "drop (nat off + ?n) data = drop ?n y @ z"
        using y(4) by (metis (no_types) add.commute append_take_drop_id drop_drop drop_append diff_is_0_eq' drop0 length_take min.cobounded1)
      moreover have "take want (drop (nat off) data) = take want y @ take (want - ?n) (drop ?n y @ z)"
        unfolding y(4) by (cases "want \<le> length y") simp_all
      ultimately show ?thesis using y(1) n False by (subst ra_loop.simps) (auto simp: add.assoc)
    qed
  qed
qed

lemma ReadAt_reads: "d < fuel \<Longrightarrow> tree_reads d fuel"
proof (induction d arbitrary: fuel rule: less_induct)
  case (less d)
  then obtain n where n: "fuel = Suc n" "d \<le> n" by (cases fuel) auto
  have sub: "tree_reads e n" if "d = Suc e" for e using less.IH [of e n] that n(2) by simp
  show ?case unfolding tree_reads_def
  proof (intro allI impI)
    fix ss data want off s
    assume f: "file_holds C d ss data" and s: "st_ok s" and off: "0 \<le> off" "off < int (length data)"
    let ?fr = "\<lparr>fr_ss = ss, fr_size = int (length data)\<rparr>"
    let ?rd = "\<lambda>off want s. obind (readerForOffset fetch ?fr off s) (\<lambda>(r, s).
        case r of Inl e \<Rightarrow> Ret (Inl e, s)
        | Inr chunk \<Rightarrow> obind (chunk_ReadFull (ReadAt n fetch) chunk want s) (\<lambda>((data, _), s). Ret (Inr data, s)))"
    obtain ps ds where p: "ss_Parts ss = map Some ps" "list_all2 (part_holds C d) ps ds" "data = concat ds" using f by (auto simp: file_holds_def)
    have step: "\<exists>s' y z. ?rd off want s = Ret (Inr (take want y), s') \<and> st_ok s' \<and> y \<noteq> [] \<and> drop (nat off) data = y @ z"
      if st: "st_ok s" and o': "0 \<le> off" "off < int (length data)" and w: "0 < want" for off s want
    proof -
      obtain q qs x ds' k where q: "skip_parts (map Some ps) off = Ret (Some q # map Some qs, k)" "part_holds C d q x" "0 \<le> k" "k < int (length x)"
        "drop (nat off) data = drop (nat k) x @ concat ds'" using skip_parts_holds [OF p(2) o'(1)] o'(2) p(3) by blast
      obtain r s' where r: "readerForOffset fetch ?fr off s = Ret (Inr r, s')" "st_ok s'" "chunk_reads n r (drop (nat k) x)"
        using part_chunk [OF q(2) st q(3,4) sub, where fr = ?fr and off = off and ps = "map Some qs"] q(1) p(1) o' by auto
      obtain err s'' where "chunk_ReadFull (ReadAt n fetch) r want s' = Ret ((take want (drop (nat k) x), err), s'')" "st_ok s''"
        using r(2,3) w unfolding chunk_reads_def by blast
      moreover have "drop (nat k) x \<noteq> []" using q(3,4) by auto
      ultimately show ?thesis using r(1) q(5) by (intro exI [of _ s''] exI [of _ "drop (nat k) x"] exI [of _ "concat ds'"]) simp
    qed
    have eof: "\<exists>s'. ?rd off want s = Ret (Inr [], s') \<and> st_ok s'" if "st_ok s" "off = int (length data)" for off s want
      using that by (cases s) (simp add: readerForOffset_def chunk_ReadFull_def)
    have "\<exists>s'. ra_loop ?rd off want [] s = Ret (([] @ take want (drop (nat off) data),
        if nat off + want \<le> length data then None else Some ErrUnexpectedEOF), s') \<and> st_ok s'"
      using step eof s off by (intro ra_loop_reads) auto
    then show "\<exists>s'. ReadAt fuel fetch ?fr want off s = Ret ((take want (drop (nat off) data),
        if nat off + want \<le> length data then None else Some ErrUnexpectedEOF), s') \<and> st_ok s'"
      using off by (simp add: n(1) ReadAt.simps)
  qed
qed

end

context fetches
begin

text \<open>Opening a file by its reference and reading from it, with caches that start empty.\<close>

lemma open_and_read:
  assumes "I w" and "ref_Valid br" and "C br = Some j" and "parseSuperset (bytes_reader j) = Inr ss" and "file_holds C d ss data"
    and "d < fuel" and "0 \<le> off"
  shows "\<exists>fr w1 s. NewFileReader fetch br w = Ret (Inr fr, w1) \<and> fr_size fr = int (length data) \<and>
    ReadAt fuel fetch fr want off (emptyCache, w1) = Ret (read_at_spec data want (nat off), s) \<and> I (snd s)"
proof -
  let ?ss = "ss\<lparr>ss_BlobRef := br\<rparr>" let ?fr = "\<lparr>fr_ss = ?ss, fr_size = int (length data)\<rparr>"
  obtain w1 where w1: "fetch br w = Ret ((Some (bytes_reader j), of_nat (length j), None), w1)" "I w1" using fetch [OF assms(1,3)] by blast
  have f: "file_holds C d ?ss data" using assms(5) by (simp add: file_holds_def byte_type_def)
  then have "byte_type ?ss" by (simp add: file_holds_def)
  then have n: "NewFileReader fetch br w = Ret (Inr ?fr, w1)"
    using w1 assms(2,4) file_reader [OF f] by (auto simp: NewFileReader_def byte_type_def Let_def)
  have "\<exists>s. ReadAt fuel fetch ?fr want off (emptyCache, w1) = Ret (read_at_spec data want (nat off), s) \<and> st_ok s"
  proof (cases "off < int (length data)")
    case True
    then have "\<exists>s. ReadAt fuel fetch ?fr want off (emptyCache, w1) =
        Ret ((take want (drop (nat off) data), if nat off + want \<le> length data then None else Some ErrUnexpectedEOF), s) \<and> st_ok s"
      using ReadAt_reads [OF assms(6)] f st_ok_empty [OF w1(2)] assms(7) unfolding tree_reads_def by blast
    moreover have "\<not> length data \<le> nat off" using True assms(7) by linarith
    ultimately show ?thesis by (simp only: read_at_spec_def if_False)
  next
    case False
    then have "ReadAt fuel fetch ?fr want off (emptyCache, w1) = Ret (([], Some ErrEOF), (emptyCache, w1))"
      using assms(6,7) by (cases fuel) (simp_all add: ReadAt.simps)
    then show ?thesis using False st_ok_empty [OF w1(2)] by (auto simp: read_at_spec_def)
  qed
  then show ?thesis using n by (auto simp: st_ok_def)
qed

end

text \<open>Every storage is such a fetcher, for the contents it has.\<close>

sublocale stores < rd: fetches "sto_Fetch (sto i)" m "\<lambda>w. I w \<and> i < n \<and> C w i = m" for i m
proof
  fix w br b
  assume w: "I w \<and> i < n \<and> C w i = m" and b: "m br = Some b"
  then obtain w' where "sto_Fetch (sto i) br w = Ret (fetch_spec (C w i) br, w')" "I w'" "C w' = C w" using Fetch by blast
  then show "\<exists>w'. sto_Fetch (sto i) br w = Ret ((Some (bytes_reader b), of_nat (length b), None), w') \<and> I w' \<and> i < n \<and> C w' i = m"
    using w b by (auto simp: fetch_spec_def)
qed

section \<open>Two surprises\<close>

text \<open>
  A part that takes only the beginning of a blob is read beyond its end when a read starts inside it: the reader of a chunk is limited to the
  size of the part, and not to what is left of it.  Here a part of two bytes is read from its second byte on, and the reader gives a byte
  that the part does not hold.
\<close>

lemma word_2_int: "sint (2 :: u64) = 2" "uint (2 :: u64) = 2" "sint (1 :: u64) = 1" "sint (0 :: u64) = 0"
  by simp_all

lemma part_overrun:
  assumes "ref_Valid r" and "fetch r w = Ret ((Some (bytes_reader [1, 2, 3, 4]), 4, None), w')"
  shows "\<exists>s. readerForOffset fetch \<lparr>fr_ss = zeroSuperset\<lparr>ss_Parts := [Some (zeroPart\<lparr>bp_Size := 2, bp_BlobRef := r\<rparr>)]\<rparr>, fr_size = 2\<rparr> 1 (emptyCache, w) =
    Ret (Inr (ReadBytes [2, 3]), s)"
proof -
  have "\<exists>b s. getBlob fetch r (emptyCache, w) = Ret (Inr b, s) \<and> rd_data (blob_Open b) = [1, 2, 3, 4]" using assms(2)
    by (simp add: getBlob_def emptyCache_def FromFetcher_def FromReader_def read_full_def NewBlob_def blob_Open_def MaxBlobSize_def)
  moreover have "seek_pos (zeroPart\<lparr>bp_Size := 2, bp_BlobRef := r\<rparr>) 1 = 1" by (simp add: seek_pos_def i64_def zeroPart_def)
  ultimately show ?thesis using assms(1)
    by (auto simp: readerForOffset_def zeroPart_def zeroSuperset_def ref_Valid_def zeroRef_def word_2_int)
qed

text \<open>
  The error of a fetch below a nested schema blob is lost; the caller is told that the file ended early.
\<close>

lemma nested_error_lost:
  assumes "ref_Valid r" and "fetch r w = Ret ((Some (bytes_reader j), n, None), w')" and "parseSuperset (bytes_reader j) = Inr ss"
    and "ss_Type ss = ''bytes''" and "ss_Parts ss = [Some (zeroPart\<lparr>bp_Size := 2, bp_BlobRef := r'\<rparr>)]"
    and "ref_Valid r'" and "fetch r' w' = Ret ((None, 0, Some e), w'')"
  shows "\<exists>s. ReadAt (Suc (Suc 0)) fetch \<lparr>fr_ss = zeroSuperset\<lparr>ss_Parts := [Some (zeroPart\<lparr>bp_Size := 2, bp_BytesRef := r\<rparr>)]\<rparr>, fr_size = 2\<rparr> 2 0
      (emptyCache, w) = Ret (([], Some ErrUnexpectedEOF), s)"
proof -
  let ?ss = "ss\<lparr>ss_BlobRef := r\<rparr>"
  obtain s where s: "getSuperset fetch r (emptyCache, w) = Ret (Inr ?ss, s)" "snd s = w'" "fc_lastBlob (fst s) = None"
    using assms(2,3) by (simp add: getSuperset_def emptyCache_def Let_def)
  have sub: "ss_NewFileReader ?ss = Ret (Inr \<lparr>fr_ss = ?ss, fr_size = 2\<rparr>)"
    using assms(4,5) by (simp add: ss_NewFileReader_def SumPartsSize_def zeroPart_def word_2_int)
  have pos: "seek_pos (zeroPart\<lparr>bp_Size := 2, bp_BytesRef := r\<rparr>) 0 = 0" by (simp add: seek_pos_def i64_def zeroPart_def)
  obtain s' where s': "getBlob fetch r' s = Ret (Inl e, s')" using s(2,3) assms(7) by (cases s) (simp add: getBlob_def FromFetcher_def)
  have "readerForOffset fetch \<lparr>fr_ss = ?ss, fr_size = 2\<rparr> 0 s = Ret (Inl e, s')"
    using assms(5,6) s' by (simp add: readerForOffset_def zeroPart_def ref_Valid_def zeroRef_def word_2_int)
  then have inner: "ReadAt (Suc 0) fetch \<lparr>fr_ss = ?ss, fr_size = 2\<rparr> 2 0 s = Ret (([], Some e), s')"
    by (simp add: ReadAt.simps ra_loop.simps)
  have outer: "readerForOffset fetch \<lparr>fr_ss = zeroSuperset\<lparr>ss_Parts := [Some (zeroPart\<lparr>bp_Size := 2, bp_BytesRef := r\<rparr>)]\<rparr>, fr_size = 2\<rparr> 0 (emptyCache, w) =
      Ret (Inr (ReadTree \<lparr>fr_ss = ?ss, fr_size = 2\<rparr> 0 2), s)"
    using assms(1) s(1) sub pos by (simp add: readerForOffset_def zeroPart_def zeroSuperset_def ref_Valid_def zeroRef_def word_2_int)
  show ?thesis by (simp add: ReadAt.simps(2) [of "Suc 0"] ra_loop.simps outer chunk_ReadFull_def inner)
qed

end
