(* ===== verification/FileWriter.thy ===== *)
theory FileWriter
  imports FileReader RollSum MemStorage
begin

text \<open>
  Package \<open>pkg/schema\<close>, file \<open>filewriter.go\<close>: cutting a file into chunks at the boundaries of the rolling checksum, and uploading the
  chunks and the tree of schema blobs over them.  What was written is shown to be read back byte for byte.
\<close>

section \<open>The source\<close>

definition maxBlobSize :: nat where "maxBlobSize = 2 ^ 20"
definition firstChunkSize :: nat where "firstChunkSize = 256 * 2 ^ 10"
definition bufioReaderSize :: nat where "bufioReaderSize = 32 * 2 ^ 10"
definition tooSmallThreshold :: nat where "tooSmallThreshold = 64 * 2 ^ 10"

text \<open>
  The results of the source's \<open>Read\<close>, in turn; after the last it reports its end.  The buffered reader asks again only when its buffer is
  empty, gives up after a hundred empty reads, and hands out its bytes before an error; each byte comes with \<open>sawEOF\<close> as it is then.
\<close>

datatype rd_end = EOF | Failed goerr

type_synonym rd_results = "(bytes \<times> rd_end option) list"

fun buffered :: "nat \<Rightarrow> rd_results \<Rightarrow> (u8 \<times> bool) list \<times> rd_end" where
  "buffered k [] = ([], EOF)"
| "buffered k ((bs, None) # rs) =
     (if bs = [] then (if k = 0 then ([], Failed (ErrText ''multiple Read calls return no data or error'')) else buffered (k - 1) rs)
      else let (cs, e) = buffered 99 rs in (map (\<lambda>b. (b, False)) bs @ cs, e))"
| "buffered k ((bs, Some e) # rs) = (map (\<lambda>b. (b, e = EOF)) bs, e)"

section \<open>Uploading a blob\<close>

definition serverHasBlob :: "'w Storage \<Rightarrow> Ref \<Rightarrow> 'w \<Rightarrow> ((bool \<times> goerr option) \<times> 'w) outcome" where
  "serverHasBlob bs br w =
     obind (StatBlob bs br w) (\<lambda>((_, err), w).
       Ret (case err of
              None \<Rightarrow> (True, None)
            | Some e \<Rightarrow> if e = ErrNotExist then (False, None) else (False, Some e), w))"

definition uploadString :: "'w Storage \<Rightarrow> Ref \<Rightarrow> bytes \<Rightarrow> 'w \<Rightarrow> ((goerr + Ref) \<times> 'w) outcome" where
  "uploadString bs br s w =
     (if \<not> ref_Valid br then Panic ''invalid blobref''
      else obind (serverHasBlob bs br w) (\<lambda>((hasIt, err), w).
        case err of
          Some e \<Rightarrow> Ret (Inl e, w)
        | None \<Rightarrow>
            if hasIt then Ret (Inr br, w)
            else obind (ReceiveNoHash bs br (bytes_reader s) w) (\<lambda>((_, err), w).
              case err of Some e \<Rightarrow> Ret (Inl e, w) | None \<Rightarrow> Ret (Inr br, w))))"

section \<open>Spans\<close>

datatype span = Span (sp_from: int) (sp_to: int) (sp_bits: nat) (sp_br: Ref) (sp_children: "span list")

definition isSingleBlob :: "span \<Rightarrow> bool" where
  "isSingleBlob s \<longleftrightarrow> length (sp_children s) = 0"

fun span_size :: "span \<Rightarrow> int" where
  "span_size (Span from to bits br children) = to - from + sum_list (map span_size children)"

text \<open>
  The future of an upload: the reference that is known at once, the first error of the uploads below it, and its own.
\<close>

record future =
  fut_br :: Ref
  fut_children :: "goerr option"
  fut_err :: "goerr option"

definition fut_Get :: "future \<Rightarrow> Ref \<times> goerr option" where
  "fut_Get f = (case fut_children f of Some e \<Rightarrow> (zeroRef, Some e) | None \<Rightarrow> (fut_br f, fut_err f))"

definition first_err :: "goerr option \<Rightarrow> goerr option \<Rightarrow> goerr option" where
  "first_err e f = (case e of None \<Rightarrow> f | Some _ \<Rightarrow> e)"

text \<open>
  The part of \<open>uploadBytes\<close> that follows the collection of the parts.  Uploads run in goroutines of their own; here each is finished
  where it is started.  A "file" waits for its parts and is not uploaded if one of them failed.
\<close>

definition finishBytes ::
  "'w Storage \<Rightarrow> gmap \<Rightarrow> int \<Rightarrow> BytesPart list \<Rightarrow> goerr option \<Rightarrow> 'w \<Rightarrow> (future \<times> 'w) outcome" where
  "finishBytes bs bb sz parts children w =
     (case populateParts bb sz parts of
        Inl e \<Rightarrow> Ret (\<lparr>fut_br = zeroRef, fut_children = children, fut_err = Some e\<rparr>, w)
      | Inr bb \<Rightarrow>
          if b_Type bb = ''file'' \<and> children \<noteq> None
          then Ret (\<lparr>fut_br = zeroRef, fut_children = None, fut_err = children\<rparr>, w)
          else obind (Builder_Blob bb) (\<lambda>b.
            let json = sb_str b; br = SHA1FromBytes json
            in obind (uploadString bs br json w) (\<lambda>(r, w).
              Ret (\<lparr>fut_br = br, fut_children = children, fut_err = (case r of Inl e \<Rightarrow> Some e | Inr _ \<Rightarrow> None)\<rparr>, w))))"

definition blob_part :: "Ref \<Rightarrow> int \<Rightarrow> BytesPart" where
  "blob_part br sz = \<lparr>bp_Size = word_of_int sz, bp_BlobRef = br, bp_BytesRef = zeroRef, bp_Offset = 0\<rparr>"

definition bytes_part :: "Ref \<Rightarrow> int \<Rightarrow> BytesPart" where
  "bytes_part br sz = \<lparr>bp_Size = word_of_int sz, bp_BlobRef = zeroRef, bp_BytesRef = br, bp_Offset = 0\<rparr>"

text \<open>
  \<open>addBytesParts\<close>: the parts of the spans and the first error of the schema blobs uploaded for their children.  A span with one child that is
  a blob needs no schema blob for it.
\<close>

definition childParts ::
  "'w Storage \<Rightarrow> span list \<Rightarrow> ((BytesPart list \<times> goerr option) \<times> 'w) outcome \<Rightarrow> 'w \<Rightarrow> ((BytesPart list \<times> goerr option) \<times> 'w) outcome" where
  "childParts bs children below w =
     (if length children = 1 \<and> isSingleBlob (hd children)
      then Ret (([blob_part (sp_br (hd children)) (span_size (hd children))], None), w)
      else if length children > 0 then
        obind below (\<lambda>((parts, err), w).
          let childrenSize = sum_list (map span_size children)
          in obind (finishBytes bs newBytes childrenSize parts err w) (\<lambda>(f, w).
            Ret (([bytes_part (fut_br f) childrenSize], snd (fut_Get f)), w)))
      else Ret (([], None), w))"

lemma obind_weak_cong: "x = y \<Longrightarrow> (\<And>a. f a = g a) \<Longrightarrow> obind x f = obind y g"
  by (cases y) simp_all

declare obind_cong [fundef_cong del]
declare obind_weak_cong [fundef_cong]

fun addBytesParts :: "'w Storage \<Rightarrow> span list \<Rightarrow> 'w \<Rightarrow> ((BytesPart list \<times> goerr option) \<times> 'w) outcome" where
  "addBytesParts bs [] w = Ret (([], None), w)"
| "addBytesParts bs (Span from to bits br children # spans) w =
     obind (childParts bs children (addBytesParts bs children w) w) (\<lambda>((dst, err), w).
       if from = to then Panic ''Shouldn't happen.''
       else obind (addBytesParts bs spans w) (\<lambda>((parts, err'), w).
         Ret ((dst @ blob_part br (to - from) # parts, first_err err err'), w)))"

declare obind_weak_cong [fundef_cong del]
declare obind_cong [fundef_cong]

definition uploadBytes :: "'w Storage \<Rightarrow> gmap \<Rightarrow> int \<Rightarrow> span list \<Rightarrow> 'w \<Rightarrow> (future \<times> 'w) outcome" where
  "uploadBytes bs bb sz s w = obind (addBytesParts bs s w) (\<lambda>((parts, err), w). finishBytes bs bb sz parts err w)"

section \<open>Cutting the file\<close>

text \<open>\<open>ws_firsterr\<close> is what \<open>firsterrc\<close> holds; an upload is finished before the next byte is read.\<close>

record wstate =
  ws_n :: int
  ws_last :: int
  ws_buf :: bytes
  ws_blobSize :: nat
  ws_rs :: RollSum
  ws_spans :: "span list"
  ws_firsterr :: "goerr option"

definition ws_init :: wstate where
  "ws_init = \<lparr>ws_n = 0, ws_last = 0, ws_buf = [], ws_blobSize = 0, ws_rs = rs_New, ws_spans = [], ws_firsterr = None\<rparr>"

definition set_br :: "Ref \<Rightarrow> span \<Rightarrow> span" where
  "set_br br s = Span (sp_from s) (sp_to s) (sp_bits s) br (sp_children s)"

text \<open>\<open>uploadLastSpan\<close>: the result is an error seen earlier, after which the loop stops.\<close>

definition uploadLastSpan :: "'w Storage \<Rightarrow> wstate \<Rightarrow> 'w \<Rightarrow> ((goerr option \<times> wstate) \<times> 'w) outcome" where
  "uploadLastSpan bs st w =
     (let chunk = ws_buf st; br = SHA1FromBytes chunk;
          st = st\<lparr>ws_buf := [], ws_spans := butlast (ws_spans st) @ [set_br br (last (ws_spans st))]\<rparr>
      in case ws_firsterr st of
           Some e \<Rightarrow> Ret ((Some e, st\<lparr>ws_firsterr := None\<rparr>), w)
         | None \<Rightarrow>
             obind (uploadString bs br chunk w) (\<lambda>(r, w).
               Ret ((None, st\<lparr>ws_firsterr := (case r of Inl e \<Rightarrow> Some e | Inr _ \<Rightarrow> None)\<rparr>), w)))"

text \<open>The bits of a boundary after a byte, or none: the \<open>switch\<close> of the loop.\<close>

definition split_bits :: "wstate \<Rightarrow> bool \<Rightarrow> nat option" where
  "split_bits st sawEOF =
     (if ws_blobSize st = maxBlobSize then Some 20
      else if sawEOF then None
      else if OnSplit (ws_rs st) \<and> ws_n st > int firstChunkSize \<and> ws_blobSize st > tooSmallThreshold then Some (Bits (ws_rs st))
      else if ws_n st = int firstChunkSize then Some 18
      else None)"

text \<open>The spans at the end of the list that have fewer bits become the children.\<close>

definition childrenFrom :: "nat \<Rightarrow> span list \<Rightarrow> nat" where
  "childrenFrom bits spans = length spans - length (takeWhile (\<lambda>s. sp_bits s < bits) (rev spans))"

definition push_span :: "nat \<Rightarrow> wstate \<Rightarrow> wstate" where
  "push_span bits st =
     (let k = childrenFrom bits (ws_spans st)
      in st\<lparr>ws_blobSize := 0,
            ws_spans := take k (ws_spans st) @ [Span (ws_last st) (ws_n st) bits zeroRef (drop k (ws_spans st))],
            ws_last := ws_n st\<rparr>)"

definition add_byte :: "u8 \<Rightarrow> wstate \<Rightarrow> wstate" where
  "add_byte c st =
     st\<lparr>ws_buf := ws_buf st @ [c], ws_n := ws_n st + 1, ws_blobSize := ws_blobSize st + 1, ws_rs := Roll c (ws_rs st)\<rparr>"

type_synonym chunks_ret = "int \<times> span list \<times> goerr option"

definition finishChunks :: "wstate \<Rightarrow> chunks_ret" where
  "finishChunks st = (case ws_firsterr st of Some e \<Rightarrow> (0, [], Some e) | None \<Rightarrow> (ws_n st, ws_spans st, None))"

fun chunk_loop :: "'w Storage \<Rightarrow> (u8 \<times> bool) list \<Rightarrow> rd_end \<Rightarrow> wstate \<Rightarrow> 'w \<Rightarrow> (chunks_ret \<times> 'w) outcome" where
  "chunk_loop bs [] (Failed e) st w = Ret ((0, [], Some e), w)"
| "chunk_loop bs [] EOF st w =
     (if ws_n st \<noteq> ws_last st then
        obind (uploadLastSpan bs (st\<lparr>ws_spans := ws_spans st @ [Span (ws_last st) (ws_n st) 0 zeroRef []]\<rparr>) w) (\<lambda>((err, st), w).
          if err \<noteq> None then Ret ((ws_n st, ws_spans st, err), w) else Ret (finishChunks st, w))
      else Ret (finishChunks st, w))"
| "chunk_loop bs ((c, sawEOF) # cs) e st w =
     (let st = add_byte c st
      in case split_bits st sawEOF of
           None \<Rightarrow> chunk_loop bs cs e st w
         | Some bits \<Rightarrow>
             obind (uploadLastSpan bs (push_span bits st) w) (\<lambda>((err, st), w).
               if err \<noteq> None then Ret ((ws_n st, ws_spans st, err), w) else chunk_loop bs cs e st w))"

definition writeFileChunks :: "'w Storage \<Rightarrow> rd_results \<Rightarrow> 'w \<Rightarrow> (chunks_ret \<times> 'w) outcome" where
  "writeFileChunks bs r w = (let (cs, e) = buffered 99 r in chunk_loop bs cs e ws_init w)"

definition writeFileMapRolling :: "'w Storage \<Rightarrow> gmap \<Rightarrow> rd_results \<Rightarrow> 'w \<Rightarrow> ((Ref \<times> goerr option) \<times> 'w) outcome" where
  "writeFileMapRolling bs file r w =
     obind (writeFileChunks bs r w) (\<lambda>((n, spans, err), w).
       if err \<noteq> None then Ret ((zeroRef, err), w)
       else obind (uploadBytes bs file n spans w) (\<lambda>(f, w). Ret (fut_Get f, w)))"

definition WriteFileMap :: "'w Storage \<Rightarrow> gmap \<Rightarrow> rd_results \<Rightarrow> 'w \<Rightarrow> ((Ref \<times> goerr option) \<times> 'w) outcome" where
  "WriteFileMap bs file r w = writeFileMapRolling bs file r w"

definition WriteFileFromReader :: "'w Storage \<Rightarrow> string \<Rightarrow> rd_results \<Rightarrow> 'w \<Rightarrow> ((Ref \<times> goerr option) \<times> 'w) outcome" where
  "WriteFileFromReader bs filename r w =
     (if CHR ''/'' \<in> set filename
      then Ret ((zeroRef, Some (ErrText ''schema.WriteFileFromReader: filename shouldn't contain a slash'')), w)
      else obind (NewFileMap filename) (\<lambda>m. WriteFileMap bs m r w))"

text \<open>\<open>WriteFileChunks\<close> uploads the chunks and the schema blobs below, and leaves the file's own map to the caller.\<close>

definition WriteFileChunks :: "'w Storage \<Rightarrow> gmap \<Rightarrow> rd_results \<Rightarrow> 'w \<Rightarrow> ((goerr + gmap) \<times> 'w) outcome" where
  "WriteFileChunks bs file r w =
     obind (writeFileChunks bs r w) (\<lambda>((n, spans, err), w).
       case err of
         Some e \<Rightarrow> Ret (Inl e, w)
       | None \<Rightarrow>
           obind (addBytesParts bs spans w) (\<lambda>((parts, err), w).
             case err of Some e \<Rightarrow> Ret (Inl e, w) | None \<Rightarrow> Ret (populateParts file n parts, w)))"

section \<open>What is uploaded\<close>

text \<open>The same computation without a storage: the spans and chunks of a file, the parts of spans and the schema blobs below them.\<close>

definition close_span :: "wstate \<Rightarrow> wstate" where
  "close_span st = st\<lparr>ws_buf := [], ws_spans := butlast (ws_spans st) @ [set_br (SHA1FromBytes (ws_buf st)) (last (ws_spans st))]\<rparr>"

fun cut :: "(u8 \<times> bool) list \<Rightarrow> wstate \<Rightarrow> wstate \<times> bytes list" where
  "cut [] st =
     (if ws_n st \<noteq> ws_last st
      then (close_span (st\<lparr>ws_spans := ws_spans st @ [Span (ws_last st) (ws_n st) 0 zeroRef []]\<rparr>), [ws_buf st]) else (st, []))"
| "cut ((c, sawEOF) # cs) st =
     (let st = add_byte c st
      in case split_bits st sawEOF of
           None \<Rightarrow> cut cs st
         | Some bits \<Rightarrow> (let (st', chunks) = cut cs (close_span (push_span bits st)) in (st', ws_buf st # chunks)))"

definition byte_json :: "gmap \<Rightarrow> int \<Rightarrow> BytesPart list \<Rightarrow> bytes" where
  "byte_json bb sz ps = (case populateParts bb sz ps of Inl _ \<Rightarrow> [] | Inr m \<Rightarrow> (case mapJSON m of Inl _ \<Rightarrow> [] | Inr j \<Rightarrow> j))"

definition child_parts :: "span list \<Rightarrow> BytesPart list \<times> bytes list \<Rightarrow> BytesPart list \<times> bytes list" where
  "child_parts children below =
     (if length children = 1 \<and> isSingleBlob (hd children) then ([blob_part (sp_br (hd children)) (span_size (hd children))], [])
      else if length children > 0 then
        let sz = sum_list (map span_size children); j = byte_json newBytes sz (fst below)
        in ([bytes_part (SHA1FromBytes j) sz], snd below @ [j])
      else ([], []))"

fun span_parts :: "span list \<Rightarrow> BytesPart list \<times> bytes list" where
  "span_parts [] = ([], [])"
| "span_parts (Span from to bits br children # spans) =
     (fst (child_parts children (span_parts children)) @ blob_part br (to - from) # fst (span_parts spans),
      snd (child_parts children (span_parts children)) @ snd (span_parts spans))"

text \<open>All the blobs of a file, in the order of their upload.\<close>

definition written :: "gmap \<Rightarrow> (u8 \<times> bool) list \<Rightarrow> bytes list" where
  "written file cs =
     (let (st, chunks) = cut cs ws_init; (parts, js) = span_parts (ws_spans st)
      in chunks @ js @ [byte_json file (ws_n st) parts])"

section \<open>Spans hold the bytes of the file\<close>

inductive span_of :: "bytes set \<Rightarrow> span \<Rightarrow> bytes \<Rightarrow> bool" for K where
  span_of: "list_all2 (span_of K) children ds \<Longrightarrow> chunk \<in> K \<Longrightarrow> chunk \<noteq> [] \<Longrightarrow> length chunk \<le> maxBlobSize \<Longrightarrow> to = from + int (length chunk) \<Longrightarrow>
      span_of K (Span from to bits (SHA1FromBytes chunk) children) (concat ds @ chunk)"

inductive_cases span_of_cases: "span_of K (Span from to bits br children) x"

lemma span_of_mono: "span_of K s x \<Longrightarrow> K \<subseteq> K' \<Longrightarrow> span_of K' s x"
proof (induction rule: span_of.induct)
  case (span_of children ds chunk to frm bits)
  then have "list_all2 (span_of K') children ds" by (auto elim: list_all2_mono)
  then show ?case using span_of by (intro span_of.span_of) auto
qed

lemma span_of_size: "span_of K s x \<Longrightarrow> span_size s = int (length x)"
proof (induction rule: span_of.induct)
  case (span_of children ds chunk to frm bits)
  have "sum_list (map span_size children) = int (length (concat ds))"
    using span_of(1) by (induction children ds rule: list_all2_induct) auto
  then show ?case using span_of by simp
qed

lemma spans_of_size: "list_all2 (span_of K) spans ds \<Longrightarrow> sum_list (map span_size spans) = int (length (concat ds))"
  by (induction spans ds rule: list_all2_induct) (auto dest: span_of_size)

text \<open>The state of the loop after the bytes \<open>data\<close>, over the chunks \<open>K\<close> cut so far.\<close>

definition ws_inv :: "bytes set \<Rightarrow> bytes \<Rightarrow> wstate \<Rightarrow> bool" where
  "ws_inv K data st \<longleftrightarrow>
     (\<exists>ds. list_all2 (span_of K) (ws_spans st) ds \<and> data = concat ds @ ws_buf st) \<and> ws_n st = int (length data) \<and>
     ws_n st - ws_last st = int (length (ws_buf st)) \<and> ws_blobSize st = length (ws_buf st) \<and> length (ws_buf st) < maxBlobSize"

lemma ws_inv_init: "ws_inv {} [] ws_init"
  by (simp add: ws_inv_def ws_init_def maxBlobSize_def)

lemma ws_inv_add:
  assumes "ws_inv K data st" and "split_bits (add_byte c st) eof = None"
  shows "ws_inv K (data @ [c]) (add_byte c st)"
proof -
  have "ws_blobSize (add_byte c st) \<noteq> maxBlobSize" using assms(2) by (auto simp: split_bits_def split: if_splits)
  then show ?thesis using assms(1) by (auto simp: ws_inv_def add_byte_def)
qed

lemma ws_inv_push:
  assumes "ws_inv K data st"
  shows "ws_inv (insert (ws_buf st @ [c]) K) (data @ [c]) (close_span (push_span bits (add_byte c st)))"
proof -
  let ?chunk = "ws_buf st @ [c]" let ?K = "insert ?chunk K"
  obtain ds where ds: "list_all2 (span_of K) (ws_spans st) ds" "data = concat ds @ ws_buf st" using assms by (auto simp: ws_inv_def)
  then have all: "list_all2 (span_of ?K) (ws_spans st) ds" by (auto elim!: list_all2_mono intro: span_of_mono)
  let ?k = "childrenFrom bits (ws_spans st)"
  have new: "span_of ?K (Span (ws_last st) (ws_n st + 1) bits (SHA1FromBytes ?chunk) (drop ?k (ws_spans st))) (concat (drop ?k ds) @ ?chunk)"
    using assms all by (intro span_of.span_of) (auto simp: ws_inv_def list_all2_dropI)
  have "list_all2 (span_of ?K) (ws_spans (close_span (push_span bits (add_byte c st)))) (take ?k ds @ [concat (drop ?k ds) @ ?chunk])"
    using new list_all2_takeI [OF all, of ?k] by (simp add: close_span_def push_span_def add_byte_def set_br_def Let_def list_all2_appendI)
  moreover have "concat (take ?k ds @ [concat (drop ?k ds) @ ?chunk]) = data @ [c]"
  proof -
    have "concat ds = concat (take ?k ds) @ concat (drop ?k ds)" by (simp flip: concat_append)
    then show ?thesis using ds(2) by simp
  qed
  ultimately have "\<exists>ds. list_all2 (span_of ?K) (ws_spans (close_span (push_span bits (add_byte c st)))) ds \<and> data @ [c] = concat ds @ []"
    by (metis append_Nil2)
  moreover have "ws_buf (close_span (push_span bits (add_byte c st))) = []" "ws_blobSize (close_span (push_span bits (add_byte c st))) = 0"
    "ws_n (close_span (push_span bits (add_byte c st))) = ws_n st + 1" "ws_last (close_span (push_span bits (add_byte c st))) = ws_n st + 1"
    by (simp_all add: close_span_def push_span_def add_byte_def Let_def)
  ultimately show ?thesis using assms by (simp add: ws_inv_def maxBlobSize_def)
qed

lemma cut_spans:
  assumes "ws_inv K data st" and "cut cs st = (st', chunks)"
  shows "\<exists>ds. list_all2 (span_of (K \<union> set chunks)) (ws_spans st') ds \<and> concat ds = data @ map fst cs \<and> ws_n st' = int (length (data @ map fst cs)) \<and>
    (\<forall>ch \<in> set chunks. length ch \<le> maxBlobSize)"
  using assms
proof (induction cs st arbitrary: K data st' chunks rule: cut.induct)
  case (1 st)
  obtain ds where ds: "list_all2 (span_of K) (ws_spans st) ds" "data = concat ds @ ws_buf st" using "1.prems" by (auto simp: ws_inv_def)
  show ?case
  proof (cases "ws_n st = ws_last st")
    case True
    then have "ws_buf st = []" using "1.prems" by (simp add: ws_inv_def)
    then show ?thesis using True "1.prems" ds by (auto simp: ws_inv_def)
  next
    case False
    let ?K = "K \<union> set chunks"
    have ch: "chunks = [ws_buf st]" "st' = close_span (st\<lparr>ws_spans := ws_spans st @ [Span (ws_last st) (ws_n st) 0 zeroRef []]\<rparr>)"
      using "1.prems" False by auto
    have "span_of ?K (Span (ws_last st) (ws_n st) 0 (SHA1FromBytes (ws_buf st)) []) (concat [] @ ws_buf st)"
      using "1.prems" False ch by (intro span_of.span_of) (auto simp: ws_inv_def)
    moreover have "list_all2 (span_of ?K) (ws_spans st) ds" using ds(1) by (auto elim!: list_all2_mono intro: span_of_mono)
    ultimately have "list_all2 (span_of ?K) (ws_spans st') (ds @ [ws_buf st])" using ch by (simp add: close_span_def set_br_def list_all2_appendI)
    then show ?thesis using ds(2) "1.prems" ch by (auto simp: ws_inv_def close_span_def intro!: exI [of _ "ds @ [ws_buf st]"])
  qed
next
  case (2 c sawEOF cs st)
  show ?case
  proof (cases "split_bits (add_byte c st) sawEOF")
    case None
    then show ?thesis using "2.IH"(1) [OF refl None ws_inv_add [OF "2.prems"(1) None]] "2.prems"(2) by (simp add: Let_def)
  next
    case (Some bits)
    obtain st1 chunks1 where c: "cut cs (close_span (push_span bits (add_byte c st))) = (st1, chunks1)" by fastforce
    then have eq: "st' = st1" "chunks = (ws_buf st @ [c]) # chunks1" using "2.prems"(2) Some by (simp_all add: Let_def add_byte_def)
    have "length (ws_buf st @ [c]) \<le> maxBlobSize" using "2.prems"(1) by (simp add: ws_inv_def)
    then show ?thesis using "2.IH"(2) [OF refl Some ws_inv_push [OF "2.prems"(1)] c] unfolding eq by auto
  qed
qed

section \<open>Parts hold the bytes of their spans\<close>

lemma part_holds_mono: "part_holds M d p x \<Longrightarrow> d \<le> e \<Longrightarrow> part_holds M e p x"
proof (induction arbitrary: e rule: part_holds.induct)
  case (ph_tree p j ss ps d ds)
  then obtain e' where e: "e = Suc e'" "d \<le> e'" by (cases e) auto
  have "list_all2 (part_holds M e') ps ds" using ph_tree.IH e(2) by (auto elim!: list_all2_mono)
  then show ?case unfolding e(1) using ph_tree.hyps by (intro part_holds.ph_tree)
qed (auto intro: part_holds.intros)

lemma parts_holds_mono: "list_all2 (part_holds M d) ps xs \<Longrightarrow> d \<le> e \<Longrightarrow> list_all2 (part_holds M e) ps xs"
  by (auto elim!: list_all2_mono intro: part_holds_mono)

lemma SHA1_ref [simp]: "ref_wf (SHA1FromBytes b)" "ref_Valid (SHA1FromBytes b)"
  using ref_canonical_wf [OF SHA1FromBytes_canonical] ref_wf_Valid by blast+

lemma span_parts_size: "sum_list (map bp_Size (fst (span_parts spans))) = word_of_int (sum_list (map span_size spans))"
proof (induction spans rule: span_parts.induct)
  case (2 frm to bits br children spans)
  have "sum_list (map bp_Size (fst (child_parts children (span_parts children)))) = word_of_int (sum_list (map span_size children))"
    by (cases children) (auto simp: child_parts_def blob_part_def bytes_part_def Let_def)
  then show ?case using 2(2) by (simp add: blob_part_def)
qed simp

lemma blob_part_wf: "part_wf (blob_part (SHA1FromBytes b) sz)" "part_wf (bytes_part (SHA1FromBytes b) sz)"
  by (simp_all add: part_wf_def blob_part_def bytes_part_def)

lemma child_parts_wf:
  assumes "list_all2 (span_of K) children ds"
  shows "list_all part_wf (fst (child_parts children below))"
proof -
  have "part_wf (blob_part (sp_br c) sz)" if "span_of K c x" for c x sz
    using that by (cases rule: span_of.cases) (simp add: blob_part_wf)
  then show ?thesis using assms by (cases children) (auto simp: child_parts_def blob_part_wf Let_def list_all2_Cons1)
qed

lemma span_parts_wf: "list_all2 (span_of K) spans ds \<Longrightarrow> list_all part_wf (fst (span_parts spans))"
proof (induction spans arbitrary: ds rule: span_parts.induct)
  case (2 frm to bits br children spans)
  then obtain x ds' where x: "span_of K (Span frm to bits br children) x" "list_all2 (span_of K) spans ds'" by (auto simp: list_all2_Cons1)
  obtain cds chunk where c: "list_all2 (span_of K) children cds" "br = SHA1FromBytes chunk" using x(1) by (auto elim: span_of_cases)
  then show ?case using "2.IH"(2) [OF x(2)] child_parts_wf [OF c(1)] blob_part_wf [of chunk] by simp
qed simp

lemma byte_json_ok:
  assumes "list_all part_wf ps" and "sint (sum_list (map bp_Size ps)) = sz" and "name_ok nm" and "list_all safe_char t"
    and "length (byte_json (byte_map t nm) sz ps) \<le> MaxSchemaBlobSize"
  shows "\<exists>m. populateParts (byte_map t nm) sz ps = Inr m \<and> b_Type m = t \<and>
    Builder_Blob m = Ret \<lparr>sb_br = SHA1FromBytes (byte_json (byte_map t nm) sz ps), sb_str = byte_json (byte_map t nm) sz ps,
      sb_ss = byte_superset t nm ps\<rparr> \<and>
    parseSuperset (bytes_reader (byte_json (byte_map t nm) sz ps)) = Inr (byte_superset t nm ps)"
proof -
  obtain ms where ms: "populateParts (byte_map t nm) sz ps = Inr (byte_map t nm @ [(''parts'', VMaps ms)])"
    using populateParts_map [OF assms(1,2)] by blast
  have "\<exists>j. mapJSON (byte_map t nm @ [(''parts'', VMaps ms)]) = Inr j" by (simp add: mapJSON_def byte_map_def)
  then obtain j where j: "mapJSON (byte_map t nm @ [(''parts'', VMaps ms)]) = Inr j" by blast
  have e: "byte_json (byte_map t nm) sz ps = j" by (simp add: byte_json_def ms j)
  have "b_Type (byte_map t nm @ [(''parts'', VMaps ms)]) = t" by (simp add: b_Type_def byte_map_def str_of_def)
  then show ?thesis using byte_blob [OF ms assms(1,3,4) j] assms(5) ms unfolding e by blast
qed

lemma sint_total: "int n < 2 ^ 63 \<Longrightarrow> sint (word_of_int (int n) :: u64) = int n"
  by (rule sint_of_small) simp_all

definition has :: "blobmap \<Rightarrow> bytes \<Rightarrow> bool" where
  "has M b \<longleftrightarrow> M (SHA1FromBytes b) = Some b"

lemma blob_part_holds:
  assumes "has M chunk" and "length chunk \<le> maxBlobSize"
  shows "part_holds M d (blob_part (SHA1FromBytes chunk) (int (length chunk))) chunk"
proof -
  have "length chunk < 2 ^ 63" using assms(2) by (simp add: maxBlobSize_def)
  then have "int (length chunk) < int (2 ^ 63)" by (simp only: of_nat_less_iff)
  then have "unat (word_of_int (int (length chunk)) :: u64) = length chunk" by (subst unat_of_small) auto
  moreover have "length chunk \<le> MaxBlobSize" using assms(2) by (simp add: maxBlobSize_def MaxBlobSize_def)
  ultimately have "part_holds M d (blob_part (SHA1FromBytes chunk) (int (length chunk)))
      (drop (unat (bp_Offset (blob_part (SHA1FromBytes chunk) (int (length chunk))))) chunk)"
    using assms(1) by (intro part_holds.ph_blob) (simp_all add: blob_part_def has_def)
  then show ?thesis by (simp add: blob_part_def)
qed

lemma tree_part_holds:
  assumes "list_all2 (span_of K) children cds" and "length (concat cds) < 2 ^ 63"
    and "list_all2 (part_holds M d) (fst (span_parts children)) xs" and "concat xs = concat cds"
    and "j = byte_json newBytes (sum_list (map span_size children)) (fst (span_parts children))" and "has M j" and "length j \<le> MaxSchemaBlobSize"
  shows "part_holds M (Suc d) (bytes_part (SHA1FromBytes j) (sum_list (map span_size children))) (concat cds)"
proof -
  let ?ps = "fst (span_parts children)" let ?sz = "sum_list (map span_size children)"
  have sz: "?sz = int (length (concat cds))" by (rule spans_of_size [OF assms(1)])
  have "int (length (concat cds)) < int (2 ^ 63)" using assms(2) by (simp only: of_nat_less_iff)
  then have len: "int (length (concat cds)) < 2 ^ 63" by simp
  have "sint (sum_list (map bp_Size ?ps)) = ?sz" unfolding span_parts_size sz by (rule sint_total [OF len])
  then have parse: "parseSuperset (bytes_reader j) = Inr (byte_superset ''bytes'' None ?ps)"
    using byte_json_ok [of ?ps ?sz None "''bytes''"] span_parts_wf [OF assms(1)] assms(5,7)
    by (auto simp: newBytes_map safe_char_def)
  have "unat (word_of_int ?sz :: u64) = length (concat xs)" unfolding sz assms(4) using len by (subst unat_of_small) auto
  then have "part_holds M (Suc d) (bytes_part (SHA1FromBytes j) ?sz) (drop (unat (bp_Offset (bytes_part (SHA1FromBytes j) ?sz))) (concat xs))"
    using assms(2,3,4,6) parse by (intro part_holds.ph_tree) (auto simp: bytes_part_def has_def byte_type_def byte_superset_def)
  then show ?thesis by (simp add: bytes_part_def assms(4))
qed

lemma child_parts_hold:
  assumes "list_all2 (span_of K) children cds" and "\<forall>b \<in> K. has M b" and "length (concat cds) < 2 ^ 63"
    and "\<forall>j \<in> set (snd (child_parts children (span_parts children))). has M j \<and> length j \<le> MaxSchemaBlobSize"
    and "\<forall>j \<in> set (snd (span_parts children)). has M j \<and> length j \<le> MaxSchemaBlobSize \<Longrightarrow>
      \<exists>d xs. list_all2 (part_holds M d) (fst (span_parts children)) xs \<and> concat xs = concat cds"
  shows "\<exists>d xs. list_all2 (part_holds M d) (fst (child_parts children (span_parts children))) xs \<and> concat xs = concat cds"
proof -
  consider (none) "children = []" | (single) c where "children = [c]" "isSingleBlob c"
    | (tree) "children \<noteq> []" "\<not> (length children = 1 \<and> isSingleBlob (hd children))"
    by (cases children) (auto simp: length_Suc_conv)
  then show ?thesis
  proof cases
    case none
    then show ?thesis using assms(1) by (auto simp: child_parts_def)
  next
    case single
    obtain x where x: "cds = [x]" "span_of K c x" using assms(1) single by (auto simp: list_all2_Cons1)
    obtain frm to bits br ch where c: "c = Span frm to bits br ch" by (cases c)
    then have "ch = []" using single(2) by (simp add: isSingleBlob_def)
    then have "x \<in> K" "br = SHA1FromBytes x" "length x \<le> maxBlobSize" using x(2) c by (auto elim!: span_of_cases)
    then have "part_holds M 0 (blob_part (sp_br c) (span_size c)) x"
      using blob_part_holds [of M x 0] assms(2) span_of_size [OF x(2)] c by auto
    then show ?thesis using single x by (auto simp: child_parts_def intro!: exI [of _ 0] exI [of _ "[x]"])
  next
    case tree
    let ?j = "byte_json newBytes (sum_list (map span_size children)) (fst (span_parts children))"
    have cp: "child_parts children (span_parts children) = ([bytes_part (SHA1FromBytes ?j) (sum_list (map span_size children))], snd (span_parts children) @ [?j])"
      using tree by (simp add: child_parts_def Let_def)
    obtain d xs where xs: "list_all2 (part_holds M d) (fst (span_parts children)) xs" "concat xs = concat cds" using assms(4,5) cp by auto
    have "part_holds M (Suc d) (bytes_part (SHA1FromBytes ?j) (sum_list (map span_size children))) (concat cds)"
      using assms(4) cp by (intro tree_part_holds [OF assms(1,3) xs refl]) auto
    then show ?thesis unfolding cp by (auto intro!: exI [of _ "Suc d"] exI [of _ "[concat cds]"])
  qed
qed

lemma span_parts_hold:
  "list_all2 (span_of K) spans ds \<Longrightarrow> \<forall>b \<in> K. has M b \<Longrightarrow> length (concat ds) < 2 ^ 63 \<Longrightarrow>
   \<forall>j \<in> set (snd (span_parts spans)). has M j \<and> length j \<le> MaxSchemaBlobSize \<Longrightarrow>
   \<exists>d xs. list_all2 (part_holds M d) (fst (span_parts spans)) xs \<and> concat xs = concat ds"
proof (induction spans arbitrary: ds rule: span_parts.induct)
  case 1
  then show ?case by auto
next
  case (2 frm to bits br children spans)
  obtain x ds' where x: "ds = x # ds'" "span_of K (Span frm to bits br children) x" "list_all2 (span_of K) spans ds'"
    using "2.prems"(1) by (auto simp: list_all2_Cons1)
  obtain cds chunk where c: "list_all2 (span_of K) children cds" "br = SHA1FromBytes chunk" "chunk \<in> K" "length chunk \<le> maxBlobSize"
    "to = frm + int (length chunk)" "x = concat cds @ chunk" using x(2) by (auto elim: span_of_cases)
  obtain d1 xs1 where 1: "list_all2 (part_holds M d1) (fst (child_parts children (span_parts children))) xs1" "concat xs1 = concat cds"
    using child_parts_hold [OF c(1) "2.prems"(2)] "2.IH"(1) [OF c(1) "2.prems"(2)] "2.prems"(3,4) x(1) c(6) by auto
  obtain d2 xs2 where 2: "list_all2 (part_holds M d2) (fst (span_parts spans)) xs2" "concat xs2 = concat ds'"
    using "2.IH"(2) [OF x(3) "2.prems"(2)] "2.prems"(3,4) x(1) by auto
  have b: "part_holds M (max d1 d2) (blob_part br (to - frm)) chunk" using blob_part_holds [of M chunk] "2.prems"(2) c by simp
  have "list_all2 (part_holds M (max d1 d2)) (fst (span_parts (Span frm to bits br children # spans))) (xs1 @ chunk # xs2)"
    using parts_holds_mono [OF 1(1), of "max d1 d2"] parts_holds_mono [OF 2(1), of "max d1 d2"] b by (simp add: list_all2_appendI)
  moreover have "concat (xs1 @ chunk # xs2) = concat ds" using 1(2) 2(2) x(1) c(6) by simp
  ultimately show ?case by blast
qed

section \<open>Writing to a storage\<close>

definition put_all :: "blobmap \<Rightarrow> bytes list \<Rightarrow> blobmap" where
  "put_all m bs = fold (\<lambda>b m. put m (SHA1FromBytes b) b) bs m"

lemma put_all_simps [simp]: "put_all m [] = m" "put_all m (b # bs) = put_all (put m (SHA1FromBytes b) b) bs"
  "put_all m (as @ bs) = put_all (put_all m as) bs"
  by (simp_all add: put_all_def)

text \<open>Without colliding digests, what was put is there.\<close>

lemma put_all_has:
  assumes "blobs_ok m" and "inj_on SHA1FromBytes (ran m \<union> set bs)"
  shows "(\<forall>b \<in> ran m \<union> set bs. has (put_all m bs) b) \<and> ran (put_all m bs) = ran m \<union> set bs"
  using assms
proof (induction bs arbitrary: m)
  case Nil
  then show ?case by (auto simp: ran_def has_def blobs_ok_def)
next
  case (Cons b bs)
  let ?m = "put m (SHA1FromBytes b) b"
  have "ran ?m = insert b (ran m)"
  proof (cases "m (SHA1FromBytes b)")
    case None
    then show ?thesis by (simp add: put_def)
  next
    case (Some b')
    then have "SHA1FromBytes b' = SHA1FromBytes b" using Cons.prems(1) by (auto simp: blobs_ok_def)
    moreover have "b' \<in> ran m" using Some by (auto simp: ran_def)
    ultimately have "b' = b" by (intro inj_onD [OF Cons.prems(2)]) simp_all
    then show ?thesis using Some by (auto simp: put_def ran_def)
  qed
  then show ?case using Cons.IH [OF blobs_ok_put [OF Cons.prems(1), of b]] Cons.prems(2) by simp
qed

context stores
begin

lemma uploadString_ok:
  assumes "I w" and "i < n" and "length data \<le> MaxBlobSize"
  shows "\<exists>w'. uploadString (sto i) (SHA1FromBytes data) data w = Ret (Inr (SHA1FromBytes data), w') \<and> I w' \<and>
    C w' = (C w)(i := put_all (C w i) [data])"
proof -
  let ?br = "SHA1FromBytes data"
  obtain w1 where w1: "StatBlob (sto i) ?br w = Ret ((case C w i ?br of None \<Rightarrow> (zeroSizedRef, Some ErrNotExist) | Some b \<Rightarrow> (sized ?br b, None)), w1)"
    "I w1" "C w1 = C w" using StatBlob_spec [OF assms(1,2)] by blast
  show ?thesis
  proof (cases "C w i ?br")
    case None
    obtain w2 where "ReceiveNoHash (sto i) ?br (bytes_reader data) w1 = Ret ((sized ?br data, None), w2)" "I w2"
      "C w2 = (C w1)(i := put (C w1 i) ?br data)" using receive_good [OF w1(2) assms(2) refl assms(3)] by (auto simp: ReceiveNoHash_def)
    then show ?thesis using None w1 by (simp add: uploadString_def serverHasBlob_def)
  next
    case (Some b)
    have "(C w)(i := put (C w i) ?br data) = C w" using Some by (simp add: put_def)
    then show ?thesis using Some w1 by (simp add: uploadString_def serverHasBlob_def)
  qed
qed

lemma finishBytes_ok:
  assumes "I w" and "i < n" and "list_all part_wf ps" and "sint (sum_list (map bp_Size ps)) = sz" and "name_ok nm" and "list_all safe_char t"
    and "length (byte_json (byte_map t nm) sz ps) \<le> MaxSchemaBlobSize"
  shows "\<exists>w'. finishBytes (sto i) (byte_map t nm) sz ps None w =
      Ret (\<lparr>fut_br = SHA1FromBytes (byte_json (byte_map t nm) sz ps), fut_children = None, fut_err = None\<rparr>, w') \<and> I w' \<and>
    C w' = (C w)(i := put_all (C w i) [byte_json (byte_map t nm) sz ps])"
proof -
  obtain m where m: "populateParts (byte_map t nm) sz ps = Inr m"
    "Builder_Blob m = Ret \<lparr>sb_br = SHA1FromBytes (byte_json (byte_map t nm) sz ps), sb_str = byte_json (byte_map t nm) sz ps,
      sb_ss = byte_superset t nm ps\<rparr>" using byte_json_ok [OF assms(3-7)] by blast
  have "length (byte_json (byte_map t nm) sz ps) \<le> MaxBlobSize" using assms(7) by (simp add: MaxSchemaBlobSize_def MaxBlobSize_def)
  then show ?thesis using uploadString_ok [OF assms(1,2)] m by (fastforce simp: finishBytes_def Let_def)
qed

lemma addBytesParts_ok:
  "I w \<Longrightarrow> i < n \<Longrightarrow> list_all2 (span_of K) spans ds \<Longrightarrow> length (concat ds) < 2 ^ 63 \<Longrightarrow>
   \<forall>j \<in> set (snd (span_parts spans)). length j \<le> MaxSchemaBlobSize \<Longrightarrow>
   \<exists>w'. addBytesParts (sto i) spans w = Ret ((fst (span_parts spans), None), w') \<and> I w' \<and>
     C w' = (C w)(i := put_all (C w i) (snd (span_parts spans)))"
proof (induction spans arbitrary: ds w rule: span_parts.induct)
  case 1
  then show ?case by simp
next
  case (2 frm to bits br children spans)
  obtain x ds' where x: "ds = x # ds'" "span_of K (Span frm to bits br children) x" "list_all2 (span_of K) spans ds'"
    using "2.prems"(3) by (auto simp: list_all2_Cons1)
  obtain cds chunk where c: "list_all2 (span_of K) children cds" "chunk \<noteq> []" "to = frm + int (length chunk)" "x = concat cds @ chunk"
    using x(2) by (auto elim: span_of_cases)
  let ?cp = "child_parts children (span_parts children)"
  have "\<exists>w1. childParts (sto i) children (addBytesParts (sto i) children w) w = Ret ((fst ?cp, None), w1) \<and> I w1 \<and>
      C w1 = (C w)(i := put_all (C w i) (snd ?cp))"
  proof (cases "children = [] \<or> length children = 1 \<and> isSingleBlob (hd children)")
    case True
    then show ?thesis using "2.prems"(1) by (auto simp: childParts_def child_parts_def)
  next
    case False
    let ?sz = "sum_list (map span_size children)" let ?ps = "fst (span_parts children)"
    have cp: "?cp = ([bytes_part (SHA1FromBytes (byte_json newBytes ?sz ?ps)) ?sz], snd (span_parts children) @ [byte_json newBytes ?sz ?ps])"
      using False by (simp add: child_parts_def Let_def)
    have j: "length (byte_json newBytes ?sz ?ps) \<le> MaxSchemaBlobSize" "\<forall>j \<in> set (snd (span_parts children)). length j \<le> MaxSchemaBlobSize"
      using "2.prems"(5) cp by auto
    have len: "length (concat cds) < 2 ^ 63" using "2.prems"(4) x(1) c(4) by simp
    obtain w1 where w1: "addBytesParts (sto i) children w = Ret ((?ps, None), w1)" "I w1" "C w1 = (C w)(i := put_all (C w i) (snd (span_parts children)))"
      using "2.IH"(1) [OF "2.prems"(1,2) c(1) len j(2)] by blast
    have "int (length (concat cds)) < int (2 ^ 63)" using len by (simp only: of_nat_less_iff)
    then have "sint (sum_list (map bp_Size ?ps)) = ?sz"
      unfolding span_parts_size spans_of_size [OF c(1)] by (intro sint_total) simp
    then obtain w2 where "finishBytes (sto i) newBytes ?sz ?ps None w1 =
        Ret (\<lparr>fut_br = SHA1FromBytes (byte_json newBytes ?sz ?ps), fut_children = None, fut_err = None\<rparr>, w2)" "I w2"
        "C w2 = (C w1)(i := put_all (C w1 i) [byte_json newBytes ?sz ?ps])"
      using finishBytes_ok [OF w1(2) "2.prems"(2) span_parts_wf [OF c(1)], of ?sz None "''bytes''"] j(1)
      by (auto simp: newBytes_map safe_char_def)
    then show ?thesis using w1 False unfolding cp by (auto simp: childParts_def Let_def fut_Get_def)
  qed
  then obtain w1 where w1: "childParts (sto i) children (addBytesParts (sto i) children w) w = Ret ((fst ?cp, None), w1)" "I w1"
    "C w1 = (C w)(i := put_all (C w i) (snd ?cp))" by blast
  have "length (concat ds') < 2 ^ 63" "\<forall>j \<in> set (snd (span_parts spans)). length j \<le> MaxSchemaBlobSize" using "2.prems"(4,5) x(1) by auto
  then obtain w2 where "addBytesParts (sto i) spans w1 = Ret ((fst (span_parts spans), None), w2)" "I w2"
    "C w2 = (C w1)(i := put_all (C w1 i) (snd (span_parts spans)))" using "2.IH"(2) [OF w1(2) "2.prems"(2) x(3)] by blast
  then show ?case using w1 c(2,3) by (simp add: first_err_def fun_eq_iff)
qed

end

context stores
begin

lemma uploadLastSpan_ok:
  assumes "I w" and "i < n" and "ws_firsterr st = None" and "length (ws_buf st) \<le> MaxBlobSize"
  shows "\<exists>w'. uploadLastSpan (sto i) st w = Ret ((None, close_span st), w') \<and> I w' \<and> C w' = (C w)(i := put_all (C w i) [ws_buf st])"
proof -
  obtain w' where w': "uploadString (sto i) (SHA1FromBytes (ws_buf st)) (ws_buf st) w = Ret (Inr (SHA1FromBytes (ws_buf st)), w')" "I w'"
    "C w' = (C w)(i := put_all (C w i) [ws_buf st])" using uploadString_ok [OF assms(1,2,4)] by blast
  moreover have "(close_span st)\<lparr>ws_firsterr := None\<rparr> = close_span st" using assms(3) by (simp add: close_span_def)
  ultimately show ?thesis using assms(3) by (simp add: uploadLastSpan_def close_span_def Let_def)
qed

lemma chunk_loop_ok:
  "I w \<Longrightarrow> i < n \<Longrightarrow> ws_inv K data st \<Longrightarrow> ws_firsterr st = None \<Longrightarrow> cut cs st = (st', chunks) \<Longrightarrow>
   \<exists>w'. chunk_loop (sto i) cs EOF st w = Ret ((ws_n st', ws_spans st', None), w') \<and> I w' \<and> C w' = (C w)(i := put_all (C w i) chunks)"
proof (induction cs st arbitrary: K data w st' chunks rule: cut.induct)
  case (1 st)
  show ?case
  proof (cases "ws_n st = ws_last st")
    case True
    then show ?thesis using 1 by (auto simp: finishChunks_def)
  next
    case False
    let ?st = "st\<lparr>ws_spans := ws_spans st @ [Span (ws_last st) (ws_n st) 0 zeroRef []]\<rparr>"
    have "length (ws_buf ?st) \<le> MaxBlobSize" using 1(3) by (simp add: ws_inv_def maxBlobSize_def MaxBlobSize_def)
    then obtain w' where w': "uploadLastSpan (sto i) ?st w = Ret ((None, close_span ?st), w')" "I w'" "C w' = (C w)(i := put_all (C w i) [ws_buf ?st])"
      using uploadLastSpan_ok [OF 1(1,2), of ?st] 1(4) by auto
    have "ws_firsterr (close_span ?st) = None" using 1(4) by (simp add: close_span_def)
    then show ?thesis using False w' 1(5) by (auto simp: finishChunks_def)
  qed
next
  case (2 c sawEOF cs st)
  have fe: "ws_firsterr (add_byte c st) = None" using "2.prems"(4) by (simp add: add_byte_def)
  show ?case
  proof (cases "split_bits (add_byte c st) sawEOF")
    case None
    then show ?thesis using "2.IH"(1) [OF refl None "2.prems"(1,2) ws_inv_add [OF "2.prems"(3) None] fe] "2.prems"(5) by (simp add: Let_def)
  next
    case (Some bits)
    let ?st = "push_span bits (add_byte c st)"
    obtain st1 chunks1 where cut: "cut cs (close_span ?st) = (st1, chunks1)" by fastforce
    then have eq: "st' = st1" "chunks = ws_buf ?st # chunks1" using "2.prems"(5) Some by (simp_all add: Let_def push_span_def)
    have "length (ws_buf ?st) \<le> MaxBlobSize" using "2.prems"(3)
      by (simp add: ws_inv_def maxBlobSize_def MaxBlobSize_def push_span_def add_byte_def Let_def)
    moreover have "ws_firsterr ?st = None" using fe by (simp add: push_span_def Let_def)
    ultimately obtain w1 where w1: "uploadLastSpan (sto i) ?st w = Ret ((None, close_span ?st), w1)" "I w1" "C w1 = (C w)(i := put_all (C w i) [ws_buf ?st])"
      using uploadLastSpan_ok [OF "2.prems"(1,2), of ?st] by blast
    have "ws_firsterr (close_span ?st) = None" using fe by (simp add: close_span_def push_span_def Let_def)
    then obtain w2 where "chunk_loop (sto i) cs EOF (close_span ?st) w1 = Ret ((ws_n st1, ws_spans st1, None), w2)" "I w2"
      "C w2 = (C w1)(i := put_all (C w1 i) chunks1)" using "2.IH"(2) [OF refl Some w1(2) "2.prems"(2) ws_inv_push [OF "2.prems"(3)] _ cut] by blast
    then show ?thesis using w1 Some eq by (simp add: Let_def fun_eq_iff)
  qed
qed

text \<open>What was written is read back at any offset.\<close>

lemma write_then_read:
  assumes "I w" and "i < n" and "NewFileMap filename = Ret m" and "CHR ''/'' \<notin> set filename" and "buffered 99 r = (cs, EOF)"
    and "length cs < 2 ^ 63" and "inj_on SHA1FromBytes (ran (C w i) \<union> set (written m cs))"
    and "\<forall>b \<in> set (written m cs). length b \<le> MaxSchemaBlobSize"
  shows "\<exists>br w1 d. WriteFileFromReader (sto i) filename r w = Ret ((br, None), w1) \<and> I w1 \<and>
    (\<forall>fuel off want. d < fuel \<longrightarrow>
      (\<exists>fr w2 s. NewFileReader (sto_Fetch (sto i)) br w1 = Ret (Inr fr, w2) \<and> fr_size fr = int (length cs) \<and>
        ReadAt fuel (sto_Fetch (sto i)) fr want (int off) (emptyCache, w2) = Ret (read_at_spec (map fst cs) want off, s)))"
proof -
  obtain nm where nm: "m = byte_map ''file'' nm" "name_ok nm" using NewFileMap_map [OF assms(3)] by blast
  obtain st chunks where cut: "cut cs ws_init = (st, chunks)" by fastforce
  define ps js where "ps = fst (span_parts (ws_spans st))" and "js = snd (span_parts (ws_spans st))"
  define fj where "fj = byte_json m (ws_n st) ps"
  have wr: "written m cs = chunks @ js @ [fj]" by (simp add: written_def cut ps_def js_def fj_def case_prod_beta Let_def)
  obtain ds where ds: "list_all2 (span_of (set chunks)) (ws_spans st) ds" "concat ds = map fst cs" "ws_n st = int (length cs)"
    using cut_spans [OF ws_inv_init cut] by auto
  have len: "length (concat ds) < 2 ^ 63" using assms(6) ds(2) by simp
  obtain w1 where w1: "chunk_loop (sto i) cs EOF ws_init w = Ret ((ws_n st, ws_spans st, None), w1)" "I w1" "C w1 = (C w)(i := put_all (C w i) chunks)"
    using chunk_loop_ok [OF assms(1,2) ws_inv_init _ cut] by (auto simp: ws_init_def)
  obtain w2 where w2: "addBytesParts (sto i) (ws_spans st) w1 = Ret ((ps, None), w2)" "I w2" "C w2 = (C w1)(i := put_all (C w1 i) js)"
    using addBytesParts_ok [OF w1(2) assms(2) ds(1) len] assms(8) unfolding wr ps_def js_def by auto
  have "sum_list (map span_size (ws_spans st)) = ws_n st" using spans_of_size [OF ds(1)] ds(2,3) by simp
  moreover have "int (length cs) < int (2 ^ 63)" using assms(6) by (simp only: of_nat_less_iff)
  ultimately have sz: "sint (sum_list (map bp_Size ps)) = ws_n st" unfolding ps_def span_parts_size ds(3) using sint_total [of "length cs"] by simp
  have safe: "list_all safe_char ''file''" by (simp add: safe_char_def)
  have wf: "list_all part_wf ps" unfolding ps_def by (rule span_parts_wf [OF ds(1)])
  have fl: "length (byte_json (byte_map ''file'' nm) (ws_n st) ps) \<le> MaxSchemaBlobSize" using assms(8) wr fj_def nm(1) by auto
  obtain w3 where w3: "finishBytes (sto i) m (ws_n st) ps None w2 = Ret (\<lparr>fut_br = SHA1FromBytes fj, fut_children = None, fut_err = None\<rparr>, w3)"
    "I w3" "C w3 = (C w2)(i := put_all (C w2 i) [fj])" using finishBytes_ok [OF w2(2) assms(2) wf sz nm(2) safe fl] nm(1) fj_def by auto
  let ?M = "put_all (C w i) (written m cs)"
  have M: "C w3 i = ?M" using w1(3) w2(3) w3(3) by (simp add: wr)
  have has: "has ?M b" if "b \<in> set (written m cs)" for b using put_all_has [OF ok [OF assms(1,2)] assms(7)] that by blast
  obtain d xs where xs: "list_all2 (part_holds ?M d) ps xs" "concat xs = concat ds"
    using span_parts_hold [OF ds(1) _ len, of ?M] has assms(8) unfolding wr ps_def js_def by auto
  have parse: "parseSuperset (bytes_reader fj) = Inr (byte_superset ''file'' nm ps)"
    using byte_json_ok [OF wf sz nm(2) safe fl] nm(1) fj_def by auto
  have f: "file_holds ?M d (byte_superset ''file'' nm ps) (map fst cs)"
    using xs ds(2) assms(6) by (cases nm rule: name_members.cases) (auto simp: file_holds_def byte_type_def byte_superset_def)
  have "has ?M fj" using has by (simp add: wr)
  then have j: "?M (SHA1FromBytes fj) = Some fj" by (simp add: has_def)
  have W: "WriteFileFromReader (sto i) filename r w = Ret ((SHA1FromBytes fj, None), w3)"
    using assms(3-5) w1(1) w2(1) w3(1)
    by (simp add: WriteFileFromReader_def WriteFileMap_def writeFileMapRolling_def writeFileChunks_def uploadBytes_def fut_Get_def)
  have R: "I w3 \<and> i < n \<and> C w3 i = ?M" using w3(2) M assms(2) by simp
  show ?thesis
  proof (rule exI [of _ "SHA1FromBytes fj"], rule exI [of _ w3], rule exI [of _ d], intro conjI allI impI)
    show "WriteFileFromReader (sto i) filename r w = Ret ((SHA1FromBytes fj, None), w3)" by (rule W)
    show "I w3" by (rule w3(2))
    fix fuel off want assume "d < fuel"
    then show "\<exists>fr w2 s. NewFileReader (sto_Fetch (sto i)) (SHA1FromBytes fj) w3 = Ret (Inr fr, w2) \<and> fr_size fr = int (length cs) \<and>
        ReadAt fuel (sto_Fetch (sto i)) fr want (int off) (emptyCache, w2) = Ret (read_at_spec (map fst cs) want off, s)"
      using rd.open_and_read [OF R SHA1_ref(2) j parse f, of fuel "int off" want] by fastforce
  qed
qed

end

text \<open>The bytes that the buffered reader delivers are those of the source's reads up to its end.\<close>

fun source_bytes :: "rd_results \<Rightarrow> bytes" where
  "source_bytes [] = []"
| "source_bytes ((bs, None) # rs) = bs @ source_bytes rs"
| "source_bytes ((bs, Some e) # rs) = bs"

lemma buffered_bytes: "snd (buffered k r) = EOF \<Longrightarrow> map fst (fst (buffered k r)) = source_bytes r"
  by (induction k r rule: buffered.induct) (auto simp: case_prod_beta comp_def split: if_splits)

text \<open>
  C1 [file_roundtrip].  A file that is written from any source, whatever the sizes of its reads, to a memory storage is read back: its reader has the
  file's size, and every read at any offset returns the file's bytes there, with the error that says how the read relates to the end of
  the file.  Assumed are that no two of the blobs involved collide and that the schema blobs are within their limit.
\<close>

theorem file_written_is_read_back:
  assumes "mem_I w" and "NewFileMap filename = Ret m" and "CHR ''/'' \<notin> set filename"
    and "buffered 99 r = (cs, EOF)" and "length cs < 2 ^ 63"
    and "inj_on SHA1FromBytes (ran (mem_C w i) \<union> set (written m cs))"
    and "\<forall>b \<in> set (written m cs). length b \<le> MaxSchemaBlobSize"
  shows "\<exists>br w1 d. WriteFileFromReader (mem_at i) filename r w = Ret ((br, None), w1) \<and> mem_I w1 \<and>
    (\<forall>fuel off want. d < fuel \<longrightarrow>
      (\<exists>fr w2 s. NewFileReader (sto_Fetch (mem_at i)) br w1 = Ret (Inr fr, w2) \<and> fr_size fr = int (length (source_bytes r)) \<and>
        ReadAt fuel (sto_Fetch (mem_at i)) fr want (int off) (emptyCache, w2) = Ret (read_at_spec (source_bytes r) want off, s)))"
proof -
  have "map fst cs = source_bytes r" using buffered_bytes [of 99 r] assms(4) by simp
  moreover then have "length cs = length (source_bytes r)" by (metis length_map)
  ultimately show ?thesis using mems.write_then_read [OF assms(1) lessI assms(2-7)] by simp
qed

theorem file_written_is_read_back_witness:
  "\<exists>br w1 d. WriteFileFromReader (mem_at 0) ''a'' [([], Some EOF)] (\<lambda>_. mem_New) = Ret ((br, None), w1) \<and>
    (\<forall>fuel off want. d < fuel \<longrightarrow>
      (\<exists>fr w2 s. NewFileReader (sto_Fetch (mem_at 0)) br w1 = Ret (Inr fr, w2) \<and> fr_size fr = 0 \<and>
        ReadAt fuel (sto_Fetch (mem_at 0)) fr want (int off) (emptyCache, w2) = Ret (([], Some ErrEOF), s)))"
proof -
  let ?m = "[(''camliVersion'', VInt 1), (''camliType'', VStr ''file''), (''fileName'', VStr ''a'')]"
  have w: "mem_I (\<lambda>_. mem_New)" by (simp add: mem_I_def mem_inv_def mem_New_def blobs_ok_def)
  have C: "ran (mem_C (\<lambda>_. mem_New) 0) = {}" by (simp add: mem_C_def mem_New_def)
  have m: "NewFileMap ''a'' = Ret ?m" by code_simp
  have r: "buffered 99 [([], Some EOF)] = ([], EOF)" by simp
  have wr: "written ?m [] = [byte_json ?m 0 []]" by (simp add: written_def ws_init_def)
  have "length (byte_json ?m 0 []) < 200" by code_simp
  then have len: "\<forall>b \<in> set (written ?m []). length b \<le> MaxSchemaBlobSize" by (simp add: wr MaxSchemaBlobSize_def)
  have "inj_on SHA1FromBytes (ran (mem_C (\<lambda>_. mem_New) 0) \<union> set (written ?m []))" by (simp add: C wr)
  then show ?thesis
    using file_written_is_read_back [OF w m _ r _ _ len, of 0] by (simp add: read_at_spec_def) blast
qed

end
