(* ===== verification/DirReader.thy ===== *)
theory DirReader
  imports FileReader FileWriter
begin

text \<open>
  Package \<open>pkg/schema\<close>, file \<open>dirreader.go\<close> and the directory entries of \<open>schema.go\<close>: a directory is a schema blob that refers to a
  static set, whose members are the schema blobs of the entries.  A directory made by the builders is shown to be read back entry by
  entry; that the second of two partial reads starts again from the beginning is shown too.
\<close>

section \<open>Data\<close>

text \<open>The nil slice of a set that was not read yet is \<open>[]\<close>: a slice that was appended to is never empty.\<close>

record DirReader =
  dr_ss :: superset
  dr_staticSet :: "Ref list"
  dr_current :: int

record dirEntry =
  de_ss :: superset
  de_fr :: "FileReader option"
  de_dr :: "DirReader option"

section \<open>Directory readers\<close>

text \<open>The struct has its reference when the text is decoded into it, and there is no limit on the text.\<close>

definition setFromBlobRef :: "'w fetcher \<Rightarrow> Ref \<Rightarrow> 'w \<Rightarrow> ((goerr + superset) \<times> 'w) outcome" where
  "setFromBlobRef fetch br w =
     (if \<not> ref_Valid br then Ret (Inl (ErrText ''schema/dirreader: blobref invalid''), w)
      else
        obind (fetch br w) (\<lambda>((rc, _, err), w).
          if err \<noteq> None then Ret (Inl (ErrText ''schema/dirreader: fetching schema blob''), w)
          else case rc of
              None \<Rightarrow> Panic ''nil pointer dereference''
            | Some rc \<Rightarrow>
                (case rd_json (rd_data rc) of
                   None \<Rightarrow> Ret (Inl (ErrText ''schema/dirreader: decoding schema blob''), w)
                 | Some v \<Rightarrow>
                     (case dec_struct dec_field (zeroSuperset\<lparr>ss_BlobRef := br\<rparr>) v of
                        None \<Rightarrow> Ret (Inl (ErrText ''schema/dirreader: decoding schema blob''), w)
                      | Some ss \<Rightarrow> Ret (Inr ss, w)))))"

definition ss_NewDirReader :: "superset \<Rightarrow> goerr + DirReader" where
  "ss_NewDirReader ss =
     (if ss_Type ss \<noteq> ''directory'' then Inl (ErrText ''Superset not of type directory'')
      else Inr \<lparr>dr_ss = ss, dr_staticSet = [], dr_current = 0\<rparr>)"

definition NewDirReader :: "'w fetcher \<Rightarrow> Ref \<Rightarrow> 'w \<Rightarrow> ((goerr + DirReader) \<times> 'w) outcome" where
  "NewDirReader fetch br w =
     obind (setFromBlobRef fetch br w) (\<lambda>(r, w).
       case r of
         Inl e \<Rightarrow> Ret (Inl e, w)
       | Inr ss \<Rightarrow>
           if ss_Type ss \<noteq> ''directory'' then Ret (Inl (ErrText ''schema/dirreader: expected directory schema blob''), w)
           else case ss_NewDirReader ss of
               Inl e \<Rightarrow> Ret (Inl (ErrText ''schema/dirreader: creating DirReader''), w)
             | Inr dr \<Rightarrow> Ret (Inr (dr\<lparr>dr_current := 0\<rparr>), w))"

text \<open>The loop over the members: those before the first invalid one stay in the reader when the loop fails.\<close>

fun add_members :: "Ref list \<Rightarrow> DirReader \<Rightarrow> goerr option \<times> DirReader" where
  "add_members [] dr = (None, dr)"
| "add_members (r # rs) dr =
     (if \<not> ref_Valid r then (Some (ErrText ''schema/dirreader: invalid (static-set member) blobref''), dr)
      else add_members rs (dr\<lparr>dr_staticSet := dr_staticSet dr @ [r]\<rparr>))"

definition StaticSet :: "'w fetcher \<Rightarrow> DirReader \<Rightarrow> 'w \<Rightarrow> ((goerr + Ref list) \<times> DirReader \<times> 'w) outcome" where
  "StaticSet fetch dr w =
     (if dr_staticSet dr \<noteq> [] then Ret (Inr (dr_staticSet dr), dr, w)
      else if \<not> ref_Valid (ss_Entries (dr_ss dr)) then Ret (Inl (ErrText ''schema/dirreader: Invalid blobref''), dr, w)
      else
        obind (fetch (ss_Entries (dr_ss dr)) w) (\<lambda>((rsc, _, err), w).
          if err \<noteq> None then Ret (Inl (ErrText ''schema/dirreader: fetching schema blob''), dr, w)
          else case rsc of
              None \<Rightarrow> Panic ''nil pointer dereference''
            | Some rsc \<Rightarrow>
                (case parseSuperset rsc of
                   Inl e \<Rightarrow> Ret (Inl (ErrText ''schema/dirreader: decoding schema blob''), dr, w)
                 | Inr ss \<Rightarrow>
                     if ss_Type ss \<noteq> ''static-set''
                     then Ret (Inl (ErrText ''schema/dirreader: expected static-set schema blob''), dr, w)
                     else let (err, dr) = add_members (ss_Members ss) dr
                          in Ret (case err of Some e \<Rightarrow> Inl e | None \<Rightarrow> Inr (dr_staticSet dr), dr, w))))"

section \<open>Entries\<close>

definition entry_types :: "string list" where
  "entry_types = [''file'', ''directory'', ''symlink'', ''fifo'', ''socket'']"

definition newDirectoryEntry :: "superset option \<Rightarrow> goerr + dirEntry" where
  "newDirectoryEntry ss =
     (case ss of
        None \<Rightarrow> Inl (ErrText ''ss was nil'')
      | Some ss \<Rightarrow>
          if \<not> ref_Valid (ss_BlobRef ss) then Inl (ErrText ''ss.BlobRef was invalid'')
          else if ss_Type ss \<in> set entry_types then Inr \<lparr>de_ss = ss, de_fr = None, de_dr = None\<rparr>
          else Inl (ErrText ''invalid DirectoryEntry camliType''))"

definition NewDirectoryEntryFromBlobRef :: "'w fetcher \<Rightarrow> Ref \<Rightarrow> 'w \<Rightarrow> ((goerr + dirEntry) \<times> 'w) outcome" where
  "NewDirectoryEntryFromBlobRef fetch br w =
     obind (setFromBlobRef fetch br w) (\<lambda>(r, w).
       Ret (case r of
              Inl e \<Rightarrow> Inl (ErrText ''schema/filereader: can't fill superset'')
            | Inr ss \<Rightarrow> newDirectoryEntry (Some ss), w))"

definition de_CamliType :: "dirEntry \<Rightarrow> string" where
  "de_CamliType de = ss_Type (de_ss de)"

definition de_FileName :: "dirEntry \<Rightarrow> string" where
  "de_FileName de = FileNameString (de_ss de)"

definition de_BlobRef :: "dirEntry \<Rightarrow> Ref" where
  "de_BlobRef de = ss_BlobRef (de_ss de)"

definition de_File :: "'w fetcher \<Rightarrow> dirEntry \<Rightarrow> 'w \<Rightarrow> ((goerr + FileReader) \<times> dirEntry \<times> 'w) outcome" where
  "de_File fetch de w =
     (case de_fr de of
        Some fr \<Rightarrow> Ret (Inr fr, de, w)
      | None \<Rightarrow>
          if ss_Type (de_ss de) \<noteq> ''file'' then Ret (Inl (ErrText ''DirectoryEntry is not of camliType file''), de, w)
          else obind (NewFileReader fetch (ss_BlobRef (de_ss de)) w) (\<lambda>(r, w).
            case r of Inl e \<Rightarrow> Ret (Inl e, de, w) | Inr fr \<Rightarrow> Ret (Inr fr, de\<lparr>de_fr := Some fr\<rparr>, w)))"

definition de_Directory :: "'w fetcher \<Rightarrow> dirEntry \<Rightarrow> 'w \<Rightarrow> ((goerr + DirReader) \<times> dirEntry \<times> 'w) outcome" where
  "de_Directory fetch de w =
     (case de_dr de of
        Some dr \<Rightarrow> Ret (Inr dr, de, w)
      | None \<Rightarrow>
          if ss_Type (de_ss de) \<noteq> ''directory'' then Ret (Inl (ErrText ''DirectoryEntry is not of camliType directory''), de, w)
          else obind (NewDirReader fetch (ss_BlobRef (de_ss de)) w) (\<lambda>(r, w).
            case r of Inl e \<Rightarrow> Ret (Inl e, de, w) | Inr dr \<Rightarrow> Ret (Inr dr, de\<lparr>de_dr := Some dr\<rparr>, w)))"

text \<open>
  \<open>Readdir\<close>.  The entries are loaded by goroutines, one for each, which here run in turn; all of them run, and the results are looked at in
  order.  The end of the directory is noted in \<open>err\<close>, which is not what is returned, and \<open>current\<close> stays where it is.
\<close>

fun load_entries :: "'w fetcher \<Rightarrow> Ref list \<Rightarrow> 'w \<Rightarrow> ((goerr + dirEntry) list \<times> 'w) outcome" where
  "load_entries fetch [] w = Ret ([], w)"
| "load_entries fetch (r # rs) w =
     obind (NewDirectoryEntryFromBlobRef fetch r w) (\<lambda>(e, w).
       obind (load_entries fetch rs w) (\<lambda>(es, w). Ret (e # es, w)))"

fun collect_entries :: "(goerr + dirEntry) list \<Rightarrow> goerr + dirEntry list" where
  "collect_entries [] = Inr []"
| "collect_entries (Inl e # cs) = Inl (ErrText ''schema/dirreader: can't create dirEntry'')"
| "collect_entries (Inr de # cs) = (case collect_entries cs of Inl e \<Rightarrow> Inl e | Inr es \<Rightarrow> Inr (de # es))"

definition Readdir :: "'w fetcher \<Rightarrow> int \<Rightarrow> DirReader \<Rightarrow> 'w \<Rightarrow> ((goerr + dirEntry list) \<times> DirReader \<times> 'w) outcome" where
  "Readdir fetch n dr w =
     obind (StaticSet fetch dr w) (\<lambda>(r, dr, w).
       case r of
         Inl e \<Rightarrow> Ret (Inl (ErrText ''schema/dirreader: can't get StaticSet''), dr, w)
       | Inr sts \<Rightarrow>
           (let dr = (if n \<le> 0 then dr\<lparr>dr_current := 0\<rparr> else dr);
                up = (if n \<le> 0 \<or> n > int (length sts) - dr_current dr then int (length sts) else dr_current dr + n)
            in if dr_current dr < 0 \<or> up < dr_current dr then Panic ''slice bounds out of range''
               else obind (load_entries fetch (drop (nat (dr_current dr)) (take (nat up) sts)) w) (\<lambda>(cs, w).
                 Ret (collect_entries cs, dr, w))))"

section \<open>The text of a directory\<close>

text \<open>Decoding into a struct that has its reference already, as long as no member is taken for the field \<open>BlobRef\<close>.\<close>

definition no_BlobRef :: "(string \<times> json) list \<Rightarrow> bool" where
  "no_BlobRef ms \<longleftrightarrow> list_all (\<lambda>m. field_name (map fst superset_decoders) (fst m) \<noteq> Some ''BlobRef'') ms"

lemma decoder_BlobRef:
  assumes "map_of superset_decoders n = Some d" and "n \<noteq> ''BlobRef''"
  shows "d (ss\<lparr>ss_BlobRef := r\<rparr>) v = map_option (\<lambda>s. s\<lparr>ss_BlobRef := r\<rparr>) (d ss v)"
  using assms by (cases ss) (auto simp: superset_decoders_def option.map_comp comp_def split: if_splits)

lemma dec_field_BlobRef:
  assumes "field_name (map fst superset_decoders) k \<noteq> Some ''BlobRef''"
  shows "dec_field k (ss\<lparr>ss_BlobRef := r\<rparr>) v = map_option (\<lambda>s. s\<lparr>ss_BlobRef := r\<rparr>) (dec_field k ss v)"
  using assms decoder_BlobRef by (auto simp: dec_field_def split: option.splits)

lemma dec_members_BlobRef:
  "no_BlobRef ms \<Longrightarrow> dec_members dec_field (ss\<lparr>ss_BlobRef := r\<rparr>) ms = map_option (\<lambda>s. s\<lparr>ss_BlobRef := r\<rparr>) (dec_members dec_field ss ms)"
  by (induction ms arbitrary: ss) (auto simp: no_BlobRef_def dec_field_BlobRef split: option.splits)

text \<open>The blob that \<open>br\<close> refers to is the schema blob \<open>ss\<close>, for a decoder without a limit.\<close>

definition schema_at :: "blobmap \<Rightarrow> Ref \<Rightarrow> superset \<Rightarrow> bool" where
  "schema_at C br ss \<longleftrightarrow>
     ref_Valid br \<and> (\<exists>j v. C br = Some j \<and> rd_json j = Some v \<and> dec_struct dec_field (zeroSuperset\<lparr>ss_BlobRef := br\<rparr>) v = Some ss)"

lemma builder_schema_at:
  assumes "map_of m ''camliVersion'' = Some (VInt 1)" and "sorted_members m \<noteq> []" and "json_ok (JObj (sorted_members m))"
    and "mapJSON m = Inr json" and "length json \<le> MaxSchemaBlobSize" and "parseSuperset (bytes_reader json) = Inr ss"
    and "no_BlobRef (version_member # sorted_members m)" and "C br = Some json" and "ref_Valid br"
  shows "schema_at C br (ss\<lparr>ss_BlobRef := br\<rparr>)"
proof -
  have j: "rd_json json = Some (JObj (version_member # sorted_members m))"
    using rd_version_object [OF assms(2,3)] mapJSON_text [OF assms(1,2)] assms(4) by simp
  moreover have "rd_data (limit_reader (bytes_reader json) MaxSchemaBlobSize) = json" using assms(5) by (simp add: limit_reader_def)
  ultimately have "dec_members dec_field zeroSuperset (version_member # sorted_members m) = Some ss"
    using assms(6) by (simp add: parseSuperset_def dec_struct_def split: option.splits)
  then show ?thesis using j assms(7-9) dec_members_BlobRef by (auto simp: schema_at_def dec_struct_def)
qed

lemma field_names_plain:
  "field_name (map fst superset_decoders) ''camliVersion'' \<noteq> Some ''BlobRef''" "field_name (map fst superset_decoders) ''camliType'' \<noteq> Some ''BlobRef''"
  "field_name (map fst superset_decoders) ''fileName'' \<noteq> Some ''BlobRef''" "field_name (map fst superset_decoders) ''fileNameBytes'' \<noteq> Some ''BlobRef''"
  "field_name (map fst superset_decoders) ''parts'' \<noteq> Some ''BlobRef''" "field_name (map fst superset_decoders) ''entries'' \<noteq> Some ''BlobRef''"
  by (simp_all add: field_name_exact superset_decoders_def)

lemma no_BlobRef_names: "no_BlobRef (name_json nm)"
  using field_names_plain by (cases nm rule: name_json.cases) (simp_all add: no_BlobRef_def)

text \<open>The schema blob of a file is an entry of a directory.\<close>

lemma file_schema_at:
  assumes "NewFileMap f = Ret m" and "list_all part_wf ps" and "populateParts m sz ps = Inr m'" and "mapJSON m' = Inr json"
    and "length json \<le> MaxSchemaBlobSize" and "C br = Some json" and "ref_Valid br"
  shows "\<exists>nm. m = byte_map ''file'' nm \<and> schema_at C br ((byte_superset ''file'' nm ps)\<lparr>ss_BlobRef := br\<rparr>)"
proof -
  obtain nm where nm: "m = byte_map ''file'' nm" "name_ok nm" using NewFileMap_map [OF assms(1)] by blast
  have safe: "list_all safe_char ''file''" by (simp add: safe_char_def)
  note B = byte_members [OF assms(3) [unfolded nm(1)] assms(2) nm(2) safe]
  have nb: "no_BlobRef (version_member # sorted_members m')"
    using no_BlobRef_names [of nm] field_names_plain unfolding B(2) by (simp add: no_BlobRef_def version_member_def)
  have ne: "sorted_members m' \<noteq> []" by (simp add: B(2))
  have "parseSuperset (bytes_reader json) = Inr (byte_superset ''file'' nm ps)"
    using byte_blob(2) [OF assms(3) [unfolded nm(1)] assms(2) nm(2) safe assms(4,5)] .
  from builder_schema_at [where C = C, OF B(1) ne B(3) assms(4,5) this nb assms(6,7)] show ?thesis using nm(1) by blast
qed

subsection \<open>Static sets\<close>

definition set_superset :: "Ref list \<Rightarrow> superset" where
  "set_superset refs = zeroSuperset\<lparr>ss_Version := 1, ss_Type := ''static-set'', ss_Members := refs\<rparr>"

lemma dec_field_members:
  assumes "list_all ref_wf refs" and "ss_Members ss = []"
  shows "dec_field ''members'' ss (JArr (map (\<lambda>r. jstr (ref_String r)) refs)) = Some (ss\<lparr>ss_Members := refs\<rparr>)"
proof -
  have "dec_elems dec_ref zeroRef [] (map (\<lambda>r. jstr (ref_String r)) refs) = Some refs" using assms(1) by (induction refs) simp_all
  then show ?thesis using assms(2) by (simp add: dec_field_def field_name_exact superset_decoders_def dec_slice_def)
qed

lemma ref_jstr_ok: "ref_wf r \<Longrightarrow> json_ok (jstr (ref_String r))"
  using jstr_ok safe_valid ref_String_safe by blast

definition set_map :: "Ref list \<Rightarrow> gmap" where
  "set_map refs = AList.update ''members'' (VStrs (map ref_String refs)) (base 1 ''static-set'')"

lemma mapJSON_of_Blob: "Builder_Blob m = Ret b \<Longrightarrow> mapJSON m = Inr (sb_str b)"
  by (auto simp: Builder_Blob_def split: sum.splits)

lemma static_set_blob:
  assumes "list_all ref_wf refs" and "mapJSON (set_map refs) = Inr json" and "length json \<le> MaxSchemaBlobSize"
  shows "StaticSet_Blob refs = Ret \<lparr>sb_br = SHA1FromBytes json, sb_str = json, sb_ss = set_superset refs\<rparr>"
    and "parseSuperset (bytes_reader json) = Inr (set_superset refs)"
proof -
  have v: "map_of (set_map refs) ''camliVersion'' = Some (VInt 1)" by (simp add: set_map_def base_def)
  have sm: "sorted_members (set_map refs) = [(''camliType'', jstr ''static-set''), (''members'', JArr (map (\<lambda>r. jstr (ref_String r)) refs))]"
    by (simp add: sorted_members_def set_map_def base_def comp_def)
  have t: "valid_utf8 (bytes_of_string ''static-set'')" by (rule names_valid) (simp add: safe_char_def)
  have ok: "json_ok (JObj (sorted_members (set_map refs)))" unfolding sm
    using assms(1) field_names_valid ref_jstr_ok jstr_ok [OF t] by (auto simp: list_all_iff simp del: json_ok.simps(1,2) bytes_of_string_simps)
  have dec: "dec_members dec_field zeroSuperset (version_member # sorted_members (set_map refs)) = Some (set_superset refs)"
    unfolding sm version_member_def using assms(1) dec_field_members
    by (simp add: dec_field_version dec_field_strings(1) [OF t] set_superset_def zeroSuperset_def)
  have ne: "sorted_members (set_map refs) \<noteq> []" by (simp add: sm)
  note B = Builder_Blob_members [OF v ne ok assms(2,3) dec]
  show "StaticSet_Blob refs = Ret \<lparr>sb_br = SHA1FromBytes json, sb_str = json, sb_ss = set_superset refs\<rparr>"
    using B(1) by (simp add: StaticSet_Blob_def set_map_def)
  show "parseSuperset (bytes_reader json) = Inr (set_superset refs)" by (rule B(2))
qed

subsection \<open>Directories\<close>

lemma NewDirMap_map:
  assumes "NewDirMap f = Ret m"
  shows "\<exists>nm. m = byte_map ''directory'' nm \<and> name_ok nm"
proof -
  obtain m0 where m0: "newCommonFilenameMap f = Ret m0" "m = SetType ''directory'' m0" using assms by (auto simp: NewDirMap_def obind_eq_Ret)
  then obtain nm where nm: "SetType ''file'' m0 = byte_map ''file'' nm" "name_ok nm"
    using NewFileMap_map [of f "SetType ''file'' m0"] by (auto simp: NewFileMap_def)
  have "m = SetType ''directory'' (SetType ''file'' m0)" by (simp add: m0(2) SetType_def)
  also have "\<dots> = byte_map ''directory'' nm" unfolding nm(1) by (simp add: SetType_def byte_map_def)
  finally show ?thesis using nm(2) by blast
qed

definition dir_superset :: "(string + gval list) option \<Rightarrow> Ref \<Rightarrow> superset" where
  "dir_superset nm sr = set_names nm (zeroSuperset\<lparr>ss_Version := 1, ss_Type := ''directory'', ss_Entries := sr\<rparr>)"

lemma directory_blob:
  assumes "NewDirMap f = Ret m" and "ref_wf sr" and "mapJSON (PopulateDirectoryMap sr m) = Inr json" and "length json \<le> MaxSchemaBlobSize"
  shows "\<exists>b. Builder_Blob (PopulateDirectoryMap sr m) = Ret b \<and> sb_str b = json"
    and "C br = Some json \<Longrightarrow> ref_Valid br \<Longrightarrow> \<exists>ss. schema_at C br ss \<and> ss_Type ss = ''directory'' \<and> ss_Entries ss = sr"
proof -
  obtain nm where nm: "m = byte_map ''directory'' nm" "name_ok nm" using NewDirMap_map [OF assms(1)] by blast
  define m' where "m' = PopulateDirectoryMap sr m"
  have j: "mapJSON m' = Inr json" using assms(3) by (simp add: m'_def)
  have v: "map_of m' ''camliVersion'' = Some (VInt 1)" unfolding m'_def nm(1) by (simp add: PopulateDirectoryMap_def byte_map_def update_conv')
  have sm: "sorted_members m' = (''camliType'', jstr ''directory'') # (''entries'', jstr (ref_String sr)) # name_json nm"
    unfolding m'_def nm(1) by (cases nm rule: name_members.cases) (simp_all add: PopulateDirectoryMap_def byte_map_def sorted_members_def)
  have t: "valid_utf8 (bytes_of_string ''directory'')" by (rule names_valid) (simp add: safe_char_def)
  have ok: "json_ok (JObj (sorted_members m'))"
    unfolding sm using field_names_valid jstr_ok [OF t] ref_jstr_ok [OF assms(2)] jstr_ok nm(2) json_ok_name_values
    by (cases nm rule: name_members.cases) (auto simp: list_all_iff simp del: json_ok.simps(1,2) bytes_of_string_simps)
  have dec: "dec_members dec_field zeroSuperset (version_member # sorted_members m') = Some (dir_superset nm sr)"
    unfolding sm version_member_def using nm(2) assms(2)
    by (cases nm rule: name_members.cases)
      (simp_all add: dec_field_version dec_field_strings(1) [OF t] dec_field_strings dec_field_refs dec_field_names dir_superset_def zeroSuperset_def)
  have nb: "no_BlobRef (version_member # sorted_members m')"
    unfolding sm using no_BlobRef_names [of nm] field_names_plain by (simp add: no_BlobRef_def version_member_def)
  have ne: "sorted_members m' \<noteq> []" by (simp add: sm)
  note B = Builder_Blob_members [OF v ne ok j assms(4) dec]
  show "\<exists>b. Builder_Blob (PopulateDirectoryMap sr m) = Ret b \<and> sb_str b = json" using B(1) by (simp add: m'_def)
  have "ss_Type (dir_superset nm sr) = ''directory''" "ss_Entries (dir_superset nm sr) = sr"
    by (cases nm rule: name_members.cases; simp add: dir_superset_def)+
  then show "\<exists>ss. schema_at C br ss \<and> ss_Type ss = ''directory'' \<and> ss_Entries ss = sr" if "C br = Some json" "ref_Valid br"
    using builder_schema_at [where C = C, OF v ne ok j assms(4) B(2) nb that] by (intro exI [of _ "(dir_superset nm sr)\<lparr>ss_BlobRef := br\<rparr>"]) simp
qed

section \<open>Reading a directory\<close>

definition entry_at :: "blobmap \<Rightarrow> Ref \<Rightarrow> dirEntry \<Rightarrow> bool" where
  "entry_at C r e \<longleftrightarrow>
     schema_at C r (de_ss e) \<and> ref_Valid (de_BlobRef e) \<and> de_CamliType e \<in> set entry_types \<and> de_fr e = None \<and> de_dr e = None"

definition dir_ok :: "Ref \<Rightarrow> Ref list \<Rightarrow> DirReader \<Rightarrow> bool" where
  "dir_ok sr refs dr \<longleftrightarrow> dr_current dr = 0 \<and> ss_Entries (dr_ss dr) = sr \<and> (dr_staticSet dr = [] \<or> dr_staticSet dr = refs)"

text \<open>A sequence of calls of \<open>Readdir\<close> on one reader.\<close>

fun readdirs :: "'w fetcher \<Rightarrow> int list \<Rightarrow> DirReader \<Rightarrow> 'w \<Rightarrow> ((goerr + dirEntry list) list \<times> DirReader \<times> 'w) outcome" where
  "readdirs fetch [] dr w = Ret ([], dr, w)"
| "readdirs fetch (n # ns) dr w =
     obind (Readdir fetch n dr w) (\<lambda>(r, dr, w). obind (readdirs fetch ns dr w) (\<lambda>(rs, s). Ret (r # rs, s)))"

definition readdir_spec :: "dirEntry list \<Rightarrow> int \<Rightarrow> dirEntry list" where
  "readdir_spec es n = (if n \<le> 0 then es else take (nat n) es)"

lemma collect_entries_Inr: "collect_entries (map Inr es) = Inr es"
  by (induction es) simp_all

lemma add_members_valid: "list_all ref_Valid rs \<Longrightarrow> add_members rs dr = (None, dr\<lparr>dr_staticSet := dr_staticSet dr @ rs\<rparr>)"
  by (induction rs arbitrary: dr) simp_all

context fetches
begin

lemma setFromBlobRef_ok:
  assumes "I w" and "schema_at C br ss"
  shows "\<exists>w'. setFromBlobRef fetch br w = Ret (Inr ss, w') \<and> I w'"
proof -
  obtain j v where j: "ref_Valid br" "C br = Some j" "rd_json j = Some v" "dec_struct dec_field (zeroSuperset\<lparr>ss_BlobRef := br\<rparr>) v = Some ss"
    using assms(2) by (auto simp: schema_at_def)
  then show ?thesis using fetch [OF assms(1) j(2)] by (auto simp: setFromBlobRef_def)
qed

lemma load_entries_ok: "list_all2 (entry_at C) refs es \<Longrightarrow> I w \<Longrightarrow> \<exists>w'. load_entries fetch refs w = Ret (map Inr es, w') \<and> I w'"
proof (induction refs es arbitrary: w rule: list_all2_induct)
  case (Cons r rs e es)
  obtain w1 where w1: "setFromBlobRef fetch r w = Ret (Inr (de_ss e), w1)" "I w1"
    using setFromBlobRef_ok [OF Cons.prems] Cons.hyps(1) by (auto simp: entry_at_def)
  have "newDirectoryEntry (Some (de_ss e)) = Inr e"
    using Cons.hyps(1) by (cases e) (simp add: entry_at_def newDirectoryEntry_def de_BlobRef_def de_CamliType_def)
  then show ?case using w1 Cons.IH [OF w1(2)] by (auto simp: NewDirectoryEntryFromBlobRef_def)
qed simp

lemma StaticSet_ok:
  assumes "I w" and "dir_ok sr refs dr" and "ref_Valid sr" and "C sr = Some j" and "parseSuperset (bytes_reader j) = Inr (set_superset refs)"
    and "list_all ref_Valid refs"
  shows "\<exists>dr' w'. StaticSet fetch dr w = Ret (Inr refs, dr', w') \<and> dir_ok sr refs dr' \<and> I w'"
proof (cases "dr_staticSet dr = []")
  case True
  obtain w' where w': "fetch sr w = Ret ((Some (bytes_reader j), of_nat (length j), None), w')" "I w'" using fetch [OF assms(1,4)] by blast
  have "ss_Type (set_superset refs) = ''static-set''" "ss_Members (set_superset refs) = refs" by (simp_all add: set_superset_def)
  then show ?thesis using True w' assms(2,3,5) add_members_valid [OF assms(6)] by (auto simp: StaticSet_def dir_ok_def)
next
  case False
  then show ?thesis using assms(1,2) by (auto simp: StaticSet_def dir_ok_def)
qed

lemma Readdir_ok:
  assumes "I w" and "dir_ok sr refs dr" and "ref_Valid sr" and "C sr = Some j" and "parseSuperset (bytes_reader j) = Inr (set_superset refs)"
    and "list_all ref_Valid refs" and "list_all2 (entry_at C) refs es"
  shows "\<exists>dr' w'. Readdir fetch n dr w = Ret (Inr (readdir_spec es n), dr', w') \<and> dir_ok sr refs dr' \<and> I w'"
proof -
  obtain dr1 w1 where s: "StaticSet fetch dr w = Ret (Inr refs, dr1, w1)" "dir_ok sr refs dr1" "I w1" using StaticSet_ok [OF assms(1-6)] by blast
  have len: "length refs = length es" using assms(7) by (rule list_all2_lengthD)
  let ?k = "if n \<le> 0 \<or> n > int (length refs) then length refs else nat n"
  have t: "list_all2 (entry_at C) (take ?k refs) (take ?k es)" using assms(7) by (rule list_all2_takeI)
  obtain w2 where w2: "load_entries fetch (take ?k refs) w1 = Ret (map Inr (take ?k es), w2)" "I w2" using load_entries_ok [OF t s(3)] by blast
  have "take ?k es = readdir_spec es n" using len by (simp add: readdir_spec_def)
  moreover have "take (nat (if n \<le> 0 \<or> n > int (length refs) then int (length refs) else n)) refs = take ?k refs" by simp
  ultimately show ?thesis using s w2 collect_entries_Inr [of "take ?k es"]
    by (auto simp: Readdir_def dir_ok_def Let_def split: if_splits)
qed

lemma readdirs_ok:
  assumes "I w" and "dir_ok sr refs dr" and "ref_Valid sr" and "C sr = Some j" and "parseSuperset (bytes_reader j) = Inr (set_superset refs)"
    and "list_all ref_Valid refs" and "list_all2 (entry_at C) refs es"
  shows "\<exists>s. readdirs fetch ns dr w = Ret (map (\<lambda>n. Inr (readdir_spec es n)) ns, s)"
  using assms(1,2)
proof (induction ns arbitrary: dr w)
  case (Cons n ns)
  obtain dr' w' where "Readdir fetch n dr w = Ret (Inr (readdir_spec es n), dr', w')" "dir_ok sr refs dr'" "I w'"
    using Readdir_ok [OF Cons.prems assms(3-)] by blast
  then show ?case using Cons.IH by fastforce
qed simp

lemma NewDirReader_ok:
  assumes "I w" and "schema_at C br ss" and "ss_Type ss = ''directory''"
  shows "\<exists>dr w'. NewDirReader fetch br w = Ret (Inr dr, w') \<and> dir_ok (ss_Entries ss) refs dr \<and> I w'"
  using setFromBlobRef_ok [OF assms(1,2)] assms(3) by (auto simp: NewDirReader_def ss_NewDirReader_def dir_ok_def)

end

lemma ref_wf_Valids: "list_all ref_wf refs \<Longrightarrow> list_all ref_Valid refs"
  using ref_wf_Valid by (auto simp: list_all_iff)

text \<open>
  C16 [directory_roundtrip].  A directory that was made with the builders for a static set of entries, all stored where the fetcher finds
  them, is read back: \<open>Readdir\<close> returns the entries of the set in their order, or the first ones if fewer are asked for.  In a sequence of calls
  every call does so anew: a call that asked for some of the entries is not followed by one that returns further ones.
\<close>

theorem directory_read_back:
  assumes "fetches fetch C I" and "I w"
    and "list_all ref_wf refs" and "StaticSet_Blob refs = Ret sb" and "length (sb_str sb) \<le> MaxSchemaBlobSize"
    and "ref_wf sr" and "C sr = Some (sb_str sb)"
    and "NewDirMap f = Ret m" and "Builder_Blob (PopulateDirectoryMap sr m) = Ret db" and "length (sb_str db) \<le> MaxSchemaBlobSize"
    and "ref_Valid br" and "C br = Some (sb_str db)"
    and "list_all2 (entry_at C) refs es"
  shows "\<exists>dr w1. NewDirReader fetch br w = Ret (Inr dr, w1) \<and>
    (\<forall>ns. \<exists>s. readdirs fetch ns dr w1 = Ret (map (\<lambda>n. Inr (readdir_spec es n)) ns, s))"
proof -
  obtain ss where ss: "schema_at C br ss" "ss_Type ss = ''directory''" "ss_Entries ss = sr"
    using directory_blob(2) [where C = C, OF assms(8,6) mapJSON_of_Blob [OF assms(9)] assms(10,12,11)] by blast
  obtain dr w1 where d: "NewDirReader fetch br w = Ret (Inr dr, w1)" "dir_ok sr refs dr" "I w1"
    using fetches.NewDirReader_ok [OF assms(1,2) ss(1,2)] ss(3) by blast
  have "mapJSON (set_map refs) = Inr (sb_str sb)" using assms(4) by (simp add: StaticSet_Blob_def set_map_def mapJSON_of_Blob)
  from static_set_blob(2) [OF assms(3) this assms(5)] d show ?thesis
    using fetches.readdirs_ok [OF assms(1) d(3,2) ref_wf_Valid [OF assms(6)] assms(7) _ ref_wf_Valids [OF assms(3)] assms(13)] by blast
qed

text \<open>A fetcher over a list of blobs.\<close>

definition map_fetcher :: "(Ref \<times> bytes) list \<Rightarrow> unit fetcher" where
  "map_fetcher m br w = Ret (fetch_spec (map_of m) br, w)"

lemma map_fetcher_fetches: "fetches (map_fetcher m) (map_of m) (\<lambda>_. True)"
  by unfold_locales (simp add: map_fetcher_def fetch_spec_def)

definition short_json :: "gmap \<Rightarrow> bool" where
  "short_json m \<longleftrightarrow> (case mapJSON m of Inr j \<Rightarrow> length j < 300 | Inl _ \<Rightarrow> False)"

lemma short_jsonE:
  assumes "short_json m"
  obtains j where "mapJSON m = Inr j" and "length j \<le> MaxSchemaBlobSize"
  using assms that by (auto simp: short_json_def MaxSchemaBlobSize_def split: sum.splits)

theorem directory_read_back_witness:
  "\<exists>fetch dr w1 e. de_FileName e = ''a'' \<and> NewDirReader fetch (fst (Parse ''foo-aa'')) () = Ret (Inr dr, w1) \<and>
    (\<exists>s. readdirs fetch [1, 0] dr w1 = Ret ([Inr [e], Inr [e]], s))"
proof -
  let ?d = "fst (Parse ''foo-aa'')" let ?s = "fst (Parse ''foo-bb'')" let ?f = "fst (Parse ''foo-cc'')"
  let ?fm = "[(''camliVersion'', VInt 1), (''camliType'', VStr ''file''), (''fileName'', VStr ''a'')]"
  let ?dm = "[(''camliVersion'', VInt 1), (''camliType'', VStr ''directory'')]"
  have wf: "ref_wf ?d" "ref_wf ?s" "ref_wf ?f" and ne: "?s \<noteq> ?d" "?f \<noteq> ?d" "?f \<noteq> ?s" by code_simp+
  have fm: "NewFileMap ''a'' = Ret ?fm" and dm: "NewDirMap [] = Ret ?dm" by code_simp+
  have pp: "populateParts ?fm 0 [] = Inr (?fm @ [(''parts'', VMaps [])])" by code_simp
  have short: "short_json (?fm @ [(''parts'', VMaps [])])" "short_json (set_map [?f])" "short_json (PopulateDirectoryMap ?s ?dm)" by code_simp+
  obtain fj where fj: "mapJSON (?fm @ [(''parts'', VMaps [])]) = Inr fj" "length fj \<le> MaxSchemaBlobSize" by (rule short_jsonE [OF short(1)])
  obtain sj where sj: "mapJSON (set_map [?f]) = Inr sj" "length sj \<le> MaxSchemaBlobSize" by (rule short_jsonE [OF short(2)])
  obtain dj where dj: "mapJSON (PopulateDirectoryMap ?s ?dm) = Inr dj" "length dj \<le> MaxSchemaBlobSize" by (rule short_jsonE [OF short(3)])
  define M where "M = [(?d, dj), (?s, sj), (?f, fj)]"
  have M: "map_of M ?d = Some dj" "map_of M ?s = Some sj" "map_of M ?f = Some fj" using ne by (simp_all add: M_def)
  obtain nm where nm: "?fm = byte_map ''file'' nm" "schema_at (map_of M) ?f ((byte_superset ''file'' nm [])\<lparr>ss_BlobRef := ?f\<rparr>)"
    using file_schema_at [where C = "map_of M", OF fm _ pp fj M(3) ref_wf_Valid [OF wf(3)]] by auto
  let ?e = "\<lparr>de_ss = (byte_superset ''file'' nm [])\<lparr>ss_BlobRef := ?f\<rparr>, de_fr = None, de_dr = None\<rparr>"
  have "nm = Some (Inl ''a'')" using nm(1) by (cases nm rule: name_members.cases) (simp_all add: byte_map_def)
  then have a: "de_FileName ?e = ''a''" and ty: "de_CamliType ?e = ''file''"
    by (simp_all add: de_FileName_def de_CamliType_def FileNameString_def byte_superset_def zeroSuperset_def)
  have e: "list_all2 (entry_at (map_of M)) [?f] [?e]"
    using nm(2) ty ref_wf_Valid [OF wf(3)] by (simp add: entry_at_def entry_types_def de_BlobRef_def)
  obtain db where db: "Builder_Blob (PopulateDirectoryMap ?s ?dm) = Ret db" "sb_str db = dj" using directory_blob(1) [OF dm wf(2) dj] by blast
  have refs: "list_all ref_wf [?f]" using wf by simp
  obtain sb where sb: "StaticSet_Blob [?f] = Ret sb" "sb_str sb = sj" using static_set_blob(1) [OF refs sj] by simp
  have "\<exists>dr w1. NewDirReader (map_fetcher M) ?d () = Ret (Inr dr, w1) \<and>
      (\<forall>ns. \<exists>s. readdirs (map_fetcher M) ns dr w1 = Ret (map (\<lambda>n. Inr (readdir_spec [?e] n)) ns, s))"
    by (rule directory_read_back [OF map_fetcher_fetches TrueI refs sb(1) _ wf(2) _ dm db(1) _ ref_wf_Valid [OF wf(1)] _ e])
      (simp_all add: sb db M sj dj)
  then obtain dr w1 where "NewDirReader (map_fetcher M) ?d () = Ret (Inr dr, w1)"
    "\<exists>s. readdirs (map_fetcher M) [1, 0] dr w1 = Ret (map (\<lambda>n. Inr (readdir_spec [?e] n)) [1, 0], s)" by blast
  then show ?thesis using a by (intro exI [of _ "map_fetcher M"] exI [of _ dr] exI [of _ w1] exI [of _ ?e]) (simp add: readdir_spec_def)
qed

section \<open>A surprise\<close>

text \<open>
  A member that is not a valid reference makes the first reading of a set fail, but the members before it stay in the reader: the next reading
  succeeds and returns them as if they were all.
\<close>

lemma failed_set_is_cut_short:
  assumes "ref_Valid (ss_Entries ss)" and "fetch (ss_Entries ss) w = Ret ((Some (bytes_reader j), n, None), w')"
    and "parseSuperset (bytes_reader j) = Inr sset" and "ss_Type sset = ''static-set''" and "ss_Members sset = [r, zeroRef, r']" and "ref_Valid r"
  shows "\<exists>e dr. StaticSet fetch \<lparr>dr_ss = ss, dr_staticSet = [], dr_current = 0\<rparr> w = Ret (Inl e, dr, w') \<and>
    StaticSet fetch dr w' = Ret (Inr [r], dr, w')"
  using assms by (simp add: StaticSet_def)

end
