(* ===== verification/Gc.thy ===== *)
theory Gc
  imports Prelude
begin

text \<open>
  Package \<open>pkg/gc\<close>: a generic collector that marks what can be reached from the roots and deletes what is not marked.  The world, the
  marker, the enumerators and the deleter are interfaces, here functions over a state of any type.  A collection over a lawful world is
  shown to end and to delete exactly the items that no root reaches; after an error in the sweep it may never end.
\<close>

section \<open>The interfaces\<close>

record 'w World =
  wd_Stop :: "'w \<Rightarrow> goerr option \<times> 'w"
  wd_Start :: "'w \<Rightarrow> goerr option \<times> 'w"

record ('a, 'w) Marker =
  mk_Mark :: "'a \<Rightarrow> 'w \<Rightarrow> goerr option \<times> 'w"
  mk_IsMarked :: "'a \<Rightarrow> 'w \<Rightarrow> (goerr + bool) \<times> 'w"

text \<open>An enumeration: whether the context is cancelled already, the items that are sent in turn, and the error at the end.\<close>

type_synonym ('a, 'w) Enumerator = "bool \<Rightarrow> 'w \<Rightarrow> ('a list \<times> goerr option) \<times> 'w"

record ('a, 'w) Collector =
  c_World :: "'w World option"
  c_Marker :: "('a, 'w) Marker option"
  c_Roots :: "('a, 'w) Enumerator option"
  c_Sweeper :: "('a, 'w) Enumerator option"
  c_ItemEnumerator :: "('a \<Rightarrow> ('a, 'w) Enumerator) option"
  c_Deleter :: "('a \<Rightarrow> 'w \<Rightarrow> goerr option \<times> 'w) option"

definition gc_buffered :: nat where
  "gc_buffered = 32"

section \<open>Marking\<close>

text \<open>
  The goroutine that takes items from a channel, until one fails: the error and the items it did not take.  The enumerator has sent its items
  by then, or is blocked on the full channel.
\<close>

fun consume :: "('a \<Rightarrow> 's \<Rightarrow> (goerr option \<times> 's) outcome) \<Rightarrow> 'a list \<Rightarrow> 's \<Rightarrow> ((goerr option \<times> 'a list) \<times> 's) outcome" where
  "consume f [] s = Ret ((None, []), s)"
| "consume f (x # xs) s =
     obind (f x s) (\<lambda>(err, s). case err of Some e \<Rightarrow> Ret ((Some e, xs), s) | None \<Rightarrow> consume f xs s)"

text \<open>
  \<open>grp.Err()\<close> waits for both goroutines.  A consumer that gave up leaves the enumerator blocked if more items are left than the channel
  holds, unless the context is cancelled.  The error of the consumer is the one that is returned when both fail.
\<close>

definition group_Err :: "bool \<Rightarrow> goerr option \<Rightarrow> 'a list \<Rightarrow> goerr option \<Rightarrow> goerr option outcome" where
  "group_Err cancelled err left enumErr =
     (case err of
        Some e \<Rightarrow> if length left > gc_buffered \<and> \<not> cancelled then Hang else Ret (Some e)
      | None \<Rightarrow> Ret enumErr)"

text \<open>
  \<open>markItem\<close>, on the state and whether the context is cancelled.  The first argument bounds the depth of the recursion; with none left the code
  is still descending.
\<close>

fun markItem :: "nat \<Rightarrow> ('a, 'w) Marker \<Rightarrow> ('a \<Rightarrow> ('a, 'w) Enumerator) \<Rightarrow> bool \<Rightarrow> 'a \<Rightarrow> bool \<times> 'w \<Rightarrow> (goerr option \<times> bool \<times> 'w) outcome" where
  "markItem 0 mk en isRoot it s = Hang"
| "markItem (Suc depth) mk en isRoot it (cancelled, w) =
     (let (marked, w) = (if isRoot then (Inr False, w) else mk_IsMarked mk it w)
      in case marked of
           Inl e \<Rightarrow> Ret (Some e, cancelled, w)
         | Inr True \<Rightarrow> Ret (None, cancelled, w)
         | Inr False \<Rightarrow>
             (let (err, w) = mk_Mark mk it w
              in case err of
                   Some e \<Rightarrow> Ret (Some e, cancelled, w)
                 | None \<Rightarrow>
                     (let ((items, enumErr), w) = en it cancelled w
                      in obind (consume (markItem depth mk en False) items (cancelled, w)) (\<lambda>((err, left), cancelled, w).
                           obind (group_Err cancelled err left enumErr) (\<lambda>err. Ret (err, cancelled \<or> err \<noteq> None, w))))))"

section \<open>Collecting\<close>

text \<open>The mark phase cancels its context when the marking goroutine ends, the sweep phase only asks for the channel of its context.\<close>

definition mark_phase ::
  "nat \<Rightarrow> ('a, 'w) Marker \<Rightarrow> ('a \<Rightarrow> ('a, 'w) Enumerator) \<Rightarrow> ('a, 'w) Enumerator \<Rightarrow> bool \<Rightarrow> 'w \<Rightarrow> (goerr option \<times> 'w) outcome" where
  "mark_phase depth mk en roots cancelled w =
     (let ((items, enumErr), w) = roots cancelled w
      in obind (consume (markItem depth mk en True) items (cancelled, w)) (\<lambda>((err, left), _, w).
           obind (group_Err True err left enumErr) (\<lambda>err. Ret (err, w))))"

definition sweep_item :: "('a, 'w) Marker \<Rightarrow> ('a \<Rightarrow> 'w \<Rightarrow> goerr option \<times> 'w) \<Rightarrow> 'a \<Rightarrow> 'w \<Rightarrow> (goerr option \<times> 'w) outcome" where
  "sweep_item mk del it w =
     (let (marked, w) = mk_IsMarked mk it w
      in case marked of
           Inl e \<Rightarrow> Ret (Some e, w)
         | Inr True \<Rightarrow> Ret (None, w)
         | Inr False \<Rightarrow> Ret (del it w))"

definition sweep_phase ::
  "('a, 'w) Marker \<Rightarrow> ('a, 'w) Enumerator \<Rightarrow> ('a \<Rightarrow> 'w \<Rightarrow> goerr option \<times> 'w) \<Rightarrow> bool \<Rightarrow> 'w \<Rightarrow> (goerr option \<times> 'w) outcome" where
  "sweep_phase mk sweeper del cancelled w =
     (let ((items, enumErr), w) = sweeper cancelled w
      in obind (consume (sweep_item mk del) items w) (\<lambda>((err, left), w).
           obind (group_Err cancelled err left enumErr) (\<lambda>err. Ret (err, w))))"

definition Collect :: "nat \<Rightarrow> ('a, 'w) Collector \<Rightarrow> bool \<Rightarrow> 'w \<Rightarrow> (goerr option \<times> 'w) outcome" where
  "Collect depth c cancelled w =
     (case c_World c of None \<Rightarrow> Ret (Some (ErrText ''no World''), w) | Some world \<Rightarrow>
      (case c_Marker c of None \<Rightarrow> Ret (Some (ErrText ''no Marker''), w) | Some mk \<Rightarrow>
      (case c_Roots c of None \<Rightarrow> Ret (Some (ErrText ''no Roots''), w) | Some roots \<Rightarrow>
      (case c_Sweeper c of None \<Rightarrow> Ret (Some (ErrText ''no Sweeper''), w) | Some sweeper \<Rightarrow>
      (case c_ItemEnumerator c of None \<Rightarrow> Ret (Some (ErrText ''no ItemEnumerator''), w) | Some en \<Rightarrow>
      (case c_Deleter c of None \<Rightarrow> Ret (Some (ErrText ''no Deleter''), w) | Some del \<Rightarrow>
        (case wd_Stop world w of
           (Some e, w) \<Rightarrow> Ret (Some e, w)
         | (None, w) \<Rightarrow>
             obind (obind (mark_phase depth mk en roots cancelled w) (\<lambda>(err, w).
                 if err \<noteq> None then Ret (Some (ErrText ''Mark failure''), w)
                 else obind (sweep_phase mk sweeper del cancelled w) (\<lambda>(err, w).
                   Ret (if err \<noteq> None then Some (ErrText ''Sweep failure'') else None, w)))) (\<lambda>(err, w).
               let (startErr, w) = wd_Start world w
               in Ret (if err = None then startErr else err, w)))))))))"


section \<open>A lawful world\<close>

text \<open>
  What the collector relies on, with the marks and the items of a state: marking and deleting do what they say, the enumerators send the
  edges, roots and items that there are, and nothing fails.
\<close>

definition lawful_marker :: "('a, 'w) Marker \<Rightarrow> ('w \<Rightarrow> 'a set) \<Rightarrow> ('w \<Rightarrow> 'a set) \<Rightarrow> bool" where
  "lawful_marker mk marked items \<longleftrightarrow>
     (\<forall>it w. \<exists>w'. mk_Mark mk it w = (None, w') \<and> marked w' = insert it (marked w) \<and> items w' = items w) \<and>
     (\<forall>it w. \<exists>w'. mk_IsMarked mk it w = (Inr (it \<in> marked w), w') \<and> marked w' = marked w \<and> items w' = items w)"

definition sends :: "('a, 'w) Enumerator \<Rightarrow> ('w \<Rightarrow> 'a list \<Rightarrow> bool) \<Rightarrow> ('w \<Rightarrow> 'a set) \<Rightarrow> ('w \<Rightarrow> 'a set) \<Rightarrow> bool" where
  "sends en P marked items \<longleftrightarrow>
     (\<forall>w. \<exists>xs w'. en False w = ((xs, None), w') \<and> P w xs \<and> marked w' = marked w \<and> items w' = items w)"

definition lawful :: "('a, 'w) Collector \<Rightarrow> ('a \<Rightarrow> 'a list) \<Rightarrow> 'a list \<Rightarrow> ('w \<Rightarrow> 'a set) \<Rightarrow> ('w \<Rightarrow> 'a set) \<Rightarrow> bool" where
  "lawful c edges rts marked items \<longleftrightarrow>
     (\<exists>world mk roots sweeper en del.
       c = \<lparr>c_World = Some world, c_Marker = Some mk, c_Roots = Some roots, c_Sweeper = Some sweeper,
            c_ItemEnumerator = Some en, c_Deleter = Some del\<rparr> \<and>
       (\<forall>w. \<exists>w'. wd_Stop world w = (None, w') \<and> marked w' = marked w \<and> items w' = items w) \<and>
       (\<forall>w. \<exists>w'. wd_Start world w = (None, w') \<and> marked w' = marked w \<and> items w' = items w) \<and>
       lawful_marker mk marked items \<and>
       sends roots (\<lambda>_ xs. xs = rts) marked items \<and>
       sends sweeper (\<lambda>w xs. set xs = items w) marked items \<and>
       (\<forall>it. sends (en it) (\<lambda>_ xs. xs = edges it) marked items) \<and>
       (\<forall>it w. \<exists>w'. del it w = (None, w') \<and> marked w' = marked w \<and> items w' = items w - {it}))"

inductive_set reach :: "('a \<Rightarrow> 'a list) \<Rightarrow> 'a list \<Rightarrow> 'a set" for edges rts where
  root: "r \<in> set rts \<Longrightarrow> r \<in> reach edges rts"
| edge: "x \<in> reach edges rts \<Longrightarrow> y \<in> set (edges x) \<Longrightarrow> y \<in> reach edges rts"

section \<open>Marking marks what is reached\<close>

text \<open>What a call adds to the marks is closed under the edges when it returns.\<close>

definition grows :: "('a \<Rightarrow> 'a list) \<Rightarrow> 'a set \<Rightarrow> 'a set \<Rightarrow> bool" where
  "grows edges M M' \<longleftrightarrow> M \<subseteq> M' \<and> (\<forall>x \<in> M' - M. set (edges x) \<subseteq> M')"

lemma grows_refl: "grows edges M M"
  by (simp add: grows_def)

lemma grows_trans: "grows edges M M1 \<Longrightarrow> grows edges M1 M2 \<Longrightarrow> grows edges M M2"
  by (fastforce simp: grows_def)

lemma grows_insert: "grows edges (insert x M) M' \<Longrightarrow> set (edges x) \<subseteq> M' \<Longrightarrow> grows edges M M'"
  by (auto simp: grows_def)

lemma card_unmarked_mono: "finite U \<Longrightarrow> M \<subseteq> M' \<Longrightarrow> card (U - M') \<le> card (U - M)"
  by (intro card_mono) auto

definition marks :: "('a \<Rightarrow> 'a list) \<Rightarrow> 'a set \<Rightarrow> ('w \<Rightarrow> 'a set) \<Rightarrow> ('w \<Rightarrow> 'a set) \<Rightarrow> 'a set \<Rightarrow> 'w \<Rightarrow> 'w \<Rightarrow> bool" where
  "marks edges U marked items X w w' \<longleftrightarrow>
     grows edges (marked w) (marked w') \<and> X \<subseteq> marked w' \<and> marked w' \<subseteq> marked w \<union> U \<and> items w' = items w"

lemma marks_trans:
  "marks edges U marked items X w w1 \<Longrightarrow> marks edges U marked items Y w1 w2 \<Longrightarrow> marks edges U marked items (X \<union> Y) w w2"
  using grows_trans [of edges "marked w" "marked w1" "marked w2"] by (auto simp: marks_def grows_def)

lemma consume_marks:
  assumes "\<And>x w. x \<in> set xs \<Longrightarrow> card (U - marked w) < n \<Longrightarrow>
      \<exists>w'. f x (False, w) = Ret (None, False, w') \<and> marks edges U marked items (X x) w w'"
    and "finite U" and "card (U - marked w) < n"
  shows "\<exists>w'. consume f xs (False, w) = Ret ((None, []), False, w') \<and> marks edges U marked items (\<Union> (X ` set xs)) w w'"
  using assms(1,3)
proof (induction xs arbitrary: w)
  case Nil
  then show ?case by (simp add: marks_def grows_refl)
next
  case (Cons x xs)
  obtain w1 where w1: "f x (False, w) = Ret (None, False, w1)" "marks edges U marked items (X x) w w1" using Cons.prems by force
  have "marked w \<subseteq> marked w1" using w1(2) by (simp add: marks_def grows_def)
  then have "card (U - marked w1) < n" using card_unmarked_mono [OF assms(2), of "marked w" "marked w1"] Cons.prems(2) by linarith
  then obtain w2 where w2: "consume f xs (False, w1) = Ret ((None, []), False, w2)" "marks edges U marked items (\<Union> (X ` set xs)) w1 w2"
    using Cons.IH [of w1] Cons.prems(1) by force
  show ?case using w1(1) w2(1) marks_trans [OF w1(2) w2(2)] by auto
qed

text \<open>The body of \<open>markItem\<close> after the mark is set, for a depth that is enough for the children.\<close>

lemma markItem_marks:
  assumes "lawful_marker mk marked items" and "\<forall>it. sends (en it) (\<lambda>_ xs. xs = edges it) marked items"
    and U: "finite U" "\<forall>x \<in> U. set (edges x) \<subseteq> U"
  shows "it \<in> U \<Longrightarrow> card (U - marked w) + (if isRoot then 1 else 0) < depth \<Longrightarrow>
    \<exists>w'. markItem depth mk en isRoot it (False, w) = Ret (None, False, w') \<and>
      marks edges U marked items (insert it (if isRoot then set (edges it) else {})) w w'"
proof (induction depth arbitrary: it isRoot w)
  case (Suc depth)
  obtain m w1 where w1: "(if isRoot then (Inr False, w) else mk_IsMarked mk it w) = (Inr m, w1)" "m \<longleftrightarrow> \<not> isRoot \<and> it \<in> marked w"
    "marked w1 = marked w" "items w1 = items w"
  proof (cases isRoot)
    case False
    obtain w' where "mk_IsMarked mk it w = (Inr (it \<in> marked w), w')" "marked w' = marked w" "items w' = items w"
      using assms(1) unfolding lawful_marker_def by blast
    then show ?thesis using False by (intro that [of "it \<in> marked w" w']) simp_all
  next
    case True
    then show ?thesis by (intro that [of False w]) simp_all
  qed
  show ?case
  proof (cases m)
    case True
    then show ?thesis using w1 by (auto simp: marks_def grows_refl)
  next
    case False
    obtain w2 where w2: "mk_Mark mk it w1 = (None, w2)" "marked w2 = insert it (marked w)" "items w2 = items w"
      using assms(1) w1(3,4) unfolding lawful_marker_def by metis
    obtain w3 where w3: "en it False w2 = ((edges it, None), w3)" "marked w3 = insert it (marked w)" "items w3 = items w"
      using assms(2) w2(2,3) unfolding sends_def by metis
    have "card (U - marked w3) < depth"
    proof (cases "it \<in> marked w")
      case True
      then show ?thesis using False w1(2) Suc.prems(2) w3(2) by (simp add: insert_absorb)
    next
      case out: False
      then have "U - marked w3 = U - marked w - {it}" using w3(2) by auto
      moreover have "card (U - marked w - {it}) < card (U - marked w)" using out Suc.prems(1) U(1) by (intro psubset_card_mono) auto
      ultimately show ?thesis using Suc.prems(2) by simp
    qed
    moreover have "\<exists>w'. markItem depth mk en False x (False, v) = Ret (None, False, w') \<and> marks edges U marked items {x} v w'"
      if "x \<in> set (edges it)" "card (U - marked v) < depth" for x v
      using Suc.IH [of x v False] that Suc.prems(1) U(2) by auto
    ultimately obtain w4 where w4: "consume (markItem depth mk en False) (edges it) (False, w3) = Ret ((None, []), False, w4)"
      "marks edges U marked items (\<Union> ((\<lambda>x. {x}) ` set (edges it))) w3 w4"
      using consume_marks [of "edges it" U marked depth "markItem depth mk en False" edges items "\<lambda>x. {x}" w3] U(1) by blast
    have "grows edges (marked w) (marked w4)" using w4(2) w3(2) grows_insert [of edges it "marked w" "marked w4"] by (auto simp: marks_def)
    moreover have "insert it (set (edges it)) \<subseteq> marked w4" using w4(2) w3(2) by (auto simp: marks_def grows_def)
    ultimately have "marks edges U marked items (insert it (if isRoot then set (edges it) else {})) w w4"
      using w4(2) w3(2,3) Suc.prems(1) by (auto simp: marks_def)
    then show ?thesis using w1(1) False w2(1) w3(1) w4(1) by (auto simp: group_Err_def simp del: split_paired_Ex)
  qed
qed simp


lemma reach_least: "(\<forall>r \<in> set rts. r \<in> M) \<Longrightarrow> (\<forall>x \<in> M. set (edges x) \<subseteq> M) \<Longrightarrow> reach edges rts \<subseteq> M"
proof
  fix x assume M: "\<forall>r \<in> set rts. r \<in> M" "\<forall>x \<in> M. set (edges x) \<subseteq> M" and "x \<in> reach edges rts"
  from this(3) show "x \<in> M" by induction (use M in auto)
qed

lemma mark_phase_marks:
  assumes "lawful_marker mk marked items" and "\<forall>it. sends (en it) (\<lambda>_ xs. xs = edges it) marked items"
    and "sends roots (\<lambda>_ xs. xs = rts) marked items" and fin: "finite (reach edges rts)" and "marked w = {}"
    and "card (reach edges rts) + 1 < depth"
  shows "\<exists>w'. mark_phase depth mk en roots False w = Ret (None, w') \<and> marked w' = reach edges rts \<and> items w' = items w"
proof -
  let ?U = "reach edges rts"
  have closed: "\<forall>x \<in> ?U. set (edges x) \<subseteq> ?U" using reach.edge by fastforce
  obtain w1 where w1: "roots False w = ((rts, None), w1)" "marked w1 = {}" "items w1 = items w"
    using assms(3,5) unfolding sends_def by metis
  have "\<exists>w'. markItem depth mk en True x (False, v) = Ret (None, False, w') \<and> marks edges ?U marked items (insert x (set (edges x))) v w'"
    if "x \<in> set rts" "card (?U - marked v) < depth - 1" for x v
    using markItem_marks [OF assms(1,2) fin closed reach.root [OF that(1)], of v True depth] that(2) by simp
  moreover have "card (?U - marked w1) < depth - 1" using assms(6) w1(2) by simp
  ultimately obtain w2 where w2: "consume (markItem depth mk en True) rts (False, w1) = Ret ((None, []), False, w2)"
    "marks edges ?U marked items (\<Union> ((\<lambda>x. insert x (set (edges x))) ` set rts)) w1 w2"
    using consume_marks [of rts ?U marked "depth - 1" "markItem depth mk en True" edges items "\<lambda>x. insert x (set (edges x))" w1] fin by blast
  have "?U \<subseteq> marked w2" by (rule reach_least) (use w2(2) w1(2) in \<open>auto simp: marks_def grows_def\<close>)
  then have "marked w2 = ?U" using w2(2) w1(2) by (auto simp: marks_def)
  then show ?thesis using w1 w2 by (auto simp: mark_phase_def group_Err_def marks_def)
qed

lemma consume_sweep:
  assumes "lawful_marker mk marked items" and "\<forall>it w. \<exists>w'. del it w = (None, w') \<and> marked w' = marked w \<and> items w' = items w - {it}"
  shows "\<exists>w'. consume (sweep_item mk del) xs w = Ret ((None, []), w') \<and> marked w' = marked w \<and> items w' = items w - (set xs - marked w)"
proof (induction xs arbitrary: w)
  case (Cons x xs)
  obtain w1 where w1: "mk_IsMarked mk x w = (Inr (x \<in> marked w), w1)" "marked w1 = marked w" "items w1 = items w"
    using assms(1) unfolding lawful_marker_def by blast
  obtain w2 where w2: "sweep_item mk del x w = Ret (None, w2)" "marked w2 = marked w" "items w2 = items w - ({x} - marked w)"
  proof (cases "x \<in> marked w")
    case False
    obtain w2 where "del x w1 = (None, w2)" "marked w2 = marked w1" "items w2 = items w1 - {x}" using assms(2) by blast
    then show ?thesis using False w1 by (intro that [of w2]) (auto simp: sweep_item_def)
  qed (use w1 in \<open>auto simp: sweep_item_def intro!: that [of w1]\<close>)
  then show ?case using Cons.IH [of w2] by auto
qed simp

text \<open>
  C4 [gc].  A collection over a lawful world in which nothing is marked yet ends without an error, and of the items that there were exactly those are
  left that can be reached from the roots.  The recursion is no deeper than the number of items that are reached.
\<close>

theorem collection_keeps_the_reachable:
  assumes "lawful c edges rts marked items" and "marked w = {}" and "finite (reach edges rts)" and "card (reach edges rts) + 1 < depth"
  shows "\<exists>w'. Collect depth c False w = Ret (None, w') \<and> items w' = items w \<inter> reach edges rts"
proof -
  obtain world mk roots sweeper en del where c: "c = \<lparr>c_World = Some world, c_Marker = Some mk, c_Roots = Some roots, c_Sweeper = Some sweeper,
      c_ItemEnumerator = Some en, c_Deleter = Some del\<rparr>"
    and stop: "\<forall>w. \<exists>w'. wd_Stop world w = (None, w') \<and> marked w' = marked w \<and> items w' = items w"
    and start: "\<forall>w. \<exists>w'. wd_Start world w = (None, w') \<and> marked w' = marked w \<and> items w' = items w"
    and mk: "lawful_marker mk marked items" and roots: "sends roots (\<lambda>_ xs. xs = rts) marked items"
    and sweeper: "sends sweeper (\<lambda>w xs. set xs = items w) marked items" and en: "\<forall>it. sends (en it) (\<lambda>_ xs. xs = edges it) marked items"
    and del: "\<forall>it w. \<exists>w'. del it w = (None, w') \<and> marked w' = marked w \<and> items w' = items w - {it}"
    using assms(1) unfolding lawful_def by (elim exE conjE) (rule that; assumption)
  obtain w1 where w1: "wd_Stop world w = (None, w1)" "marked w1 = {}" "items w1 = items w" using stop assms(2) by metis
  obtain w2 where w2: "mark_phase depth mk en roots False w1 = Ret (None, w2)" "marked w2 = reach edges rts" "items w2 = items w"
    using mark_phase_marks [OF mk en roots assms(3) w1(2) assms(4)] w1(3) by auto
  obtain xs w3 where w3: "sweeper False w2 = ((xs, None), w3)" "set xs = items w2" "marked w3 = marked w2" "items w3 = items w2"
    using sweeper unfolding sends_def by blast
  obtain w4 where w4: "consume (sweep_item mk del) xs w3 = Ret ((None, []), w4)" "items w4 = items w3 - (set xs - marked w3)"
    using consume_sweep [OF mk del] by blast
  obtain w5 where w5: "wd_Start world w4 = (None, w5)" "items w5 = items w4" using start by metis
  have "Collect depth c False w = Ret (None, w5)"
    using w1(1) w2(1) w3(1) w4(1) w5(1) by (simp add: Collect_def c sweep_phase_def group_Err_def)
  moreover have "items w5 = items w \<inter> reach edges rts" using w2 w3 w4 w5 by auto
  ultimately show ?thesis by blast
qed

text \<open>A world of numbers: the marks and the items.\<close>

definition set_world :: "(nat \<Rightarrow> nat list) \<Rightarrow> nat list \<Rightarrow> (nat, nat list \<times> nat list) Collector" where
  "set_world edges rts =
     \<lparr>c_World = Some \<lparr>wd_Stop = Pair None, wd_Start = Pair None\<rparr>,
      c_Marker = Some \<lparr>mk_Mark = \<lambda>x (m, a). (None, List.insert x m, a), mk_IsMarked = \<lambda>x (m, a). (Inr (x \<in> set m), m, a)\<rparr>,
      c_Roots = Some (\<lambda>_ w. ((rts, None), w)),
      c_Sweeper = Some (\<lambda>_ w. ((snd w, None), w)),
      c_ItemEnumerator = Some (\<lambda>it _ w. ((edges it, None), w)),
      c_Deleter = Some (\<lambda>x (m, a). (None, m, removeAll x a))\<rparr>"

lemma set_world_lawful: "lawful (set_world edges rts) edges rts (\<lambda>w. set (fst w)) (\<lambda>w. set (snd w))"
  unfolding lawful_def set_world_def
  by (intro exI conjI, rule refl) (auto simp: lawful_marker_def sends_def)

theorem collection_keeps_the_reachable_witness:
  "\<exists>w'. Collect 9 (set_world (\<lambda>n. if n = 0 then [1, 2] else if n = 2 then [0] else []) [0]) False ([], [0, 1, 2, 3, 4]) = Ret (None, w') \<and>
    set (snd w') = {0, 1, 2}"
proof -
  let ?e = "\<lambda>n. if n = 0 then [1, 2] else if n = (2::nat) then [0] else []"
  have sub: "reach ?e [0] \<subseteq> {0, 1, 2}" by (rule reach_least) auto
  have "0 \<in> reach ?e [0]" by (rule reach.root) simp
  then have "1 \<in> reach ?e [0]" "2 \<in> reach ?e [0]" by (auto intro: reach.edge [of 0])
  then have r: "reach ?e [0] = {0, 1, 2}" using sub \<open>0 \<in> reach ?e [0]\<close> by auto
  show ?thesis using collection_keeps_the_reachable [OF set_world_lawful, of "([], [0, 1, 2, 3, 4])" ?e "[0]" 9] by (auto simp: r)
qed

section \<open>A collection that does not end\<close>

text \<open>
  When a deletion fails in the sweep and more items are still to be sent than the channel holds, the enumerator is never told: the collection hangs
  with the world stopped.  The same holds for a mark that fails below an item with that many edges.
\<close>

lemma failed_sweep_hangs:
  assumes "sweeper False w = ((x # xs, None), w1)" and "mk_IsMarked mk x w1 = (Inr False, w2)" and "del x w2 = (Some e, w3)" and "gc_buffered < length xs"
  shows "sweep_phase mk sweeper del False w = Hang"
  using assms by (simp add: sweep_phase_def sweep_item_def group_Err_def)

lemma failed_mark_hangs:
  assumes "mk_Mark mk it w = (None, w1)" and "en it False w1 = ((x # xs, None), w2)" and "mk_IsMarked mk x w2 = (Inl e, w3)" and "gc_buffered < length xs"
  shows "markItem (Suc (Suc depth)) mk en True it (False, w) = Hang"
  using assms by (simp add: group_Err_def)

end
