(* ===== verification/Archiver.thy ===== *)
theory Archiver
  imports MemStorage
begin

text \<open>
  Package \<open>pkg/blobserver/archiver\<close>: packing the blobs of a storage into one zip archive that is handed to a function for long-term storage,
  after which the blobs may be deleted.  A run is shown to end, and to delete nothing but blobs whose contents are in an archive that
  was stored successfully.
\<close>

section \<open>The archive\<close>

text \<open>
  A zip writer is the list of the calls it was given.  The bytes that these have put into the buffer, compressed, are a function \<open>enc\<close> of
  that list; a writer to a memory buffer does not fail.
\<close>

datatype zip_op = ZipHeader string | ZipWrite bytes | ZipClose

record potentialZip =
  pz_blobs :: "SizedRef list"
  pz_zw :: "zip_op list option"
  pz_sumSize :: int
  pz_closed :: bool

record ('w, 's) Archiver =
  a_Source :: "'w Storage option"
  a_MinZipSize :: int
  a_Store :: "(bytes \<Rightarrow> SizedRef list \<Rightarrow> 's \<Rightarrow> goerr option \<times> 's) option"
  a_DeleteSourceAfterStore :: bool

definition DefaultMinZipSize :: int where
  "DefaultMinZipSize = 16 * 2 ^ 20"

definition ErrSourceTooSmall :: goerr where
  "ErrSourceTooSmall = ErrText ''archiver: not enough blob data on source to warrant a new zip archive''"

definition errStopEnumerate :: goerr where
  "errStopEnumerate = ErrText ''sentinel return value''"

definition zipSize :: "('w, 's) Archiver \<Rightarrow> int" where
  "zipSize a = (if a_MinZipSize a > 0 then a_MinZipSize a else DefaultMinZipSize)"

definition zip_buf :: "(zip_op list \<Rightarrow> bytes) \<Rightarrow> potentialZip \<Rightarrow> bytes" where
  "zip_buf enc z = (case pz_zw z of None \<Rightarrow> [] | Some ops \<Rightarrow> enc ops)"

definition bigEnough :: "(zip_op list \<Rightarrow> bytes) \<Rightarrow> int \<Rightarrow> potentialZip \<Rightarrow> bool" where
  "bigEnough enc zsize z \<longleftrightarrow> int (length (zip_buf enc z)) > zsize"

definition condClose :: "potentialZip \<Rightarrow> potentialZip" where
  "condClose z =
     (case pz_zw z of
        None \<Rightarrow> z
      | Some ops \<Rightarrow> if pz_closed z then z else z\<lparr>pz_closed := True, pz_zw := Some (ops @ [ZipClose])\<rparr>)"

definition writeZipBlob :: "'w Storage \<Rightarrow> SizedRef \<Rightarrow> zip_op list \<Rightarrow> 'w \<Rightarrow> (goerr option \<times> zip_op list \<times> 'w) outcome" where
  "writeZipBlob src sb ops w =
     (let ops = ops @ [ZipHeader (ref_String (sr_Ref sb))]
      in obind (sto_Fetch src (sr_Ref sb) w) (\<lambda>((blobSrc, _, err), w).
           case err of
             Some e \<Rightarrow> Ret (Some e, ops, w)
           | None \<Rightarrow>
               (case blobSrc of
                  None \<Rightarrow> Panic ''nil pointer dereference''
                | Some r \<Rightarrow> Ret (rd_err r, ops @ [ZipWrite (rd_data r)], w))))"

fun writeZipBlobs :: "'w Storage \<Rightarrow> SizedRef list \<Rightarrow> zip_op list \<Rightarrow> 'w \<Rightarrow> (goerr option \<times> zip_op list \<times> 'w) outcome" where
  "writeZipBlobs src [] ops w = Ret (None, ops, w)"
| "writeZipBlobs src (sb # sbs) ops w =
     obind (writeZipBlob src sb ops w) (\<lambda>(err, ops, w).
       case err of Some e \<Rightarrow> Ret (Some e, ops, w) | None \<Rightarrow> writeZipBlobs src sbs ops w)"

definition addBlob ::
  "(zip_op list \<Rightarrow> bytes) \<Rightarrow> int \<Rightarrow> 'w Storage \<Rightarrow> SizedRef \<Rightarrow> potentialZip \<Rightarrow> 'w \<Rightarrow> (goerr option \<times> potentialZip \<times> 'w) outcome" where
  "addBlob enc zsize src sb z w =
     (if bigEnough enc zsize z then Ret (None, z, w)
      else
        let z = z\<lparr>pz_sumSize := pz_sumSize z + uint (sr_Size sb)\<rparr>
        in obind (case pz_zw z of
              Some ops \<Rightarrow> Ret (None, Some ops, w)
            | None \<Rightarrow>
                if pz_sumSize z > zsize
                then obind (writeZipBlobs src (pz_blobs z) [] w) (\<lambda>(err, ops, w). Ret (err, Some ops, w))
                else Ret (None, None, w)) (\<lambda>(err, zw, w).
             case err of
               Some e \<Rightarrow> Ret (Some e, z\<lparr>pz_zw := zw\<rparr>, w)
             | None \<Rightarrow>
                 (let z = z\<lparr>pz_zw := zw, pz_blobs := pz_blobs z @ [sb]\<rparr>
                  in case zw of
                       None \<Rightarrow> Ret (None, z, w)
                     | Some ops \<Rightarrow> obind (writeZipBlob src sb ops w) (\<lambda>(err, ops, w). Ret (err, z\<lparr>pz_zw := Some ops\<rparr>, w)))))"

section \<open>A run\<close>

text \<open>
  The callback of the enumeration.  It changes the archive and reads the storage; a panic or a call that does not come back ends the
  program or the enumeration, as the state says.
\<close>

definition visit ::
  "(zip_op list \<Rightarrow> bytes) \<Rightarrow> int \<Rightarrow> 'w Storage \<Rightarrow> SizedRef \<Rightarrow> (potentialZip \<times> 'w) outcome \<Rightarrow> goerr option \<times> (potentialZip \<times> 'w) outcome" where
  "visit enc zsize src sb s =
     (case obind s (\<lambda>(z, w). addBlob enc zsize src sb z w) of
        Panic m \<Rightarrow> (Some errStopEnumerate, Panic m)
      | Hang \<Rightarrow> (Some errStopEnumerate, Hang)
      | Ret (err, z, w) \<Rightarrow>
          (case err of
             Some e \<Rightarrow> (Some e, Ret (z, w))
           | None \<Rightarrow> (if bigEnough enc zsize z then Some errStopEnumerate else None, Ret (z, w))))"

definition enum_source :: "'w Storage \<Rightarrow> ctx \<Rightarrow> string \<Rightarrow> int \<Rightarrow> (potentialZip \<times> 'w) outcome \<Rightarrow> (SizedRef list \<times> goerr option) outcome" where
  "enum_source src ctx after limit s = obind s (\<lambda>(z, w). sto_EnumerateBlobs src ctx after limit w)"

definition emptyZip :: potentialZip where
  "emptyZip = \<lparr>pz_blobs = [], pz_zw = None, pz_sumSize = 0, pz_closed = False\<rparr>"

text \<open>What follows the enumeration: closing, storing and deleting.\<close>

definition finishZip ::
  "(zip_op list \<Rightarrow> bytes) \<Rightarrow> ('w, 's) Archiver \<Rightarrow> 'w Storage \<Rightarrow> (bytes \<Rightarrow> SizedRef list \<Rightarrow> 's \<Rightarrow> goerr option \<times> 's)
    \<Rightarrow> potentialZip \<Rightarrow> 'w \<Rightarrow> 's \<Rightarrow> (goerr option \<times> 'w \<times> 's) outcome" where
  "finishZip enc a src store z w x =
     (let z = condClose z
      in if \<not> bigEnough enc (zipSize a) z then Ret (Some ErrSourceTooSmall, w, x)
         else
           let (err, x) = store (zip_buf enc z) (pz_blobs z) x
           in case err of
                Some e \<Rightarrow> Ret (Some e, w, x)
              | None \<Rightarrow>
                  if a_DeleteSourceAfterStore a
                  then obind (sto_RemoveBlobs src (map sr_Ref (pz_blobs z)) w) (\<lambda>(err, w). Ret (err, w, x))
                  else Ret (None, w, x))"

text \<open>
  \<open>RunOnce\<close>; \<open>fuel\<close> and \<open>seen\<close> are those of \<open>EnumerateAll\<close>, \<open>None\<close> means that the fuel was used up.
\<close>

definition RunOnce ::
  "(zip_op list \<Rightarrow> bytes) \<Rightarrow> nat \<Rightarrow> nat \<Rightarrow> ('w, 's) Archiver \<Rightarrow> 'w \<Rightarrow> 's \<Rightarrow> (goerr option \<times> 'w \<times> 's) outcome option" where
  "RunOnce enc fuel seen a w x =
     (case a_Source a of
        None \<Rightarrow> Some (Ret (Some (ErrText ''archiver: nil Source''), w, x))
      | Some src \<Rightarrow>
          (case a_Store a of
             None \<Rightarrow> Some (Ret (Some (ErrText ''archiver: nil Store func''), w, x))
           | Some store \<Rightarrow>
               map_option (\<lambda>r.
                 obind r (\<lambda>(err, s). obind s (\<lambda>(z, w).
                   case err of
                     Some e \<Rightarrow> if e = errStopEnumerate then finishZip enc a src store z w x else Ret (Some e, w, x)
                   | None \<Rightarrow> finishZip enc a src store z w x)))
                 (EnumerateAll fuel seen (enum_source src) None (visit enc (zipSize a) src) (Ret (emptyZip, w)))))"

section \<open>An enumeration that may stop early\<close>

lemma ea_consume_inv:
  assumes "\<And>sb s. sb \<in> set sbs \<Longrightarrow> J s \<Longrightarrow> J (snd (fn sb s)) \<and> (fst (fn sb s) = None \<or> fst (fn sb s) = Some stop)" and "J s"
    and "ea_consume fn sbs after k s = (err, after', k', s')"
  shows "J s' \<and> (err = None \<or> err = Some stop) \<and>
    (err = None \<longrightarrow> after' = (if sbs = [] then after else ref_String (sr_Ref (last sbs))) \<and> k' = k + length sbs)"
  using assms
proof (induction sbs arbitrary: after k s)
  case (Cons sb sbs)
  obtain e s1 where f: "fn sb s = (e, s1)" by fastforce
  then have s1: "J s1" "e = None \<or> e = Some stop" using Cons.prems(1) [of sb s] Cons.prems(2) by simp_all
  show ?case
  proof (cases e)
    case None
    then have "ea_consume fn sbs (ref_String (sr_Ref sb)) (k + 1) s1 = (err, after', k', s')" using Cons.prems(3) f by simp
    from Cons.IH [OF _ s1(1) this] Cons.prems(1) show ?thesis by simp
  next
    case (Some e')
    then show ?thesis using Cons.prems(3) f s1 by auto
  qed
qed simp

text \<open>
  Over a map that does not change, an enumeration with a callback that keeps an invariant and returns no error but \<open>stop\<close> ends.
\<close>

lemma EnumerateAllFrom_stops:
  assumes "blobs_ok m"
    and fn: "\<And>sb s. J s \<Longrightarrow> (\<exists>b. m (sr_Ref sb) = Some b \<and> sb = sized (sr_Ref sb) b) \<Longrightarrow>
      J (snd (fn sb s)) \<and> (fst (fn sb s) = None \<or> fst (fn sb s) = Some stop)"
    and src: "\<And>after s. J s \<Longrightarrow> src c after 1000 s = Ret (enum_spec m after 1000, None)"
    and "J s" and "card (refs_after m after) < fuel"
  shows "\<exists>err s'. EnumerateAllFrom fuel seen src c after fn s = Some (Ret (err, s')) \<and> J s' \<and> (err = None \<or> err = Some stop)"
  using assms(4,5)
proof (induction fuel arbitrary: after s)
  case (Suc fuel)
  define L where "L = sorted_list_of_set (refs_after m after)"
  define sbs where "sbs = map (\<lambda>br. sized br (the (m br))) (take 1000 L)"
  have len: "card (refs_after m after) = length L" by (simp add: L_def)
  have s: "src c after 1000 s = Ret (sbs, None)" using src [OF Suc.prems(1)] by (simp add: enum_spec_def L_def sbs_def)
  have "\<exists>b. m (sr_Ref sb) = Some b \<and> sb = sized (sr_Ref sb) b" if "sb \<in> set sbs" for sb
    using that finite_refs_after [OF assms(1), of after]
    by (auto simp: sbs_def L_def sized_def refs_after_def dest!: in_set_takeD)
  then have step: "J (snd (fn sb s)) \<and> (fst (fn sb s) = None \<or> fst (fn sb s) = Some stop)" if "sb \<in> set sbs" "J s" for sb s using fn that by blast
  obtain err after' k' s' where e: "ea_consume fn sbs after 0 s = (err, after', k', s')" using prod_cases4 by blast
  note E = ea_consume_inv [where J = J, OF step Suc.prems(1) e]
  show ?case
  proof (cases "err = None \<and> L \<noteq> []")
    case True
    then have a: "after' = ref_String (last (take 1000 L))" "k' \<noteq> 0" using E by (auto simp: sbs_def last_map sized_def)
    have "sorted_list_of_set (refs_after m after') = drop 1000 L" unfolding a(1) using refs_after_batch [OF assms(1) _ L_def, of 1000] True by simp
    then have "card (refs_after m after') = length L - 1000" by (metis length_drop length_sorted_list_of_set)
    then have "card (refs_after m after') < fuel" using Suc.prems(2) len True by (cases L) auto
    then show ?thesis using Suc.IH [of s' after'] E s e a(2) True by (auto simp: ea_batchSize_def)
  next
    case False
    then show ?thesis using E s e by (auto simp: ea_batchSize_def sbs_def)
  qed
qed simp

section \<open>What is archived\<close>

definition archive_ops :: "blobmap \<Rightarrow> SizedRef list \<Rightarrow> zip_op list" where
  "archive_ops m sbs = concat (map (\<lambda>sb. [ZipHeader (ref_String (sr_Ref sb)), ZipWrite (the (m (sr_Ref sb)))]) sbs)"

text \<open>Once there is a writer, it was given every blob so far under its name.\<close>

definition zip_inv :: "blobmap \<Rightarrow> potentialZip \<Rightarrow> bool" where
  "zip_inv m z \<longleftrightarrow>
     \<not> pz_closed z \<and> (\<forall>sb \<in> set (pz_blobs z). \<exists>b. m (sr_Ref sb) = Some b \<and> sb = sized (sr_Ref sb) b) \<and>
     (\<forall>ops. pz_zw z = Some ops \<longrightarrow> ops = archive_ops m (pz_blobs z))"

lemma archive_ops_append [simp]: "archive_ops m (xs @ ys) = archive_ops m xs @ archive_ops m ys"
  by (simp add: archive_ops_def)

context stores
begin

lemma writeZipBlob_ok:
  assumes "I w" and "i < n" and "C w i (sr_Ref sb) = Some b"
  shows "\<exists>w'. writeZipBlob (sto i) sb ops w = Ret (None, ops @ archive_ops (C w i) [sb], w') \<and> I w' \<and> C w' = C w"
proof -
  obtain w' where "sto_Fetch (sto i) (sr_Ref sb) w = Ret (fetch_spec (C w i) (sr_Ref sb), w')" "I w'" "C w' = C w" using Fetch assms by blast
  then show ?thesis using assms(3) by (simp add: writeZipBlob_def fetch_spec_def archive_ops_def)
qed

lemma writeZipBlobs_ok:
  "I w \<Longrightarrow> i < n \<Longrightarrow> \<forall>sb \<in> set sbs. C w i (sr_Ref sb) \<noteq> None \<Longrightarrow>
   \<exists>w'. writeZipBlobs (sto i) sbs ops w = Ret (None, ops @ archive_ops (C w i) sbs, w') \<and> I w' \<and> C w' = C w"
proof (induction sbs arbitrary: ops w)
  case (Cons sb sbs)
  obtain b where "C w i (sr_Ref sb) = Some b" using Cons.prems(3) by auto
  then obtain w1 where w1: "writeZipBlob (sto i) sb ops w = Ret (None, ops @ archive_ops (C w i) [sb], w1)" "I w1" "C w1 = C w"
    using writeZipBlob_ok [OF Cons.prems(1,2)] by blast
  then show ?case using Cons.IH [of w1 "ops @ archive_ops (C w i) [sb]"] Cons.prems(2,3) by (auto simp: archive_ops_def)
qed (simp add: archive_ops_def)

lemma addBlob_ok:
  assumes "I w" and "i < n" and "zip_inv (C w i) z" and "C w i (sr_Ref sb) = Some b" and "sb = sized (sr_Ref sb) b"
  shows "\<exists>z' w'. addBlob enc zsize (sto i) sb z w = Ret (None, z', w') \<and> zip_inv (C w i) z' \<and> I w' \<and> C w' = C w"
proof (cases "bigEnough enc zsize z")
  case True
  then show ?thesis using assms by (auto simp: addBlob_def)
next
  case False
  let ?z = "z\<lparr>pz_sumSize := pz_sumSize z + uint (sr_Size sb)\<rparr>"
  let ?init = "case pz_zw ?z of Some ops \<Rightarrow> Ret (None, Some ops, w)
      | None \<Rightarrow> if pz_sumSize ?z > zsize then obind (writeZipBlobs (sto i) (pz_blobs ?z) [] w) (\<lambda>(err, ops, w). Ret (err, Some ops, w))
        else Ret (None, None, w)"
  have "\<forall>x \<in> set (pz_blobs z). C w i (sr_Ref x) \<noteq> None" using assms(3) by (fastforce simp: zip_inv_def)
  then obtain w0 where w0: "writeZipBlobs (sto i) (pz_blobs z) [] w = Ret (None, archive_ops (C w i) (pz_blobs z), w0)" "I w0" "C w0 = C w"
    using writeZipBlobs_ok [OF assms(1,2), of "pz_blobs z" "[]"] by auto
  obtain zw w1 where w1: "?init = Ret (None, zw, w1)" "zw = None \<or> zw = Some (archive_ops (C w i) (pz_blobs z))" "I w1" "C w1 = C w"
  proof (cases "pz_zw z")
    case None
    then show ?thesis using w0 assms(1) by (cases "pz_sumSize ?z > zsize") (simp_all add: that)
  next
    case (Some ops)
    then show ?thesis using assms(1,3) by (intro that [of "Some ops" w]) (simp_all add: zip_inv_def)
  qed
  obtain w2 where w2: "writeZipBlob (sto i) sb (archive_ops (C w i) (pz_blobs z)) w1 =
      Ret (None, archive_ops (C w i) (pz_blobs z) @ archive_ops (C w i) [sb], w2)" "I w2" "C w2 = C w"
    using writeZipBlob_ok [OF w1(3) assms(2)] assms(4) w1(4) by metis
  have all: "\<forall>x \<in> set (pz_blobs z @ [sb]). \<exists>b. C w i (sr_Ref x) = Some b \<and> x = sized (sr_Ref x) b"
    using assms(3-5) by (auto simp: zip_inv_def)
  show ?thesis
  proof (cases zw)
    case None
    then show ?thesis using False w1 all assms(3) unfolding addBlob_def Let_def by (simp add: zip_inv_def)
  next
    case (Some ops)
    then show ?thesis using False w1 w2 all assms(3) unfolding addBlob_def Let_def by (simp add: zip_inv_def)
  qed
qed

end


text \<open>The outcome of a run: an archive was stored, or nothing was changed at the source.\<close>

definition archived ::
  "(zip_op list \<Rightarrow> bytes) \<Rightarrow> int \<Rightarrow> (bytes \<Rightarrow> SizedRef list \<Rightarrow> 's \<Rightarrow> goerr option \<times> 's) \<Rightarrow> blobmap \<Rightarrow> SizedRef list \<Rightarrow> 's \<Rightarrow> goerr option \<Rightarrow> 's \<Rightarrow> bool" where
  "archived enc zsize store m sbs x err x' \<longleftrightarrow>
     (\<forall>sb \<in> set sbs. \<exists>b. m (sr_Ref sb) = Some b \<and> sb = sized (sr_Ref sb) b) \<and>
     zsize < int (length (enc (archive_ops m sbs @ [ZipClose]))) \<and>
     store (enc (archive_ops m sbs @ [ZipClose])) sbs x = (err, x')"

lemma zipSize_pos: "0 < zipSize a"
  by (simp add: zipSize_def DefaultMinZipSize_def)

lemma bigEnough_closed:
  assumes "zip_inv m z" and "bigEnough enc (zipSize a) (condClose z)"
  shows "zip_buf enc (condClose z) = enc (archive_ops m (pz_blobs z) @ [ZipClose])" "pz_blobs (condClose z) = pz_blobs z"
  using assms zipSize_pos [of a] by (auto simp: bigEnough_def condClose_def zip_buf_def zip_inv_def split: option.splits)

context stores
begin

definition run_state :: "'w \<Rightarrow> nat \<Rightarrow> (potentialZip \<times> 'w) outcome \<Rightarrow> bool" where
  "run_state w i s \<longleftrightarrow> (\<exists>z w'. s = Ret (z, w') \<and> I w' \<and> C w' = C w \<and> zip_inv (C w i) z)"

lemma visit_ok:
  assumes "i < n" and "run_state w i s" and "\<exists>b. C w i (sr_Ref sb) = Some b \<and> sb = sized (sr_Ref sb) b"
  shows "run_state w i (snd (visit enc zsize (sto i) sb s)) \<and>
    (fst (visit enc zsize (sto i) sb s) = None \<or> fst (visit enc zsize (sto i) sb s) = Some errStopEnumerate)"
proof -
  obtain z v where s: "s = Ret (z, v)" "I v" "C v = C w" "zip_inv (C w i) z" using assms(2) by (auto simp: run_state_def)
  obtain b where b: "C v i (sr_Ref sb) = Some b" "sb = sized (sr_Ref sb) b" using assms(3) s(3) by auto
  have inv: "zip_inv (C v i) z" using s(3,4) by simp
  obtain z' w' where "addBlob enc zsize (sto i) sb z v = Ret (None, z', w')" "zip_inv (C w i) z'" "I w'" "C w' = C w"
    using addBlob_ok [OF s(2) assms(1) inv b, of enc zsize] s(3) by auto
  then show ?thesis using s by (simp add: visit_def run_state_def)
qed

lemma finishZip_ok:
  assumes "I w" and "i < n" and "zip_inv (C w i) z"
  shows "\<exists>err w' x'. finishZip enc a (sto i) store z w x = Ret (err, w', x') \<and> I w' \<and>
    (err = Some ErrSourceTooSmall \<and> x' = x \<and> C w' = C w \<or>
     archived enc (zipSize a) store (C w i) (pz_blobs z) x err x' \<and>
     C w' = (if err = None \<and> a_DeleteSourceAfterStore a then (C w)(i := C w i |` (- sr_Ref ` set (pz_blobs z))) else C w))"
proof (cases "bigEnough enc (zipSize a) (condClose z)")
  case False
  then show ?thesis using assms(1) by (simp add: finishZip_def)
next
  case True
  note B = bigEnough_closed [OF assms(3) True]
  obtain err x' where st: "store (enc (archive_ops (C w i) (pz_blobs z) @ [ZipClose])) (pz_blobs z) x = (err, x')" by fastforce
  have arch: "archived enc (zipSize a) store (C w i) (pz_blobs z) x err x'"
    using st True B(1) assms(3) by (auto simp: archived_def bigEnough_def zip_inv_def)
  obtain w' where "sto_RemoveBlobs (sto i) (map sr_Ref (pz_blobs z)) w = Ret (None, w')" "I w'"
    "C w' = (C w)(i := C w i |` (- sr_Ref ` set (pz_blobs z)))" using RemoveBlobs [OF assms(1,2), of "map sr_Ref (pz_blobs z)"] by auto
  then show ?thesis using True B st arch assms(1) by (cases err) (auto simp: finishZip_def)
qed

lemma RunOnce_ok:
  assumes "I w" and "i < n" and "a_Source a = Some (sto i)" and "a_Store a = Some store" and "card (dom (C w i)) < fuel"
  shows "\<exists>err w' x'. RunOnce enc fuel seen a w x = Some (Ret (err, w', x')) \<and> I w' \<and>
    (err = Some ErrSourceTooSmall \<and> x' = x \<and> C w' = C w \<or>
     (\<exists>sbs. archived enc (zipSize a) store (C w i) sbs x err x' \<and>
       C w' = (if err = None \<and> a_DeleteSourceAfterStore a then (C w)(i := C w i |` (- sr_Ref ` set sbs)) else C w)))"
proof -
  let ?m = "C w i"
  have m: "blobs_ok ?m" using ok assms(1,2) by blast
  have "card (refs_after ?m []) \<le> card (dom ?m)" using refs_after_subset m by (intro card_mono) (auto simp: blobs_ok_def)
  then have fuel: "card (refs_after ?m []) < fuel" using assms(5) by linarith
  have src: "enum_source (sto i) None after 1000 s = Ret (enum_spec ?m after 1000, None)" if "run_state w i s" for after s
    using that EnumerateBlobs [OF _ assms(2), of _ 1000 after] by (auto simp: enum_source_def run_state_def)
  have "run_state w i (Ret (emptyZip, w))" using assms(1) by (simp add: run_state_def zip_inv_def emptyZip_def)
  from EnumerateAllFrom_stops [where J = "run_state w i" and fn = "visit enc (zipSize a) (sto i)" and src = "enum_source (sto i)" and c = None,
      OF m visit_ok [OF assms(2)] src this fuel]
  obtain e z w1 where run: "EnumerateAll fuel seen (enum_source (sto i)) None (visit enc (zipSize a) (sto i)) (Ret (emptyZip, w)) = Some (Ret (e, Ret (z, w1)))"
    "I w1" "C w1 = C w" "zip_inv ?m z" "e = None \<or> e = Some errStopEnumerate" unfolding run_state_def EnumerateAll_def by blast
  then have "RunOnce enc fuel seen a w x = Some (finishZip enc a (sto i) store z w1 x)" using assms(3,4) by (auto simp: RunOnce_def)
  moreover have z: "zip_inv (C w1 i) z" using run(3,4) by simp
  ultimately show ?thesis using finishZip_ok [OF run(2) assms(2) z, of enc a store x] run(3) by auto
qed

end

text \<open>
  C5 [archiver].  A run of the archiver over a memory storage ends.  Either there was too little to archive, and neither the storage nor the archives
  were touched; or one archive was handed over, which is larger than the minimum and holds, under the name of every listed blob, its contents.
  The blobs are deleted from the storage only if the archive was stored without an error, and no others are.
\<close>

theorem archiver_loses_nothing:
  assumes "mem_I w" and "a_Source a = Some (mem_at i)" and "a_Store a = Some store" and "card (dom (mem_C w i)) < fuel"
  shows "\<exists>err w' x'. RunOnce enc fuel seen a w x = Some (Ret (err, w', x')) \<and> mem_I w' \<and>
    (err = Some ErrSourceTooSmall \<and> x' = x \<and> mem_C w' = mem_C w \<or>
     (\<exists>sbs. archived enc (zipSize a) store (mem_C w i) sbs x err x' \<and>
       mem_C w' = (if err = None \<and> a_DeleteSourceAfterStore a then (mem_C w)(i := mem_C w i |` (- sr_Ref ` set sbs)) else mem_C w)))"
  by (rule mems.RunOnce_ok [OF assms(1) lessI assms(2-4)])

text \<open>A storage with one blob, an archive format that keeps the data, and a store that keeps every archive.\<close>

definition plain_zip :: "zip_op list \<Rightarrow> bytes" where
  "plain_zip ops = concat (map (\<lambda>op. case op of ZipHeader s \<Rightarrow> bytes_of_string s | ZipWrite b \<Rightarrow> b | ZipClose \<Rightarrow> [0]) ops)"

theorem archiver_loses_nothing_witness:
  "\<exists>w w1 err w' x'. receive (mem_at 0) (SHA1FromBytes [7, 8]) (bytes_reader [7, 8]) True w = Ret ((sized (SHA1FromBytes [7, 8]) [7, 8], None), w1) \<and>
    RunOnce plain_zip 2 0 \<lparr>a_Source = Some (mem_at 0), a_MinZipSize = 1, a_Store = Some (\<lambda>zip sbs x. (None, (zip, sbs) # x)),
      a_DeleteSourceAfterStore = True\<rparr> w1 [] = Some (Ret (err, w', x')) \<and>
    (mem_C w' = mem_C w1 \<or> (\<exists>zip sbs. x' = [(zip, sbs)] \<and> err = None))"
proof -
  let ?w = "\<lambda>_. mem_New" and ?br = "SHA1FromBytes [7, 8]"
  let ?a = "\<lparr>a_Source = Some (mem_at 0), a_MinZipSize = 1, a_Store = Some (\<lambda>zip sbs x. (None, (zip, sbs) # x)), a_DeleteSourceAfterStore = True\<rparr>"
  have I: "mem_I ?w" by (simp add: mem_I_def mem_inv_def mem_New_def blobs_ok_def)
  obtain w1 where w1: "receive (mem_at 0) ?br (bytes_reader [7, 8]) True ?w = Ret ((sized ?br [7, 8], None), w1)" "mem_I w1"
    "mem_C w1 = (mem_C ?w)(0 := put (mem_C ?w 0) ?br [7, 8])" using mems.receive_good [OF I lessI refl, of "[7, 8]" 0 True] by (auto simp: MaxBlobSize_def)
  have "dom (mem_C w1 0) = {?br}" by (auto simp: w1(3) mem_C_def mem_New_def put_def)
  then have "card (dom (mem_C w1 0)) < 2" by simp
  from archiver_loses_nothing [OF w1(2) _ _ this, where a = ?a and enc = plain_zip and seen = 0 and x = "[]"]
  obtain err w' x' where "RunOnce plain_zip 2 0 ?a w1 [] = Some (Ret (err, w', x'))"
    "mem_C w' = mem_C w1 \<or> (\<exists>zip sbs. x' = [(zip, sbs)] \<and> err = None)" by (fastforce simp: archived_def)
  then show ?thesis using w1(1) by blast
qed

end
