(* ===== verification/DiskPacked.thy ===== *)
theory DiskPacked
  imports BlobStore SortedKV Strutil Enumerate
begin

text \<open>
  Package \<open>pkg/blobserver/diskpacked\<close>: blobs appended to pack files, each behind a header with its reference and size, and an index in a
  key/value store that says where each blob is.  Deleting overwrites the header and the data.  The files \<open>diskpacked.go\<close>, \<open>dele.go\<close>
  and \<open>reindex.go\<close> are modelled here; theory \<open>PackFiles\<close> proves that they agree.
\<close>

section \<open>Files\<close>

text \<open>
  The pack files of the directory by their numbers, which are contiguous.  Operations on files succeed, except that a file may not exist and
  a read may meet the end.
\<close>

record dpsto =
  dp_maxFileSize :: int
  dp_packs :: "bytes list"
  dp_fds :: nat
  dp_writer :: "(nat \<times> nat) option"
  dp_writeLock :: bool
  dp_size :: int
  dp_closed :: bool

definition write_at :: "nat \<Rightarrow> bytes \<Rightarrow> bytes \<Rightarrow> bytes" where
  "write_at off b f = take off f @ replicate (off - length f) 0 @ b @ drop (off + length b) f"

definition truncate_file :: "nat \<Rightarrow> bytes \<Rightarrow> bytes" where
  "truncate_file n f = take n f @ replicate (n - length f) 0"

definition defaultMaxFileSize :: int where
  "defaultMaxFileSize = 512 * 2 ^ 20"

text \<open>Opening for reading is only ever asked for the next file; the result is whether it exists.\<close>

definition openForRead :: "nat \<Rightarrow> dpsto \<Rightarrow> (bool \<times> dpsto) outcome" where
  "openForRead n s =
     (if n > dp_fds s then Panic ''openForRead called out of order''
      else if n < length (dp_packs s) then Ret (True, s\<lparr>dp_fds := dp_fds s + 1\<rparr>) else Ret (False, s))"

definition openForWrite :: "nat \<Rightarrow> dpsto \<Rightarrow> dpsto" where
  "openForWrite n s =
     (let packs = (if n < length (dp_packs s) then dp_packs s else dp_packs s @ [[]]); end = length (packs ! n)
      in s\<lparr>dp_packs := packs, dp_size := int end, dp_writer := Some (n, end), dp_writeLock := True\<rparr>)"

definition nextPack :: "dpsto \<Rightarrow> dpsto outcome" where
  "nextPack s =
     (let s = s\<lparr>dp_size := 0, dp_writeLock := False\<rparr>; n = dp_fds s; s = openForWrite n s
      in obind (openForRead n s) (\<lambda>(_, s). Ret s))"

fun open_packs :: "nat \<Rightarrow> nat \<Rightarrow> dpsto \<Rightarrow> (nat \<times> dpsto) outcome" where
  "open_packs 0 n s = Ret (n, s)"
| "open_packs (Suc k) n s = obind (openForRead n s) (\<lambda>(ok, s). if ok then open_packs k (n + 1) s else Ret (n, s))"

definition openAllPacks :: "dpsto \<Rightarrow> dpsto outcome" where
  "openAllPacks s =
     obind (open_packs (length (dp_packs s) + 1) 0 s) (\<lambda>(n, s). if n = 0 then nextPack s else Ret (openForWrite (n - 1) s))"

text \<open>A new storage over the packs that are in its directory.\<close>

definition newStorage :: "int \<Rightarrow> bytes list \<Rightarrow> dpsto outcome" where
  "newStorage maxFileSize packs =
     openAllPacks \<lparr>dp_maxFileSize = (if maxFileSize \<le> 0 then defaultMaxFileSize else maxFileSize), dp_packs = packs, dp_fds = 0,
       dp_writer = None, dp_writeLock = False, dp_size = 0, dp_closed = False\<rparr>"

text \<open>\<open>Close\<close> ignores an error of the index; closing the files and the lock succeeds.\<close>

definition dp_Close :: "'w KeyValue \<Rightarrow> dpsto \<times> 'w \<Rightarrow> goerr option \<times> dpsto \<times> 'w" where
  "dp_Close index sw =
     (let (s, w) = sw
      in if dp_closed s then (None, s, w)
         else
           let (_, w) = kv_Close index w
           in (None, s\<lparr>dp_closed := True, dp_writer := None, dp_writeLock := False\<rparr>, w))"

section \<open>The rows of the index\<close>

text \<open>
  \<open>fmt.Sscan\<close> of integers, with signs and the prefixes of octal and hexadecimal numbers; of white space only that of ASCII is considered.
\<close>

definition scan_space :: "char \<Rightarrow> bool" where
  "scan_space c \<longleftrightarrow> c \<in> {CHR 0x09, CHR 0x0A, CHR 0x0B, CHR 0x0C, CHR 0x0D, CHR '' ''}"

definition octalDigits :: string where "octalDigits = ''01234567''"
definition decimalDigits :: string where "decimalDigits = ''0123456789''"
definition hexadecimalDigits :: string where "hexadecimalDigits = ''0123456789aAbBcCdDeEfF''"

definition scan_number :: "bool \<Rightarrow> string \<Rightarrow> (bool \<times> u64 \<times> string) option" where
  "scan_number sg s =
     (let s = dropWhile scan_space s;
          sgn = sg \<and> s \<noteq> [] \<and> (hd s = CHR ''+'' \<or> hd s = CHR ''-'');
          neg = (sgn \<and> hd s = CHR ''-'');
          s = (if sgn then tl s else s);
          zero = (s \<noteq> [] \<and> hd s = CHR ''0'');
          hex = (zero \<and> tl s \<noteq> [] \<and> (hd (tl s) = CHR ''x'' \<or> hd (tl s) = CHR ''X''));
          base = (if hex then 16 else if zero then 8 else 10 :: int);
          digits = (if hex then hexadecimalDigits else if zero then octalDigits else decimalDigits);
          t = (if hex then tl (tl s) else s);
          tok = takeWhile (\<lambda>c. c \<in> set digits) t
      in if \<not> hex \<and> tok = [] then None
         else case ParseUintBytes (bytes_of_string (if hex then ''0'' @ tok else tok)) base 64 of
             (n, None) \<Rightarrow> Some (neg, n, dropWhile (\<lambda>c. c \<in> set digits) t)
           | _ \<Rightarrow> None)"

definition scan_int :: "string \<Rightarrow> (int \<times> string) option" where
  "scan_int s =
     (case scan_number True s of
        None \<Rightarrow> None
      | Some (neg, n, t) \<Rightarrow>
          if neg then (if uint n \<le> 2 ^ 63 then Some (- uint n, t) else None)
          else if uint n < 2 ^ 63 then Some (uint n, t) else None)"

definition scan_u32 :: "string \<Rightarrow> (u32 \<times> string) option" where
  "scan_u32 s =
     (case scan_number False s of None \<Rightarrow> None | Some (_, n, t) \<Rightarrow> if uint n < 2 ^ 32 then Some (ucast n, t) else None)"

record blobMeta =
  bm_file :: int
  bm_offset :: int
  bm_size :: u32

definition parseBlobMeta :: "string \<Rightarrow> blobMeta option" where
  "parseBlobMeta s =
     (case scan_int s of
        None \<Rightarrow> None
      | Some (file, s) \<Rightarrow>
          (case scan_int s of
             None \<Rightarrow> None
           | Some (off, s) \<Rightarrow>
               (case scan_u32 s of
                  None \<Rightarrow> None
                | Some (sz, _) \<Rightarrow> Some \<lparr>bm_file = file, bm_offset = off, bm_size = sz\<rparr>)))"

definition int_String :: "int \<Rightarrow> string" where
  "int_String n = (if n < 0 then CHR ''-'' # itoa (nat (- n)) else itoa (nat n))"

definition meta_String :: "blobMeta \<Rightarrow> string" where
  "meta_String m = int_String (bm_file m) @ '' '' @ int_String (bm_offset m) @ '' '' @ itoa (unat (bm_size m))"

definition meta_SizedRef :: "blobMeta \<Rightarrow> Ref \<Rightarrow> SizedRef" where
  "meta_SizedRef m br = \<lparr>sr_Ref = br, sr_Size = bm_size m\<rparr>"

definition dp_meta :: "'w KeyValue \<Rightarrow> Ref \<Rightarrow> 'w \<Rightarrow> goerr + blobMeta" where
  "dp_meta index br w =
     (case kv_Get index (ref_String br) w of
        (_, Some e) \<Rightarrow> Inl (if e = ErrNotFound then ErrNotExist else e)
      | (ms, None) \<Rightarrow>
          (case parseBlobMeta ms of None \<Rightarrow> Inl (ErrText ''diskpacked: bad blob metadata'') | Some m \<Rightarrow> Inr m))"

section \<open>Reading\<close>

text \<open>
  Positions are of type \<open>int64\<close> and their sums wrap.  A section of a file is read from its offset up to the limit \<open>off+n\<close>; a negative offset
  makes every read fail, and so does a file that has been closed.  An index that names a negative file makes the code panic.
\<close>

definition wrap64 :: "int \<Rightarrow> int" where
  "wrap64 x = sint (word_of_int x :: u64)"

definition pack_section :: "bool \<Rightarrow> bytes \<Rightarrow> int \<Rightarrow> int \<Rightarrow> reader" where
  "pack_section closed f off n =
     (let limit = wrap64 (off + n)
      in if limit \<le> off then bytes_reader []
         else if closed then \<lparr>rd_data = [], rd_err = Some (ErrText ''read: bad file descriptor'')\<rparr>
         else if off < 0 then \<lparr>rd_data = [], rd_err = Some (ErrText ''negative offset'')\<rparr>
         else bytes_reader (take (nat (limit - off)) (drop (nat off) f)))"

definition dp_fetch :: "'w KeyValue \<Rightarrow> dpsto \<Rightarrow> Ref \<Rightarrow> int \<Rightarrow> int \<Rightarrow> 'w \<Rightarrow> fetch_ret outcome" where
  "dp_fetch index s br off len w =
     (case dp_meta index br w of
        Inl e \<Rightarrow> Ret (None, 0, Some e)
      | Inr m \<Rightarrow>
          if bm_file m \<ge> int (dp_fds s) then Ret (None, 0, Some (ErrText ''diskpacked: attempt to fetch blob from out of range pack file''))
          else if bm_file m < 0 then Panic ''index out of range''
          else
            let f = dp_packs s ! nat (bm_file m); size = uint (bm_size m)
            in if len = -1 then Ret (Some (pack_section (dp_closed s) f (bm_offset m) size), bm_size m, None)
               else
                 let (off, len) = (if off > size then (size, 0) else if wrap64 (off + len) > size then (off, size - off) else (off, len))
                 in Ret (Some (pack_section (dp_closed s) f (wrap64 (bm_offset m + off)) len), bm_size m, None))"

definition dp_Fetch :: "'w KeyValue \<Rightarrow> (dpsto \<times> 'w) fetcher" where
  "dp_Fetch index br sw = obind (dp_fetch index (fst sw) br 0 (-1) (snd sw)) (\<lambda>r. Ret (r, sw))"

definition dp_SubFetch :: "'w KeyValue \<Rightarrow> Ref \<Rightarrow> int \<Rightarrow> int \<Rightarrow> dpsto \<times> 'w \<Rightarrow> (reader option \<times> goerr option) outcome" where
  "dp_SubFetch index br off len sw =
     (if off < 0 \<or> len < 0 then Ret (None, Some (ErrText ''invalid offset or length''))
      else obind (dp_fetch index (fst sw) br off len (snd sw)) (\<lambda>(rc, _, err). Ret (rc, err)))"

text \<open>The goroutines of \<open>StatBlobs\<close> run in turn; all of them run, and the first error is returned.\<close>

fun dp_stats :: "'w KeyValue \<Rightarrow> Ref list \<Rightarrow> 'w \<Rightarrow> SizedRef list \<times> goerr option" where
  "dp_stats index [] w = ([], None)"
| "dp_stats index (br # brs) w =
     (let (sbs, err) = dp_stats index brs w
      in case dp_meta index br w of
           Inr m \<Rightarrow> (meta_SizedRef m br # sbs, err)
         | Inl e \<Rightarrow> if e = ErrNotExist then (sbs, err) else (sbs, Some e))"

definition dp_StatBlobs :: "'w KeyValue \<Rightarrow> Ref list \<Rightarrow> dpsto \<times> 'w \<Rightarrow> ((SizedRef list \<times> goerr option) \<times> dpsto \<times> 'w) outcome" where
  "dp_StatBlobs index brs sw = Ret (dp_stats index brs (snd sw), sw)"

function dp_enum_loop :: "ctx \<Rightarrow> string \<Rightarrow> Iterator \<Rightarrow> int \<Rightarrow> nat \<Rightarrow> SizedRef list \<times> goerr option" where
  "dp_enum_loop ctx after it limit n =
     (if limit > 0 then
        if fst (it_Next it) then
          let it' = snd (it_Next it)
          in if it_Key it' \<le> after then dp_enum_loop ctx after it' limit n
             else
               let (br, ok) = Parse (it_Key it')
               in if \<not> ok then ([], Some (ErrText ''diskpacked: couldn't parse index key''))
                  else case parseBlobMeta (it_Value it') of
                      None \<Rightarrow> ([], Some (ErrText ''diskpacked: couldn't parse index value''))
                    | Some m \<Rightarrow>
                        if ctx = Some n then ([], Some ErrCanceled)
                        else
                          let (sbs, e) = dp_enum_loop ctx after it' (limit - 1) (n + 1)
                          in (meta_SizedRef m br # sbs, e)
        else ([], it_Close (snd (it_Next it)))
      else ([], it_Close it))"
  by pat_completeness auto
termination
  by (relation "measure (\<lambda>(ctx, after, it, limit, n). length (it_rest it))")
    (auto simp: it_Next_def split: list.splits)

declare dp_enum_loop.simps [simp del]

definition dp_EnumerateBlobs :: "'w KeyValue \<Rightarrow> ctx \<Rightarrow> string \<Rightarrow> int \<Rightarrow> dpsto \<times> 'w \<Rightarrow> (SizedRef list \<times> goerr option) outcome" where
  "dp_EnumerateBlobs index ctx after limit sw = Ret (dp_enum_loop ctx after (kv_Find index after [] (snd sw)) limit 0)"

section \<open>Writing\<close>

definition pack_header :: "SizedRef \<Rightarrow> bytes" where
  "pack_header sb = bytes_of_string (''['' @ ref_String (sr_Ref sb) @ '' '' @ itoa (unat (sr_Size sb)) @ '']'')"

text \<open>A write at the position of the writer.\<close>

definition dp_write :: "bytes \<Rightarrow> dpsto \<Rightarrow> dpsto outcome" where
  "dp_write b s =
     (case dp_writer s of
        None \<Rightarrow> Panic ''nil pointer dereference''
      | Some (n, pos) \<Rightarrow>
          Ret (s\<lparr>dp_packs := (dp_packs s)[n := write_at pos b (dp_packs s ! n)], dp_writer := Some (n, pos + length b),
                 dp_size := dp_size s + int (length b)\<rparr>))"

text \<open>
  When the row cannot be set, the writer is put back and its file truncated to where the blob began; by then the writer may be that of the next
  pack.
\<close>

definition undo_append :: "int \<Rightarrow> dpsto \<Rightarrow> dpsto" where
  "undo_append origOffset s =
     (case dp_writer s of
        None \<Rightarrow> s
      | Some (n, pos) \<Rightarrow>
          s\<lparr>dp_packs := (dp_packs s)[n := truncate_file (nat origOffset) (dp_packs s ! n)], dp_writer := Some (n, nat origOffset),
            dp_size := origOffset\<rparr>)"

definition dp_append :: "'w KeyValue \<Rightarrow> SizedRef \<Rightarrow> bytes \<Rightarrow> dpsto \<times> 'w \<Rightarrow> (goerr option \<times> dpsto \<times> 'w) outcome" where
  "dp_append index sb data sw =
     (let (s, w) = sw; origOffset = dp_size s
      in if dp_closed s then Ret (Some (ErrText ''diskpacked: write to closed storage''), s, w)
         else obind (dp_write (pack_header sb) s) (\<lambda>s.
           if int (snd (the (dp_writer s))) \<noteq> dp_size s then Ret (Some (ErrText ''diskpacked: seek says offset''), s, w)
           else
             let offset = dp_size s
             in obind (dp_write data s) (\<lambda>s.
               if int (length data) \<noteq> uint (sr_Size sb) then Ret (Some (ErrText ''diskpacked: written blob size didn't match''), s, w)
               else
                 let packIdx = int (dp_fds s) - 1
                 in obind (if dp_size s > dp_maxFileSize s then nextPack s else Ret s) (\<lambda>s.
                   let (err, w) = kv_Set index (ref_String (sr_Ref sb))
                         (meta_String \<lparr>bm_file = packIdx, bm_offset = offset, bm_size = sr_Size sb\<rparr>) w
                   in Ret (err, if err \<noteq> None then undo_append origOffset s else s, w)))))"

definition dp_ReceiveBlob :: "'w KeyValue \<Rightarrow> Ref \<Rightarrow> reader \<Rightarrow> dpsto \<times> 'w \<Rightarrow> (recv_ret \<times> dpsto \<times> 'w) outcome" where
  "dp_ReceiveBlob index br src sw =
     (case rd_err src of
        Some e \<Rightarrow> Ret ((zeroSizedRef, Some e, ReadToEnd), sw)
      | None \<Rightarrow>
          let sbr = \<lparr>sr_Ref = br, sr_Size = of_nat (length (rd_data src))\<rparr>;
              dup = (case dp_meta index br (snd sw) of
                       Inl _ \<Rightarrow> False
                     | Inr m \<Rightarrow> 0 \<le> bm_file m \<and> bm_file m < int (length (dp_packs (fst sw))) \<and>
                         int (length (dp_packs (fst sw) ! nat (bm_file m))) \<ge> wrap64 (bm_offset m + uint (bm_size m)))
          in if dup then Ret ((sbr, None, ReadToEnd), sw)
             else obind (dp_append index sbr (rd_data src) sw) (\<lambda>(err, sw). Ret ((sbr, err, ReadToEnd), sw)))"

section \<open>Deleting\<close>

text \<open>The header with its digest crossed out.\<close>

definition cross_out :: "bytes \<Rightarrow> goerr + bytes" where
  "cross_out b =
     (let dash = index_byte b (byte_of_char CHR ''-'')
      in if dash < 0 then Inl (ErrText ''delete: cannot find dash in ref'')
         else
           let d = nat dash; space = index_byte (drop (d + 1) b) (byte_of_char CHR '' '')
           in if space < 0 then Inl (ErrText ''delete: cannot find space in header'')
              else
                let n = nat space
                in Inr (replicate d (byte_of_char CHR ''x'') @ take 1 (drop d b) @ replicate n (byte_of_char CHR ''0'') @ drop (d + 1 + n) b))"

text \<open>
  \<open>delete\<close>, with or without a hole where the data was; either way the file reads as zeros there.
\<close>

definition dp_delete :: "'w KeyValue \<Rightarrow> Ref \<Rightarrow> dpsto \<times> 'w \<Rightarrow> goerr option \<times> dpsto \<times> 'w" where
  "dp_delete index br sw =
     (let (s, w) = sw
      in case dp_meta index br w of
           Inl e \<Rightarrow> (Some e, s, w)
         | Inr m \<Rightarrow>
             if \<not> (0 \<le> bm_file m \<and> bm_file m < int (length (dp_packs s))) then (Some (ErrText ''open: no such file or directory''), s, w)
             else
               let file = nat (bm_file m); f = dp_packs s ! file;
                   k = 1 + length (ref_String br) + 1 + length (itoa (unat (bm_size m))) + 1;
                   off = wrap64 (bm_offset m - int k)
               in if off < 0 then (Some (ErrText ''negative offset''), s, w)
                  else
                    let b = take k (drop (nat off) f)
                    in if length b < k then (Some (ErrText ''EOF''), s, w)
                       else if hd b \<noteq> byte_of_char CHR ''['' \<or> last b \<noteq> byte_of_char CHR '']''
                       then (Some (ErrText ''delete: cannot find header surroundings''), s, w)
                       else case cross_out (butlast (tl b)) of
                           Inl e \<Rightarrow> (Some e, s, w)
                         | Inr b \<Rightarrow>
                             (let f = write_at (nat off + 1) b f;
                                  f = write_at (nat (bm_offset m)) (replicate (unat (bm_size m)) 0) f
                              in (None, s\<lparr>dp_packs := (dp_packs s)[file := f]\<rparr>, w)))"

fun dp_deletes :: "'w KeyValue \<Rightarrow> Ref list \<Rightarrow> dpsto \<times> 'w \<Rightarrow> goerr option \<times> dpsto \<times> 'w" where
  "dp_deletes index [] sw = (None, sw)"
| "dp_deletes index (br # brs) sw =
     (let (err, sw) = dp_delete index br sw; (err', sw) = dp_deletes index brs sw
      in (if err \<noteq> None then err else err', sw))"

definition dp_RemoveBlobs :: "'w KeyValue \<Rightarrow> Ref list \<Rightarrow> dpsto \<times> 'w \<Rightarrow> (goerr option \<times> dpsto \<times> 'w) outcome" where
  "dp_RemoveBlobs index brs sw =
     (let batch = fold (\<lambda>br b. batch_Delete b (ref_String br)) brs (kv_BeginBatch index);
          (err1, s, w) = dp_deletes index brs sw;
          (err2, w) = kv_CommitBatch index batch w
      in Ret (if err1 \<noteq> None then err1 else err2, s, w))"

section \<open>Walking the packs\<close>

definition header_err :: goerr where
  "header_err = ErrText ''diskpacked: invalid header reader''"

text \<open>A buffered reader finds a delimiter only within its buffer; the slice ends with the delimiter.\<close>

definition ReadSlice :: "nat \<Rightarrow> bytes \<Rightarrow> u8 \<Rightarrow> goerr + bytes" where
  "ReadSlice bufsize rest c =
     (let i = index_byte rest c
      in if 0 \<le> i \<and> i < int bufsize then Inr (take (nat i + 1) rest)
         else if length rest < bufsize then Inl (ErrText ''EOF'') else Inl (ErrText ''bufio: buffer full''))"

definition readHeader :: "nat \<Rightarrow> bytes \<Rightarrow> goerr + nat \<times> bytes \<times> u32" where
  "readHeader bufsize rest =
     (case ReadSlice bufsize rest (byte_of_char CHR '']'') of
        Inl e \<Rightarrow> Inl e
      | Inr line \<Rightarrow>
          (let sp = index_byte line (byte_of_char CHR '' '');
               (size64, err) = ParseUintBytes (drop (nat (sp + 1)) (butlast line)) 10 32
           in if length line < 7 \<or> hd line \<noteq> byte_of_char CHR ''['' \<or> last line \<noteq> byte_of_char CHR '']'' \<or> sp < 0 \<or> err \<noteq> None
              then Inl header_err
              else Inr (length line, take (nat sp - 1) (tl line), ucast size64)))"

text \<open>The pattern \<open>^x+-0+$\<close> of a crossed-out digest.\<close>

definition deletedBlobRef :: "bytes \<Rightarrow> bool" where
  "deletedBlobRef d \<longleftrightarrow>
     (let t = dropWhile (\<lambda>c. c = byte_of_char CHR ''x'') d
      in t \<noteq> d \<and> t \<noteq> [] \<and> hd t = byte_of_char CHR ''-'' \<and> tl t \<noteq> [] \<and> list_all (\<lambda>c. c = byte_of_char CHR ''0'') (tl t))"

lemma readHeader_consumes: "readHeader bufsize rest = Inr (n, d, sz) \<Longrightarrow> 0 < n"
  by (auto simp: readHeader_def Let_def split: sum.splits prod.splits if_splits)

text \<open>The token of a blob is the number of its pack and the offset of its header.\<close>

definition parseContToken :: "string \<Rightarrow> (int \<times> int) option" where
  "parseContToken token =
     (if token = [] then Some (0, 0)
      else case scan_int token of
          None \<Rightarrow> None
        | Some (pack, t) \<Rightarrow> (case scan_int t of None \<Rightarrow> None | Some (off, _) \<Rightarrow> Some (pack, off)))"

definition ioBufSize :: nat where
  "ioBufSize = 256 * 1024"

function stream_packs :: "ctx \<Rightarrow> bytes list \<Rightarrow> nat \<Rightarrow> nat \<Rightarrow> nat \<Rightarrow> ((Ref \<times> bytes) \<times> string) list \<times> goerr option" where
  "stream_packs ctx packs fileNum off n =
     (if fileNum \<ge> length packs then ([], None)
      else
        let rest = drop off (packs ! fileNum)
        in if rest = [] then stream_packs ctx packs (fileNum + 1) 0 n
           else case readHeader ioBufSize rest of
               Inl e \<Rightarrow> ([], Some e)
             | Inr (consumed, dig, sz32) \<Rightarrow>
                 (let body = drop consumed rest; sz = unat sz32; next = off + consumed + sz
                  in if length body < sz then ([], Some (if deletedBlobRef dig \<or> body = [] then ErrText ''EOF'' else ErrUnexpectedEOF))
                     else if deletedBlobRef dig then stream_packs ctx packs fileNum next n
                     else
                       let (ref, ok) = ParseBytes dig
                       in if \<not> ok then ([], Some (ErrText ''diskpacked: Invalid blobref''))
                          else if ctx = Some n then ([], Some ErrCanceled)
                          else
                            let (bts, e) = stream_packs ctx packs fileNum next (n + 1)
                            in (((ref, take sz body), itoa fileNum @ '' '' @ itoa off) # bts, e)))"
  by pat_completeness auto
termination
  by (relation "measures [\<lambda>(ctx, packs, f, off, n). length packs - f, \<lambda>(ctx, packs, f, off, n). length (packs ! f) - off]")
    (auto dest!: readHeader_consumes)

declare stream_packs.simps [simp del]

definition dp_StreamBlobs :: "dpsto \<Rightarrow> ctx \<Rightarrow> string \<Rightarrow> ((Ref \<times> bytes) \<times> string) list \<times> goerr option" where
  "dp_StreamBlobs s ctx contToken =
     (case parseContToken contToken of
        None \<Rightarrow> ([], Some (ErrText ''diskpacked: invalid continuation token''))
      | Some (fileNum, off) \<Rightarrow>
          if \<not> (0 \<le> fileNum \<and> fileNum < int (length (dp_packs s))) then ([], Some (ErrText ''open: no such file or directory''))
          else if off < 0 then ([], Some (ErrText ''seek: invalid argument''))
          else stream_packs ctx (dp_packs s) (nat fileNum) (nat off) 0)"

text \<open>
  \<open>walkPack\<close>: a header that is cut off by the end of the file ends the walk without an error, and so does data that is.
\<close>

type_synonym 's walker = "nat \<Rightarrow> Ref \<Rightarrow> int \<Rightarrow> u32 \<Rightarrow> 's \<Rightarrow> goerr option \<times> 's"

definition walk_header :: "bytes \<Rightarrow> goerr + Ref \<times> u32" where
  "walk_header chunk =
     (let i = index_byte chunk (byte_of_char CHR '' '')
      in if i \<le> 0 then Inl (ErrText ''bad header format'')
         else
           let (size64, err) = ParseUintBytes (drop (nat i + 1) chunk) 10 32; digest = take (nat i) chunk
           in if err \<noteq> None then Inl (ErrText ''cannot parse size'')
              else if deletedBlobRef digest then Inr (zeroRef, ucast size64)
              else
                let (ref, ok) = Parse (string_of_bytes digest)
                in if ok then Inr (ref, ucast size64) else Inl (ErrText ''cannot parse as blobref''))"

function walkPack :: "bytes \<Rightarrow> nat \<Rightarrow> 's walker \<Rightarrow> nat \<Rightarrow> 's \<Rightarrow> goerr option \<times> 's" where
  "walkPack f packID walker pos st =
     (if pos \<ge> length f then (None, st)
      else if f ! pos \<noteq> byte_of_char CHR ''['' then (Some (ErrText ''but [ should be here''), st)
      else case ReadSlice 512 (drop (pos + 1) f) (byte_of_char CHR '']'') of
          Inl e \<Rightarrow> (if e = ErrText ''EOF'' then None else Some (ErrText ''error reading blob header''), st)
        | Inr line \<Rightarrow>
            (case walk_header (butlast line) of
               Inl e \<Rightarrow> (Some e, st)
             | Inr (ref, sz) \<Rightarrow>
                 (let data = pos + 1 + length line; (err, st) = walker packID ref (int data) sz st
                  in if err \<noteq> None then (err, st) else walkPack f packID walker (data + unat sz) st)))"
  by pat_completeness auto
termination by (relation "measure (\<lambda>(f, packID, walker, pos, st). length f - pos)") auto

declare walkPack.simps [simp del]

fun walk_packs :: "nat \<Rightarrow> bytes list \<Rightarrow> 's walker \<Rightarrow> 's \<Rightarrow> goerr option \<times> 's" where
  "walk_packs i [] walker st = (None, st)"
| "walk_packs i (f # fs) walker st =
     (let (err, st) = walkPack f i walker 0 st in if err \<noteq> None then (err, st) else walk_packs (i + 1) fs walker st)"

definition dp_Walk :: "dpsto \<Rightarrow> 's walker \<Rightarrow> 's \<Rightarrow> goerr option \<times> 's" where
  "dp_Walk s walker st = walk_packs 0 (dp_packs s) walker st"

section \<open>Reindexing\<close>

text \<open>The state of the callback: the batch, whether all rows were right, and the rows that may be those of a duplicate.\<close>

definition reindex_visit :: "'w KeyValue \<Rightarrow> bool \<Rightarrow> 'w \<Rightarrow> (BatchMutation \<times> bool \<times> (Ref \<times> string) list) walker" where
  "reindex_visit index overwrite w packID ref off sz st =
     (if \<not> ref_Valid ref then (None, st)
      else
        let (batch, allOk, misses) = st; row = meta_String \<lparr>bm_file = int packID, bm_offset = off, bm_size = sz\<rparr>
        in if overwrite then (None, batch_Set batch (ref_String ref) row, allOk, misses)
           else
             let misses = AList.delete ref misses
             in case kv_Get index (ref_String ref) w of
                  (_, Some e) \<Rightarrow> (None, batch, False, misses)
                | (old, None) \<Rightarrow>
                    if old = row then (None, batch, allOk, misses)
                    else if old > row then (None, batch, allOk, AList.update ref row misses)
                    else (None, batch, False, misses))"

definition reindexOne :: "'w KeyValue \<Rightarrow> bool \<Rightarrow> nat \<Rightarrow> bytes \<Rightarrow> 'w \<Rightarrow> goerr option \<times> 'w" where
  "reindexOne index overwrite packID f w =
     (let (err, batch, allOk, misses) = walkPack f packID (reindex_visit index overwrite w) 0 (kv_BeginBatch index, True, [])
      in if err \<noteq> None then (err, w)
         else if overwrite then kv_CommitBatch index batch w
         else if allOk \<and> misses = [] then (None, w)
         else (Some (ErrText ''index does not match data''), w))"

fun reindex_packs :: "'w KeyValue \<Rightarrow> bool \<Rightarrow> nat \<Rightarrow> bytes list \<Rightarrow> 'w \<Rightarrow> goerr option \<times> 'w" where
  "reindex_packs index overwrite i [] w = (None, w)"
| "reindex_packs index overwrite i (f # fs) w =
     (let (err, w) = reindexOne index overwrite i f w
      in if err \<noteq> None then (err, w) else reindex_packs index overwrite (i + 1) fs w)"

definition Reindex :: "'w KeyValue \<Rightarrow> bool \<Rightarrow> bytes list \<Rightarrow> 'w \<Rightarrow> goerr option \<times> 'w" where
  "Reindex index overwrite packs w =
     (let (err, w) = reindex_packs index overwrite 0 packs w; (closeErr, w) = kv_Close index w
      in (if err = None then closeErr else err, w))"

end
