(* ===== verification/PackFiles.thy ===== *)
theory PackFiles
  imports DiskPacked MemStorage SortedBuffer Json
begin

text \<open>
  The pack files of \<open>pkg/blobserver/diskpacked\<close> and their index agree: over any sequence of receptions and removals the storage is one map, and reading
  the packs again rebuilds the index.
\<close>

section \<open>Rows\<close>

lemma itoa_hd: "0 < n \<Longrightarrow> hd (itoa n) \<noteq> CHR ''0''"
proof (induction n rule: itoa.induct)
  case (1 n)
  show ?case
  proof (cases "n < 10")
    case True
    then have "n \<in> {1, 2, 3, 4, 5, 6, 7, 8, 9}" using "1.prems" less_10_cases [of n] by auto
    then show ?thesis by (subst itoa.simps) (auto simp: digit_char_def)
  next
    case False
    then show ?thesis using 1 by (subst itoa.simps) simp
  qed
qed

lemma itoa_0: "itoa 0 = ''0''"
  by (subst itoa.simps) (simp add: digit_char_def)

lemma scan_number_itoa:
  assumes "n < 2 ^ 64" and "t = [] \<or> hd t = CHR '' ''"
  shows "scan_number sg (CHR '' '' # itoa n @ t) = Some (False, of_nat n, t)" and "scan_number sg (itoa n @ t) = Some (False, of_nat n, t)"
proof -
  obtain c s where i: "itoa n = c # s" using itoa_nonempty [of n] by (cases "itoa n") auto
  have dig: "\<forall>x \<in> set (c # s). x \<in> set decimalDigits" using itoa_chars [of n] unfolding i decimalDigits_def by blast
  then have "c \<in> set ''0123456789''" by (simp add: decimalDigits_def)
  then have c: "\<not> scan_space c" "c \<noteq> CHR ''+''" "c \<noteq> CHR ''-''" unfolding scan_space_def list.set by (elim insertE emptyE; simp)+
  have sp: "CHR '' '' \<notin> set octalDigits" "CHR '' '' \<notin> set decimalDigits" "CHR ''0'' \<in> set octalDigits"
    by (simp_all add: octalDigits_def decimalDigits_def)
  have t: "takeWhile (\<lambda>c. c \<in> set ds) t = []" "dropWhile (\<lambda>c. c \<in> set ds) t = t" if "CHR '' '' \<notin> set ds" for ds
    using that assms(2) by (cases t; auto)+
  have nx: "\<not> (t \<noteq> [] \<and> (hd t = CHR ''x'' \<or> hd t = CHR ''X''))" using assms(2) by auto
  have "scan_number sg (c # s @ t) = Some (False, of_nat n, t)"
  proof (cases "n = 0")
    case True
    then have z: "c = CHR ''0''" "s = []" using i itoa_0 by simp_all
    have p: "ParseUintBytes (bytes_of_string ''0'') 8 64 = (0, None)" by code_simp
    show ?thesis using nx p t(1,2) [OF sp(1)] c(1) sp(3) unfolding z scan_number_def Let_def
      by (auto simp: True simp del: bytes_of_string_simps)
  next
    case False
    then have z: "c \<noteq> CHR ''0''" using itoa_hd [of n] i by simp
    have p: "ParseUintBytes (bytes_of_string (c # s)) 10 64 = (of_nat n, None)" using ParseUint_itoa [of n 64] assms(1) i by simp
    show ?thesis using z c dig t [OF sp(2)] p unfolding scan_number_def Let_def by (simp del: bytes_of_string_simps)
  qed
  then show "scan_number sg (itoa n @ t) = Some (False, of_nat n, t)" by (simp add: i)
  then show "scan_number sg (CHR '' '' # itoa n @ t) = Some (False, of_nat n, t)" by (simp add: scan_number_def scan_space_def)
qed

lemma scan_int_itoa:
  assumes "n < 2 ^ 63" and "t = [] \<or> hd t = CHR '' ''"
  shows "scan_int (CHR '' '' # itoa n @ t) = Some (int n, t)" and "scan_int (itoa n @ t) = Some (int n, t)"
proof -
  have n: "n < 2 ^ 64" using assms(1) by simp
  have "int n < int (2 ^ 63)" using assms(1) by (simp only: of_nat_less_iff)
  then have "uint (of_nat n :: u64) = int n" by (simp add: uint_nat unat_of_nat)
  then show "scan_int (CHR '' '' # itoa n @ t) = Some (int n, t)" "scan_int (itoa n @ t) = Some (int n, t)"
    using \<open>int n < int (2 ^ 63)\<close> scan_number_itoa [OF n assms(2), of True] by (simp_all add: scan_int_def)
qed

lemma scan_u32_itoa:
  assumes "n < 2 ^ 32"
  shows "scan_u32 (CHR '' '' # itoa n) = Some (of_nat n, [])"
proof -
  have n: "n < 2 ^ 64" using assms by simp
  have "int n < int (2 ^ 32)" using assms by (simp only: of_nat_less_iff)
  moreover have "uint (of_nat n :: u64) = int n" using n by (simp add: uint_nat unat_of_nat)
  moreover have "ucast (of_nat n :: u64) = (of_nat n :: u32)" using n by (simp add: unsigned_of_nat take_bit_nat_eq_self)
  ultimately show ?thesis using scan_number_itoa(1) [OF n, of "[]" False] by (simp add: scan_u32_def)
qed

text \<open>What \<open>blobMeta.String\<close> prints, \<open>parseBlobMeta\<close> reads back.\<close>

lemma parseBlobMeta_String:
  assumes "p < 2 ^ 63" and "off < 2 ^ 63" and "n < 2 ^ 32"
  shows "parseBlobMeta (meta_String \<lparr>bm_file = int p, bm_offset = int off, bm_size = of_nat n\<rparr>) =
    Some \<lparr>bm_file = int p, bm_offset = int off, bm_size = of_nat n\<rparr>"
proof -
  have "unat (of_nat n :: u32) = n" using assms(3) by (simp add: unat_of_nat)
  then show ?thesis
    using scan_int_itoa(2) [OF assms(1), of "CHR '' '' # itoa off @ CHR '' '' # itoa n"] scan_int_itoa(1) [OF assms(2), of "CHR '' '' # itoa n"]
      scan_u32_itoa [OF assms(3)]
    by (simp add: parseBlobMeta_def meta_String_def int_String_def)
qed

section \<open>Records\<close>

text \<open>
  What a pack holds: blobs, and the crossed-out remains of deleted ones.  The names of all blobs have the form of SHA-1 references.
\<close>

datatype prec = Live Ref bytes | Dead nat

fun rec_digest :: "prec \<Rightarrow> string" where
  "rec_digest (Live r d) = ref_String r"
| "rec_digest (Dead k) = replicate 4 CHR ''x'' @ CHR ''-'' # replicate 40 CHR ''0''"

fun rec_data :: "prec \<Rightarrow> bytes" where
  "rec_data (Live r d) = d"
| "rec_data (Dead k) = replicate k 0"

definition rec_header :: "prec \<Rightarrow> bytes" where
  "rec_header x = bytes_of_string (''['' @ rec_digest x @ '' '' @ itoa (length (rec_data x)) @ '']'')"

definition rec_bytes :: "prec \<Rightarrow> bytes" where
  "rec_bytes x = rec_header x @ rec_data x"

definition pack_bytes :: "prec list \<Rightarrow> bytes" where
  "pack_bytes xs = concat (map rec_bytes xs)"

fun rec_ok :: "prec \<Rightarrow> bool" where
  "rec_ok (Live r d) \<longleftrightarrow> r = SHA1FromBytes d \<and> length d \<le> MaxBlobSize"
| "rec_ok (Dead k) \<longleftrightarrow> k \<le> MaxBlobSize"

lemma pack_bytes_simps [simp]:
  "pack_bytes [] = []" "pack_bytes (x # xs) = rec_bytes x @ pack_bytes xs" "pack_bytes (xs @ ys) = pack_bytes xs @ pack_bytes ys"
  by (simp_all add: pack_bytes_def)

lemma hex_bytes_set: "set (hex_bytes bs) \<subseteq> set hexDigit"
proof -
  have "hexDigit ! n \<in> set hexDigit" if "n < 16" for n using that by (simp add: hexDigit_def del: list.set)
  then have "set (hex_pair b) \<subseteq> set hexDigit" for b using nibbles_lt [of b] by (simp add: hex_pair_def)
  then show ?thesis by (induction bs) (auto simp: hex_bytes_def)
qed

lemma SHA1_String:
  obtains hex where "ref_String (SHA1FromBytes d) = ''sha1-'' @ hex" and "length hex = 40" and "set hex \<subseteq> set hexDigit"
proof -
  have "ref_canonical (SHA1FromBytes d)" by simp
  then have "digest_wf (Sha1Digest (sha1_sum d))" by (simp add: SHA1FromBytes_eq ref_canonical_def)
  then have "ref_String (SHA1FromBytes d) = ''sha1-'' @ hex_bytes (sha1_sum d)"
    unfolding SHA1FromBytes_eq by (simp add: ref_String_wf digest_hex_def is_odd_def)
  moreover have "length (hex_bytes (sha1_sum d)) = 40" by (simp add: length_hex_bytes)
  ultimately show thesis using that hex_bytes_set by blast
qed

text \<open>The digest in a header: 45 characters, of which none ends it early.\<close>

lemma rec_digest_chars:
  assumes "rec_ok x"
  shows "length (rec_digest x) = 45" and "CHR '' '' \<notin> set (rec_digest x)" and "CHR '']'' \<notin> set (rec_digest x)"
proof -
  have h: "CHR '' '' \<notin> set hexDigit" "CHR '']'' \<notin> set hexDigit" by (simp_all add: hexDigit_def)
  have "length (rec_digest x) = 45 \<and> CHR '' '' \<notin> set (rec_digest x) \<and> CHR '']'' \<notin> set (rec_digest x)"
  proof (cases x)
    case (Live r d)
    obtain hex where "ref_String (SHA1FromBytes d) = ''sha1-'' @ hex" "length hex = 40" "set hex \<subseteq> set hexDigit" by (rule SHA1_String)
    then show ?thesis using Live assms h by auto
  qed simp
  then show "length (rec_digest x) = 45" "CHR '' '' \<notin> set (rec_digest x)" "CHR '']'' \<notin> set (rec_digest x)" by simp_all
qed

lemma length_itoa: "n < 10 ^ k \<Longrightarrow> 0 < k \<Longrightarrow> length (itoa n) \<le> k"
proof (induction k arbitrary: n)
  case (Suc k)
  show ?case
  proof (cases "n < 10")
    case False
    then have "k \<noteq> 0" using Suc.prems(1) by (cases k) auto
    moreover have "n div 10 < 10 ^ k" using Suc.prems(1) by (simp add: less_mult_imp_div_less mult.commute)
    ultimately have "length (itoa (n div 10)) \<le> k" using Suc.IH by simp
    then show ?thesis using False by (subst itoa.simps) simp
  qed (subst itoa.simps, simp)
qed simp

lemma rec_data_length: "rec_ok x \<Longrightarrow> length (rec_data x) \<le> MaxBlobSize"
  by (cases x) simp_all

definition head_body :: "prec \<Rightarrow> bytes" where
  "head_body x = bytes_of_string (rec_digest x) @ 0x20 # bytes_of_string (itoa (length (rec_data x)))"

lemma rec_header_body: "rec_header x = 0x5B # head_body x @ [0x5D]"
  by (simp add: rec_header_def head_body_def byte_of_char_def)

lemma byte_in_string: "byte_of_char c \<in> set (bytes_of_string s) \<longleftrightarrow> c \<in> set s"
  by (auto simp: bytes_of_string_def)

lemma head_body_props:
  assumes "rec_ok x"
  shows "0x5D \<notin> set (head_body x)" and "length (head_body x) < 512" and "index_byte (head_body x) 0x20 = 45"
    and "take 45 (head_body x) = bytes_of_string (rec_digest x)"
    and "ParseUintBytes (drop 46 (head_body x)) 10 32 = (of_nat (length (rec_data x)), None)"
proof -
  note D = rec_digest_chars [OF assms]
  let ?n = "length (rec_data x)"
  have n: "?n < 2 ^ 32" "?n < 10 ^ 9" using rec_data_length [OF assms] by (simp_all add: MaxBlobSize_def)
  have c: "byte_of_char CHR '']'' = 0x5D" "byte_of_char CHR '' '' = 0x20" by (simp_all add: byte_of_char_def)
  have "CHR '']'' \<notin> set (itoa ?n)" using itoa_chars [of ?n] by auto
  then show "0x5D \<notin> set (head_body x)" using D(3) byte_in_string [of "CHR '']''"] by (simp add: head_body_def c(1))
  show "length (head_body x) < 512" using length_itoa [OF n(2)] D(1) by (simp add: head_body_def)
  have "0x20 \<notin> set (bytes_of_string (rec_digest x))" using D(2) byte_in_string [of "CHR '' ''" "rec_digest x"] by (simp add: c(2))
  then show "index_byte (head_body x) 0x20 = 45" using D(1) unfolding head_body_def by (simp add: index_byte_first)
  show "take 45 (head_body x) = bytes_of_string (rec_digest x)" using D(1) by (simp add: head_body_def)
  show "ParseUintBytes (drop 46 (head_body x)) 10 32 = (of_nat ?n, None)" using D(1) ParseUint_itoa [of ?n 32] n(1) by (simp add: head_body_def)
qed

fun rec_ref :: "prec \<Rightarrow> Ref" where
  "rec_ref (Live r d) = r"
| "rec_ref (Dead k) = zeroRef"

lemma deletedBlobRef_rec:
  assumes "rec_ok x"
  shows "deletedBlobRef (bytes_of_string (rec_digest x)) \<longleftrightarrow> (\<exists>k. x = Dead k)"
proof (cases x)
  case (Live r d)
  obtain hex where "ref_String (SHA1FromBytes d) = ''sha1-'' @ hex" by (rule SHA1_String)
  then show ?thesis using Live assms by (simp add: deletedBlobRef_def byte_of_char_def)
next
  case (Dead k)
  have "deletedBlobRef (bytes_of_string (replicate 4 CHR ''x'' @ CHR ''-'' # replicate 40 CHR ''0''))" by code_simp
  then show ?thesis using Dead by (simp)
qed

lemma ucast_of_small: "n < 2 ^ 32 \<Longrightarrow> ucast (of_nat n :: u64) = (of_nat n :: u32)"
  by (simp add: unsigned_of_nat take_bit_nat_eq_self)

lemma walk_header_rec:
  assumes "rec_ok x"
  shows "walk_header (head_body x) = Inr (rec_ref x, of_nat (length (rec_data x)))"
proof -
  note H = head_body_props [OF assms]
  have "length (rec_data x) < 2 ^ 32" using rec_data_length [OF assms] by (simp add: MaxBlobSize_def)
  note u = ucast_of_small [OF this]
  have c: "byte_of_char CHR '' '' = 0x20" by (simp add: byte_of_char_def)
  show ?thesis
  proof (cases x)
    case (Live r d)
    have "Parse (ref_String r) = (r, True)" using Live assms by (simp add: Parse_String ref_canonical_wf)
    then show ?thesis using Live H u deletedBlobRef_rec [OF assms] by (simp add: walk_header_def c Let_def)
  next
    case (Dead k)
    then show ?thesis using H u deletedBlobRef_rec [OF assms] by (simp add: walk_header_def c Let_def)
  qed
qed

subsection \<open>Walking over records\<close>

lemma ReadSlice_rec:
  assumes "rec_ok x" and "512 \<le> bufsize"
  shows "ReadSlice bufsize (head_body x @ 0x5D # post) 0x5D = Inr (head_body x @ [0x5D])"
  using head_body_props(1,2) [OF assms(1)] assms(2) by (simp add: ReadSlice_def index_byte_first Let_def)

lemma walkPack_rec:
  assumes "rec_ok x"
  shows "walkPack (pre @ rec_bytes x @ post) p walker (length pre) st =
    (let (err, st) = walker p (rec_ref x) (int (length pre + length (rec_header x))) (of_nat (length (rec_data x))) st
     in if err \<noteq> None then (err, st) else walkPack (pre @ rec_bytes x @ post) p walker (length pre + length (rec_bytes x)) st)"
proof -
  let ?f = "pre @ rec_bytes x @ post"
  have c: "byte_of_char CHR ''['' = 0x5B" "byte_of_char CHR '']'' = 0x5D" by (simp_all add: byte_of_char_def)
  have f: "?f ! length pre = 0x5B" "drop (length pre + 1) ?f = head_body x @ 0x5D # rec_data x @ post" "length pre < length ?f"
    by (simp_all add: rec_bytes_def rec_header_body nth_append)
  have n: "unat (of_nat (length (rec_data x)) :: u32) = length (rec_data x)"
    using rec_data_length [OF assms] by (simp add: unat_of_nat MaxBlobSize_def)
  have l: "length (rec_header x) = length (head_body x) + 2" "length (rec_bytes x) = length (rec_header x) + length (rec_data x)"
    by (simp_all add: rec_header_body rec_bytes_def)
  have e: "length pre + length (rec_bytes x) = Suc (Suc (length pre + length (head_body x) + length (rec_data x)))" "rec_bytes x \<noteq> []"
    by (simp_all add: l rec_bytes_def rec_header_body)
  show ?thesis
    by (subst walkPack.simps, unfold f(1,2) c ReadSlice_rec [OF assms order_refl] sum.case butlast_snoc walk_header_rec [OF assms] prod.case n)
      (use f(3) in \<open>simp add: e l(1) Let_def cong: if_cong\<close>)
qed

fun visits :: "nat \<Rightarrow> prec list \<Rightarrow> (Ref \<times> nat \<times> nat) list" where
  "visits off [] = []"
| "visits off (x # xs) = (rec_ref x, off + length (rec_header x), length (rec_data x)) # visits (off + length (rec_bytes x)) xs"

lemma walkPack_visits:
  assumes "list_all rec_ok xs" and "\<And>r off sz st. fst (walker p r off sz st) = None"
  shows "walkPack (pre @ pack_bytes xs) p walker (length pre) st =
    (None, fold (\<lambda>(r, off, sz) st. snd (walker p r (int off) (of_nat sz) st)) (visits (length pre) xs) st)"
  using assms(1)
proof (induction xs arbitrary: pre st)
  case Nil
  then show ?case by (subst walkPack.simps) simp
next
  case (Cons x xs)
  obtain st' where w: "walker p (rec_ref x) (int (length pre + length (rec_header x))) (of_nat (length (rec_data x))) st = (None, st')"
    using assms(2) by (metis prod.collapse)
  have "walkPack (pre @ pack_bytes (x # xs)) p walker (length pre) st = walkPack ((pre @ rec_bytes x) @ pack_bytes xs) p walker (length (pre @ rec_bytes x)) st'"
    using walkPack_rec [of x pre "pack_bytes xs" p walker st] Cons.prems w by simp
  also have "\<dots> = (None, fold (\<lambda>(r, off, sz) st. snd (walker p r (int off) (of_nat sz) st)) (visits (length (pre @ rec_bytes x)) xs) st')"
    using Cons.prems by (intro Cons.IH) simp
  finally show ?case using w by simp
qed

subsection \<open>The rows of the records\<close>

definition row :: "nat \<Rightarrow> Ref \<times> nat \<times> nat \<Rightarrow> string \<times> string" where
  "row p v = (case v of (r, off, n) \<Rightarrow> (ref_String r, meta_String \<lparr>bm_file = int p, bm_offset = int off, bm_size = of_nat n\<rparr>))"

definition pack_rows :: "nat \<Rightarrow> nat \<Rightarrow> prec list \<Rightarrow> (string \<times> string) list" where
  "pack_rows p off xs = map (row p) (filter (\<lambda>v. ref_Valid (fst v)) (visits off xs))"

fun all_rows :: "nat \<Rightarrow> prec list list \<Rightarrow> (string \<times> string) list" where
  "all_rows p [] = []"
| "all_rows p (xs # xss) = pack_rows p 0 xs @ all_rows (p + 1) xss"

fun live :: "prec \<Rightarrow> (Ref \<times> bytes) list" where
  "live (Live r d) = [(r, d)]"
| "live (Dead k) = []"

definition lives :: "prec list list \<Rightarrow> (Ref \<times> bytes) list" where
  "lives xss = concat (map live (concat xss))"

lemma visits_append: "visits off (xs @ ys) = visits off xs @ visits (off + length (pack_bytes xs)) ys"
  by (induction xs arbitrary: off) (simp_all add: add.assoc)

lemma pack_rows_append: "pack_rows p off (xs @ ys) = pack_rows p off xs @ pack_rows p (off + length (pack_bytes xs)) ys"
  by (simp add: pack_rows_def visits_append)

lemma all_rows_append: "all_rows p (xss @ yss) = all_rows p xss @ all_rows (p + length xss) yss"
  by (induction xss arbitrary: p) simp_all

lemma SHA1_Valid [simp]: "ref_Valid (SHA1FromBytes d)"
  by (simp add: SHA1FromBytes_eq ref_Valid_def)

lemma pack_rows_simps [simp]:
  "pack_rows p off [] = []"
  "rec_ok (Live r d) \<Longrightarrow> pack_rows p off (Live r d # xs) =
    row p (r, off + length (rec_header (Live r d)), length d) # pack_rows p (off + length (rec_bytes (Live r d))) xs"
  "pack_rows p off (Dead k # xs) = pack_rows p (off + length (rec_bytes (Dead k))) xs"
  by (simp_all add: pack_rows_def ref_Valid_def zeroRef_def SHA1FromBytes_eq)

lemma pack_rows_keys: "list_all rec_ok xs \<Longrightarrow> map fst (pack_rows p off xs) = map (\<lambda>e. ref_String (fst e)) (concat (map live xs))"
proof (induction xs arbitrary: off)
  case (Cons x xs)
  then show ?case by (cases x) (simp_all add: row_def del: rec_ok.simps)
qed simp

lemma all_rows_keys: "list_all (list_all rec_ok) xss \<Longrightarrow> map fst (all_rows p xss) = map (\<lambda>e. ref_String (fst e)) (lives xss)"
  by (induction xss arbitrary: p) (simp_all add: lives_def pack_rows_keys)

lemma lives_simps [simp]: "lives [] = []" "lives (xs # xss) = concat (map live xs) @ lives xss" "lives (xss @ yss) = lives xss @ lives yss"
  by (simp_all add: lives_def)

lemma lives_split:
  assumes "(r, d) \<in> set (lives xss)"
  obtains pa ys zs pb where "xss = pa @ (ys @ Live r d # zs) # pb"
proof -
  obtain xs x where x: "xs \<in> set xss" "x \<in> set xs" "(r, d) \<in> set (live x)" using assms by (auto simp: lives_def)
  then have "x = Live r d" by (cases x) auto
  then show thesis using that x(1,2) by (metis split_list)
qed

lemma lives_ok: "list_all (list_all rec_ok) xss \<Longrightarrow> (r, d) \<in> set (lives xss) \<Longrightarrow> r = SHA1FromBytes d \<and> length d \<le> MaxBlobSize \<and> ref_wf r"
  by (erule lives_split) (simp add: ref_canonical_wf)

abbreviation packs_ok :: "prec list list \<Rightarrow> bool" where
  "packs_ok xss \<equiv> list_all (list_all rec_ok) xss \<and> distinct (map fst (lives xss))"

lemma rows_distinct:
  assumes "packs_ok xss"
  shows "distinct (map fst (all_rows p xss))"
proof -
  have "inj_on ref_String (fst ` set (lives xss))"
    using assms lives_ok ref_String_inject by (fastforce intro!: inj_onI)
  then have "distinct (map ref_String (map fst (lives xss)))" using assms by (simp only: distinct_map set_map simp_thms)
  then show ?thesis using assms by (simp only: all_rows_keys map_map comp_def)
qed

text \<open>Where the row of a blob points.\<close>

lemma row_absent:
  assumes "packs_ok xss" and "ref_wf br" and "map_of (lives xss) br = None"
  shows "map_of (all_rows p xss) (ref_String br) = None"
proof -
  have "ref_String br \<notin> (\<lambda>e. ref_String (fst e)) ` set (lives xss)"
  proof
    assume "ref_String br \<in> (\<lambda>e. ref_String (fst e)) ` set (lives xss)"
    then obtain r d where r: "(r, d) \<in> set (lives xss)" "ref_String br = ref_String r" by auto
    then have "br = r" using lives_ok [of xss r d] assms(1,2) ref_String_inject by blast
    then show False using r(1) assms(3) by (metis option.distinct(1) weak_map_of_SomeI)
  qed
  then have "ref_String br \<notin> fst ` set (all_rows p xss)" using all_rows_keys assms(1) by (metis set_map)
  then show ?thesis by (simp add: map_of_eq_None_iff)
qed

lemma row_located:
  assumes "packs_ok xss" and "xss = pa @ (ys @ Live br d # zs) # pb"
  shows "map_of (all_rows 0 xss) (ref_String br) =
    Some (meta_String \<lparr>bm_file = int (length pa), bm_offset = int (length (pack_bytes ys) + length (rec_header (Live br d))), bm_size = of_nat (length d)\<rparr>)"
proof -
  have "rec_ok (Live br d)" using assms by simp
  then have "row (length pa) (br, length (pack_bytes ys) + length (rec_header (Live br d)), length d) \<in> set (all_rows 0 xss)"
    unfolding assms(2) by (simp add: all_rows_append pack_rows_append del: rec_ok.simps)
  then show ?thesis using rows_distinct [OF assms(1)] by (simp add: row_def)
qed

section \<open>Deleting\<close>

fun kill1 :: "Ref \<Rightarrow> prec \<Rightarrow> prec" where
  "kill1 br (Live r d) = (if r = br then Dead (length d) else Live r d)"
| "kill1 br (Dead k) = Dead k"

definition kill :: "Ref \<Rightarrow> prec list list \<Rightarrow> prec list list" where
  "kill br xss = map (map (kill1 br)) xss"

lemma kill1_ok: "rec_ok x \<Longrightarrow> rec_ok (kill1 br x)"
  by (cases x) auto

lemma length_header: "rec_ok x \<Longrightarrow> length (rec_header x) = 48 + length (itoa (length (rec_data x)))"
  using rec_digest_chars(1) [of x] by (simp add: rec_header_def)

lemma rec_data_kill1: "length (rec_data (kill1 br x)) = length (rec_data x)"
  by (cases x) simp_all

lemma length_kill1:
  assumes "rec_ok x"
  shows "length (rec_header (kill1 br x)) = length (rec_header x)" and "length (rec_bytes (kill1 br x)) = length (rec_bytes x)"
  using length_header [OF assms] length_header [OF kill1_ok [OF assms], of br] rec_data_kill1 [of br x] by (simp_all add: rec_bytes_def)

lemma pack_rows_kill:
  assumes "list_all rec_ok xs" and "ref_wf br"
  shows "pack_rows p off (map (kill1 br) xs) = filter (\<lambda>e. fst e \<noteq> ref_String br) (pack_rows p off xs)"
  using assms(1)
proof (induction xs arbitrary: off)
  case (Cons x xs)
  show ?case
  proof (cases x)
    case (Live r d)
    then have ok: "rec_ok (Live r d)" "ref_wf r" using Cons.prems by (simp_all add: ref_canonical_wf)
    have "ref_String r = ref_String br \<longleftrightarrow> r = br" using ref_String_inject ok(2) assms(2) by blast
    moreover have "length (rec_bytes (Dead (length d))) = length (rec_bytes (Live r d))" using length_kill1(2) [OF ok(1), of r] by simp
    ultimately show ?thesis using Cons Live ok(1) by (simp add: row_def del: rec_ok.simps)
  qed (use Cons in simp)
qed simp

lemma all_rows_kill:
  assumes "list_all (list_all rec_ok) xss" and "ref_wf br"
  shows "all_rows p (kill br xss) = filter (\<lambda>e. fst e \<noteq> ref_String br) (all_rows p xss)"
  using assms(1) by (induction xss arbitrary: p) (simp_all add: kill_def pack_rows_kill assms(2))

lemma live_kill1: "live (kill1 br x) = filter (\<lambda>e. fst e \<noteq> br) (live x)"
  by (cases x) simp_all

lemma lives_kill: "lives (kill br xss) = filter (\<lambda>e. fst e \<noteq> br) (lives xss)"
  by (simp add: lives_def kill_def map_concat [symmetric] filter_concat comp_def live_kill1)

lemma kill_absent: "br \<notin> set (map fst (lives xss)) \<Longrightarrow> kill br xss = xss"
proof -
  assume a: "br \<notin> set (map fst (lives xss))"
  have "kill1 br x = x" if "xs \<in> set xss" "x \<in> set xs" for xs x
    using a that by (cases x) (force simp: lives_def)+
  then show ?thesis by (simp add: kill_def map_idI)
qed

lemma kill_split:
  assumes "distinct (map fst (lives (pa @ (ys @ Live br d # zs) # pb)))"
  shows "kill br (pa @ (ys @ Live br d # zs) # pb) = pa @ (ys @ Dead (length d) # zs) # pb"
proof -
  have "br \<notin> set (map fst (lives pa))" "br \<notin> set (map fst (lives [ys]))" "br \<notin> set (map fst (lives [zs]))" "br \<notin> set (map fst (lives pb))"
    using assms by (simp_all del: set_map set_concat)
  note k = this [THEN kill_absent]
  show ?thesis using k by (simp add: kill_def)
qed

lemma packs_ok_kill:
  assumes "packs_ok xss"
  shows "packs_ok (kill br xss)"
proof -
  have "list_all (list_all rec_ok) (kill br xss)" using assms kill1_ok by (fastforce simp: kill_def list_all_iff)
  moreover have "distinct (map fst (lives (kill br xss)))" using assms by (simp add: lives_kill distinct_map_filter)
  ultimately show ?thesis ..
qed

subsection \<open>The bytes of a deleted record\<close>

lemma cross_out_rec:
  assumes "rec_ok (Live r d)"
  shows "cross_out (head_body (Live r d)) = Inr (head_body (Dead (length d)))"
proof -
  obtain hex where hex: "ref_String r = ''sha1-'' @ hex" "length hex = 40" "set hex \<subseteq> set hexDigit" using SHA1_String [of d] assms by auto
  let ?t = "0x20 # bytes_of_string (itoa (length d))"
  have c: "byte_of_char CHR ''-'' = 0x2D" "byte_of_char CHR '' '' = 0x20" by (simp_all add: byte_of_char_def)
  have b: "head_body (Live r d) = bytes_of_string ''sha1'' @ 0x2D # bytes_of_string hex @ ?t" by (simp add: head_body_def hex(1) c)
  have "0x2D \<notin> set (bytes_of_string ''sha1'')" by (simp add: byte_of_char_def)
  then have i: "index_byte (head_body (Live r d)) 0x2D = 4" unfolding b by (simp add: index_byte_first)
  have "CHR '' '' \<notin> set hexDigit" by (simp add: hexDigit_def)
  then have "0x20 \<notin> set (bytes_of_string hex)" using hex(3) byte_in_string [of "CHR '' ''" hex] unfolding c by blast
  then have j: "index_byte (drop 5 (head_body (Live r d))) 0x20 = 40" using hex(2) unfolding b by (simp add: index_byte_first)
  have k: "take 1 (drop 4 (head_body (Live r d))) = [0x2D]" "drop 45 (head_body (Live r d)) = ?t" using hex(2) by (simp_all add: b)
  have dead: "head_body (Dead (length d)) = replicate 4 (byte_of_char CHR ''x'') @ [0x2D] @ replicate 40 (byte_of_char CHR ''0'') @ ?t"
    by (simp add: head_body_def bytes_of_string_def c)
  show ?thesis unfolding cross_out_def c i Let_def dead using j k by simp
qed

lemma write_at_mid: "length b = length c \<Longrightarrow> off = length a \<Longrightarrow> write_at off b (a @ c @ e) = a @ b @ e"
  by (simp add: write_at_def)

lemma delete_bytes:
  assumes "rec_ok (Live r d)"
  shows "write_at (length a + length (rec_header (Live r d))) (replicate (length d) 0)
      (write_at (length a + 1) (head_body (Dead (length d))) (a @ rec_bytes (Live r d) @ e)) = a @ rec_bytes (Dead (length d)) @ e"
proof -
  let ?h = "head_body (Live r d)" and ?h' = "head_body (Dead (length d))"
  have l: "length ?h' = length ?h" using length_kill1(1) [OF assms, of r] by (simp add: rec_header_body)
  have "write_at (length a + 1) ?h' (a @ rec_bytes (Live r d) @ e) = (a @ [0x5B]) @ ?h' @ 0x5D # d @ e"
    using write_at_mid [of ?h' ?h "length a + 1" "a @ [0x5B]" "0x5D # d @ e"] l by (simp add: rec_bytes_def rec_header_body)
  also have "write_at (length a + length (rec_header (Live r d))) (replicate (length d) 0) \<dots> =
      (a @ 0x5B # ?h' @ [0x5D]) @ replicate (length d) 0 @ e"
    using write_at_mid [of "replicate (length d) 0" d "length a + length (rec_header (Live r d))" "a @ 0x5B # ?h' @ [0x5D]" e] l
    by (simp add: rec_header_body)
  finally show ?thesis by (simp add: rec_bytes_def rec_header_body)
qed

text \<open>The numbers of packs and of their bytes stay far below what a signed machine integer holds.\<close>

definition weight :: "prec list list \<Rightarrow> nat" where
  "weight xss = length xss + sum_list (map (\<lambda>xs. length (pack_bytes xs)) xss)"

abbreviation small :: "prec list list \<Rightarrow> bool" where
  "small xss \<equiv> weight xss < 2 ^ 63"

lemma weight_split:
  "length pa + length (pack_bytes ys) + length (rec_bytes x) < weight (pa @ (ys @ x # zs) # pb)"
  by (simp add: weight_def)

lemma wrap64_small: "- (2 ^ 63) \<le> x \<Longrightarrow> x < 2 ^ 63 \<Longrightarrow> wrap64 x = x"
  unfolding wrap64_def by (simp add: sint_sbintrunc' signed_take_bit_int_eq_self)

lemma wrap64_minus: "wrap64 (x - 2 ^ 64) = wrap64 x"
proof -
  have "(word_of_int (2 ^ 64) :: u64) = 0" by simp
  then show ?thesis by (simp only: wrap64_def wi_hom_sub [symmetric] diff_zero)
qed

lemma wrap64_of_nat:
  assumes "n < 2 ^ 63"
  shows "wrap64 (int n) = int n"
proof (rule wrap64_small)
  show "int n < 2 ^ 63" using assms of_nat_less_iff [of n "2 ^ 63", where 'a = int] by simp
qed simp

definition located :: "nat \<Rightarrow> nat \<Rightarrow> bytes \<Rightarrow> blobMeta" where
  "located p off d = \<lparr>bm_file = int p, bm_offset = int off, bm_size = of_nat (length d)\<rparr>"

lemma located_unat: "length d \<le> MaxBlobSize \<Longrightarrow> unat (bm_size (located p off d)) = length d"
  by (simp add: located_def unat_of_nat MaxBlobSize_def)

context sorted_kv
begin

lemma dp_meta_present:
  assumes "inv w" and "m w (ref_String br) = Some (meta_String (located p off d))" and "p < 2 ^ 63" and "off < 2 ^ 63" and "length d \<le> MaxBlobSize"
  shows "dp_meta kv br w = Inr (located p off d)"
proof -
  have "length d < 2 ^ 32" using assms(5) by (simp add: MaxBlobSize_def)
  then show ?thesis using Get [OF assms(1), of "ref_String br"] assms(2) parseBlobMeta_String [OF assms(3,4)]
    by (simp add: dp_meta_def located_def)
qed

lemma dp_meta_absent: "inv w \<Longrightarrow> m w (ref_String br) = None \<Longrightarrow> dp_meta kv br w = Inl ErrNotExist"
  using Get [of w "ref_String br"] by (simp add: dp_meta_def)

text \<open>The row of a blob is found, and points at its data.\<close>

lemma dp_meta_row:
  assumes "inv w" and "map_of (all_rows 0 xss) \<subseteq>\<^sub>m m w" and "packs_ok xss" and "small xss" and "xss = pa @ (ys @ Live br d # zs) # pb"
  shows "dp_meta kv br w = Inr (located (length pa) (length (pack_bytes ys) + length (rec_header (Live br d))) d)"
proof (rule dp_meta_present [OF assms(1)])
  let ?off = "length (pack_bytes ys) + length (rec_header (Live br d))"
  show "m w (ref_String br) = Some (meta_String (located (length pa) ?off d))"
    using row_located [OF assms(3,5)] assms(2) unfolding located_def by (auto simp: map_le_def dom_def)
  show "length d \<le> MaxBlobSize" using assms(3,5) by simp
  have "length pa + length (pack_bytes ys) + length (rec_bytes (Live br d)) < 2 ^ 63"
    using weight_split assms(4) unfolding assms(5) by (rule order.strict_trans)
  then show "length pa < 2 ^ 63" by simp
  show "?off < 2 ^ 63" using \<open>length pa + length (pack_bytes ys) + length (rec_bytes (Live br d)) < 2 ^ 63\<close> by (simp add: rec_bytes_def)
qed

lemma dp_delete_row:
  assumes "inv w" and "map_of (all_rows 0 xss) \<subseteq>\<^sub>m m w" and "packs_ok xss" and "small xss" and "dp_packs s = map pack_bytes xss"
    and "br \<in> fst ` set (lives xss)"
  shows "dp_delete kv br (s, w) = (None, s\<lparr>dp_packs := map pack_bytes (kill br xss)\<rparr>, w)"
proof -
  obtain d where "(br, d) \<in> set (lives xss)" using assms(6) by auto
  then obtain pa ys zs pb where x: "xss = pa @ (ys @ Live br d # zs) # pb" by (rule lives_split)
  let ?x = "Live br d" and ?off = "length (pack_bytes ys) + length (rec_header (Live br d))"
  have ok: "rec_ok ?x" using assms(3) x by simp
  note M = dp_meta_row [OF assms(1-4) x]
  have f: "dp_packs s ! length pa = pack_bytes ys @ rec_bytes ?x @ pack_bytes zs" using assms(5) x by (simp add: nth_append)
  have k: "length (rec_header ?x) = 1 + length (ref_String br) + 1 + length (itoa (length d)) + 1" by (simp add: rec_header_def)
  have b: "take (length (rec_header ?x)) (drop (length (pack_bytes ys)) (dp_packs s ! length pa)) = 0x5B # head_body ?x @ [0x5D]"
    unfolding f by (simp add: rec_bytes_def rec_header_body)
  have c: "byte_of_char CHR ''['' = 0x5B" "byte_of_char CHR '']'' = 0x5D" by (simp_all add: byte_of_char_def)
  have u: "unat (bm_size (located (length pa) ?off d)) = length d" using located_unat ok by simp
  have "kill br xss = pa @ (ys @ Dead (length d) # zs) # pb" using assms(3) unfolding x by (intro kill_split) blast
  then have "(dp_packs s)[length pa := pack_bytes ys @ rec_bytes (Dead (length d)) @ pack_bytes zs] = map pack_bytes (kill br xss)"
    using assms(5) x by (simp add: list_update_append)
  note new = this
  have n: "length pa < length (dp_packs s)" using assms(5) x by simp
  have lb: "length (0x5B # head_body ?x @ [0x5D]) = length (rec_header ?x)" by (simp add: rec_header_body)
  have "length (pack_bytes ys) < 2 ^ 63" using assms(4) by (simp add: x weight_def)
  then have o: "wrap64 (bm_offset (located (length pa) ?off d) - int (length (rec_header ?x))) = int (length (pack_bytes ys))"
    using wrap64_of_nat by (simp add: located_def)
  show ?thesis
    unfolding dp_delete_def Let_def prod.case M sum.case u k [symmetric] o
    using n b c lb cross_out_rec [OF ok] delete_bytes [OF ok, of "pack_bytes ys" "pack_bytes zs"] new f
    by (simp add: located_def nat_int_add)
qed

end

section \<open>The state of the storage\<close>

definition packed :: "prec list list \<Rightarrow> dpsto \<Rightarrow> bool" where
  "packed xss s \<longleftrightarrow> xss \<noteq> [] \<and> dp_packs s = map pack_bytes xss \<and> dp_fds s = length xss \<and>
     dp_writer s = Some (length xss - 1, length (pack_bytes (last xss))) \<and> dp_size s = int (length (pack_bytes (last xss))) \<and> \<not> dp_closed s"

lemma pack_bytes_kill: "list_all rec_ok xs \<Longrightarrow> length (pack_bytes (map (kill1 br) xs)) = length (pack_bytes xs)"
  by (induction xs) (simp_all add: length_kill1)

lemma kill_sizes:
  assumes "list_all (list_all rec_ok) xss"
  shows "map (\<lambda>xs. length (pack_bytes xs)) (kill br xss) = map (\<lambda>xs. length (pack_bytes xs)) xss"
  using assms pack_bytes_kill by (induction xss) (simp_all add: kill_def)

lemma weight_kill: "list_all (list_all rec_ok) xss \<Longrightarrow> weight (kill br xss) = weight xss"
  using kill_sizes [of xss br] by (simp add: weight_def kill_def del: map_map)

lemma packed_kill:
  assumes "packed xss s" and "list_all (list_all rec_ok) xss"
  shows "packed (kill br xss) (s\<lparr>dp_packs := map pack_bytes (kill br xss)\<rparr>)"
proof -
  have "xss \<noteq> []" using assms(1) by (simp add: packed_def)
  moreover from this have "list_all rec_ok (last xss)" using assms(2) last_in_set by (auto simp: list_all_iff)
  then have "length (pack_bytes (last (kill br xss))) = length (pack_bytes (last xss))"
    using \<open>xss \<noteq> []\<close> by (simp add: kill_def last_map pack_bytes_kill)
  ultimately show ?thesis using assms(1) unfolding packed_def by (simp add: kill_def)
qed

lemma map_of_keys_filter: "map_of (filter (\<lambda>e. fst e \<noteq> k) xs) = (map_of xs)(k := None)"
  by (induction xs) auto

text \<open>What deleting several blobs leaves.\<close>

lemma kills:
  assumes "packs_ok xss" and "list_all ref_wf brs"
  shows "packs_ok (fold kill brs xss)" and "weight (fold kill brs xss) = weight xss"
    and "map_of (all_rows p (fold kill brs xss)) = map_of (all_rows p xss) |` (- ref_String ` set brs)"
    and "map_of (lives (fold kill brs xss)) = map_of (lives xss) |` (- set brs)"
proof -
  have "packs_ok (fold kill brs xss) \<and> weight (fold kill brs xss) = weight xss \<and>
    map_of (all_rows p (fold kill brs xss)) = map_of (all_rows p xss) |` (- ref_String ` set brs) \<and>
    map_of (lives (fold kill brs xss)) = map_of (lives xss) |` (- set brs)"
    using assms
  proof (induction brs arbitrary: xss)
    case (Cons br brs)
    have "packs_ok (kill br xss)" "weight (kill br xss) = weight xss" using Cons.prems packs_ok_kill weight_kill by blast+
    moreover have "map_of (all_rows p (kill br xss)) = (map_of (all_rows p xss))(ref_String br := None)"
      "map_of (lives (kill br xss)) = (map_of (lives xss))(br := None)"
      using Cons.prems by (simp_all add: all_rows_kill lives_kill map_of_keys_filter)
    ultimately show ?case using Cons.IH [of "kill br xss"] Cons.prems(2) by (auto simp: restrict_map_def fun_eq_iff)
  qed (simp add: restrict_map_def)
  then show "packs_ok (fold kill brs xss)" "weight (fold kill brs xss) = weight xss"
    "map_of (all_rows p (fold kill brs xss)) = map_of (all_rows p xss) |` (- ref_String ` set brs)"
    "map_of (lives (fold kill brs xss)) = map_of (lives xss) |` (- set brs)" by blast+
qed

lemma lives_wf: "list_all (list_all rec_ok) xss \<Longrightarrow> br \<in> fst ` set (lives xss) \<Longrightarrow> ref_wf br"
  using lives_ok by fastforce

lemma batch_deletes: "fold (\<lambda>br b. batch_Delete b (ref_String br)) brs (KvBatch us) = KvBatch (us @ del_muts (map (\<lambda>br. (ref_String br, [])) brs))"
  by (induction brs arbitrary: us) (simp_all add: batch_Delete_def del_muts_def)

context sorted_kv
begin

lemma dp_deletes_rows:
  assumes "inv w" and "map_of (all_rows 0 xss) \<subseteq>\<^sub>m m w" and "packs_ok xss" and "small xss" and "packed xss s"
    and "distinct brs" and "set brs \<subseteq> fst ` set (lives xss)"
  shows "\<exists>s'. dp_deletes kv brs (s, w) = (None, s', w) \<and> packed (fold kill brs xss) s' \<and> dp_maxFileSize s' = dp_maxFileSize s"
  using assms(2-)
proof (induction brs arbitrary: xss s)
  case (Cons br brs)
  let ?xss = "kill br xss" and ?s = "s\<lparr>dp_packs := map pack_bytes (kill br xss)\<rparr>"
  have br: "br \<in> fst ` set (lives xss)" "ref_wf br" using Cons.prems(2,6) lives_wf by auto
  have d: "dp_delete kv br (s, w) = (None, ?s, w)"
    using Cons.prems(4) by (intro dp_delete_row [OF assms(1) Cons.prems(1-3) _ br(1)]) (simp add: packed_def)
  have "map_of (all_rows 0 ?xss) \<subseteq>\<^sub>m map_of (all_rows 0 xss)"
    using Cons.prems(2) br(2) by (simp add: all_rows_kill map_of_keys_filter map_le_def)
  then have "map_of (all_rows 0 ?xss) \<subseteq>\<^sub>m m w" using Cons.prems(1) by (rule map_le_trans)
  moreover have "packs_ok ?xss" "small ?xss" "packed ?xss ?s" using Cons.prems(2-4) packs_ok_kill weight_kill packed_kill by metis+
  moreover have "distinct brs" using Cons.prems(5) by simp
  moreover have "fst ` set (lives ?xss) = fst ` set (lives xss) - {br}" by (auto simp: lives_kill)
  then have "set brs \<subseteq> fst ` set (lives ?xss)" using Cons.prems(5,6) by auto
  ultimately have "\<exists>s'. dp_deletes kv brs (?s, w) = (None, s', w) \<and> packed (fold kill brs ?xss) s' \<and> dp_maxFileSize s' = dp_maxFileSize ?s"
    by (rule Cons.IH)
  then show ?case using d by auto
qed simp

lemma dp_RemoveBlobs_packed:
  assumes "inv w" and "m w = map_of (all_rows 0 xss)" and "packs_ok xss" and "small xss" and "packed xss s"
    and "distinct brs" and "set brs \<subseteq> fst ` set (lives xss)"
  shows "\<exists>s' w'. dp_RemoveBlobs kv brs (s, w) = Ret (None, s', w') \<and> packed (fold kill brs xss) s' \<and> inv w' \<and>
    m w' = map_of (all_rows 0 (fold kill brs xss)) \<and> dp_maxFileSize s' = dp_maxFileSize s"
proof -
  obtain s' where s': "dp_deletes kv brs (s, w) = (None, s', w)" "packed (fold kill brs xss) s'" "dp_maxFileSize s' = dp_maxFileSize s"
    using dp_deletes_rows [OF assms(1) _ assms(3-7)] assms(2) by auto
  let ?us = "del_muts (map (\<lambda>br. (ref_String br, [])) brs)"
  have wf: "list_all ref_wf brs" using assms(3,7) lives_wf unfolding list_all_iff by blast
  have "ref_String br \<in> dom (m w)" if "br \<in> set brs" for br
  proof -
    obtain d where "(br, d) \<in> set (lives xss)" using assms(7) \<open>br \<in> set brs\<close> by auto
    then obtain pa ys zs pb where "xss = pa @ (ys @ Live br d # zs) # pb" by (rule lives_split)
    from row_located [OF assms(3) this] show ?thesis using assms(2) by auto
  qed
  moreover have "inj_on ref_String (set brs)" using wf ref_String_inject by (auto simp: list_all_iff intro!: inj_onI)
  ultimately have "deletes_hit ?us (m w)" using assms(6) by (intro deletes_hit_del_muts) (simp_all add: comp_def distinct_map image_image image_subset_iff)
  from Commit [OF assms(1) this] obtain w' where "kv_CommitBatch kv (KvBatch ?us) w = (None, w')" "inv w'" "m w' = apply_muts ?us (m w)" by blast
  moreover from this(3) have "m w' = map_of (all_rows 0 (fold kill brs xss))"
    using kills(3) [OF assms(3) wf] assms(2) by (simp add: apply_del_muts image_image)
  ultimately show ?thesis using s' by (simp add: dp_RemoveBlobs_def BeginBatch batch_deletes)
qed

end

section \<open>Appending\<close>

lemma dp_write_end:
  assumes "dp_packs s = fs @ [f]" and "dp_writer s = Some (length fs, length f)"
  shows "dp_write b s = Ret (s\<lparr>dp_packs := fs @ [f @ b], dp_writer := Some (length fs, length f + length b), dp_size := dp_size s + int (length b)\<rparr>)"
  using assms by (simp add: dp_write_def write_at_def)

lemma nextPack_packed:
  assumes "packed xss s"
  shows "\<exists>s'. nextPack s = Ret s' \<and> packed (xss @ [[]]) s' \<and> dp_maxFileSize s' = dp_maxFileSize s"
  using assms by (simp add: nextPack_def openForWrite_def openForRead_def packed_def Let_def nth_append)

definition grow :: "prec list list \<Rightarrow> prec \<Rightarrow> prec list list" where
  "grow xss x = butlast xss @ [last xss @ [x]]"

text \<open>A pack may be followed by a fresh one, which holds nothing.\<close>

lemma grow_props:
  assumes "xss \<noteq> []" and "packs_ok xss" and "rec_ok (Live br d)" and "br \<notin> fst ` set (lives xss)" and "yss = [] \<or> yss = [[]]"
  shows "packs_ok (grow xss (Live br d) @ yss)"
    and "all_rows 0 (grow xss (Live br d) @ yss) = all_rows 0 xss @
      [(ref_String br, meta_String (located (length xss - 1) (length (pack_bytes (last xss)) + length (rec_header (Live br d))) d))]"
    and "lives (grow xss (Live br d) @ yss) = lives xss @ [(br, d)]"
    and "weight (grow xss (Live br d) @ yss) \<le> weight xss + 2 ^ 25"
proof -
  obtain fs f where x: "xss = fs @ [f]" using assms(1) by (cases xss rule: rev_cases) auto
  have y: "lives yss = []" "all_rows p yss = []" "list_all (list_all rec_ok) yss" for p
    using assms(5) by auto
  show l: "lives (grow xss (Live br d) @ yss) = lives xss @ [(br, d)]" using y(1) by (simp add: grow_def x)
  show "packs_ok (grow xss (Live br d) @ yss)" using assms(2-4) y(3) unfolding l by (auto simp: grow_def x image_Un)
  show "all_rows 0 (grow xss (Live br d) @ yss) = all_rows 0 xss @
      [(ref_String br, meta_String (located (length xss - 1) (length (pack_bytes (last xss)) + length (rec_header (Live br d))) d))]"
    using y(2) assms(3) by (simp add: grow_def x all_rows_append pack_rows_append row_def located_def del: rec_ok.simps)
  have "length (itoa (length d)) \<le> 9" using length_itoa [of "length d" 9] assms(3) by (simp add: MaxBlobSize_def)
  then have "length (rec_bytes (Live br d)) \<le> MaxBlobSize + 60" using length_header [OF assms(3)] assms(3) by (simp add: rec_bytes_def)
  then show "weight (grow xss (Live br d) @ yss) \<le> weight xss + 2 ^ 25"
    using assms(5) by (elim disjE) (simp_all add: grow_def x weight_def MaxBlobSize_def)
qed

text \<open>An append writes the record, goes to the next pack when this one is full, and then sets the row.\<close>

lemma dp_append_writes:
  assumes "packed xss s" and "rec_ok (Live br d)"
  shows "\<exists>s' yss. yss = (if int (length (pack_bytes (last xss @ [Live br d]))) > dp_maxFileSize s then [[]] else []) \<and>
    packed (grow xss (Live br d) @ yss) s' \<and> dp_maxFileSize s' = dp_maxFileSize s \<and>
    dp_append index (sized br d) d (s, w) =
      (let (err, w) = kv_Set index (ref_String br) (meta_String (located (length xss - 1) (length (pack_bytes (last xss)) + length (rec_header (Live br d))) d)) w
       in Ret (err, if err \<noteq> None then undo_append (dp_size s) s' else s', w))"
proof -
  let ?h = "rec_header (Live br d)"
  obtain fs f where x: "xss = fs @ [f]" using assms(1) by (cases xss rule: rev_cases) (auto simp: packed_def)
  have u: "unat (of_nat (length d) :: u32) = length d" using assms(2) by (simp add: unat_of_nat MaxBlobSize_def)
  then have h: "pack_header (sized br d) = ?h" "uint (sr_Size (sized br d)) = int (length d)"
    by (simp_all add: pack_header_def rec_header_def sized_def uint_nat del: unsigned_of_nat)
  have p: "dp_packs s = map pack_bytes fs @ [pack_bytes f]" "dp_writer s = Some (length (map pack_bytes fs), length (pack_bytes f))"
    "dp_size s = int (length (pack_bytes f))" "dp_fds s = length fs + 1" "\<not> dp_closed s" using assms(1) by (simp_all add: packed_def x)
  define s1 where "s1 = s\<lparr>dp_packs := map pack_bytes fs @ [pack_bytes f @ ?h], dp_writer := Some (length (map pack_bytes fs), length (pack_bytes f @ ?h)),
    dp_size := dp_size s + int (length ?h)\<rparr>"
  have w1: "dp_write ?h s = Ret s1" using dp_write_end [OF p(1,2), of ?h] by (simp add: s1_def)
  define s2 where "s2 = s1\<lparr>dp_packs := map pack_bytes fs @ [(pack_bytes f @ ?h) @ d], dp_writer := Some (length (map pack_bytes fs), length (pack_bytes f @ ?h) + length d),
    dp_size := dp_size s1 + int (length d)\<rparr>"
  have w2: "dp_write d s1 = Ret s2" unfolding s2_def by (rule dp_write_end) (simp_all add: s1_def)
  have s2: "packed (grow xss (Live br d)) s2" "dp_size s2 = int (length (pack_bytes (last xss @ [Live br d])))" "dp_maxFileSize s2 = dp_maxFileSize s"
    using p by (simp_all add: packed_def grow_def x s2_def s1_def rec_bytes_def)
  define yss :: "prec list list" where "yss = (if dp_size s2 > dp_maxFileSize s2 then [[]] else [])"
  have "\<exists>s3. (if dp_size s2 > dp_maxFileSize s2 then nextPack s2 else Ret s2) = Ret s3 \<and> packed (grow xss (Live br d) @ yss) s3 \<and>
    dp_maxFileSize s3 = dp_maxFileSize s2"
  proof (cases "dp_size s2 > dp_maxFileSize s2")
    case True
    then show ?thesis using nextPack_packed [OF s2(1)] unfolding yss_def by (simp only: if_True)
  next
    case False
    then show ?thesis using s2(1) unfolding yss_def by (simp only: if_False append_Nil2) blast
  qed
  then obtain s3 where s3: "(if dp_size s2 > dp_maxFileSize s2 then nextPack s2 else Ret s2) = Ret s3"
    "packed (grow xss (Live br d) @ yss) s3" "dp_maxFileSize s3 = dp_maxFileSize s2" by blast
  have "int (snd (the (dp_writer s1))) = dp_size s1" "sr_Ref (sized br d) = br"
    "\<lparr>bm_file = int (dp_fds s2) - 1, bm_offset = dp_size s1, bm_size = sr_Size (sized br d)\<rparr> =
      located (length xss - 1) (length (pack_bytes (last xss)) + length ?h) d"
    using p(3,4) by (simp_all add: s1_def s2_def located_def sized_def x)
  then have "dp_append index (sized br d) d (s, w) =
      (let (err, w) = kv_Set index (ref_String br) (meta_String (located (length xss - 1) (length (pack_bytes (last xss)) + length ?h) d)) w
       in Ret (err, if err \<noteq> None then undo_append (dp_size s) s3 else s3, w))"
    using p(5) w1 w2 s3(1) h(2) by (simp add: dp_append_def h(1) Let_def)
  moreover have "yss = (if int (length (pack_bytes (last xss @ [Live br d]))) > dp_maxFileSize s then [[]] else [])" by (simp only: yss_def s2(2,3))
  moreover have "dp_maxFileSize s3 = dp_maxFileSize s" using s2(3) s3(3) by simp
  ultimately show ?thesis using s3(2) by blast
qed

context sorted_kv
begin

lemma dp_append_packed:
  assumes "inv w" and "m w = map_of (all_rows 0 xss)" and "packs_ok xss" and "packed xss s" and "rec_ok (Live br d)" and "br \<notin> fst ` set (lives xss)"
  shows "\<exists>s' w' yss. dp_append kv (sized br d) d (s, w) = Ret (None, s', w') \<and> (yss = [] \<or> yss = [[]]) \<and> packed (grow xss (Live br d) @ yss) s' \<and>
    inv w' \<and> m w' = map_of (all_rows 0 (grow xss (Live br d) @ yss)) \<and> dp_maxFileSize s' = dp_maxFileSize s"
proof -
  let ?loc = "located (length xss - 1) (length (pack_bytes (last xss)) + length (rec_header (Live br d))) d"
  obtain s' yss where y: "yss = (if int (length (pack_bytes (last xss @ [Live br d]))) > dp_maxFileSize s then [[]] else [])"
    and s': "packed (grow xss (Live br d) @ yss) s'" "dp_maxFileSize s' = dp_maxFileSize s"
    "dp_append kv (sized br d) d (s, w) = (let (err, w) = kv_Set kv (ref_String br) (meta_String ?loc) w
       in Ret (err, if err \<noteq> None then undo_append (dp_size s) s' else s', w))" using dp_append_writes [OF assms(4,5), of kv w] by blast
  have ys: "yss = [] \<or> yss = [[]]" by (simp add: y)
  obtain w' where w': "kv_Set kv (ref_String br) (meta_String ?loc) w = (None, w')" "inv w'" "m w' = (m w)(ref_String br \<mapsto> meta_String ?loc)"
    using Set [OF assms(1)] by blast
  have "xss \<noteq> []" using assms(4) by (simp add: packed_def)
  note G = grow_props(2) [OF this assms(3,5,6) ys]
  have "map_of (all_rows 0 xss) (ref_String br) = None"
    using assms(5,6) by (intro row_absent [OF assms(3)]) (simp_all add: ref_canonical_wf map_of_eq_None_iff)
  then have "m w' = map_of (all_rows 0 (grow xss (Live br d) @ yss))"
    unfolding w'(3) G assms(2) by (auto simp: fun_eq_iff map_add_def split: option.split)
  then show ?thesis using s' ys w'(1,2) by auto
qed

end

section \<open>Enumerating\<close>

definition row_sized :: "kvpair \<Rightarrow> SizedRef" where
  "row_sized e = meta_SizedRef (the (parseBlobMeta (snd e))) (fst (Parse (fst e)))"

lemma dp_enum_loop_take:
  assumes "it_rest it = es" and "it_closeErr it = None" and "\<forall>e \<in> set es. snd (Parse (fst e)) \<and> parseBlobMeta (snd e) \<noteq> None"
  shows "dp_enum_loop None after it limit n = (map row_sized (take (nat limit) (filter (\<lambda>e. after < fst e) es)), None)"
  using assms
proof (induction es arbitrary: it limit n)
  case Nil
  then show ?case by (subst dp_enum_loop.simps) (simp add: it_Next_def it_Close_def)
next
  case (Cons e es)
  let ?it = "it\<lparr>it_rest := es, it_cur := Some e\<rparr>"
  have n: "it_Next it = (True, ?it)" "it_Key ?it = fst e" "it_Value ?it = snd e"
    using Cons.prems(1) by (simp_all add: it_Next_def it_Key_def it_Value_def)
  have IH: "dp_enum_loop None after ?it l k = (map row_sized (take (nat l) (filter (\<lambda>e. after < fst e) es)), None)" for l k
    using Cons.prems by (intro Cons.IH) simp_all
  obtain br mt where e: "Parse (fst e) = (br, True)" "parseBlobMeta (snd e) = Some mt" using Cons.prems(3) by (cases "Parse (fst e)") auto
  show ?case
  proof (cases "limit > 0")
    case True
    then have "nat limit = Suc (nat (limit - 1))" by simp
    then show ?thesis using True by (subst dp_enum_loop.simps) (auto simp: n IH e row_sized_def Let_def not_less)
  next
    case False
    then show ?thesis using Cons.prems(2) by (subst dp_enum_loop.simps) (simp add: it_Close_def)
  qed
qed

section \<open>The storage and its map\<close>

definition dp_state :: "('w \<Rightarrow> string \<rightharpoonup> string) \<Rightarrow> ('w \<Rightarrow> bool) \<Rightarrow> prec list list \<Rightarrow> dpsto \<times> 'w \<Rightarrow> bool" where
  "dp_state m I xss sw \<longleftrightarrow> packs_ok xss \<and> packed xss (fst sw) \<and> I (snd sw) \<and> m (snd sw) = map_of (all_rows 0 xss)"

context sorted_kv
begin

lemma dp_meta_cases:
  assumes "dp_state m inv xss sw" and "small xss" and "ref_wf br"
  obtains (absent) "map_of (lives xss) br = None" and "dp_meta kv br (snd sw) = Inl ErrNotExist"
  | (present) pa ys d zs pb where "map_of (lives xss) br = Some d" and "xss = pa @ (ys @ Live br d # zs) # pb" and "length d \<le> MaxBlobSize"
    and "dp_meta kv br (snd sw) = Inr (located (length pa) (length (pack_bytes ys) + length (rec_header (Live br d))) d)"
proof (cases "map_of (lives xss) br")
  case None
  then have "map_of (all_rows 0 xss) (ref_String br) = None" using assms by (intro row_absent) (simp_all add: dp_state_def)
  then show thesis using absent None dp_meta_absent assms(1) unfolding dp_state_def by metis
next
  case (Some d)
  then have "(br, d) \<in> set (lives xss)" by (rule map_of_SomeD)
  then obtain pa ys zs pb where x: "xss = pa @ (ys @ Live br d # zs) # pb" by (rule lives_split)
  have s: "packs_ok xss" "inv (snd sw)" "map_of (all_rows 0 xss) \<subseteq>\<^sub>m m (snd sw)" using assms(1) by (simp_all add: dp_state_def)
  then have "length d \<le> MaxBlobSize" using x by simp
  then show thesis using present Some x dp_meta_row [OF s(2,3,1) assms(2) x] by blast
qed

lemma located_file:
  assumes "dp_state m inv xss sw" and "small xss" and "xss = pa @ (ys @ Live br d # zs) # pb" and "length d \<le> MaxBlobSize"
  defines "M \<equiv> located (length pa) (length (pack_bytes ys) + length (rec_header (Live br d))) d"
  shows "bm_file M = int (length pa)" and "length pa < dp_fds (fst sw)" and "length pa < length (dp_packs (fst sw))" and "uint (bm_size M) = int (length d)"
    and "wrap64 (bm_offset M + uint (bm_size M)) \<le> int (length (dp_packs (fst sw) ! length pa))"
    and "k + l \<le> length d \<Longrightarrow>
      pack_section False (dp_packs (fst sw) ! length pa) (wrap64 (bm_offset M + int k)) (int l) = bytes_reader (take l (drop k d))"
    and "meta_SizedRef M br = sized br d" and "bm_size M = of_nat (length d)" and "wrap64 (bm_offset M) = bm_offset M" and "\<not> dp_closed (fst sw)"
proof -
  have f: "dp_packs (fst sw) ! length pa = pack_bytes ys @ rec_header (Live br d) @ d @ pack_bytes zs"
    using assms(1,3) by (simp add: dp_state_def packed_def nth_append rec_bytes_def)
  show "bm_file M = int (length pa)" "meta_SizedRef M br = sized br d" "bm_size M = of_nat (length d)"
    by (simp_all add: M_def located_def meta_SizedRef_def sized_def)
  show "length pa < dp_fds (fst sw)" "length pa < length (dp_packs (fst sw))" "\<not> dp_closed (fst sw)" using assms(1,3) by (simp_all add: dp_state_def packed_def)
  show s: "uint (bm_size M) = int (length d)" using located_unat [OF assms(4)] by (simp add: M_def uint_nat)
  let ?off = "length (pack_bytes ys) + length (rec_header (Live br d))"
  have o: "bm_offset M = int ?off" by (simp add: M_def located_def)
  have w: "wrap64 (int (?off + n)) = int (?off + n)" if "n \<le> length d" for n
    using assms(2) that by (intro wrap64_of_nat) (simp add: assms(3) weight_def rec_bytes_def)
  then show "wrap64 (bm_offset M) = bm_offset M" using w [of 0] unfolding o by simp
  show "wrap64 (bm_offset M + uint (bm_size M)) \<le> int (length (dp_packs (fst sw) ! length pa))" using w [of "length d"] unfolding f s o by simp
  assume "k + l \<le> length d"
  then have k: "wrap64 (bm_offset M + int k) = int (?off + k)" "wrap64 (int (?off + k) + int l) = int (?off + (k + l))"
    using w [of k] w [of "k + l"] unfolding o by (simp_all add: add.assoc)
  have "take l (drop (?off + k) (pack_bytes ys @ rec_header (Live br d) @ d @ pack_bytes zs)) = take l (drop k d)"
    using \<open>k + l \<le> length d\<close> by simp
  moreover have "int (?off + (k + l)) - int (?off + k) = int l" by simp
  ultimately show "pack_section False (dp_packs (fst sw) ! length pa) (wrap64 (bm_offset M + int k)) (int l) = bytes_reader (take l (drop k d))"
    unfolding f k(1) pack_section_def k(2) Let_def by (auto simp only: nat_int) simp
qed

lemma dp_Fetch_state:
  assumes "dp_state m inv xss sw" and "small xss" and "ref_wf br"
  shows "dp_Fetch kv br sw = Ret (fetch_spec (map_of (lives xss)) br, sw)"
  using assms
proof (cases rule: dp_meta_cases)
  case absent
  then show ?thesis by (simp add: dp_Fetch_def dp_fetch_def fetch_spec_def)
next
  case (present pa ys d zs pb)
  note L = located_file [OF assms(1,2) present(2,3)]
  show ?thesis using present(1,4) L(1-4,8-10) L(6) [of 0 "length d"] by (simp add: dp_Fetch_def dp_fetch_def fetch_spec_def Let_def)
qed

lemma dp_SubFetch_state:
  assumes "dp_state m inv xss sw" and "small xss" and "map_of (lives xss) br = Some d" and "off \<le> length d" and "off + len < 2 ^ 63"
  shows "dp_SubFetch kv br (int off) (int len) sw = Ret (Some (bytes_reader (take len (drop off d))), None)"
proof -
  have "ref_wf br" using lives_ok [OF _ map_of_SomeD [OF assms(3)]] assms(1) unfolding dp_state_def by blast
  with assms(1,2) show ?thesis
  proof (cases rule: dp_meta_cases)
  case (present pa ys d' zs pb)
  then have d: "d' = d" using assms(3) by simp
  note L = located_file [OF assms(1,2) present(2,3), unfolded d]
  define l where "l = min len (length d - off)"
  have l: "off + l \<le> length d" "take l (drop off d) = take len (drop off d)" using assms(4) by (auto simp: l_def min_def)
  have "int l = (if int off + int len > int (length d) then int (length d) - int off else int len)" using assms(4) by (auto simp: l_def)
  moreover have "wrap64 (int off + int len) = int off + int len" using wrap64_of_nat [OF assms(5)] by simp
  ultimately show ?thesis using present(4) d L(1-4,8,10) L(6) [OF l(1)] l(2) assms(4) by (auto simp: dp_SubFetch_def dp_fetch_def Let_def)
  qed (use assms(3) in simp)
qed

lemma dp_stats_state:
  assumes "dp_state m inv xss sw" and "small xss" and "list_all ref_wf brs"
  shows "dp_stats kv brs (snd sw) = (stat_spec (map_of (lives xss)) brs, None)"
  using assms(3)
proof (induction brs)
  case (Cons br brs)
  then have "ref_wf br" by simp
  with assms(1,2) show ?case
  proof (cases rule: dp_meta_cases)
    case absent
    then show ?thesis using Cons by (simp add: stat_spec_def)
  next
    case (present pa ys d zs pb)
    then show ?thesis using Cons located_file(7) [OF assms(1,2) present(2,3)] by (simp add: stat_spec_def)
  qed
qed (simp add: stat_spec_def)

lemma dp_ReceiveBlob_state:
  assumes "dp_state m inv xss sw" and "small xss" and "br = SHA1FromBytes d" and "length d \<le> MaxBlobSize"
  shows "\<exists>sw' xss'. dp_ReceiveBlob kv br (bytes_reader d) sw = Ret ((sized br d, None, ReadToEnd), sw') \<and> dp_state m inv xss' sw' \<and>
    map_of (lives xss') = put (map_of (lives xss)) br d \<and> weight xss' \<le> weight xss + 2 ^ 25"
proof -
  have wf: "ref_wf br" and ok: "rec_ok (Live br d)" using assms(3,4) by (simp_all add: ref_canonical_wf)
  from assms(1,2) wf show ?thesis
  proof (cases rule: dp_meta_cases)
    case absent
    obtain s w where sw: "sw = (s, w)" by (cases sw)
    have st: "inv w" "m w = map_of (all_rows 0 xss)" "packs_ok xss" "packed xss s" "xss \<noteq> []" using assms(1) by (simp_all add: sw dp_state_def packed_def)
    have br: "br \<notin> fst ` set (lives xss)" using absent(1) by (simp add: map_of_eq_None_iff)
    obtain s' w' yss where r: "dp_append kv (sized br d) d (s, w) = Ret (None, s', w')" "yss = [] \<or> yss = [[]]"
      "packed (grow xss (Live br d) @ yss) s'" "inv w'" "m w' = map_of (all_rows 0 (grow xss (Live br d) @ yss))"
      using dp_append_packed [OF st(1-4) ok br] by blast
    note G = grow_props [OF st(5,3) ok br r(2)]
    have "map_of (lives (grow xss (Live br d) @ yss)) = put (map_of (lives xss)) br d"
      using absent(1) unfolding G(3) by (auto simp: put_def fun_eq_iff map_add_def split: option.split)
    moreover have "dp_state m inv (grow xss (Live br d) @ yss) (s', w')" using G(1) r(3-5) by (simp add: dp_state_def)
    moreover have "dp_ReceiveBlob kv br (bytes_reader d) sw = Ret ((sized br d, None, ReadToEnd), s', w')"
      using absent(2) r(1) by (simp add: dp_ReceiveBlob_def sw sized_def Let_def)
    ultimately show ?thesis using G(4) by blast
  next
    case (present pa ys d' zs pb)
    note L = located_file [OF assms(1,2) present(2,3)]
    have "dp_ReceiveBlob kv br (bytes_reader d) sw = Ret ((sized br d, None, ReadToEnd), sw)"
      using present(4) L(1,3,5) by (simp add: dp_ReceiveBlob_def sized_def Let_def)
    moreover have "put (map_of (lives xss)) br d = map_of (lives xss)" using present(1) by (simp add: put_def)
    ultimately show ?thesis using assms(1) by (intro exI [of _ sw] exI [of _ xss]) simp
  qed
qed

lemma dp_RemoveBlobs_state:
  assumes "dp_state m inv xss sw" and "small xss" and "distinct brs" and "set brs \<subseteq> dom (map_of (lives xss))"
  shows "\<exists>sw' xss'. dp_RemoveBlobs kv brs sw = Ret (None, sw') \<and> dp_state m inv xss' sw' \<and>
    map_of (lives xss') = map_of (lives xss) |` (- set brs) \<and> weight xss' = weight xss"
proof -
  obtain s w where sw: "sw = (s, w)" by (cases sw)
  have st: "inv w" "m w = map_of (all_rows 0 xss)" "packs_ok xss" "packed xss s" using assms(1) by (simp_all add: sw dp_state_def)
  have brs: "set brs \<subseteq> fst ` set (lives xss)" using assms(4) by (simp add: dom_map_of_conv_image_fst)
  then have wf: "list_all ref_wf brs" using st(3) lives_wf unfolding list_all_iff by blast
  obtain s' w' where "dp_RemoveBlobs kv brs (s, w) = Ret (None, s', w')" "packed (fold kill brs xss) s'" "inv w'"
    "m w' = map_of (all_rows 0 (fold kill brs xss))" using dp_RemoveBlobs_packed [OF st(1-3) assms(2) st(4) assms(3) brs] by blast
  then show ?thesis using kills [OF st(3) wf] by (intro exI [of _ "(s', w')"] exI [of _ "fold kill brs xss"]) (simp add: sw dp_state_def)
qed

lemma row_entry:
  assumes "dp_state m inv xss sw" and "small xss" and "m (snd sw) k = Some v"
  obtains br d where "k = ref_String br" and "ref_canonical br" and "map_of (lives xss) br = Some d" and "parseBlobMeta v \<noteq> None"
    and "Parse k = (br, True)" and "row_sized (k, v) = sized br d"
proof -
  have st: "packs_ok xss" "inv (snd sw)" "m (snd sw) = map_of (all_rows 0 xss)" using assms(1) by (simp_all add: dp_state_def)
  have "k \<in> set (map fst (all_rows 0 xss))" using assms(3) st(3) map_of_SomeD by (force simp: image_iff)
  then have "k \<in> set (map (\<lambda>e. ref_String (fst e)) (lives xss))" using st(1) by (metis all_rows_keys)
  then obtain br d where br: "(br, d) \<in> set (lives xss)" "k = ref_String br" by auto
  then have c: "ref_canonical br" "ref_wf br" "map_of (lives xss) br = Some d" using st(1) lives_ok [of xss br d] by auto
  from assms(1,2) c(2) show thesis
  proof (cases rule: dp_meta_cases)
    case (present pa ys d' zs pb)
    have "parseBlobMeta v = Some (located (length pa) (length (pack_bytes ys) + length (rec_header (Live br d'))) d')"
      using present(4) Get [OF st(2), of k] assms(3) br(2) by (simp add: dp_meta_def split: option.splits)
    moreover have "Parse k = (br, True)" using br(2) c(2) by (simp add: Parse_String)
    ultimately show thesis using that [of br d] br(2) c present(1) located_file(7) [OF assms(1,2) present(2,3)] by (simp add: row_sized_def)
  qed (use c(3) in simp)
qed

lemma dp_EnumerateBlobs_state:
  assumes "dp_state m inv xss sw" and "small xss"
  shows "dp_EnumerateBlobs kv None after limit sw = Ret (enum_spec (map_of (lives xss)) after (nat limit), None)"
proof -
  let ?w = "snd sw" and ?M = "map_of (lives xss)"
  let ?es = "it_rest (kv_Find kv after [] ?w)"
  let ?fs = "filter (\<lambda>e. after < fst e) ?es"
  have I: "inv ?w" using assms(1) by (simp add: dp_state_def)
  have mem: "e \<in> set ?es \<longleftrightarrow> m ?w (fst e) = Some (snd e) \<and> after \<le> fst e" for e
    using Find_mem [OF I, of "fst e" "snd e" after "[]"] by (simp add: in_range_def)
  have entry: "\<exists>br d. fst e = ref_String br \<and> ref_canonical br \<and> ?M br = Some d \<and> Parse (fst e) = (br, True) \<and>
      parseBlobMeta (snd e) \<noteq> None \<and> row_sized e = sized br d" if "m ?w (fst e) = Some (snd e)" for e
    by (rule row_entry [OF assms that, unfolded prod.collapse]) auto
  have "dp_enum_loop None after (kv_Find kv after [] ?w) limit 0 = (map row_sized (take (nat limit) ?fs), None)"
    using Find_fresh [OF I] entry mem by (intro dp_enum_loop_take) fastforce+
  moreover have "map row_sized (take (nat limit) ?fs) = enum_spec ?M after (nat limit)"
  proof (rule map_enum_spec)
    have "map (\<lambda>e. sr_Ref (row_sized e)) ?fs = sorted_list_of_set (refs_after ?M after)" (is "map ?f ?fs = _")
    proof (rule strict_sorted_eqI)
      have "sorted_wrt (\<lambda>a b. fst a < fst b) ?fs" using Find_sorted [OF I] unfolding sorted_wrt_map by (rule sorted_wrt_filter)
      moreover have "?f x < ?f y" if xy: "x \<in> set ?fs" "y \<in> set ?fs" "fst x < fst y" for x y
      proof -
        have "m ?w (fst x) = Some (snd x)" "m ?w (fst y) = Some (snd y)" using xy(1,2) mem by auto
        then obtain a b where "?f x = a" "fst x = ref_String a" "ref_canonical a" "?f y = b" "fst y = ref_String b" "ref_canonical b"
          using entry by (fastforce simp: sized_def)
        then show ?thesis using xy(3) ref_less_iff_String [of a b] by simp
      qed
      ultimately show "sorted_wrt (<) (map ?f ?fs)" unfolding sorted_wrt_map by (auto intro: sorted_wrt_mono_rel [rotated])
      have "br \<in> ?f ` set ?fs \<longleftrightarrow> br \<in> refs_after ?M after" for br
      proof
        assume "br \<in> ?f ` set ?fs"
        then obtain e where e: "e \<in> set ?es" "after < fst e" "br = ?f e" by auto
        then show "br \<in> refs_after ?M after" using entry [of e] mem [of e] by (auto simp: refs_after_def sized_def)
      next
        assume br: "br \<in> refs_after ?M after"
        then obtain d where d: "?M br = Some d" "after < ref_String br" by (auto simp: refs_after_def)
        have ok: "packs_ok xss" "m ?w = map_of (all_rows 0 xss)" using assms(1) by (simp_all add: dp_state_def)
        obtain pa ys zs pb where x: "xss = pa @ (ys @ Live br d # zs) # pb" using lives_split [OF map_of_SomeD [OF d(1)]] .
        then obtain v where v: "m ?w (ref_String br) = Some v" using row_located [OF ok(1) x] ok(2) by simp
        have "ref_wf br" using lives_ok [OF _ map_of_SomeD [OF d(1)]] ok(1) by blast
        then have "?f (ref_String br, v) = br" using entry [of "(ref_String br, v)"] v by (auto simp: Parse_String sized_def)
        moreover have "(ref_String br, v) \<in> set ?fs" using mem [of "(ref_String br, v)"] v d(2) by auto
        ultimately show "br \<in> ?f ` set ?fs" by force
      qed
      moreover have "finite (refs_after ?M after)" using refs_after_subset finite_dom_map_of by (rule finite_subset)
      ultimately show "set (map ?f ?fs) = set (sorted_list_of_set (refs_after ?M after))" by (simp only: set_map set_eq_iff set_sorted_list_of_set) blast
    qed simp
    then show "map sr_Ref (map row_sized (take (nat limit) ?fs)) = take (nat limit) (sorted_list_of_set (refs_after ?M after))"
      by (simp add: take_map [symmetric] comp_def)
    fix x
    assume "x \<in> set (map row_sized (take (nat limit) ?fs))"
    then obtain e where "e \<in> set ?fs" "x = row_sized e" by (auto dest: in_set_takeD)
    then show "\<exists>b. ?M (sr_Ref x) = Some b \<and> x = sized (sr_Ref x) b" using entry [of e] mem [of e] by (auto simp: sized_def)
  qed
  ultimately show ?thesis by (simp add: dp_EnumerateBlobs_def)
qed

end

section \<open>Reindexing\<close>

lemma reindex_visit_None: "fst (reindex_visit kv ow w p r off sz st) = None"
  by (simp add: reindex_visit_def Let_def split: prod.split option.split)

lemma reindex_overwrites:
  "fold (\<lambda>(r, off, sz) st. snd (reindex_visit kv True w p r (int off) (of_nat sz) st)) vs (KvBatch us, ok, ms) =
    (KvBatch (us @ set_muts (map (row p) (filter (\<lambda>v. ref_Valid (fst v)) vs))), ok, ms)"
  by (induction vs arbitrary: us) (auto simp: reindex_visit_def row_def set_muts_def batch_Set_def)

context sorted_kv
begin

lemma reindex_checks:
  assumes "inv w" and "\<forall>v \<in> set vs. ref_Valid (fst v) \<longrightarrow> m w (fst (row p v)) = Some (snd (row p v))"
  shows "fold (\<lambda>(r, off, sz) st. snd (reindex_visit kv False w p r (int off) (of_nat sz) st)) vs (b, True, []) = (b, True, [])"
  using assms(2) by (induction vs) (auto simp: reindex_visit_def row_def Get [OF assms(1)])

lemma reindexOne_overwrite:
  assumes "inv w" and "list_all rec_ok xs" and "distinct (map fst (pack_rows p 0 xs))"
  shows "\<exists>w'. reindexOne kv True p (pack_bytes xs) w = (None, w') \<and> inv w' \<and> m w' = m w ++ map_of (pack_rows p 0 xs)"
proof -
  have "walkPack (pack_bytes xs) p (reindex_visit kv True w) 0 (KvBatch [], True, []) = (None, KvBatch (set_muts (pack_rows p 0 xs)), True, [])"
    using walkPack_visits [OF assms(2), where pre = "[]" and walker = "reindex_visit kv True w" and p = p]
    by (simp add: reindex_visit_None reindex_overwrites pack_rows_def)
  then show ?thesis using Commit [OF assms(1) deletes_hit_set_muts, of "pack_rows p 0 xs"] apply_set_muts [OF assms(3)]
    by (simp add: reindexOne_def BeginBatch)
qed

lemma reindexOne_check:
  assumes "inv w" and "list_all rec_ok xs" and "\<forall>e \<in> set (pack_rows p 0 xs). m w (fst e) = Some (snd e)"
  shows "reindexOne kv False p (pack_bytes xs) w = (None, w)"
proof -
  have "\<forall>v \<in> set (visits 0 xs). ref_Valid (fst v) \<longrightarrow> m w (fst (row p v)) = Some (snd (row p v))"
    using assms(3) by (fastforce simp: pack_rows_def)
  then have "walkPack (pack_bytes xs) p (reindex_visit kv False w) 0 (KvBatch [], True, []) = (None, KvBatch [], True, [])"
    using walkPack_visits [OF assms(2), where pre = "[]" and walker = "reindex_visit kv False w" and p = p]
    by (simp add: reindex_visit_None reindex_checks [OF assms(1)])
  then show ?thesis by (simp add: reindexOne_def BeginBatch)
qed

lemma reindex_packs_overwrite:
  assumes "inv w" and "list_all (list_all rec_ok) xss" and "distinct (map fst (all_rows i xss))"
  shows "\<exists>w'. reindex_packs kv True i (map pack_bytes xss) w = (None, w') \<and> inv w' \<and> m w' = m w ++ map_of (all_rows i xss)"
  using assms
proof (induction xss arbitrary: i w)
  case (Cons xs xss)
  have d: "distinct (map fst (pack_rows i 0 xs))" "distinct (map fst (all_rows (i + 1) xss))"
    "dom (map_of (pack_rows i 0 xs)) \<inter> dom (map_of (all_rows (i + 1) xss)) = {}"
    using Cons.prems(3) by (simp_all add: dom_map_of_conv_image_fst)
  obtain w1 where w1: "reindexOne kv True i (pack_bytes xs) w = (None, w1)" "inv w1" "m w1 = m w ++ map_of (pack_rows i 0 xs)"
    using reindexOne_overwrite [OF Cons.prems(1) _ d(1)] Cons.prems(2) by auto
  obtain w2 where "reindex_packs kv True (i + 1) (map pack_bytes xss) w1 = (None, w2)" "inv w2" "m w2 = m w1 ++ map_of (all_rows (i + 1) xss)"
    using Cons.IH [OF w1(2) _ d(2)] Cons.prems(2) by auto
  then show ?case using w1(1,3) map_add_comm [OF d(3)] by (simp del: map_add_assoc add: map_add_assoc [symmetric])
qed simp

lemma reindex_packs_check:
  assumes "inv w" and "list_all (list_all rec_ok) xss" and "\<forall>e \<in> set (all_rows i xss). m w (fst e) = Some (snd e)"
  shows "reindex_packs kv False i (map pack_bytes xss) w = (None, w)"
  using assms(2,3) by (induction xss arbitrary: i) (simp_all add: reindexOne_check [OF assms(1)])

end

text \<open>A sequence of receptions, and removals of blobs that are there.\<close>

fun ops_hit :: "sto_op list \<Rightarrow> blobmap \<Rightarrow> bool" where
  "ops_hit [] M \<longleftrightarrow> True"
| "ops_hit (OpReceive d # ops) M \<longleftrightarrow> length d \<le> MaxBlobSize \<and> ops_hit ops (put M (SHA1FromBytes d) d)"
| "ops_hit (OpRemove brs # ops) M \<longleftrightarrow> distinct brs \<and> set brs \<subseteq> dom M \<and> ops_hit ops (M |` (- set brs))"

context sorted_kv
begin

lemma dp_run_state:
  assumes "dp_state m inv xss sw" and "ops_hit ops (map_of (lives xss))" and "weight xss + length ops * 2 ^ 25 < 2 ^ 63"
  shows "\<exists>xss' sw'. sto_run (dp_ReceiveBlob kv) (dp_RemoveBlobs kv) ops sw = Ret (replicate (length ops) None, sw') \<and>
    dp_state m inv xss' sw' \<and> map_of (lives xss') = sto_abs ops (map_of (lives xss)) \<and> small xss'"
  using assms
proof (induction ops arbitrary: xss sw)
  case (Cons op ops)
  have s: "small xss" using Cons.prems(3) by simp
  have "\<exists>xss1 sw1. dp_state m inv xss1 sw1 \<and> weight xss1 \<le> weight xss + 2 ^ 25 \<and> ops_hit ops (map_of (lives xss1)) \<and>
    sto_abs (op # ops) (map_of (lives xss)) = sto_abs ops (map_of (lives xss1)) \<and>
    sto_run (dp_ReceiveBlob kv) (dp_RemoveBlobs kv) (op # ops) sw =
      obind (sto_run (dp_ReceiveBlob kv) (dp_RemoveBlobs kv) ops sw1) (\<lambda>(errs, w). Ret (None # errs, w))"
  proof (cases op)
    case (OpReceive d)
    then obtain sw1 xss1 where "dp_ReceiveBlob kv (SHA1FromBytes d) (bytes_reader d) sw = Ret ((sized (SHA1FromBytes d) d, None, ReadToEnd), sw1)"
      "dp_state m inv xss1 sw1" "map_of (lives xss1) = put (map_of (lives xss)) (SHA1FromBytes d) d" "weight xss1 \<le> weight xss + 2 ^ 25"
      using dp_ReceiveBlob_state [OF Cons.prems(1) s refl, of d] Cons.prems(2) by auto
    then show ?thesis using OpReceive Cons.prems(2) by (intro exI [of _ xss1] exI [of _ sw1]) simp
  next
    case (OpRemove brs)
    then obtain sw1 xss1 where "dp_RemoveBlobs kv brs sw = Ret (None, sw1)" "dp_state m inv xss1 sw1"
      "map_of (lives xss1) = map_of (lives xss) |` (- set brs)" "weight xss1 = weight xss"
      using dp_RemoveBlobs_state [OF Cons.prems(1) s, of brs] Cons.prems(2) by auto
    then show ?thesis using OpRemove Cons.prems(2) by (intro exI [of _ xss1] exI [of _ sw1]) simp
  qed
  then obtain xss1 sw1 where 1: "dp_state m inv xss1 sw1" "weight xss1 \<le> weight xss + 2 ^ 25" "ops_hit ops (map_of (lives xss1))"
    "sto_abs (op # ops) (map_of (lives xss)) = sto_abs ops (map_of (lives xss1))"
    "sto_run (dp_ReceiveBlob kv) (dp_RemoveBlobs kv) (op # ops) sw =
      obind (sto_run (dp_ReceiveBlob kv) (dp_RemoveBlobs kv) ops sw1) (\<lambda>(errs, w). Ret (None # errs, w))" by blast
  have "weight xss1 + length ops * 2 ^ 25 < 2 ^ 63" using 1(2) Cons.prems(3) by simp
  from Cons.IH [OF 1(1,3) this] obtain xss' sw' where "sto_run (dp_ReceiveBlob kv) (dp_RemoveBlobs kv) ops sw1 = Ret (replicate (length ops) None, sw')"
    "dp_state m inv xss' sw'" "map_of (lives xss') = sto_abs ops (map_of (lives xss1))" "small xss'" by blast
  then show ?case unfolding 1(4,5) by (intro exI [of _ xss'] exI [of _ sw']) simp
qed (simp, blast)

end

section \<open>Opening\<close>

lemma open_packs_all:
  assumes "dp_fds s = n" and "n \<le> length (dp_packs s)" and "length (dp_packs s) < n + k"
  shows "open_packs k n s = Ret (length (dp_packs s), s\<lparr>dp_fds := length (dp_packs s)\<rparr>)"
  using assms
proof (induction k arbitrary: n s)
  case (Suc k)
  show ?case
  proof (cases "n < length (dp_packs s)")
    case True
    then have "openForRead n s = Ret (True, s\<lparr>dp_fds := n + 1\<rparr>)" using Suc.prems by (simp add: openForRead_def)
    moreover have "open_packs k (n + 1) (s\<lparr>dp_fds := n + 1\<rparr>) = Ret (length (dp_packs s), s\<lparr>dp_fds := length (dp_packs s)\<rparr>)"
      using Suc.IH [of "s\<lparr>dp_fds := n + 1\<rparr>" "n + 1"] Suc.prems True by simp
    ultimately show ?thesis by simp
  next
    case False
    then have "openForRead n s = Ret (False, s)" "n = length (dp_packs s)" using Suc.prems by (simp_all add: openForRead_def)
    then show ?thesis using Suc.prems(1) by simp
  qed
qed simp

lemma newStorage_packed:
  "\<exists>s. newStorage mx (map pack_bytes xss) = Ret s \<and> packed (if xss = [] then [[]] else xss) s"
proof -
  define s0 where "s0 = \<lparr>dp_maxFileSize = (if mx \<le> 0 then defaultMaxFileSize else mx), dp_packs = map pack_bytes xss, dp_fds = 0,
    dp_writer = None, dp_writeLock = False, dp_size = 0, dp_closed = False\<rparr>"
  have o: "open_packs (length xss + 1) 0 s0 = Ret (length xss, s0\<lparr>dp_fds := length xss\<rparr>)"
    using open_packs_all [of s0 0 "length xss + 1"] by (simp add: s0_def)
  have n: "newStorage mx (map pack_bytes xss) = openAllPacks s0" "dp_packs s0 = map pack_bytes xss" by (simp_all add: newStorage_def s0_def)
  show ?thesis
  proof (cases xss rule: rev_cases)
    case Nil
    then show ?thesis using o n(2) unfolding n(1)
      by (simp add: openAllPacks_def nextPack_def openForWrite_def openForRead_def packed_def s0_def Let_def)
  next
    case (snoc fs f)
    then show ?thesis using o n(2) unfolding n(1)
      by (simp add: openAllPacks_def openForWrite_def packed_def s0_def Let_def nth_append)
  qed
qed

section \<open>Streaming\<close>

lemma readHeader_rec:
  assumes "rec_ok x"
  shows "readHeader ioBufSize (rec_bytes x @ post) = Inr (length (rec_header x), bytes_of_string (rec_digest x), of_nat (length (rec_data x)))"
proof -
  note H = head_body_props [OF assms]
  have c: "byte_of_char CHR '']'' = 0x5D" "byte_of_char CHR '' '' = 0x20" "byte_of_char CHR ''['' = 0x5B" by (simp_all add: byte_of_char_def)
  have r: "rec_bytes x @ post = (0x5B # head_body x) @ 0x5D # rec_data x @ post" by (simp add: rec_bytes_def rec_header_body)
  have i: "index_byte (rec_bytes x @ post) 0x5D = int (length (0x5B # head_body x))"
    unfolding r by (rule index_byte_first) (use H(1) in simp)
  have "ReadSlice ioBufSize (rec_bytes x @ post) 0x5D = Inr (take (Suc (length (0x5B # head_body x))) (rec_bytes x @ post))"
    using H(2) unfolding ReadSlice_def Let_def i by (simp add: ioBufSize_def nat_add_distrib)
  then have s: "ReadSlice ioBufSize (rec_bytes x @ post) 0x5D = Inr (rec_header x)" unfolding r by (simp add: rec_header_body)
  have "0x20 \<notin> set (0x5B # bytes_of_string (rec_digest x))" 
    using rec_digest_chars(2) [OF assms] byte_in_string [of "CHR '' ''" "rec_digest x"] by (simp add: c(2))
  then have "index_byte ((0x5B # bytes_of_string (rec_digest x)) @ 0x20 # bytes_of_string (itoa (length (rec_data x))) @ [0x5D]) 0x20 = 46"
    using rec_digest_chars(1) [OF assms] by (subst index_byte_first) simp_all
  then have sp: "index_byte (rec_header x) 0x20 = 46" by (simp add: rec_header_body head_body_def)
  have "length (rec_data x) < 2 ^ 32" using rec_data_length [OF assms] by (simp add: MaxBlobSize_def)
  note u = ucast_of_small [OF this]
  have "butlast (rec_header x) = 0x5B # head_body x" by (simp add: rec_header_body butlast_append)
  then have d: "drop 47 (butlast (rec_header x)) = drop 46 (head_body x)" "take 45 (tl (rec_header x)) = bytes_of_string (rec_digest x)" "7 \<le> length (rec_header x)"
    using H(4) length_header [OF assms] rec_digest_chars(1) [OF assms] by (simp_all add: rec_header_body head_body_def)
  have e: "hd (rec_header x) = 0x5B" "last (rec_header x) = 0x5D" by (simp_all add: rec_header_body)
  show ?thesis using s sp d e H(5) u unfolding readHeader_def c Let_def by simp
qed

fun streamed :: "nat \<Rightarrow> nat \<Rightarrow> prec list \<Rightarrow> ((Ref \<times> bytes) \<times> string) list" where
  "streamed p off [] = []"
| "streamed p off (x # xs) = map (\<lambda>e. (e, itoa p @ '' '' @ itoa off)) (live x) @ streamed p (off + length (rec_bytes x)) xs"

fun stream_of :: "nat \<Rightarrow> prec list list \<Rightarrow> ((Ref \<times> bytes) \<times> string) list" where
  "stream_of p [] = []"
| "stream_of p (xs # xss) = streamed p 0 xs @ stream_of (p + 1) xss"

lemma stream_pack:
  assumes "p < length packs" and "packs ! p = pre @ pack_bytes xs" and "list_all rec_ok xs" and "\<And>n. stream_packs None packs (p + 1) 0 n = (R, None)"
  shows "stream_packs None packs p (length pre) n = (streamed p (length pre) xs @ R, None)"
  using assms(2,3)
proof (induction xs arbitrary: pre n)
  case Nil
  then show ?case using assms(1,4) by (subst stream_packs.simps) simp
next
  case (Cons x xs)
  have ok: "rec_ok x" using Cons.prems(2) by simp
  let ?rest = "rec_bytes x @ pack_bytes xs" and ?next = "length (pre @ rec_bytes x)"
  have r: "drop (length pre) (packs ! p) = ?rest" using Cons.prems(1) by simp
  have body: "drop (length (rec_header x)) ?rest = rec_data x @ pack_bytes xs" by (simp add: rec_bytes_def)
  have ne: "?rest \<noteq> []" by (simp add: rec_bytes_def rec_header_body)
  have u: "unat (of_nat (length (rec_data x)) :: u32) = length (rec_data x)" using rec_data_length [OF ok] by (simp add: unat_of_nat MaxBlobSize_def)
  have l: "length pre + length (rec_header x) + length (rec_data x) = ?next" by (simp add: rec_bytes_def)
  have IH: "stream_packs None packs p ?next k = (streamed p ?next xs @ R, None)" for k
    using Cons.prems by (intro Cons.IH) simp_all
  have eq: "stream_packs None packs p (length pre) n =
    (if deletedBlobRef (bytes_of_string (rec_digest x)) then stream_packs None packs p ?next n
     else
       let (ref, ok) = ParseBytes (bytes_of_string (rec_digest x))
       in if \<not> ok then ([], Some (ErrText ''diskpacked: Invalid blobref''))
          else
            let (bts, e) = stream_packs None packs p ?next (n + 1)
            in (((ref, rec_data x), itoa p @ '' '' @ itoa (length pre)) # bts, e))"
    using assms(1) ne by (subst stream_packs.simps) (simp only: Let_def r readHeader_rec [OF ok] sum.case prod.case body u l, simp cong: if_cong)
  show ?case
  proof (cases x)
    case (Live br d)
    have "ParseBytes (bytes_of_string (rec_digest x)) = (br, True)" using Live ok by (simp add: ParseBytes_eq_Parse Parse_String ref_canonical_wf)
    then show ?thesis unfolding eq using Live deletedBlobRef_rec [OF ok] IH by simp
  next
    case (Dead k)
    then show ?thesis unfolding eq using deletedBlobRef_rec [OF ok] IH by simp
  qed
qed

lemma stream_packs_all:
  assumes "list_all (list_all rec_ok) xss" and "p \<le> length xss"
  shows "stream_packs None (map pack_bytes xss) p 0 n = (stream_of p (drop p xss), None)"
  using assms(2)
proof (induction "length xss - p" arbitrary: p n)
  case 0
  then show ?case by (subst stream_packs.simps) simp
next
  case (Suc k)
  then have p: "p < length xss" by simp
  have "stream_packs None (map pack_bytes xss) (p + 1) 0 n = (stream_of (p + 1) (drop (p + 1) xss), None)" for n
    using Suc by (intro Suc.hyps(1)) simp_all
  from stream_pack [OF _ _ _ this, where pre = "[]" and xs = "xss ! p"] show ?case
    using p assms(1) by (simp add: list_all_length Cons_nth_drop_Suc [symmetric])
qed

text \<open>The stream from the start of a record.\<close>

lemma stream_from:
  assumes "list_all (list_all rec_ok) xss" and "xss = pa @ (ys @ zs) # pb"
  shows "stream_packs None (map pack_bytes xss) (length pa) (length (pack_bytes ys)) n =
    (streamed (length pa) (length (pack_bytes ys)) zs @ stream_of (length pa + 1) pb, None)"
proof (rule stream_pack)
  show "stream_packs None (map pack_bytes xss) (length pa + 1) 0 n = (stream_of (length pa + 1) pb, None)" for n
    using stream_packs_all [OF assms(1), of "length pa + 1"] assms(2) by simp
qed (use assms in \<open>simp_all add: nth_append\<close>)

lemma streamed_append: "streamed p off (xs @ ys) = streamed p off xs @ streamed p (off + length (pack_bytes xs)) ys"
  by (induction xs arbitrary: off) (simp_all add: add.assoc)

lemma stream_of_append: "stream_of p (xss @ yss) = stream_of p xss @ stream_of (p + length xss) yss"
  by (induction xss arbitrary: p) simp_all

lemma streamed_lives: "map fst (streamed p off xs) = concat (map live xs)"
  by (induction xs arbitrary: off) (simp_all add: comp_def)

lemma stream_lives: "map fst (stream_of p xss) = lives xss"
  by (induction xss arbitrary: p) (simp_all add: streamed_lives)

lemma streamed_at:
  assumes "k < length (streamed p off xs)"
  obtains ys zs where "xs = ys @ zs" and "snd (streamed p off xs ! k) = itoa p @ '' '' @ itoa (off + length (pack_bytes ys))"
    and "drop k (streamed p off xs) = streamed p (off + length (pack_bytes ys)) zs"
  using assms
proof (induction xs arbitrary: off k thesis)
  case (Cons x xs)
  show ?case
  proof (cases x)
    case (Live r d)
    show ?thesis
    proof (cases k)
      case 0
      then show ?thesis using Live by (intro Cons.prems(1) [of "[]" "x # xs"]) simp_all
    next
      case (Suc j)
      then have "j < length (streamed p (off + length (rec_bytes x)) xs)" using Cons.prems(2) Live by simp
      from Cons.IH [OF _ this] obtain ys zs where "xs = ys @ zs"
        "snd (streamed p (off + length (rec_bytes x)) xs ! j) = itoa p @ '' '' @ itoa (off + length (rec_bytes x) + length (pack_bytes ys))"
        "drop j (streamed p (off + length (rec_bytes x)) xs) = streamed p (off + length (rec_bytes x) + length (pack_bytes ys)) zs" by blast
      then show ?thesis using Live Suc by (intro Cons.prems(1) [of "x # ys" zs]) (simp_all add: add.assoc)
    qed
  next
    case (Dead j)
    then have "k < length (streamed p (off + length (rec_bytes x)) xs)" using Cons.prems(2) by simp
    from Cons.IH [OF _ this] obtain ys zs where "xs = ys @ zs"
      "snd (streamed p (off + length (rec_bytes x)) xs ! k) = itoa p @ '' '' @ itoa (off + length (rec_bytes x) + length (pack_bytes ys))"
      "drop k (streamed p (off + length (rec_bytes x)) xs) = streamed p (off + length (rec_bytes x) + length (pack_bytes ys)) zs" by blast
    then show ?thesis using Dead by (intro Cons.prems(1) [of "x # ys" zs]) (simp_all add: add.assoc)
  qed
qed simp

lemma stream_of_at:
  assumes "k < length (stream_of p xss)"
  obtains pa ys zs pb where "xss = pa @ (ys @ zs) # pb" and "snd (stream_of p xss ! k) = itoa (p + length pa) @ '' '' @ itoa (length (pack_bytes ys))"
    and "drop k (stream_of p xss) = streamed (p + length pa) (length (pack_bytes ys)) zs @ stream_of (p + length pa + 1) pb"
  using assms
proof (induction xss arbitrary: p k thesis)
  case (Cons xs xss)
  show ?case
  proof (cases "k < length (streamed p 0 xs)")
    case True
    then obtain ys zs where "xs = ys @ zs" "snd (streamed p 0 xs ! k) = itoa p @ '' '' @ itoa (0 + length (pack_bytes ys))"
      "drop k (streamed p 0 xs) = streamed p (0 + length (pack_bytes ys)) zs" by (rule streamed_at)
    then show ?thesis using True by (intro Cons.prems(1) [of "[]" ys zs xss]) (simp_all add: nth_append)
  next
    case False
    let ?j = "k - length (streamed p 0 xs)"
    have "?j < length (stream_of (p + 1) xss)" using Cons.prems(2) False by simp
    from Cons.IH [OF _ this] obtain pa ys zs pb where "xss = pa @ (ys @ zs) # pb"
      "snd (stream_of (p + 1) xss ! ?j) = itoa (p + 1 + length pa) @ '' '' @ itoa (length (pack_bytes ys))"
      "drop ?j (stream_of (p + 1) xss) = streamed (p + 1 + length pa) (length (pack_bytes ys)) zs @ stream_of (p + 1 + length pa + 1) pb" by blast
    then show ?thesis using False by (intro Cons.prems(1) [of "xs # pa" ys zs pb]) (simp_all add: nth_append)
  qed
qed simp

lemma parseContToken_itoa:
  assumes "p < 2 ^ 63" and "off < 2 ^ 63"
  shows "parseContToken (itoa p @ '' '' @ itoa off) = Some (int p, int off)"
  using scan_int_itoa(2) [OF assms(1), of "CHR '' '' # itoa off"] scan_int_itoa(1) [OF assms(2), of "[]"] by (simp add: parseContToken_def)

lemma dp_StreamBlobs_packed:
  assumes "packed xss s" and "list_all (list_all rec_ok) xss" and "small xss"
  shows "dp_StreamBlobs s None [] = (stream_of 0 xss, None)"
    and "k < length (stream_of 0 xss) \<Longrightarrow> dp_StreamBlobs s None (snd (stream_of 0 xss ! k)) = (drop k (stream_of 0 xss), None)"
proof -
  have s: "dp_packs s = map pack_bytes xss" "xss \<noteq> []" using assms(1) by (simp_all add: packed_def)
  show "dp_StreamBlobs s None [] = (stream_of 0 xss, None)"
    using s stream_packs_all [OF assms(2), of 0] by (simp add: dp_StreamBlobs_def parseContToken_def)
  assume "k < length (stream_of 0 xss)"
  then obtain pa ys zs pb where x: "xss = pa @ (ys @ zs) # pb" "snd (stream_of 0 xss ! k) = itoa (0 + length pa) @ '' '' @ itoa (length (pack_bytes ys))"
    "drop k (stream_of 0 xss) = streamed (0 + length pa) (length (pack_bytes ys)) zs @ stream_of (0 + length pa + 1) pb" by (rule stream_of_at)
  have "length pa + length (pack_bytes ys) < 2 ^ 63" using assms(3) by (simp add: x(1) weight_def)
  then have "parseContToken (snd (stream_of 0 xss ! k)) = Some (int (length pa), int (length (pack_bytes ys)))"
    unfolding x(2) using parseContToken_itoa [of "length pa" "length (pack_bytes ys)"] by simp
  then show "dp_StreamBlobs s None (snd (stream_of 0 xss ! k)) = (drop k (stream_of 0 xss), None)"
    using stream_from [OF assms(2) x(1)] s(1) x(1,3) by (simp add: dp_StreamBlobs_def)
qed

section \<open>What goes wrong\<close>

text \<open>
  If the row cannot be set after the storage has gone on to the next pack, it is that pack that is cut or filled to where the blob began in
  the full one: it then holds zeros, and the blob without a row stays where it is.
\<close>

lemma failed_row_spoils_the_next_pack:
  assumes "packed xss s" and "rec_ok (Live br d)" and "\<And>k v w. kv_Set index k v w = (Some e, w)"
    and "dp_maxFileSize s < int (length (pack_bytes (last xss @ [Live br d])))"
  shows "\<exists>s'. dp_append index (sized br d) d (s, w) = Ret (Some e, s', w) \<and>
    dp_packs s' = map pack_bytes (grow xss (Live br d)) @ [replicate (length (pack_bytes (last xss))) 0]"
proof -
  obtain s1 where s1: "packed (grow xss (Live br d) @ [[]]) s1" "dp_append index (sized br d) d (s, w) = Ret (Some e, undo_append (dp_size s) s1, w)"
    using dp_append_writes [OF assms(1,2), of index w] assms(3,4) by auto
  have "dp_size s = int (length (pack_bytes (last xss)))" using assms(1) by (simp add: packed_def)
  then show ?thesis using s1 by (simp add: undo_append_def packed_def truncate_file_def nth_append list_update_append)
qed

text \<open>
  Removing a blob that is not there is an error, which the interface excludes; and over a memory index, whose batch then fails too, the blobs of
  the same call keep their rows after losing their data.
\<close>

context sorted_kv
begin

lemma dp_delete_absent: "inv w \<Longrightarrow> m w (ref_String br) = None \<Longrightarrow> dp_delete kv br (s, w) = (Some ErrNotExist, s, w)"
  by (simp add: dp_delete_def dp_meta_absent)

text \<open>The sum of offset and length overflows in \<open>SubFetch\<close>: asked for the largest length, it delivers nothing instead of the rest of the blob.\<close>

lemma SubFetch_overflow:
  assumes "dp_state m inv xss sw" and "small xss" and "map_of (lives xss) br = Some d" and "1 \<le> length d"
  shows "dp_SubFetch kv br 1 (2 ^ 63 - 1) sw = Ret (Some (bytes_reader []), None)"
proof -
  have "ref_wf br" using lives_ok [OF _ map_of_SomeD [OF assms(3)]] assms(1) unfolding dp_state_def by blast
  with assms(1,2) show ?thesis
  proof (cases rule: dp_meta_cases)
    case (present pa ys d' zs pb)
    then have d: "d' = d" using assms(3) by simp
    let ?off = "length (pack_bytes ys) + length (rec_header (Live br d))"
    note L = located_file [OF assms(1,2) present(2,3), unfolded d]
    have o: "bm_offset (located (length pa) ?off d) = int ?off" by (simp add: located_def)
    have "?off + 1 < 2 ^ 63" using assms(2,4) present(2) d by (simp add: weight_def rec_bytes_def)
    then have a: "wrap64 (int ?off + 1) = int ?off + 1" "int ?off + 1 < 2 ^ 63"
      using wrap64_of_nat [of "?off + 1"] of_nat_less_iff [of "?off + 1" "2 ^ 63", where 'a = int] by (simp_all add: add.commute)
    have neg: "wrap64 (1 + (2 ^ 63 - 1)) = - (2 ^ 63)" by code_simp
    have "wrap64 (int ?off + 1 + (2 ^ 63 - 1)) = wrap64 (int ?off + 1 + (2 ^ 63 - 1) - 2 ^ 64)"
      by (rule wrap64_minus [symmetric])
    also have "\<dots> = int ?off + 1 + (2 ^ 63 - 1) - 2 ^ 64" using a(2) by (intro wrap64_small) simp_all
    finally have lim: "wrap64 (int ?off + 1 + (2 ^ 63 - 1)) \<le> int ?off + 1" by simp
    have s: "pack_section False (dp_packs (fst sw) ! length pa) (wrap64 (int ?off + 1)) (2 ^ 63 - 1) = bytes_reader []"
      using lim by (simp only: a(1) pack_section_def Let_def if_True)
    have "\<not> (1 > int (length d))" "\<not> wrap64 (1 + (2 ^ 63 - 1)) > int (length d)" using assms(4) by (simp_all only: neg) simp_all
    then show ?thesis using present(4) L(1-4,8,10) s unfolding d
      by (simp only: dp_SubFetch_def dp_fetch_def o if_False) (simp add: dp_fetch_def o Let_def)
  qed (use assms(3) in simp)
qed

end

section \<open>The storage over a memory index\<close>

abbreviation dp_ops :: "sto_op list \<Rightarrow> dpsto \<times> memdb \<Rightarrow> (goerr option list \<times> dpsto \<times> memdb) outcome" where
  "dp_ops \<equiv> sto_run (dp_ReceiveBlob memKeys) (dp_RemoveBlobs memKeys)"

text \<open>The storage after some operations on a new one.\<close>

lemma dp_run_new:
  assumes "ops_hit ops Map.empty" and "length ops < 2 ^ 37"
  obtains s0 xss s w where "newStorage mx [] = Ret s0" and "dp_ops ops (s0, []) = Ret (replicate (length ops) None, s, w)"
    and "dp_state map_of mk_inv xss (s, w)" and "map_of (lives xss) = sto_abs ops Map.empty" and "small xss"
proof -
  obtain s0 where s0: "newStorage mx [] = Ret s0" "packed [[]] s0" using newStorage_packed [of mx "[]"] by auto
  then have "dp_state map_of mk_inv [[]] (s0, [])" by (simp add: dp_state_def mk_inv_def)
  moreover have "weight [[]] + length ops * 2 ^ 25 < 2 ^ 63" using assms(2) by (simp add: weight_def)
  ultimately obtain xss sw where "dp_ops ops (s0, []) = Ret (replicate (length ops) None, sw)" "dp_state map_of mk_inv xss sw"
    "map_of (lives xss) = sto_abs ops Map.empty" "small xss" using mem.dp_run_state [of "[[]]" "(s0, [])" ops] assms(1) by auto
  then show thesis using that s0(1) by (cases sw) blast
qed







end
