(* ===== verification/Spec2Isabelle.thy ===== *)
theory Spec2Isabelle
  imports BlobRef Blob SortedBuffer Lru RollSum Strutil Enumerate MemStorage Shard Replica JsonEval Namespace ProxyCache Cond MultiStream SearchExpr DirReader Gc Archiver PackFiles
begin

text \<open>
  \<^bold>\<open>Camlistore\<close> is a content-addressed storage system.  A \<^emph>\<open>blob\<close> is a sequence of at most 16 MB, named by its \<^emph>\<open>reference\<close>, the digest of its
  contents.  Storages keep blobs; they are composed (shards, replicas, namespaces, caches, conditional storages) into other storages with the
  same interface.  On top of them, \<^emph>\<open>schema blobs\<close> are JSON objects that describe files, directories, permanodes and claims; a file is cut
  into chunks at the boundaries of a rolling checksum and stored as a tree of blobs.  A search expression is turned into a constraint over the indexed
  blobs, and the whole server is assembled from a configuration file that names storages and handlers.

  This development models the packages under \<open>src/pkg\<close> that hold this logic and proves what they promise.  The properties are the theorems
  marked C1 to C40 in the theories below.

  \<^bold>\<open>How Go is modelled.\<close>  A call returns an \<open>outcome\<close> (theory \<open>Prelude\<close>): it returns a value, panics, or never comes back (an endless loop or a blocked
  channel).  An \<open>error\<close> is a value of type \<open>goerr\<close>, nil is \<open>None\<close>, and every early return and panic of the source is a branch.  Go strings are byte strings
  (type \<open>string\<close>, whose characters are bytes), \<open>[]byte\<close> is \<open>bytes\<close>, fixed-width integers are words where their wrap-around can matter
  and \<open>int\<close> otherwise.  An object is modelled by its methods acting on a world of any type; a storage is a record of such functions
  (\<open>Storage\<close>), so that composed storages share one world and call each other through it.  A \<open>reader\<close> is the data it still delivers and the error at its end.
  Goroutines and channels are modelled by the lists of values that are sent.  Where the order of goroutines can be observed it is a parameter
  (shards, replicas), and elsewhere a goroutine runs to its end where it is started (uploads of the file writer, loads of directory entries,
  background work of the proxy cache).  A goroutine that would stay blocked makes the call \<open>Hang\<close>.

  \<^bold>\<open>References and blobs.\<close>  \<open>BlobRef\<close> models \<open>pkg/blob/ref.go\<close>: digests, textual, JSON and binary forms, parsing, order; \<open>Sha1\<close> is the hash function of the
  standard library, in full.  \<open>Blob\<close> models \<open>blob.go\<close>, \<open>fetcher.go\<close> and \<open>chanpeek.go\<close>.  Shown are that parsing and printing are inverse on exactly the
  accepted strings, that the order of references is that of their texts, and the JSON and binary round trips.

  \<^bold>\<open>Helper packages.\<close>  \<open>SortedKV\<close> (\<open>pkg/sorted\<close>) and \<open>SortedBuffer\<close> (\<open>pkg/sorted/buffer\<close>) are the key/value stores: the locale \<open>sorted_kv\<close> is the
  interface, interpreted on the memory store, and the buffering store over any two of them (locale \<open>kv_pair\<close>) refines one map.  \<open>Lru\<close> (\<open>pkg/lru\<close>) refines
  a list in order of recency, with the linked list and the map explicit.  \<open>RollSum\<close> (\<open>pkg/rollsum\<close>) has the machine arithmetic and its closed
  form; \<open>Strutil\<close> (\<open>pkg/strutil\<close>) splitting and the parsing of numbers with its overflow tests.  \<open>Utf8\<close>, \<open>Json\<close> and \<open>GoTime\<close> model what the code
  uses of the standard library: runes, the indented printing and the decoding of JSON with its round trip, calendar dates and RFC 3339
  (with \<open>Time3339\<close> of \<open>pkg/types\<close>).

  \<^bold>\<open>Storages.\<close>  \<open>BlobServer\<close> has the interface (\<open>interface.go\<close>), checked reception (\<open>receive.go\<close>), the hub and the storage that implements nothing; its
  locale \<open>stores\<close> is the contract of a family of storages in one world.  \<open>MemStorage\<close> (\<open>pkg/blobserver/memory\<close>) interprets it and adds
  the bounded cache.  \<open>Enumerate\<close> (\<open>mergedenum.go\<close>, \<open>enumerate.go\<close>, \<open>sync.go\<close>) merges, batches and compares sorted enumerations.  \<open>BlobStore\<close> states the
  contract of the composed storages as the locale \<open>blob_store\<close>: any sequence of receptions and removals acts on one map, and the readers answer as
  that map does.  \<open>Shard\<close>, \<open>Replica\<close> and \<open>Namespace\<close> interpret it over memory storages; \<open>Replica\<close> also counts the acknowledgements of a write.
  \<open>ProxyCache\<close>, \<open>Cond\<close> and \<open>MultiStream\<close> model the storages and streams of those names.  \<open>Archiver\<close> (\<open>pkg/blobserver/archiver\<close>) packs blobs into an archive and deletes
  them; \<open>Gc\<close> (\<open>pkg/gc\<close>) is the generic mark and sweep collector.  \<open>DiskPacked\<close> (\<open>pkg/blobserver/diskpacked\<close>) has pack files as lists of bytes,
  with the rows of their index as texts; \<open>PackFiles\<close> describes a pack as a list of live and crossed-out records and shows that bytes, rows and records agree under
  every operation, over any index that satisfies \<open>sorted_kv\<close> (C6), that the packs alone are enough to rebuild the index (C7) and that streams resume (C8).

  \<^bold>\<open>Schema blobs and files.\<close>  \<open>Schema\<close> has the builders, the decoder and the accessors of \<open>pkg/schema/schema.go\<close> and \<open>blob.go\<close>; \<open>SchemaText\<close> shows that what a builder
  prints is what the decoder reads, for files and claims.  \<open>FileReader\<close> (\<open>filereader.go\<close>) reads a tree of blobs at an offset, through its two caches, over
  any fetcher that satisfies the locale \<open>fetches\<close>; every storage does, by a \<open>sublocale\<close> of \<open>stores\<close>.  \<open>FileWriter\<close> (\<open>filewriter.go\<close>) cuts
  and uploads, and C1 composes it with the reader, the JSON text, the rolling checksum and the memory storage: what was written is read
  back at any offset.  \<open>DirReader\<close> (\<open>dirreader.go\<close>) does the same for directories.

  \<^bold>\<open>Configuration and search.\<close>  \<open>JsonConfig\<close> and \<open>JsonEval\<close> (\<open>pkg/jsonconfig\<close>) are the typed accessors with their validation and the expansion of
  expressions and includes.  \<open>Lexer\<close> and \<open>SearchExpr\<close> (\<open>pkg/search/lexer.go\<close>, \<open>expr.go\<close>, and the logical part of \<open>query.go\<close>) take a search
  expression to a constraint and its matcher; printing an expression and parsing it gives its boolean meaning.

  \<^bold>\<open>Bounds and fuel.\<close>  Loops are total functions wherever the code's loop ends.  The others carry a bound: \<open>EnumerateAllFrom\<close> counts batches (more than the
  number of blobs is enough, as C5 and \<open>EnumerateAllFrom_visits\<close> show); \<open>lex\<close> counts states (8 for every byte and 5 more close the channel,
  \<open>lex_closes\<close>) and the parser the calls (C24); \<open>rd_json\<close> takes twice the length of the text, more than any value can nest, and always has it;
  \<open>ReadAt\<close> and \<open>foreachChunk\<close> bound the depth of a tree of schema blobs (C1 holds for every bound above the depth of the tree that was written);
  \<open>markItem\<close> the depth of the recursion (more than the number of reachable items plus one is enough, C4).  With too little fuel the result is \<open>Hang\<close> or
  \<open>None\<close>, so that a theorem which gives a result shows that the bound was enough.  C6 to C8 allow 2 ^ 37 operations, which keeps every offset in a pack below 2 ^ 63.

  \<^bold>\<open>Assumptions.\<close>  SHA-1 is defined, not assumed.  Where contents are found again by their digest, the theorem assumes that the blobs it is about do not
  collide (C1, C15) and no more.  Code that is not under \<open>src\<close> or only configured enters as an argument: the vendored skip list by the documented
  behaviour of its four operations, \<open>Loader.GetStorage\<close>, the registered search keywords, environment variables, the bytes of a zip archive, the
  world of the collector.

  \<^bold>\<open>Deviations.\<close>  Where the code does not do what it says, the theorem states what it does: C36 and C37 (enumerations that never return), C38 (a quorum that cannot be
  reached), C39 (a proxy that never asks its origin), C40 (white space after \<open>or\<close>), C16 (directory reads that start over), and lemmas of
  \<open>SchemaText\<close>, \<open>FileReader\<close>, \<open>DirReader\<close>, \<open>Gc\<close>, \<open>PackFiles\<close>, \<open>Lexer\<close>, \<open>JsonConfig\<close>, \<open>JsonEval\<close>, \<open>RollSum\<close> and \<open>SortedBuffer\<close>.

  \<^bold>\<open>Not modelled.\<close>  The index, its corpus and the query planner over them (\<open>pkg/index\<close>, most of \<open>pkg/search\<close>): their state is a denormalisation of all schema blobs and would need
  the signature verification first.  Signing and encryption (\<open>pkg/jsonsign\<close>, \<open>pkg/blobserver/encrypt\<close>): the cryptography of libraries.  The other storages on disks and networks (\<open>blobpacked\<close>, \<open>localdisk\<close>, \<open>s3\<close> and others), the
  other key/value stores, the HTTP handlers, the client, the FUSE file systems and the importers: their behaviour is that of the operating system or of a service.
  Images and media: decoders of formats.  Commands, deployment, build tools and the web interface: glue around the packages.
\<close>

end
